(* ===== verification/Prelude.thy ===== *)
theory Prelude
  imports Main "HOL-Library.Word"
begin

unbundle bit_operations_syntax

text \<open>
  Shared vocabulary of the development: machine integers, the result type of kernel
  code, the loop combinators that C's \<^verbatim>\<open>for\<close> loops over tables become, little-endian
  access to byte arrays, and the generic lemmas the component theories use.
\<close>

section \<open>Machine integers\<close>

type_synonym u8 = "8 word"
type_synonym u16 = "16 word"
type_synonym u32 = "32 word"
type_synonym u64 = "64 word"

named_theorems kernel_simps \<open>evaluation of kernel primitives on well-formed states\<close>
named_theorems frame_simps \<open>fields and updates that a primitive leaves alone\<close>

section \<open>Results of kernel code\<close>

text \<open>
  A kernel function takes the state and ends in one of four ways.  \<open>Ok a s\<close>: it returns
  \<open>a\<close> and the state is \<open>s\<close>.  \<open>Panic m\<close>: it called \<^verbatim>\<open>panic(m)\<close>, which never returns.
  \<open>Fault m\<close>: it performed an operation that C leaves undefined (an index outside an
  array, a null pointer).  \<open>Blocked w s\<close>: it cannot go on by itself; \<open>w\<close> says what it
  waits for (a sleep channel, a spin lock of another CPU, a device) and \<open>s\<close> is the state
  in which it gave way.
\<close>

datatype ('w, 'a, 's) kres = Ok 'a 's | Panic string | Fault string | Blocked 'w 's

fun kbind :: "('w, 'a, 's) kres \<Rightarrow> ('a \<Rightarrow> 's \<Rightarrow> ('w, 'b, 's) kres) \<Rightarrow> ('w, 'b, 's) kres" where
  "kbind (Ok a s) f = f a s"
| "kbind (Panic m) f = Panic m"
| "kbind (Fault m) f = Fault m"
| "kbind (Blocked w s) f = Blocked w s"

text \<open>The statement sequence \<^verbatim>\<open>m; f\<close> whose first part returns nothing of interest.\<close>

definition kthen :: "('w, 'a, 's) kres \<Rightarrow> ('s \<Rightarrow> ('w, 'b, 's) kres) \<Rightarrow> ('w, 'b, 's) kres" where
  "kthen m f = kbind m (\<lambda>_. f)"

lemma kthen_simps [simp]:
  "kthen (Ok a s) g = g s"
  "kthen (Panic m) g = Panic m"
  "kthen (Fault m) g = Fault m"
  "kthen (Blocked w s) g = Blocked w s"
  by (simp_all add: kthen_def)

lemma kbind_cong [fundef_cong]:
  "m = m' \<Longrightarrow> (\<And>a s. m' = Ok a s \<Longrightarrow> f a s = f' a s) \<Longrightarrow> kbind m f = kbind m' f'"
  by (cases m') auto

lemma kthen_cong [fundef_cong]:
  "m = m' \<Longrightarrow> (\<And>a s. m' = Ok a s \<Longrightarrow> g s = g' s) \<Longrightarrow> kthen m g = kthen m' g'"
  unfolding kthen_def by (rule kbind_cong)

lemma kbind_eq_Ok:
  "kbind m f = Ok b t \<longleftrightarrow> (\<exists>a s. m = Ok a s \<and> f a s = Ok b t)"
  by (cases m) auto

lemma kthen_eq_Ok:
  "kthen m g = Ok b t \<longleftrightarrow> (\<exists>a s. m = Ok a s \<and> g s = Ok b t)"
  by (cases m) auto

lemma kbind_assoc: "kbind (kbind m f) g = kbind m (\<lambda>a s. kbind (f a s) g)"
  by (cases m) auto

lemma kbind_kthen: "kbind (kthen m f) g = kthen m (\<lambda>s. kbind (f s) g)"
  by (cases m) auto

lemma kthen_kthen: "kthen (kthen m f) g = kthen m (\<lambda>s. kthen (f s) g)"
  by (cases m) auto

section \<open>Results of user programs\<close>

text \<open>
  Code of the user-level shell fails only by a violated \<^verbatim>\<open>assert\<close> or by not
  returning; its results are sums with the failure on the left.
\<close>

primrec sbind :: "'e + 'a \<Rightarrow> ('a \<Rightarrow> 'e + 'b) \<Rightarrow> 'e + 'b" where
  "sbind (Inl e) f = Inl e"
| "sbind (Inr a) f = f a"

lemma sbind_cong [fundef_cong]:
  "m = m' \<Longrightarrow> (\<And>a. m' = Inr a \<Longrightarrow> f a = f' a) \<Longrightarrow> sbind m f = sbind m' f'"
  by (cases m') auto

lemma sbind_eq_Inr: "sbind m f = Inr b \<longleftrightarrow> (\<exists>a. m = Inr a \<and> f a = Inr b)"
  by (cases m) auto

section \<open>Loops over tables\<close>

text \<open>
  \<open>kfor body xs s\<close> runs \<open>body\<close> for each element of \<open>xs\<close> in order.  \<open>kscan\<close> is the loop
  with an early exit: the first body that answers \<open>Some r\<close> ends it.
\<close>

primrec kfor :: "('i \<Rightarrow> 's \<Rightarrow> ('w, 'a, 's) kres) \<Rightarrow> 'i list \<Rightarrow> 's \<Rightarrow> ('w, unit, 's) kres" where
  "kfor body [] s = Ok () s"
| "kfor body (x # xs) s = kthen (body x s) (\<lambda>s. kfor body xs s)"

primrec kscan :: "('i \<Rightarrow> 's \<Rightarrow> ('w, 'r option, 's) kres) \<Rightarrow> 'i list \<Rightarrow> 's \<Rightarrow> ('w, 'r option, 's) kres" where
  "kscan body [] s = Ok None s"
| "kscan body (x # xs) s =
     kbind (body x s) (\<lambda>r s. case r of None \<Rightarrow> kscan body xs s | Some v \<Rightarrow> Ok (Some v) s)"

lemma kfor_pure:
  "(\<And>x s. x \<in> set xs \<Longrightarrow> P s \<Longrightarrow> body x s = Ok (u x s) (f x s) \<and> P (f x s)) \<Longrightarrow> P s \<Longrightarrow>
   kfor body xs s = Ok () (fold f xs s) \<and> P (fold f xs s)"
  by (induction xs arbitrary: s) auto

lemma kfor_append: "kfor body (xs @ ys) s = kthen (kfor body xs s) (\<lambda>s. kfor body ys s)"
  by (induction xs arbitrary: s) (auto simp: kthen_kthen)

text \<open>A scan whose body only looks until the first hit is a \<open>find\<close>.\<close>

lemma kscan_find:
  assumes "\<And>x. x \<in> set xs \<Longrightarrow> \<not> P x \<Longrightarrow> body x s = Ok None s"
    and "\<And>x. x \<in> set xs \<Longrightarrow> P x \<Longrightarrow> \<exists>v t. body x s = Ok (Some v) t"
  shows "kscan body xs s = (case find P xs of None \<Rightarrow> Ok None s | Some x \<Rightarrow> body x s)"
  using assms
proof (induction xs)
  case Nil
  then show ?case by simp
next
  case (Cons x xs)
  show ?case
  proof (cases "P x")
    case True
    with Cons.prems(2) [of x] obtain v t where "body x s = Ok (Some v) t" by auto
    with True show ?thesis by simp
  next
    case False
    with Cons show ?thesis by simp
  qed
qed

section \<open>Little-endian access to byte arrays\<close>

text \<open>
  A block of bytes is a function from offsets.  The kernel runs on RISC-V, which is
  little-endian; \<open>ld32 d k\<close> is what reading a \<^verbatim>\<open>uint\<close> at offset \<open>k\<close> of \<open>d\<close> gives.
\<close>

type_synonym bytes = "nat \<Rightarrow> u8"

definition ld16 :: "bytes \<Rightarrow> nat \<Rightarrow> u16" where
  "ld16 d k = ucast (d k) OR push_bit 8 (ucast (d (k + 1)))"

definition st16 :: "bytes \<Rightarrow> nat \<Rightarrow> u16 \<Rightarrow> bytes" where
  "st16 d k v = d(k := ucast v, k + 1 := ucast (drop_bit 8 v))"

definition ld32 :: "bytes \<Rightarrow> nat \<Rightarrow> u32" where
  "ld32 d k = ucast (d k) OR push_bit 8 (ucast (d (k + 1)))
     OR push_bit 16 (ucast (d (k + 2))) OR push_bit 24 (ucast (d (k + 3)))"

definition st32 :: "bytes \<Rightarrow> nat \<Rightarrow> u32 \<Rightarrow> bytes" where
  "st32 d k v = d(k := ucast v, k + 1 := ucast (drop_bit 8 v),
     k + 2 := ucast (drop_bit 16 v), k + 3 := ucast (drop_bit 24 v))"

definition ld64 :: "bytes \<Rightarrow> nat \<Rightarrow> u64" where
  "ld64 d k = ucast (ld32 d k) OR push_bit 32 (ucast (ld32 d (k + 4)))"

definition st64 :: "bytes \<Rightarrow> nat \<Rightarrow> u64 \<Rightarrow> bytes" where
  "st64 d k v = st32 (st32 d k (ucast v)) (k + 4) (ucast (drop_bit 32 v))"

lemma ld16_st16 [simp]: "ld16 (st16 d k v) k = v"
  by (rule bit_word_eqI) (auto simp: ld16_def st16_def bit_simps)

lemma ld32_st32 [simp]: "ld32 (st32 d k v) k = v"
proof (rule bit_word_eqI)
  fix n assume n: "n < LENGTH(32)"
  consider "n < 8" | "8 \<le> n \<and> n < 16" | "16 \<le> n \<and> n < 24" | "24 \<le> n" by linarith
  then show "bit (ld32 (st32 d k v) k) n \<longleftrightarrow> bit v n"
    using n by cases (auto simp: ld32_def st32_def bit_simps)
qed

lemma ld16_st16_other [simp]:
  "j + 2 \<le> k \<or> k + 2 \<le> j \<Longrightarrow> ld16 (st16 d k v) j = ld16 d j"
  by (auto simp: ld16_def st16_def)

lemma ld32_st32_other [simp]:
  "j + 4 \<le> k \<or> k + 4 \<le> j \<Longrightarrow> ld32 (st32 d k v) j = ld32 d j"
  by (auto simp: ld32_def st32_def)

lemma ld16_st32_other [simp]:
  "j + 2 \<le> k \<or> k + 4 \<le> j \<Longrightarrow> ld16 (st32 d k v) j = ld16 d j"
  by (auto simp: ld16_def st32_def)

lemma ld32_st16_other [simp]:
  "j + 4 \<le> k \<or> k + 2 \<le> j \<Longrightarrow> ld32 (st16 d k v) j = ld32 d j"
  by (auto simp: ld32_def st16_def)

lemma ld64_st64 [simp]: "ld64 (st64 d k v) k = v"
proof (rule bit_word_eqI)
  fix n assume n: "n < LENGTH(64)"
  show "bit (ld64 (st64 d k v) k) n \<longleftrightarrow> bit v n"
    using n by (cases "n < 32") (auto simp: ld64_def st64_def bit_simps)
qed

text \<open>\<open>splice d k n src\<close>: \<open>n\<close> bytes of \<open>src\<close> copied over \<open>d\<close> from offset \<open>k\<close>.\<close>

definition splice :: "bytes \<Rightarrow> nat \<Rightarrow> nat \<Rightarrow> bytes \<Rightarrow> bytes" where
  "splice d k n src = (\<lambda>i. if k \<le> i \<and> i < k + n then src (i - k) else d i)"

lemma splice_zero [simp]: "splice d k 0 src = d"
  by (auto simp: splice_def fun_eq_iff)

lemma splice_inside [simp]: "i < n \<Longrightarrow> splice d k n src (k + i) = src i"
  by (simp add: splice_def)

lemma splice_outside [simp]: "i < k \<or> k + n \<le> i \<Longrightarrow> splice d k n src i = d i"
  by (auto simp: splice_def)

section \<open>Maps and lists\<close>

lemma find_upt_Some:
  "find P [0..<n] = Some i \<longleftrightarrow> i < n \<and> P i \<and> (\<forall>j < i. \<not> P j)"
  by (subst find_Some_iff) (auto simp: nth_upt)

lemma find_upt_None: "find P [0..<n] = None \<longleftrightarrow> (\<forall>i < n. \<not> P i)"
  by (auto simp: find_None_iff)

end
