(* ===== verification/Command.thy ===== *)
theory Command
  imports Prelude
begin

text \<open>
  Lab 1's abstract data types, \<^verbatim>\<open>src/lab1/command.c\<close>: the simple command
  (\<^verbatim>\<open>scommand\<close>) and the pipeline of commands, with the string helper of
  \<^verbatim>\<open>strextra.c\<close>.  Both types keep their elements in a GLib \<^verbatim>\<open>GQueue\<close>.  GLib is not
  part of the repository, so its operations are a parameter of every definition here and
  the locale \<open>gqueue\<close> states their documentation; the contract the types offer to their
  clients is the locale \<open>fifo\<close>.

  A pointer to a structure is an \<open>option\<close>, \<open>None\<close> being \<^verbatim>\<open>NULL\<close>.  A violated
  \<^verbatim>\<open>assert\<close> is the result \<open>Inl AssertFailed\<close>; \<open>Inl Undefined\<close> is an operation C gives no
  meaning to, \<open>Inl NoReturn\<close> a loop that does not end.  Releasing memory has no effect on values and
  is not modelled; nor is a failing \<^verbatim>\<open>malloc\<close>.
\<close>

section \<open>Strings: strextra.c\<close>

datatype abort = AssertFailed | NoReturn | Undefined

abbreviation NUL :: char where "NUL \<equiv> CHR 0x00"

text \<open>A C string in a buffer is what stands before the first NUL.\<close>

definition cstr :: "string \<Rightarrow> string" where
  "cstr buf = takeWhile (\<lambda>c. c \<noteq> NUL) buf"

definition calloc :: "nat \<Rightarrow> string" where
  "calloc n = replicate n NUL"

text \<open>The C library's \<^verbatim>\<open>strncpy\<close> and \<^verbatim>\<open>strncat\<close> on buffers.\<close>

definition c_strncpy :: "string \<Rightarrow> string \<Rightarrow> nat \<Rightarrow> string" where
  "c_strncpy dst src n = take n (cstr src @ replicate n NUL) @ drop n dst"

definition c_strncat :: "string \<Rightarrow> string \<Rightarrow> nat \<Rightarrow> string" where
  "c_strncat dst src n =
     (let k = length (cstr dst); piece = take n (cstr src) @ [NUL]
      in take k dst @ piece @ drop (k + length piece) dst)"

definition strmerge :: "string \<Rightarrow> string \<Rightarrow> abort + string" where
  "strmerge s1 s2 =
     (let len_s1 = length (cstr s1); len_s2 = length (cstr s2);
          merge = calloc (len_s1 + len_s2 + 1);
          merge = c_strncpy merge s1 len_s1;
          merge = c_strncat merge s2 len_s2
      in if length (cstr merge) = length (cstr s1) + length (cstr s2)
         then Inr (cstr merge) else Inl AssertFailed)"

definition cstring :: "string \<Rightarrow> bool" where
  "cstring s \<longleftrightarrow> NUL \<notin> set s"

lemma cstr_id [simp]: "cstring s \<Longrightarrow> cstr s = s"
  by (auto simp: cstr_def cstring_def takeWhile_eq_all_conv)

lemma cstr_append_NUL [simp]: "cstring s \<Longrightarrow> cstr (s @ NUL # t) = s"
  by (induction s) (auto simp: cstr_def cstring_def)

lemma cstring_simps [simp]:
  "cstring []" "cstring (s @ t) \<longleftrightarrow> cstring s \<and> cstring t"
  "cstring (c # s) \<longleftrightarrow> c \<noteq> NUL \<and> cstring s"
  by (auto simp: cstring_def)

lemma strmerge_append:
  assumes "cstring s1" and "cstring s2"
  shows "strmerge s1 s2 = Inr (s1 @ s2)"
proof -
  let ?b = "calloc (length s1 + length s2 + 1)"
  have "drop (length s1) (calloc (length s1 + length s2 + 1)) = replicate (Suc (length s2)) NUL"
    unfolding calloc_def drop_replicate by (rule arg_cong [where f = "\<lambda>n. replicate n NUL"]) simp
  then have cpy: "c_strncpy ?b s1 (length s1) = s1 @ NUL # replicate (length s2) NUL"
    using assms by (simp add: c_strncpy_def)
  then have cat: "c_strncat (c_strncpy ?b s1 (length s1)) s2 (length s2) = s1 @ s2 @ [NUL]"
    using assms by (simp add: c_strncat_def Let_def)
  have "cstr (s1 @ s2 @ [NUL]) = s1 @ s2"
    using cstr_append_NUL [of "s1 @ s2" "[]"] assms by simp
  with assms cat show ?thesis by (simp add: strmerge_def Let_def)
qed

section \<open>GLib's queue\<close>

record ('q, 'e) gqueue_ops =
  g_queue_new :: "'q"
  g_queue_push_tail :: "'q \<Rightarrow> 'e \<Rightarrow> 'q"
  g_queue_pop_head :: "'q \<Rightarrow> 'q"
  g_queue_peek_head :: "'q \<Rightarrow> 'e option"
  g_queue_peek_nth :: "'q \<Rightarrow> nat \<Rightarrow> 'e option"
  g_queue_is_empty :: "'q \<Rightarrow> bool"
  g_queue_get_length :: "'q \<Rightarrow> nat"

text \<open>
  What GLib documents: a queue is a sequence of elements; a peek outside it gives
  \<^verbatim>\<open>NULL\<close>, popping an empty queue leaves it empty.
\<close>

locale gqueue =
  fixes G :: "('q, 'e) gqueue_ops" and elems :: "'q \<Rightarrow> 'e list"
  assumes elems_new [simp]: "elems (g_queue_new G) = []"
    and elems_push [simp]: "elems (g_queue_push_tail G q e) = elems q @ [e]"
    and elems_pop [simp]: "elems (g_queue_pop_head G q) = tl (elems q)"
    and peek_head [simp]: "g_queue_peek_head G q = (case elems q of [] \<Rightarrow> None | e # _ \<Rightarrow> Some e)"
    and peek_nth [simp]: "g_queue_peek_nth G q i = (if i < length (elems q) then Some (elems q ! i) else None)"
    and is_empty [simp]: "g_queue_is_empty G q \<longleftrightarrow> elems q = []"
    and get_length [simp]: "g_queue_get_length G q = length (elems q)"

text \<open>The reference instance: a queue that is the list of its elements.\<close>

definition list_gqueue :: "('e list, 'e) gqueue_ops" where
  "list_gqueue = \<lparr>g_queue_new = [], g_queue_push_tail = (\<lambda>q e. q @ [e]),
     g_queue_pop_head = tl, g_queue_peek_head = (\<lambda>q. case q of [] \<Rightarrow> None | e # _ \<Rightarrow> Some e),
     g_queue_peek_nth = (\<lambda>q i. if i < length q then Some (q ! i) else None),
     g_queue_is_empty = (\<lambda>q. q = []), g_queue_get_length = length\<rparr>"

interpretation glist: gqueue list_gqueue "\<lambda>q. q"
  by unfold_locales (auto simp: list_gqueue_def split: list.split)

section \<open>The simple command\<close>

record 'q scommand =
  comm :: "'q"
  redir_in :: "string option"
  redir_out :: "string option"

definition scommand_new :: "('q, string) gqueue_ops \<Rightarrow> abort + 'q scommand" where
  "scommand_new G =
     (let self = \<lparr>comm = g_queue_new G, redir_in = None, redir_out = None\<rparr>
      in if g_queue_is_empty G (comm self) then Inr self else Inl AssertFailed)"

definition scommand_destroy :: "'q scommand option \<Rightarrow> abort + 'q scommand option" where
  "scommand_destroy self = (case self of None \<Rightarrow> Inl AssertFailed | Some c \<Rightarrow> Inr None)"

definition scommand_push_back ::
  "('q, string) gqueue_ops \<Rightarrow> 'q scommand option \<Rightarrow> string option \<Rightarrow> abort + 'q scommand" where
  "scommand_push_back G self argument =
     (case (self, argument) of
        (Some c, Some a) \<Rightarrow>
          (let c = c\<lparr>comm := g_queue_push_tail G (comm c) a\<rparr>
           in if g_queue_is_empty G (comm c) then Inl AssertFailed else Inr c)
      | _ \<Rightarrow> Inl AssertFailed)"

definition scommand_pop_front ::
  "('q, string) gqueue_ops \<Rightarrow> 'q scommand option \<Rightarrow> abort + 'q scommand" where
  "scommand_pop_front G self =
     (case self of
        None \<Rightarrow> Inl AssertFailed
      | Some c \<Rightarrow>
          if g_queue_is_empty G (comm c) then Inl AssertFailed
          else Inr (c\<lparr>comm := g_queue_pop_head G (comm c)\<rparr>))"

definition scommand_set_redir_in ::
  "'q scommand option \<Rightarrow> string option \<Rightarrow> abort + 'q scommand" where
  "scommand_set_redir_in self filename =
     (case self of None \<Rightarrow> Inl AssertFailed | Some c \<Rightarrow> Inr (c\<lparr>redir_in := filename\<rparr>))"

definition scommand_set_redir_out ::
  "'q scommand option \<Rightarrow> string option \<Rightarrow> abort + 'q scommand" where
  "scommand_set_redir_out self filename =
     (case self of None \<Rightarrow> Inl AssertFailed | Some c \<Rightarrow> Inr (c\<lparr>redir_out := filename\<rparr>))"

definition scommand_is_empty :: "('q, string) gqueue_ops \<Rightarrow> 'q scommand option \<Rightarrow> abort + bool" where
  "scommand_is_empty G self =
     (case self of None \<Rightarrow> Inl AssertFailed | Some c \<Rightarrow> Inr (g_queue_get_length G (comm c) = 0))"

definition scommand_length :: "('q, string) gqueue_ops \<Rightarrow> 'q scommand option \<Rightarrow> abort + nat" where
  "scommand_length G self =
     (case self of
        None \<Rightarrow> Inl AssertFailed
      | Some c \<Rightarrow>
          (let len = g_queue_get_length G (comm c)
           in if (len = 0) = g_queue_is_empty G (comm c) then Inr len else Inl AssertFailed))"

definition scommand_front :: "('q, string) gqueue_ops \<Rightarrow> 'q scommand option \<Rightarrow> abort + string" where
  "scommand_front G self =
     (case self of
        None \<Rightarrow> Inl AssertFailed
      | Some c \<Rightarrow>
          if g_queue_is_empty G (comm c) then Inl AssertFailed
          else (case g_queue_peek_head G (comm c) of None \<Rightarrow> Inl AssertFailed | Some f \<Rightarrow> Inr f))"

definition scommand_get_redir_in :: "'q scommand option \<Rightarrow> abort + string option" where
  "scommand_get_redir_in self = (case self of None \<Rightarrow> Inl AssertFailed | Some c \<Rightarrow> Inr (redir_in c))"

definition scommand_get_redir_out :: "'q scommand option \<Rightarrow> abort + string option" where
  "scommand_get_redir_out self = (case self of None \<Rightarrow> Inl AssertFailed | Some c \<Rightarrow> Inr (redir_out c))"

text \<open>The loop over the arguments, by index, with a blank after all but the last.\<close>

primrec scommand_to_string_loop ::
  "('q, string) gqueue_ops \<Rightarrow> 'q \<Rightarrow> nat \<Rightarrow> nat list \<Rightarrow> string \<Rightarrow> abort + string" where
  "scommand_to_string_loop G q len [] result = Inr result"
| "scommand_to_string_loop G q len (i # is) result =
     (case g_queue_peek_nth G q i of
        None \<Rightarrow> Inl AssertFailed
      | Some arg \<Rightarrow>
          sbind (strmerge result arg) (\<lambda>result.
          sbind (if i < len - 1 then strmerge result '' '' else Inr result) (\<lambda>result.
            scommand_to_string_loop G q len is result)))"

definition scommand_to_string :: "('q, string) gqueue_ops \<Rightarrow> 'q scommand option \<Rightarrow> abort + string" where
  "scommand_to_string G self =
     (case self of
        None \<Rightarrow> Inl AssertFailed
      | Some c \<Rightarrow>
          (let len = g_queue_get_length G (comm c) in
           sbind (scommand_to_string_loop G (comm c) len [0..<len] '''') (\<lambda>result.
           sbind (case redir_in c of None \<Rightarrow> Inr result
                  | Some f \<Rightarrow> sbind (strmerge result '' < '') (\<lambda>r. strmerge r f)) (\<lambda>result.
           sbind (case redir_out c of None \<Rightarrow> Inr result
                  | Some f \<Rightarrow> sbind (strmerge result '' > '') (\<lambda>r. strmerge r f)) (\<lambda>result.
           if g_queue_is_empty G (comm c) \<or> redir_in c = None \<or> redir_out c = None \<or> length result > 0
           then Inr result else Inl AssertFailed)))))"

section \<open>The pipeline\<close>

record 'p pipeline =
  pipe :: "'p"
  waiting :: bool

definition pipeline_new :: "('p, 'c) gqueue_ops \<Rightarrow> abort + 'p pipeline" where
  "pipeline_new G =
     (let self = \<lparr>pipe = g_queue_new G, waiting = True\<rparr>
      in if g_queue_is_empty G (pipe self) \<and> waiting self then Inr self else Inl AssertFailed)"

definition pipeline_is_empty :: "('p, 'c) gqueue_ops \<Rightarrow> 'p pipeline option \<Rightarrow> abort + bool" where
  "pipeline_is_empty G self =
     (case self of None \<Rightarrow> Inl AssertFailed | Some p \<Rightarrow> Inr (g_queue_is_empty G (pipe p)))"

text \<open>
  The loop of \<^verbatim>\<open>pipeline_destroy\<close> runs once per element; the fuel is the queue's length
  and a queue that is not empty by then would be a loop that never ends.
\<close>

fun pipeline_destroy_loop ::
  "('p, 'q scommand) gqueue_ops \<Rightarrow> nat \<Rightarrow> 'p \<Rightarrow> abort + unit" where
  "pipeline_destroy_loop G fuel q =
     (if g_queue_is_empty G q then Inr ()
      else case fuel of
          0 \<Rightarrow> Inl NoReturn
        | Suc k \<Rightarrow>
            sbind (scommand_destroy (g_queue_peek_head G q)) (\<lambda>_.
              pipeline_destroy_loop G k (g_queue_pop_head G q)))"

declare pipeline_destroy_loop.simps [simp del]

definition pipeline_destroy ::
  "('p, 'q scommand) gqueue_ops \<Rightarrow> 'p pipeline option \<Rightarrow> abort + 'p pipeline option" where
  "pipeline_destroy G self =
     (case self of
        None \<Rightarrow> Inl AssertFailed
      | Some p \<Rightarrow>
          sbind (pipeline_destroy_loop G (g_queue_get_length G (pipe p)) (pipe p)) (\<lambda>_. Inr None))"

definition pipeline_push_back ::
  "('p, 'c) gqueue_ops \<Rightarrow> 'p pipeline option \<Rightarrow> 'c option \<Rightarrow> abort + 'p pipeline" where
  "pipeline_push_back G self sc =
     (case (self, sc) of
        (Some p, Some c) \<Rightarrow>
          (let p = p\<lparr>pipe := g_queue_push_tail G (pipe p) c\<rparr>
           in if g_queue_is_empty G (pipe p) then Inl AssertFailed else Inr p)
      | _ \<Rightarrow> Inl AssertFailed)"

definition pipeline_pop_front ::
  "('p, 'q scommand) gqueue_ops \<Rightarrow> 'p pipeline option \<Rightarrow> abort + 'p pipeline" where
  "pipeline_pop_front G self =
     (case self of
        None \<Rightarrow> Inl AssertFailed
      | Some p \<Rightarrow>
          if g_queue_is_empty G (pipe p) then Inl AssertFailed
          else sbind (scommand_destroy (g_queue_peek_head G (pipe p))) (\<lambda>_.
            Inr (p\<lparr>pipe := g_queue_pop_head G (pipe p)\<rparr>)))"

definition pipeline_set_wait :: "'p pipeline option \<Rightarrow> bool \<Rightarrow> abort + 'p pipeline" where
  "pipeline_set_wait self w =
     (case self of None \<Rightarrow> Inl AssertFailed | Some p \<Rightarrow> Inr (p\<lparr>waiting := w\<rparr>))"

definition pipeline_length :: "('p, 'c) gqueue_ops \<Rightarrow> 'p pipeline option \<Rightarrow> abort + nat" where
  "pipeline_length G self =
     (case self of
        None \<Rightarrow> Inl AssertFailed
      | Some p \<Rightarrow>
          (let len = g_queue_get_length G (pipe p)
           in if (len = 0) = g_queue_is_empty G (pipe p) then Inr len else Inl AssertFailed))"

definition pipeline_front :: "('p, 'c) gqueue_ops \<Rightarrow> 'p pipeline option \<Rightarrow> abort + 'c" where
  "pipeline_front G self =
     (case self of
        None \<Rightarrow> Inl AssertFailed
      | Some p \<Rightarrow>
          if g_queue_is_empty G (pipe p) then Inl AssertFailed
          else (case g_queue_peek_head G (pipe p) of None \<Rightarrow> Inl AssertFailed | Some c \<Rightarrow> Inr c))"

definition pipeline_get_wait :: "'p pipeline option \<Rightarrow> abort + bool" where
  "pipeline_get_wait self = (case self of None \<Rightarrow> Inl AssertFailed | Some p \<Rightarrow> Inr (waiting p))"

primrec pipeline_to_string_loop ::
  "('p, 'q scommand) gqueue_ops \<Rightarrow> ('q, string) gqueue_ops \<Rightarrow> 'p \<Rightarrow> nat \<Rightarrow> nat list \<Rightarrow> string \<Rightarrow> abort + string" where
  "pipeline_to_string_loop GP G q len [] result = Inr result"
| "pipeline_to_string_loop GP G q len (i # is) result =
     sbind (scommand_to_string G (g_queue_peek_nth GP q i)) (\<lambda>tmp_string.
     sbind (strmerge result tmp_string) (\<lambda>result.
     sbind (if i + 1 < len then strmerge result '' | '' else Inr result) (\<lambda>result.
       pipeline_to_string_loop GP G q len is result)))"

definition pipeline_to_string ::
  "('p, 'q scommand) gqueue_ops \<Rightarrow> ('q, string) gqueue_ops \<Rightarrow> 'p pipeline option \<Rightarrow> abort + string" where
  "pipeline_to_string GP G self =
     (case self of
        None \<Rightarrow> Inl AssertFailed
      | Some p \<Rightarrow>
          (let len = g_queue_get_length GP (pipe p) in
           sbind (pipeline_to_string_loop GP G (pipe p) len [0..<len] '''') (\<lambda>result.
           sbind (strmerge result (if waiting p then '''' else ''&'')) (\<lambda>result.
           if g_queue_is_empty GP (pipe p) \<or> waiting p \<or> length result > 0
           then Inr result else Inl AssertFailed))))"

section \<open>The contract of both types: a first-in first-out sequence\<close>

text \<open>
  What the clients of both types (the parser, the executor and the builtins) rely on.
  \<open>contents\<close> is the sequence drawn in \<^verbatim>\<open>command.h\<close>.
\<close>

primrec push_all ::
  "('a option \<Rightarrow> 'e option \<Rightarrow> abort + 'a) \<Rightarrow> 'a \<Rightarrow> 'e list \<Rightarrow> abort + 'a" where
  "push_all push a [] = Inr a"
| "push_all push a (e # es) = sbind (push (Some a) (Some e)) (\<lambda>a. push_all push a es)"

primrec drain ::
  "('a option \<Rightarrow> abort + 'e) \<Rightarrow> ('a option \<Rightarrow> abort + 'a) \<Rightarrow> nat \<Rightarrow> 'a \<Rightarrow> abort + 'e list" where
  "drain front pop 0 a = Inr []"
| "drain front pop (Suc n) a =
     sbind (front (Some a)) (\<lambda>e. sbind (pop (Some a)) (\<lambda>a.
     sbind (drain front pop n a) (\<lambda>es. Inr (e # es))))"

locale fifo =
  fixes new :: "abort + 'a"
    and push :: "'a option \<Rightarrow> 'e option \<Rightarrow> abort + 'a"
    and pop :: "'a option \<Rightarrow> abort + 'a"
    and front :: "'a option \<Rightarrow> abort + 'e"
    and len :: "'a option \<Rightarrow> abort + nat"
    and contents :: "'a \<Rightarrow> 'e list"
  assumes new_empty: "\<exists>a. new = Inr a \<and> contents a = []"
    and push_back: "\<exists>b. push (Some a) (Some e) = Inr b \<and> contents b = contents a @ [e]"
    and pop_front: "contents a = e # es \<Longrightarrow> \<exists>b. pop (Some a) = Inr b \<and> contents b = es"
    and pop_empty: "contents a = [] \<Longrightarrow> pop (Some a) = Inl AssertFailed"
    and front_hd: "contents a = e # es \<Longrightarrow> front (Some a) = Inr e"
    and front_empty: "contents a = [] \<Longrightarrow> front (Some a) = Inl AssertFailed"
    and len_contents: "len (Some a) = Inr (length (contents a))"
begin

lemma contents_push_all: "\<exists>b. push_all push a es = Inr b \<and> contents b = contents a @ es"
proof (induction es arbitrary: a)
  case Nil
  show ?case by simp
next
  case (Cons e es)
  obtain b where b: "push (Some a) (Some e) = Inr b" "contents b = contents a @ [e]"
    using push_back by blast
  obtain c where "push_all push b es = Inr c" "contents c = contents b @ es"
    using Cons.IH by blast
  with b show ?case by simp
qed

lemma drain_contents: "drain front pop (length (contents a)) a = Inr (contents a)"
proof (induction "contents a" arbitrary: a)
  case Nil
  then show ?case by (metis drain.simps(1) list.size(3))
next
  case (Cons e es)
  obtain b where "pop (Some a) = Inr b" "contents b = es"
    using pop_front Cons.hyps(2) by metis
  moreover have "front (Some a) = Inr e"
    using front_hd Cons.hyps(2) by metis
  ultimately show ?case
    using Cons.hyps(1) [of b] by (simp flip: Cons.hyps(2))
qed

lemma fifo_order:
  "\<exists>a b. new = Inr a \<and> push_all push a es = Inr b \<and>
     len (Some b) = Inr (length es) \<and> drain front pop (length es) b = Inr es"
proof -
  obtain a where a: "new = Inr a" "contents a = []" using new_empty by blast
  obtain b where b: "push_all push a es = Inr b" "contents b = contents a @ es"
    using contents_push_all by blast
  with a drain_contents [of b] show ?thesis by (auto simp: len_contents)
qed

end

locale string_queue = gqueue G elems for G :: "('q, string) gqueue_ops" and elems :: "'q \<Rightarrow> string list"

locale command_queue = gqueue GP elems
  for GP :: "('p, 'q scommand) gqueue_ops" and elems :: "'p \<Rightarrow> 'q scommand list"

sublocale string_queue \<subseteq> sc: fifo "scommand_new G" "scommand_push_back G" "scommand_pop_front G"
  "scommand_front G" "scommand_length G" "\<lambda>c. elems (comm c)"
  by unfold_locales
    (auto simp: scommand_new_def scommand_push_back_def scommand_pop_front_def
      scommand_front_def scommand_length_def)

sublocale command_queue \<subseteq> pl: fifo "pipeline_new GP" "pipeline_push_back GP" "pipeline_pop_front GP"
  "pipeline_front GP" "pipeline_length GP" "\<lambda>p. elems (pipe p)"
  by unfold_locales
    (auto simp: pipeline_new_def pipeline_push_back_def pipeline_pop_front_def
      pipeline_front_def pipeline_length_def scommand_destroy_def)

interpretation lsc: string_queue "list_gqueue :: (string list, string) gqueue_ops" "\<lambda>q. q"
  by (rule string_queue.intro) (rule glist.gqueue_axioms)

interpretation lpl: command_queue "list_gqueue :: (string list scommand list, string list scommand) gqueue_ops"
  "\<lambda>q. q"
  by (rule command_queue.intro) (rule glist.gqueue_axioms)

section \<open>The printed form\<close>

fun join :: "string \<Rightarrow> string list \<Rightarrow> string" where
  "join sep [] = []"
| "join sep [x] = x"
| "join sep (x # y # zs) = x @ sep @ join sep (y # zs)"

definition scommand_text :: "string list \<Rightarrow> string option \<Rightarrow> string option \<Rightarrow> string" where
  "scommand_text args i out = join '' '' args
     @ (case i of None \<Rightarrow> [] | Some f \<Rightarrow> '' < '' @ f)
     @ (case out of None \<Rightarrow> [] | Some f \<Rightarrow> '' > '' @ f)"

lemma join_drop:
  "i < length xs \<Longrightarrow> join sep (drop i xs) =
     xs ! i @ (if i + 1 < length xs then sep @ join sep (drop (i + 1) xs) else [])"
  by (cases "drop (i + 1) xs") (auto simp: Cons_nth_drop_Suc [symmetric])

lemma cstring_join: "cstring sep \<Longrightarrow> \<forall>x \<in> set xs. cstring x \<Longrightarrow> cstring (join sep xs)"
  by (induction sep xs rule: join.induct) auto

lemma cstring_scommand_text:
  assumes "\<forall>x \<in> set args. cstring x" and "\<And>f. i = Some f \<Longrightarrow> cstring f" and "\<And>f. out = Some f \<Longrightarrow> cstring f"
  shows "cstring (scommand_text args i out)"
  using assms by (auto simp: scommand_text_def intro!: cstring_join split: option.split)

text \<open>Every string a command holds is a C string, as all \<^verbatim>\<open>char *\<close> values are.\<close>

definition sc_strings :: "('q \<Rightarrow> string list) \<Rightarrow> 'q scommand \<Rightarrow> bool" where
  "sc_strings elems c \<longleftrightarrow> (\<forall>x \<in> set (elems (comm c)). cstring x)
     \<and> (\<forall>f. redir_in c = Some f \<longrightarrow> cstring f) \<and> (\<forall>f. redir_out c = Some f \<longrightarrow> cstring f)"

context string_queue begin

lemma to_string_loop:
  assumes "\<forall>x \<in> set (elems q). cstring x" and "cstring r" and "i \<le> length (elems q)"
  shows "scommand_to_string_loop G q (length (elems q)) [i..<length (elems q)] r
     = Inr (r @ join '' '' (drop i (elems q)))"
  using assms
proof (induction "length (elems q) - i" arbitrary: i r)
  case 0
  then show ?case by simp
next
  case (Suc k)
  let ?n = "length (elems q)"
  from Suc.hyps(2) have i: "i < ?n" by simp
  then have arg: "cstring (elems q ! i)" using Suc.prems(1) by simp
  let ?r = "r @ elems q ! i @ (if i + 1 < ?n then '' '' else [])"
  have step: "scommand_to_string_loop G q ?n [i..<?n] r = scommand_to_string_loop G q ?n [i + 1..<?n] ?r"
    using i arg Suc.prems(2) by (auto simp: upt_conv_Cons strmerge_append)
  have "scommand_to_string_loop G q ?n [i + 1..<?n] ?r = Inr (?r @ join '' '' (drop (i + 1) (elems q)))"
    using Suc.hyps(2) Suc.prems i arg by (intro Suc.hyps(1)) auto
  with step i show ?case by (simp add: join_drop [OF i])
qed

lemma to_string_eq:
  assumes "sc_strings elems c"
  shows "scommand_to_string G (Some c) = Inr (scommand_text (elems (comm c)) (redir_in c) (redir_out c))"
proof -
  have c: "\<forall>x \<in> set (elems (comm c)). cstring x"
    and i: "\<And>f. redir_in c = Some f \<Longrightarrow> cstring f" and out: "\<And>f. redir_out c = Some f \<Longrightarrow> cstring f"
    using assms by (auto simp: sc_strings_def)
  have j: "cstring (join '' '' (elems (comm c)))" by (rule cstring_join [OF _ c]) simp
  have loop: "scommand_to_string_loop G (comm c) (length (elems (comm c))) [0..<length (elems (comm c))] []
      = Inr (join '' '' (elems (comm c)))"
    using to_string_loop [OF c, of "[]" 0] by simp
  show ?thesis
    using i out j
    by (auto simp: scommand_to_string_def scommand_text_def Let_def loop strmerge_append
        split: option.split)
qed

end

context string_queue begin

lemmas order_of_arguments = sc.fifo_order

end

definition pipeline_text :: "string list \<Rightarrow> bool \<Rightarrow> string" where
  "pipeline_text cmds wait = join '' | '' cmds @ (if wait then [] else ''&'')"

lemma pipeline_to_string_loop_eq:
  assumes P: "gqueue GP pelems" and S: "string_queue G elems"
    and cs: "\<forall>c \<in> set (pelems q). sc_strings elems c"
    and "cstring r" and "i \<le> length (pelems q)"
  defines "texts \<equiv> map (\<lambda>c. scommand_text (elems (comm c)) (redir_in c) (redir_out c)) (pelems q)"
  shows "pipeline_to_string_loop GP G q (length (pelems q)) [i..<length (pelems q)] r
     = Inr (r @ join '' | '' (drop i texts))"
  using assms(4,5)
proof (induction "length (pelems q) - i" arbitrary: i r)
  case 0
  then show ?case by (simp add: texts_def)
next
  case (Suc k)
  let ?n = "length (pelems q)" and ?c = "pelems q ! i"
  have n: "length texts = ?n" by (simp add: texts_def)
  from Suc.hyps(2) have i: "i < ?n" by simp
  then have c: "sc_strings elems ?c" using cs by simp
  have ti: "texts ! i = scommand_text (elems (comm ?c)) (redir_in ?c) (redir_out ?c)"
    using i by (simp add: texts_def)
  have str: "scommand_to_string G (Some ?c) = Inr (texts ! i)"
    using string_queue.to_string_eq [OF S c] ti by simp
  have cst: "cstring (texts ! i)"
    unfolding ti using c by (intro cstring_scommand_text) (auto simp: sc_strings_def)
  let ?r = "r @ texts ! i @ (if i + 1 < ?n then '' | '' else [])"
  have step: "pipeline_to_string_loop GP G q ?n [i..<?n] r = pipeline_to_string_loop GP G q ?n [i + 1..<?n] ?r"
    using i Suc.prems(1) cst by (simp add: upt_conv_Cons strmerge_append gqueue.peek_nth [OF P] str)
  have "pipeline_to_string_loop GP G q ?n [i + 1..<?n] ?r = Inr (?r @ join '' | '' (drop (i + 1) texts))"
    using Suc.hyps(2) Suc.prems(1) i cst by (intro Suc.hyps(1)) auto
  with step i n show ?case by (simp add: join_drop [of i texts])
qed

lemma pipeline_destroy_ok:
  assumes P: "gqueue GP pelems"
  shows "pipeline_destroy GP (Some p) = Inr None"
proof -
  have loop: "n = length (pelems q) \<Longrightarrow> pipeline_destroy_loop GP n q = Inr ()" for n q
  proof (induction n arbitrary: q)
    case 0
    then show ?case by (simp add: pipeline_destroy_loop.simps gqueue.is_empty [OF P])
  next
    case (Suc n)
    then obtain e es where q: "pelems q = e # es" by (metis length_Suc_conv)
    with Suc show ?case
      using Suc.IH [of "g_queue_pop_head GP q"]
      by (subst pipeline_destroy_loop.simps)
        (simp add: gqueue.is_empty [OF P] gqueue.peek_head [OF P] gqueue.elems_pop [OF P] scommand_destroy_def)
  qed
  show ?thesis by (simp add: pipeline_destroy_def gqueue.get_length [OF P] loop)
qed

section \<open>Properties\<close>

text \<open>A new command that has received any sequence of arguments with
  \<^verbatim>\<open>scommand_push_back\<close> has their number as its length, and \<^verbatim>\<open>scommand_front\<close> followed by
  \<^verbatim>\<open>scommand_pop_front\<close>, once per argument, returns them in the order of insertion; no
  assertion fails on the way.\<close>

theorem scommand_is_fifo:
  assumes "string_queue G elems"
  shows "\<exists>a b. scommand_new G = Inr a \<and> push_all (scommand_push_back G) a args = Inr b \<and>
     scommand_length G (Some b) = Inr (length args) \<and>
     drain (scommand_front G) (scommand_pop_front G) (length args) b = Inr args"
  by (rule string_queue.order_of_arguments [OF assms])

theorem scommand_is_fifo_witness:
  "\<exists>a b. scommand_new list_gqueue = Inr a \<and>
     push_all (scommand_push_back list_gqueue) a [''ls'', ''-l''] = Inr b \<and>
     scommand_length list_gqueue (Some b) = Inr 2 \<and>
     drain (scommand_front list_gqueue) (scommand_pop_front list_gqueue) 2 b = Inr [''ls'', ''-l'']"
  using scommand_is_fifo [OF lsc.string_queue_axioms, of "[''ls'', ''-l'']"]
  by (simp add: numeral_2_eq_2)

text \<open>\<^verbatim>\<open>pipeline_to_string\<close> succeeds on every pipeline of C strings and gives the
  commands' texts separated by \<^verbatim>\<open> | \<close>, each being its arguments separated by blanks and its
  redirections, with \<^verbatim>\<open>&\<close> at the end exactly when the pipeline is not waited for.\<close>

theorem pipeline_to_string_text:
  assumes "command_queue GP pelems" and "string_queue G elems"
    and "\<forall>c \<in> set (pelems (pipe p)). sc_strings elems c"
  shows "pipeline_to_string GP G (Some p) = Inr (pipeline_text
     (map (\<lambda>c. scommand_text (elems (comm c)) (redir_in c) (redir_out c)) (pelems (pipe p))) (waiting p))"
proof -
  have P: "gqueue GP pelems" using assms(1) by (simp add: command_queue_def)
  let ?texts = "map (\<lambda>c. scommand_text (elems (comm c)) (redir_in c) (redir_out c)) (pelems (pipe p))"
  have "\<forall>x \<in> set ?texts. cstring x"
    using assms(3) by (auto intro!: cstring_scommand_text simp: sc_strings_def)
  then have cst: "cstring (join '' | '' ?texts)" by (intro cstring_join) auto
  show ?thesis
    using pipeline_to_string_loop_eq [OF P assms(2,3), of "[]" 0] cst
    by (simp add: pipeline_to_string_def pipeline_text_def Let_def gqueue.get_length [OF P]
        gqueue.is_empty [OF P] strmerge_append)
qed

theorem pipeline_to_string_text_witness:
  "pipeline_to_string list_gqueue list_gqueue
     (Some \<lparr>pipe = [\<lparr>comm = [''ls'', ''-l''], redir_in = None, redir_out = None\<rparr>,
        \<lparr>comm = [''wc''], redir_in = None, redir_out = Some ''out''\<rparr>], waiting = False\<rparr>)
   = Inr ''ls -l | wc > out&''"
  by (subst pipeline_to_string_text [OF lpl.command_queue_axioms lsc.string_queue_axioms])
    (simp_all add: sc_strings_def pipeline_text_def scommand_text_def)

end
