(* ===== verification/Parsing.thy ===== *)
theory Parsing
  imports Command
begin

text \<open>
  From the input to a pipeline, \<^verbatim>\<open>src/lab1/parsing.c\<close>.  The lexical parser is an object file
  with the header \<^verbatim>\<open>src/lab1/parser.h\<close>: its operations are a parameter (\<open>parser_ops\<close>), and
  the locale \<open>lexer\<close> states what the header documents, over the tokens still to be read.  The
  loops of \<^verbatim>\<open>parsing.c\<close> end only if the lexer ends, so they are partial functions: \<open>None\<close> is a
  call that does not return.  What the functions print is part of the result.
\<close>

section \<open>The lexer\<close>

datatype arg_kind_t = ARG_NORMAL | ARG_INPUT | ARG_OUTPUT

record 'p parser_ops =
  parser_next_argument :: "'p \<Rightarrow> string option \<times> arg_kind_t \<times> 'p"
  parser_op_background :: "'p \<Rightarrow> bool \<times> 'p"
  parser_skip_blanks :: "'p \<Rightarrow> 'p"
  parser_op_pipe :: "'p \<Rightarrow> bool \<times> 'p"
  parser_garbage :: "'p \<Rightarrow> bool \<times> 'p"
  parser_at_eof :: "'p \<Rightarrow> bool"

text \<open>
  The tokens of the header's grammar.  \<open>T_bad k\<close> is a redirection sign with no file name.  The
  header does not say what \<^verbatim>\<open>parser_next_argument\<close> answers there.  The law \<open>next_bad\<close> below is
  what \<^verbatim>\<open>parse_scommand\<close> relies on (it takes the answer \<^verbatim>\<open>NULL\<close> with a redirection's kind for
  the error) and what the object files of \<^verbatim>\<open>src/lab1/objects-x86_64/\<close> do: \<^verbatim>\<open>NULL\<close>, the kind, and
  the sign consumed.  Only lines with such a sign need it.
\<close>

datatype token = T_arg arg_kind_t string | T_bad arg_kind_t | T_pipe | T_amp | T_newline

locale lexer =
  fixes L :: "'p parser_ops" and toks :: "'p \<Rightarrow> token list"
  assumes skip_blanks: "toks (parser_skip_blanks L p) = toks p"
    and next_arg: "toks p = T_arg k w # ts \<Longrightarrow> \<exists>q. parser_next_argument L p = (Some w, k, q) \<and> toks q = ts"
    and next_bad: "toks p = T_bad k # ts \<Longrightarrow> \<exists>q. parser_next_argument L p = (None, k, q) \<and> toks q = ts"
    and next_stop: "toks p = [] \<or> hd (toks p) \<in> {T_pipe, T_amp, T_newline} \<Longrightarrow>
        \<exists>q. parser_next_argument L p = (None, ARG_NORMAL, q) \<and> toks q = toks p"
    and op_pipe: "\<exists>q. parser_op_pipe L p =
        (if toks p \<noteq> [] \<and> hd (toks p) = T_pipe then (True, q) else (False, q)) \<and>
        toks q = (if toks p \<noteq> [] \<and> hd (toks p) = T_pipe then tl (toks p) else toks p)"
    and op_background: "\<exists>q. parser_op_background L p =
        (if toks p \<noteq> [] \<and> hd (toks p) = T_amp then (True, q) else (False, q)) \<and>
        toks q = (if toks p \<noteq> [] \<and> hd (toks p) = T_amp then tl (toks p) else toks p)"
    and garbage: "\<exists>q. parser_garbage L p = (takeWhile (\<lambda>t. t \<noteq> T_newline) (toks p) \<noteq> [], q) \<and>
        toks q = tl (dropWhile (\<lambda>t. t \<noteq> T_newline) (toks p))"
    and at_eof: "parser_at_eof L p \<longleftrightarrow> toks p = []"

text \<open>The reference lexer: the input is the list of its tokens.\<close>

fun next_token :: "token list \<Rightarrow> string option \<times> arg_kind_t \<times> token list" where
  "next_token (T_arg k w # ts) = (Some w, k, ts)"
| "next_token (T_bad k # ts) = (None, k, ts)"
| "next_token ts = (None, ARG_NORMAL, ts)"

definition skip_token :: "token \<Rightarrow> token list \<Rightarrow> bool \<times> token list" where
  "skip_token t ts = (if ts \<noteq> [] \<and> hd ts = t then (True, tl ts) else (False, ts))"

definition token_parser :: "token list parser_ops" where
  "token_parser = \<lparr>parser_next_argument = next_token, parser_op_background = skip_token T_amp,
     parser_skip_blanks = (\<lambda>ts. ts), parser_op_pipe = skip_token T_pipe,
     parser_garbage = (\<lambda>ts. (takeWhile (\<lambda>t. t \<noteq> T_newline) ts \<noteq> [], tl (dropWhile (\<lambda>t. t \<noteq> T_newline) ts))),
     parser_at_eof = (\<lambda>ts. ts = [])\<rparr>"

interpretation ltok: lexer token_parser "\<lambda>ts. ts"
proof
  fix p :: "token list"
  assume "p = [] \<or> hd p \<in> {T_pipe, T_amp, T_newline}"
  then show "\<exists>q. parser_next_argument token_parser p = (None, ARG_NORMAL, q) \<and> q = p"
    by (cases p) (auto simp: token_parser_def)
qed (auto simp: token_parser_def skip_token_def)

section \<open>parsing.c\<close>

text \<open>
  The loop of \<^verbatim>\<open>parse_scommand\<close> after the first argument has been read: \<open>next_comm\<close> and
  \<open>argtype\<close> are the answers of the last \<^verbatim>\<open>parser_next_argument\<close>.
\<close>

partial_function (option) parse_scommand_loop ::
  "('q, string) gqueue_ops \<Rightarrow> 'p parser_ops \<Rightarrow> 'q scommand \<Rightarrow> string option \<Rightarrow> arg_kind_t \<Rightarrow> 'p \<Rightarrow>
   (abort + 'q scommand \<times> arg_kind_t \<times> 'p) option" where
  "parse_scommand_loop G L command next_comm argtype p =
     (case next_comm of
        None \<Rightarrow> Some (Inr (command, argtype, p))
      | Some a \<Rightarrow>
          (case (case argtype of
                   ARG_NORMAL \<Rightarrow> scommand_push_back G (Some command) (Some a)
                 | ARG_INPUT \<Rightarrow> scommand_set_redir_in (Some command) (Some a)
                 | ARG_OUTPUT \<Rightarrow> scommand_set_redir_out (Some command) (Some a)) of
             Inl e \<Rightarrow> Some (Inl e)
           | Inr command \<Rightarrow>
               (case parser_next_argument L p of
                  (next_comm, argtype, p) \<Rightarrow>
                    parse_scommand_loop G L command next_comm argtype (parser_skip_blanks L p))))"

definition parse_scommand ::
  "('q, string) gqueue_ops \<Rightarrow> 'p parser_ops \<Rightarrow> 'p \<Rightarrow> (abort + 'q scommand option \<times> 'p) option" where
  "parse_scommand G L p =
     (case scommand_new G of
        Inl e \<Rightarrow> Some (Inl e)
      | Inr command \<Rightarrow>
          (case parser_next_argument L (parser_skip_blanks L p) of
             (next_comm, argtype, p) \<Rightarrow>
               Option.bind (parse_scommand_loop G L command next_comm argtype p) (\<lambda>r.
               Some (sbind r (\<lambda>(command, argtype, p).
                 if argtype = ARG_INPUT \<or> argtype = ARG_OUTPUT
                 then sbind (scommand_destroy (Some command)) (\<lambda>c. Inr (c, p))
                 else Inr (Some command, p))))))"

partial_function (option) parse_pipeline_loop ::
  "('pq, 'q scommand) gqueue_ops \<Rightarrow> ('q, string) gqueue_ops \<Rightarrow> 'p parser_ops \<Rightarrow>
   'pq pipeline \<Rightarrow> 'q scommand option \<Rightarrow> bool \<Rightarrow> 'p \<Rightarrow> (abort + 'pq pipeline \<times> bool \<times> 'p) option" where
  "parse_pipeline_loop GP G L result cmd another_pipe p =
     (let error = (cmd = None) in
      if another_pipe \<and> \<not> error then
        (case pipeline_push_back GP (Some result) cmd of
           Inl e \<Rightarrow> Some (Inl e)
         | Inr result \<Rightarrow>
             (case parser_op_pipe L p of
                (another_pipe, p) \<Rightarrow>
                  Option.bind (parse_scommand G L p) (\<lambda>r.
                    case r of
                      Inl e \<Rightarrow> Some (Inl e)
                    | Inr (cmd, p) \<Rightarrow> parse_pipeline_loop GP G L result cmd another_pipe p)))
      else Some (Inr (result, error, p)))"

definition msg_no_file :: string where
  "msg_no_file = ''No input/output directory especified. '' @ [CHR 0x0A]"

definition msg_garbage :: string where
  "msg_garbage = ''Error: invalid command.'' @ [CHR 0x0A]"

text \<open>The answer is the pipeline or \<^verbatim>\<open>NULL\<close>, what was printed, and the parser.\<close>

definition parse_pipeline ::
  "('pq, 'q scommand) gqueue_ops \<Rightarrow> ('q, string) gqueue_ops \<Rightarrow> 'p parser_ops \<Rightarrow> 'p \<Rightarrow>
   (abort + 'pq pipeline option \<times> string \<times> 'p) option" where
  "parse_pipeline GP G L p =
     (case pipeline_new GP of
        Inl e \<Rightarrow> Some (Inl e)
      | Inr result \<Rightarrow>
          Option.bind (parse_scommand G L p) (\<lambda>r.
          case r of
            Inl e \<Rightarrow> Some (Inl e)
          | Inr (cmd, p) \<Rightarrow>
              Option.bind (parse_pipeline_loop GP G L result cmd True p) (\<lambda>r.
              Some (sbind r (\<lambda>(result, error, p).
                (case parser_op_background L p of
                   (isbackground, p) \<Rightarrow>
                     sbind (pipeline_set_wait (Some result) (\<not> isbackground)) (\<lambda>result.
                     sbind (if error then
                              sbind (pipeline_destroy GP (Some result)) (\<lambda>r. Inr (r, msg_no_file))
                            else
                              sbind (pipeline_length GP (Some result)) (\<lambda>n.
                              sbind (if n = 1 then
                                       sbind (pipeline_front GP (Some result)) (\<lambda>c.
                                       sbind (scommand_length G (Some c)) (\<lambda>k. Inr (k = 0)))
                                     else Inr False) (\<lambda>empty.
                              if empty then sbind (pipeline_destroy GP (Some result)) (\<lambda>r. Inr (r, []))
                              else Inr (Some result, [])))) (\<lambda>(result, out).
                     (case parser_garbage L p of
                        (garbage, p) \<Rightarrow>
                          if garbage then
                            sbind (pipeline_destroy GP result) (\<lambda>r. Inr (r, out @ msg_garbage, p))
                          else Inr (result, out, p))))))))))"

section \<open>What a command line means\<close>

text \<open>A command is its arguments, the last input and the last output redirection.\<close>

type_synonym cmd_view = "string list \<times> string option \<times> string option"

fun add_arg :: "arg_kind_t \<times> string \<Rightarrow> cmd_view \<Rightarrow> cmd_view" where
  "add_arg (ARG_NORMAL, w) (args, i, out) = (args @ [w], i, out)"
| "add_arg (ARG_INPUT, w) (args, i, out) = (args, Some w, out)"
| "add_arg (ARG_OUTPUT, w) (args, i, out) = (args, i, Some w)"

definition cmd_denot :: "(arg_kind_t \<times> string) list \<Rightarrow> cmd_view" where
  "cmd_denot as = fold add_arg as ([], None, None)"

definition arg_tokens :: "(arg_kind_t \<times> string) list \<Rightarrow> token list" where
  "arg_tokens as = map (\<lambda>(k, w). T_arg k w) as"

fun line_tokens :: "(arg_kind_t \<times> string) list list \<Rightarrow> token list" where
  "line_tokens [] = []"
| "line_tokens [c] = arg_tokens c"
| "line_tokens (c # d # cs) = arg_tokens c @ T_pipe # line_tokens (d # cs)"

text \<open>Commands, each followed by a pipe sign.\<close>

definition before_pipe :: "(arg_kind_t \<times> string) list list \<Rightarrow> token list" where
  "before_pipe cs = concat (map (\<lambda>c. arg_tokens c @ [T_pipe]) cs)"

definition stops :: "token list \<Rightarrow> bool" where
  "stops ts \<longleftrightarrow> ts = [] \<or> hd ts \<in> {T_pipe, T_amp, T_newline}"

definition sc_view :: "('q \<Rightarrow> string list) \<Rightarrow> 'q scommand \<Rightarrow> cmd_view" where
  "sc_view elems c = (elems (comm c), redir_in c, redir_out c)"

locale shell_parser = lexer L toks + string_queue G elems + command_queue GP pelems
  for L :: "'p parser_ops" and toks and G :: "('q, string) gqueue_ops" and elems
    and GP :: "('pq, 'q scommand) gqueue_ops" and pelems
begin

lemma add_arg_step:
  "\<exists>c'. (case k of ARG_NORMAL \<Rightarrow> scommand_push_back G (Some c) (Some w)
      | ARG_INPUT \<Rightarrow> scommand_set_redir_in (Some c) (Some w)
      | ARG_OUTPUT \<Rightarrow> scommand_set_redir_out (Some c) (Some w)) = Inr c' \<and>
    sc_view elems c' = add_arg (k, w) (sc_view elems c)"
  by (cases k) (auto simp: scommand_push_back_def scommand_set_redir_in_def scommand_set_redir_out_def
      sc_view_def)

lemma loop_tokens:
  assumes "toks p = arg_tokens as @ rest"
    and "stops rest \<and> k = ARG_NORMAL \<and> rest' = rest \<or> rest = T_bad k # rest'"
    and "\<And>p. toks (h p) = toks p"
  shows "\<exists>c' q. (case parser_next_argument L p of (a, k, p) \<Rightarrow>
      parse_scommand_loop G L c a k (h p)) = Some (Inr (c', k, q)) \<and>
     sc_view elems c' = fold add_arg as (sc_view elems c) \<and> toks q = rest'"
  using assms(1,3)
proof (induction as arbitrary: c p h)
  case Nil
  have "\<exists>q. parser_next_argument L p = (None, k, q) \<and> toks q = rest'"
    using assms(2) Nil next_stop [of p] next_bad [of p k rest'] by (auto simp: stops_def arg_tokens_def)
  then show ?case using Nil.prems(2) by (auto simp: parse_scommand_loop.simps)
next
  case (Cons kw as)
  obtain k1 w where kw: "kw = (k1, w)" by (cases kw)
  obtain q where q: "parser_next_argument L p = (Some w, k1, q)" "toks q = arg_tokens as @ rest"
    using next_arg [of p k1 w] Cons.prems kw by (auto simp: arg_tokens_def)
  obtain c1 where c1: "(case k1 of ARG_NORMAL \<Rightarrow> scommand_push_back G (Some c) (Some w)
      | ARG_INPUT \<Rightarrow> scommand_set_redir_in (Some c) (Some w)
      | ARG_OUTPUT \<Rightarrow> scommand_set_redir_out (Some c) (Some w)) = Inr c1"
    and v: "sc_view elems c1 = add_arg (k1, w) (sc_view elems c)"
    using add_arg_step by blast
  show ?case
    using Cons.IH [of "h q" "parser_skip_blanks L" c1] q c1 v kw Cons.prems(2)
    by (simp add: skip_blanks parse_scommand_loop.simps [of G L c "Some w"])
qed

lemma scommand_tokens:
  assumes "toks p = arg_tokens as @ rest" and "stops rest"
  shows "\<exists>c q. parse_scommand G L p = Some (Inr (Some c, q)) \<and> sc_view elems c = cmd_denot as \<and> toks q = rest"
proof -
  obtain c0 where c0: "scommand_new G = Inr c0" "sc_view elems c0 = ([], None, None)"
    by (auto simp: scommand_new_def sc_view_def)
  obtain a k q where n: "parser_next_argument L (parser_skip_blanks L p) = (a, k, q)" by (rule prod_cases3)
  have "toks (parser_skip_blanks L p) = arg_tokens as @ rest" using assms(1) by (simp add: skip_blanks)
  from loop_tokens [OF this, of ARG_NORMAL rest id c0] n assms(2) c0 show ?thesis
    by (auto simp: parse_scommand_def cmd_denot_def)
qed

lemma scommand_bad:
  assumes "toks p = arg_tokens as @ T_bad k # rest" and "k \<noteq> ARG_NORMAL"
  shows "\<exists>q. parse_scommand G L p = Some (Inr (None, q)) \<and> toks q = rest"
proof -
  obtain c0 where c0: "scommand_new G = Inr c0" by (auto simp: scommand_new_def)
  obtain a k' q where n: "parser_next_argument L (parser_skip_blanks L p) = (a, k', q)" by (rule prod_cases3)
  have "k = ARG_INPUT \<or> k = ARG_OUTPUT" using assms(2) by (cases k) auto
  moreover have "toks (parser_skip_blanks L p) = arg_tokens as @ T_bad k # rest"
    using assms(1) by (simp add: skip_blanks)
  from loop_tokens [OF this, of k rest id c0] n c0
  obtain c' q' where "parse_scommand_loop G L c0 a k' q = Some (Inr (c', k, q'))" "toks q' = rest"
    by auto
  ultimately show ?thesis
    using n c0 by (auto simp: parse_scommand_def scommand_destroy_def)
qed

lemma stops_amp: "stops ((if bg then [T_amp] else []) @ T_newline # next_lines)"
  by (simp add: stops_def)

text \<open>The pipeline loop, entered with the first command of a line already parsed.\<close>

lemma pipeline_loop_tokens:
  assumes "toks p = (case cs of [] \<Rightarrow> [] | d # ds \<Rightarrow> T_pipe # line_tokens cs) @ (if bg then [T_amp] else []) @ T_newline # next_lines"
    and "sc_view elems c = cmd_denot as"
  shows "\<exists>r' q. parse_pipeline_loop GP G L r (Some c) True p = Some (Inr (r', False, q)) \<and>
     map (sc_view elems) (pelems (pipe r')) = map (sc_view elems) (pelems (pipe r)) @ map cmd_denot (as # cs) \<and>
     toks q = (if bg then [T_amp] else []) @ T_newline # next_lines"
  using assms
proof (induction cs arbitrary: p r c as)
  case Nil
  obtain r1 where r1: "pipeline_push_back GP (Some r) (Some c) = Inr r1" "pelems (pipe r1) = pelems (pipe r) @ [c]"
    by (auto simp: pipeline_push_back_def)
  obtain q where q: "parser_op_pipe L p = (False, q)" "toks q = toks p"
    using op_pipe [of p] Nil.prems(1) by (auto split: if_splits)
  have "toks q = arg_tokens [] @ (if bg then [T_amp] else []) @ T_newline # next_lines"
    using q Nil.prems(1) by (simp add: arg_tokens_def)
  then obtain c2 q2 where "parse_scommand G L q = Some (Inr (Some c2, q2))"
    "toks q2 = (if bg then [T_amp] else []) @ T_newline # next_lines"
    using scommand_tokens [OF _ stops_amp] by blast
  then show ?case
    using r1 q Nil.prems(2) by (simp add: parse_pipeline_loop.simps)
next
  case (Cons d ds)
  obtain r1 where r1: "pipeline_push_back GP (Some r) (Some c) = Inr r1" "pelems (pipe r1) = pelems (pipe r) @ [c]"
    by (auto simp: pipeline_push_back_def)
  let ?tail = "(if bg then [T_amp] else []) @ T_newline # next_lines"
  obtain q where q: "parser_op_pipe L p = (True, q)" "toks q = line_tokens (d # ds) @ ?tail"
    using op_pipe [of p] Cons.prems(1) by auto
  let ?rest = "(case ds of [] \<Rightarrow> [] | e # es \<Rightarrow> T_pipe # line_tokens ds) @ ?tail"
  have "toks q = arg_tokens d @ ?rest" using q(2) by (cases ds) simp_all
  moreover have "stops ?rest" by (cases ds) (simp_all add: stops_def)
  ultimately obtain c2 q2 where c2: "parse_scommand G L q = Some (Inr (Some c2, q2))"
    "sc_view elems c2 = cmd_denot d" "toks q2 = ?rest"
    using scommand_tokens by blast
  show ?case
    using Cons.IH [OF c2(3,2), of r1] r1 q c2 Cons.prems(2)
    by (auto simp: parse_pipeline_loop.simps [of GP G L r "Some c"])
qed

lemma parse_line:
  assumes "toks p = line_tokens (c # cs) @ (if bg then [T_amp] else []) @ T_newline # next_lines"
  shows "\<exists>r q. parse_pipeline GP G L p =
       Some (Inr (if cs = [] \<and> fst (cmd_denot c) = [] then None else Some r, [], q)) \<and>
     map (sc_view elems) (pelems (pipe r)) = map cmd_denot (c # cs) \<and>
     waiting r = (\<not> bg) \<and> toks q = next_lines"
proof -
  let ?tail = "(if bg then [T_amp] else []) @ T_newline # next_lines"
  let ?rest = "(case cs of [] \<Rightarrow> [] | e # es \<Rightarrow> T_pipe # line_tokens cs) @ ?tail"
  obtain r0 where r0: "pipeline_new GP = Inr r0" "pelems (pipe r0) = []"
    by (auto simp: pipeline_new_def)
  have "toks p = arg_tokens c @ ?rest" using assms by (cases cs) simp_all
  moreover have "stops ?rest" by (cases cs) (simp_all add: stops_def)
  ultimately obtain c1 p1 where c1: "parse_scommand G L p = Some (Inr (Some c1, p1))"
    "sc_view elems c1 = cmd_denot c" "toks p1 = ?rest"
    using scommand_tokens by blast
  obtain r1 p2 where r1: "parse_pipeline_loop GP G L r0 (Some c1) True p1 = Some (Inr (r1, False, p2))"
    "map (sc_view elems) (pelems (pipe r1)) = map cmd_denot (c # cs)" "toks p2 = ?tail"
    using pipeline_loop_tokens [OF c1(3,2), of r0] r0(2) by auto
  obtain p3 where p3: "parser_op_background L p2 = (bg, p3)" "toks p3 = T_newline # next_lines"
    using op_background [of p2] r1(3) by (cases bg) auto
  obtain p4 where p4: "parser_garbage L p3 = (False, p4)" "toks p4 = next_lines"
    using garbage [of p3] p3(2) by auto
  let ?r = "r1\<lparr>waiting := \<not> bg\<rparr>"
  have len: "length (pelems (pipe r1)) = length (c # cs)" using r1(2) by (metis length_map)
  then obtain d ds where d: "pelems (pipe r1) = d # ds" by (cases "pelems (pipe r1)") auto
  then have dv: "sc_view elems d = cmd_denot c" using r1(2) by simp
  have P: "gqueue GP pelems" ..
  have "parse_pipeline GP G L p =
       Some (Inr (if cs = [] \<and> fst (cmd_denot c) = [] then None else Some ?r, [], p4))"
    using r0 c1 r1(1) p3 p4 len d
    by (auto simp: parse_pipeline_def pipeline_set_wait_def pipeline_length_def pipeline_front_def
        scommand_length_def pipeline_destroy_ok [OF P] dv [symmetric] sc_view_def)
  then show ?thesis using r1(2) p4 by (intro exI [of _ ?r] exI [of _ p4]) simp
qed

text \<open>A redirection without a file name, in a command after the first.\<close>

lemma pipeline_loop_bad:
  assumes "toks p = T_pipe # before_pipe pre @ arg_tokens as @ T_bad k # rest" and "k \<noteq> ARG_NORMAL"
  shows "\<exists>r' q. parse_pipeline_loop GP G L r (Some c) True p = Some (Inr (r', True, q)) \<and> toks q = rest"
  using assms(1)
proof (induction pre arbitrary: p r c)
  case Nil
  obtain r1 where r1: "pipeline_push_back GP (Some r) (Some c) = Inr r1"
    by (auto simp: pipeline_push_back_def)
  obtain q where q: "parser_op_pipe L p = (True, q)" "toks q = arg_tokens as @ T_bad k # rest"
    using op_pipe [of p] Nil by (auto simp: before_pipe_def)
  obtain q2 where "parse_scommand G L q = Some (Inr (None, q2))" "toks q2 = rest"
    using scommand_bad [OF q(2) assms(2)] by blast
  then show ?case using r1 q
    by (simp add: parse_pipeline_loop.simps [of GP G L r "Some c"] parse_pipeline_loop.simps [of GP G L r1 None])
next
  case (Cons d ds)
  obtain r1 where r1: "pipeline_push_back GP (Some r) (Some c) = Inr r1"
    by (auto simp: pipeline_push_back_def)
  let ?rest = "T_pipe # before_pipe ds @ arg_tokens as @ T_bad k # rest"
  obtain q where q: "parser_op_pipe L p = (True, q)" "toks q = arg_tokens d @ ?rest"
    using op_pipe [of p] Cons.prems by (auto simp: before_pipe_def)
  have "stops ?rest" by (simp add: stops_def)
  from scommand_tokens [OF q(2) this] obtain c2 q2 where
    c2: "parse_scommand G L q = Some (Inr (Some c2, q2))" "toks q2 = ?rest" by blast
  show ?case
    using Cons.IH [OF c2(2), of r1 c2] r1 q c2(1)
    by (auto simp: parse_pipeline_loop.simps [of GP G L r "Some c"])
qed

lemma parse_bad:
  assumes "toks p = before_pipe pre @ arg_tokens as @ T_bad k # rest" and "k \<noteq> ARG_NORMAL"
  defines "rest' \<equiv> (if rest \<noteq> [] \<and> hd rest = T_amp then tl rest else rest)"
  shows "\<exists>q. parse_pipeline GP G L p =
       Some (if takeWhile (\<lambda>t. t \<noteq> T_newline) rest' \<noteq> [] then Inl AssertFailed
         else Inr (None, msg_no_file, q)) \<and> toks q = tl (dropWhile (\<lambda>t. t \<noteq> T_newline) rest')"
proof -
  obtain r0 where r0: "pipeline_new GP = Inr r0" by (auto simp: pipeline_new_def)
  obtain cmd p0 r1 p1 where p1: "parse_scommand G L p = Some (Inr (cmd, p0))"
    "parse_pipeline_loop GP G L r0 cmd True p0 = Some (Inr (r1, True, p1))" "toks p1 = rest"
  proof (cases pre)
    case Nil
    then obtain p1 where "parse_scommand G L p = Some (Inr (None, p1))" "toks p1 = rest"
      using scommand_bad [OF _ assms(2), of p as rest] assms(1) by (auto simp: before_pipe_def)
    then show ?thesis
      using that [of None p1 r0 p1] by (simp add: parse_pipeline_loop.simps [of GP G L r0 None])
  next
    case (Cons d ds)
    let ?rest = "T_pipe # before_pipe ds @ arg_tokens as @ T_bad k # rest"
    have "toks p = arg_tokens d @ ?rest" "stops ?rest"
      using assms(1) Cons by (simp_all add: before_pipe_def stops_def)
    from scommand_tokens [OF this] obtain c p0 where c: "parse_scommand G L p = Some (Inr (Some c, p0))"
      "toks p0 = ?rest" by blast
    then show ?thesis using pipeline_loop_bad [OF c(2) assms(2), of r0 c] that by blast
  qed
  obtain b p2 where p2: "parser_op_background L p1 = (b, p2)" "toks p2 = rest'"
    using op_background [of p1] p1(3) by (auto simp: rest'_def split: if_splits)
  obtain q where q: "parser_garbage L p2 = (takeWhile (\<lambda>t. t \<noteq> T_newline) rest' \<noteq> [], q)"
    "toks q = tl (dropWhile (\<lambda>t. t \<noteq> T_newline) rest')"
    using garbage [of p2] p2(2) by auto
  have P: "gqueue GP pelems" ..
  have "pipeline_destroy GP None = Inl AssertFailed" by (simp add: pipeline_destroy_def)
  then have "parse_pipeline GP G L p =
       Some (if takeWhile (\<lambda>t. t \<noteq> T_newline) rest' \<noteq> [] then Inl AssertFailed
         else Inr (None, msg_no_file, q))"
    using r0 p1 p2 q
    by (simp add: parse_pipeline_def pipeline_set_wait_def pipeline_destroy_ok [OF P])
  with q(2) show ?thesis by blast
qed

end

interpretation lsh: shell_parser token_parser "\<lambda>ts. ts"
  "list_gqueue :: (string list, string) gqueue_ops" "\<lambda>q. q"
  "list_gqueue :: (string list scommand list, string list scommand) gqueue_ops" "\<lambda>q. q" ..

section \<open>Properties\<close>

text \<open>C27: Parsing inverts writing: reading a line that consists of commands separated by pipe signs,
  possibly with \<^verbatim>\<open>&\<close> at the end, gives the pipeline of exactly these commands in order, each with
  its words in order and its last redirections, marked to be waited for unless there is an \<^verbatim>\<open>&\<close>;
  nothing is printed, the newline is consumed, and the next line is left unread.  An empty single
  command gives \<^verbatim>\<open>NULL\<close>.\<close>

theorem parse_pipeline_line:
  assumes "shell_parser L toks G elems GP pelems"
    and "toks p = line_tokens (c # cs) @ (if bg then [T_amp] else []) @ T_newline # next_lines"
  shows "\<exists>r q. parse_pipeline GP G L p =
       Some (Inr (if cs = [] \<and> fst (cmd_denot c) = [] then None else Some r, [], q)) \<and>
     map (sc_view elems) (pelems (pipe r)) = map cmd_denot (c # cs) \<and>
     waiting r = (\<not> bg) \<and> toks q = next_lines"
  using assms by (rule shell_parser.parse_line)

theorem parse_pipeline_line_witness:
  "\<exists>r. parse_pipeline list_gqueue list_gqueue token_parser
      [T_arg ARG_NORMAL ''ls'', T_arg ARG_OUTPUT ''f'', T_pipe, T_arg ARG_NORMAL ''wc'', T_amp, T_newline, T_pipe]
     = Some (Inr (Some r, [], [T_pipe])) \<and>
     map (sc_view (\<lambda>q. q)) (pipe r) = [([''ls''], None, Some ''f''), ([''wc''], None, None)] \<and> \<not> waiting r"
  using parse_pipeline_line [OF lsh.shell_parser_axioms,
      of _ "[(ARG_NORMAL, ''ls''), (ARG_OUTPUT, ''f'')]" "[[(ARG_NORMAL, ''wc'')]]" True "[T_pipe]"]
  by (simp add: arg_tokens_def cmd_denot_def)

text \<open>C39: A redirection with no file name, in the first command of a line or after any number of
  well-formed commands and pipe signs, is reported and the whole line discarded when nothing but a
  \<^verbatim>\<open>&\<close> follows it; when anything else follows on the line, the shell does not survive: it calls
  \<^verbatim>\<open>pipeline_destroy\<close> a second time, on \<^verbatim>\<open>NULL\<close>, and the assertion there fails.\<close>

theorem parse_pipeline_missing_file:
  assumes "shell_parser L toks G elems GP pelems"
    and "toks p = before_pipe pre @ arg_tokens as @ T_bad k # (if bg then [T_amp] else []) @ junk @ T_newline # next_lines"
    and "k \<noteq> ARG_NORMAL" and "T_newline \<notin> set junk" and "\<not> bg \<longrightarrow> junk = [] \<or> hd junk \<noteq> T_amp"
  shows "if junk = [] then
       \<exists>q. parse_pipeline GP G L p = Some (Inr (None, msg_no_file, q)) \<and> toks q = next_lines
     else parse_pipeline GP G L p = Some (Inl AssertFailed)"
proof -
  let ?rest = "(if bg then [T_amp] else []) @ junk @ T_newline # next_lines"
  have r: "(if ?rest \<noteq> [] \<and> hd ?rest = T_amp then tl ?rest else ?rest) = junk @ T_newline # next_lines"
    using assms(5) by (cases junk) auto
  have "takeWhile (\<lambda>t. t \<noteq> T_newline) (junk @ T_newline # next_lines) = junk"
    "dropWhile (\<lambda>t. t \<noteq> T_newline) (junk @ T_newline # next_lines) = T_newline # next_lines"
    using assms(4) by (induction junk) auto
  then show ?thesis
    using shell_parser.parse_bad [OF assms(1) assms(2,3)] unfolding r by auto
qed

theorem parse_pipeline_missing_file_witness:
  "parse_pipeline list_gqueue list_gqueue token_parser
     [T_arg ARG_NORMAL ''ls'', T_bad ARG_INPUT, T_pipe, T_arg ARG_NORMAL ''wc'', T_newline] = Some (Inl AssertFailed) \<and>
   (\<exists>q. parse_pipeline list_gqueue list_gqueue token_parser
     [T_arg ARG_NORMAL ''ls'', T_pipe, T_arg ARG_NORMAL ''wc'', T_bad ARG_OUTPUT, T_amp, T_newline] =
       Some (Inr (None, msg_no_file, q)) \<and> q = [])"
  using parse_pipeline_missing_file [OF lsh.shell_parser_axioms,
      of _ "[]" "[(ARG_NORMAL, ''ls'')]" ARG_INPUT False "[T_pipe, T_arg ARG_NORMAL ''wc'']" "[]"]
    parse_pipeline_missing_file [OF lsh.shell_parser_axioms,
      of _ "[[(ARG_NORMAL, ''ls'')]]" "[(ARG_NORMAL, ''wc'')]" ARG_OUTPUT True "[]" "[]"]
  by (simp add: arg_tokens_def before_pipe_def)

end
