(* ===== verification/Execute.thy ===== *)
theory Execute
  imports Parsing
begin

text \<open>
  Running a pipeline, \<^verbatim>\<open>src/lab1/builtin.c\<close>, \<^verbatim>\<open>execute.c\<close> and the main loop in \<^verbatim>\<open>mybash.c\<close>.
  The C library's process calls act on a record: the shell's descriptor table, what it printed,
  and the children it forked, each with the descriptor table and the arguments it ends up
  executing.  What the outside world decides (which files can be opened, which forks and
  \<^verbatim>\<open>execvp\<close>s succeed, the login name) is the record \<open>uenv\<close>.
\<close>

section \<open>Processes and descriptors\<close>

text \<open>An open file has the flags it was opened with, those of \<^verbatim>\<open>fcntl.h\<close> on Linux.\<close>

datatype ofile = Terminal nat | Opened string nat | Pipe_read nat | Pipe_write nat

definition O_RDONLY :: nat where "O_RDONLY = 0"
definition O_WRONLY :: nat where "O_WRONLY = 1"
definition O_CREAT :: nat where "O_CREAT = 64"
definition O_TRUNC :: nat where "O_TRUNC = 512"

definition File_in :: "string \<Rightarrow> ofile" where "File_in name = Opened name O_RDONLY"
definition File_out :: "string \<Rightarrow> ofile" where "File_out name = Opened name (O_CREAT + O_WRONLY + O_TRUNC)"

type_synonym fdtable = "nat \<Rightarrow> ofile option"

record uenv =
  open_max :: nat
  open_ok :: "string \<Rightarrow> nat \<Rightarrow> bool"
  fork_ok :: "nat \<Rightarrow> bool"
  exec_ok :: "string \<Rightarrow> bool"
  exec_error :: "string \<Rightarrow> string"
  chdir_ok :: "string \<Rightarrow> bool"
  getlogin :: "string option"
  prompt :: "string \<Rightarrow> string"

text \<open>
  How a process leaves a piece of code: it returns, it exits, it exits after writing a message to what its descriptor 2
  stands for, or it becomes another program.
\<close>

datatype 'a flow = Return 'a | Exit nat | Fails string "ofile option" nat | Exec "string list" fdtable

record ushell =
  fds :: fdtable
  npipes :: nat
  npid :: nat
  uout :: string
  udir :: string
  children :: "(nat \<times> unit flow) list"
  waited :: "nat list"
  sigchld_ign :: bool

definition lowest_free :: "uenv \<Rightarrow> fdtable \<Rightarrow> nat option" where
  "lowest_free E f = find (\<lambda>n. f n = None) [0..<open_max E]"

definition dup2 :: "nat \<Rightarrow> nat \<Rightarrow> fdtable \<Rightarrow> fdtable" where
  "dup2 old new f = (if f old = None then f else f(new := f old))"

definition close_fd :: "nat \<Rightarrow> fdtable \<Rightarrow> fdtable" where
  "close_fd n f = f(n := None)"

text \<open>\<^verbatim>\<open>pipe(a)\<close>: the new ends, or no change to the array \<open>a\<close> when it fails.\<close>

definition c_pipe :: "uenv \<Rightarrow> (nat \<times> nat) option \<Rightarrow> ushell \<Rightarrow> (nat \<times> nat) option \<times> ushell" where
  "c_pipe E a u =
     (case lowest_free E (fds u) of
        None \<Rightarrow> (a, u)
      | Some r \<Rightarrow>
          (let f = (fds u)(r := Some (Pipe_read (npipes u))) in
           case lowest_free E f of
             None \<Rightarrow> (a, u)
           | Some w \<Rightarrow> (Some (r, w), u\<lparr>fds := f(w := Some (Pipe_write (npipes u))), npipes := npipes u + 1\<rparr>)))"

definition c_printf :: "string \<Rightarrow> ushell \<Rightarrow> ushell" where
  "c_printf msg u = u\<lparr>uout := uout u @ msg\<rparr>"

section \<open>builtin.c\<close>

definition buildins :: "string list" where
  "buildins = [''cd'', ''help'', ''exit'']"

definition builtin_is_internal :: "('q, string) gqueue_ops \<Rightarrow> 'q scommand option \<Rightarrow> abort + bool" where
  "builtin_is_internal G cmd =
     (if cmd = None then Inl AssertFailed
      else sbind (scommand_front G cmd) (\<lambda>command.
        Inr (foldl (\<lambda>internal b. internal \<or> b = command) False buildins)))"

definition builtin_alone ::
  "('pq, 'q scommand) gqueue_ops \<Rightarrow> ('q, string) gqueue_ops \<Rightarrow> 'pq pipeline option \<Rightarrow> abort + bool" where
  "builtin_alone GP G p =
     (if p = None then Inl AssertFailed
      else sbind (pipeline_length GP p) (\<lambda>n.
        if n = 1 then sbind (pipeline_front GP p) (\<lambda>c. builtin_is_internal G (Some c)) else Inr False))"

definition help_text :: string where
  "help_text =
     [CHR 0xC2, CHR 0xAB] @ ''CATGPT shell'' @ [CHR 0xC2, CHR 0xBB, CHR 0x0A] @
     ''Shell made by Group 06 >> Salvador Amor, Franco Aredes, Sara Ferreyra and Gast'' @
     [CHR 0xC3, CHR 0xB3] @ ''n Meza'' @ [CHR 0x0A] @
     ''CATGPT has the following built-in commands:'' @ [CHR 0x0A] @
     [CHR 0x09] @ ''-cd '' @ [CHR 0xE2, CHR 0x80, CHR 0x94] @ '' Changes the working directory.'' @ [CHR 0x0A] @
     [CHR 0x09] @ ''cd <path>'' @ [CHR 0x0A] @
     [CHR 0x09] @ ''<path> is the directory that shall become the new working directory.'' @ [CHR 0x0A] @
     [CHR 0x09] @ ''-help '' @ [CHR 0xE2, CHR 0x80, CHR 0x94] @
     '' Displays information about built-in commands (This message).'' @ [CHR 0x0A] @
     [CHR 0x09] @ ''-exit '' @ [CHR 0xE2, CHR 0x80, CHR 0x94] @ '' Causes normal process termination.'' @ [CHR 0x0A]"

definition builtin_run ::
  "uenv \<Rightarrow> ('q, string) gqueue_ops \<Rightarrow> 'q scommand \<Rightarrow> ushell \<Rightarrow> abort + 'q scommand flow \<times> ushell" where
  "builtin_run E G cmd u =
     sbind (builtin_is_internal G (Some cmd)) (\<lambda>internal.
     if \<not> internal then Inl AssertFailed
     else
       sbind (scommand_front G (Some cmd)) (\<lambda>command.
       if command = buildins ! 0 then
         sbind (scommand_pop_front G (Some cmd)) (\<lambda>cmd.
         sbind (scommand_length G (Some cmd)) (\<lambda>n.
         sbind (if n = 0 then
                  (case getlogin E of
                     None \<Rightarrow> Inl Undefined
                   | Some l \<Rightarrow>
                       sbind (strmerge ''/home/'' l) (\<lambda>home. scommand_push_back G (Some cmd) (Some home)))
                else Inr cmd) (\<lambda>cmd.
         sbind (scommand_front G (Some cmd)) (\<lambda>directory.
           if chdir_ok E directory then Inr (Return cmd, u\<lparr>udir := directory\<rparr>)
           else Inr (Return cmd, c_printf (''mybash: cd: The following directory>'' @ directory @
                  '' does not exist'' @ [CHR 0x0A]) u)))))
       else if command = buildins ! 1 then Inr (Return cmd, c_printf help_text u)
       else if command = buildins ! 2 then Inr (Exit 0, c_printf (''Bye!'' @ [CHR 0x0A]) u)
       else Inr (Return cmd, u)))"

section \<open>execute.c\<close>

text \<open>One redirection of a child's table; a file that does not open ends the child with a message.\<close>

definition error_msg :: string where "error_msg = ''mybash error!'' @ [CHR 0x0A]"

definition redirect_to :: "uenv \<Rightarrow> string option \<Rightarrow> nat \<Rightarrow> nat \<Rightarrow> fdtable \<Rightarrow> fdtable flow" where
  "redirect_to E name flags target f =
     (case name of
        None \<Rightarrow> Return f
      | Some file \<Rightarrow>
          (case (if open_ok E file flags then lowest_free E f else None) of
             None \<Rightarrow> Fails (error_msg @ [CHR 0x0A]) (f 2) 1
           | Some redir \<Rightarrow> Return (close_fd redir (dup2 redir target (f(redir := Some (Opened file flags)))))))"

definition redirection :: "uenv \<Rightarrow> 'q scommand \<Rightarrow> fdtable \<Rightarrow> abort + fdtable flow" where
  "redirection E cmd f =
     sbind (scommand_get_redir_in (Some cmd)) (\<lambda>filename_in.
     sbind (scommand_get_redir_out (Some cmd)) (\<lambda>filename_out.
       Inr (case redirect_to E filename_in O_RDONLY 0 f of
          Return f \<Rightarrow> redirect_to E filename_out (O_CREAT + O_WRONLY + O_TRUNC) 1 f
        | other \<Rightarrow> other)))"

definition execute_command :: "uenv \<Rightarrow> ('q, string) gqueue_ops \<Rightarrow> 'q scommand \<Rightarrow> fdtable \<Rightarrow> abort + unit flow" where
  "execute_command E G cmd f =
     sbind (redirection E cmd f) (\<lambda>r.
     case r of
       Return f \<Rightarrow>
         sbind (scommand_length G (Some cmd)) (\<lambda>n.
         sbind (drain (scommand_front G) (scommand_pop_front G) n cmd) (\<lambda>args.
           case args of
             [] \<Rightarrow> Inl Undefined
           | a # _ \<Rightarrow>
               if exec_ok E a then Inr (Exec args f)
               else sbind (strmerge ''mybash: '' a) (\<lambda>msg.
                 Inr (Fails (msg @ '': '' @ exec_error E a @ [CHR 0x0A]) (f 2) 1))))
     | Exit n \<Rightarrow> Inr (Exit n)
     | Fails msg out n \<Rightarrow> Inr (Fails msg out n)
     | Exec args f \<Rightarrow> Inr (Exec args f))"
text \<open>
  A child's pipe ends.  An array that was never filled holds no defined number.  The child
  that is neither the first nor the last closes and redirects both sides.
\<close>

definition out_end :: "(nat \<times> nat) option \<Rightarrow> fdtable \<Rightarrow> abort + fdtable" where
  "out_end pipe1 f =
     (case pipe1 of
        None \<Rightarrow> Inl Undefined
      | Some (r, w) \<Rightarrow> Inr (close_fd w (dup2 w 1 (close_fd r f))))"

definition in_end :: "(nat \<times> nat) option \<Rightarrow> fdtable \<Rightarrow> abort + fdtable" where
  "in_end pipe0 f =
     (case pipe0 of
        None \<Rightarrow> Inl Undefined
      | Some (r, w) \<Rightarrow> Inr (close_fd r (dup2 r 0 (close_fd w f))))"

definition child_run ::
  "uenv \<Rightarrow> ('q, string) gqueue_ops \<Rightarrow> nat \<Rightarrow> nat \<Rightarrow> (nat \<times> nat) option \<Rightarrow> (nat \<times> nat) option \<Rightarrow>
   'q scommand \<Rightarrow> fdtable \<Rightarrow> abort + unit flow" where
  "child_run E G n i pipe0 pipe1 cmd f =
     (if n = 1 then execute_command E G cmd f
      else
        sbind (if i = 1 then out_end pipe1 f
               else if i = n then in_end pipe0 f
               else sbind (in_end pipe0 f) (out_end pipe1)) (\<lambda>f.
        execute_command E G cmd f))"

definition close_pair :: "(nat \<times> nat) option \<Rightarrow> fdtable \<Rightarrow> abort + fdtable" where
  "close_pair pipe0 f =
     (case pipe0 of
        None \<Rightarrow> Inl Undefined
      | Some (r, w) \<Rightarrow> Inr (close_fd w (close_fd r f)))"

text \<open>
  One turn of the loop: the array \<open>pipe1\<close>, the pipeline and the shell's state, or \<open>None\<close> when
  \<^verbatim>\<open>fork\<close> failed and the function returned.
\<close>

definition execute_step ::
  "uenv \<Rightarrow> ('pq, 'q scommand) gqueue_ops \<Rightarrow> ('q, string) gqueue_ops \<Rightarrow> nat \<Rightarrow> nat \<Rightarrow>
   (nat \<times> nat) option \<Rightarrow> 'pq pipeline \<Rightarrow> ushell \<Rightarrow>
   abort + ((nat \<times> nat) option \<times> 'pq pipeline \<times> nat) option \<times> ushell" where
  "execute_step E GP G n i pipe1 apipe u =
     sbind (pipeline_front GP (Some apipe)) (\<lambda>cmd.
     (let pipe0 = pipe1;
          (pipe1, u) = (if i \<noteq> n then c_pipe E pipe1 u else (pipe1, u))
      in
      if \<not> fork_ok E (npid u) then Inr (None, c_printf (''Fork did not work!'' @ [CHR 0x0A]) u)
      else
        sbind (child_run E G n i pipe0 pipe1 cmd (fds u)) (\<lambda>child.
        (let fork_id = npid u;
             u = u\<lparr>children := children u @ [(fork_id, child)], npid := npid u + 1\<rparr>
         in
         sbind (if i > 1 then close_pair pipe0 (fds u) else Inr (fds u)) (\<lambda>f.
         sbind (pipeline_pop_front GP (Some apipe)) (\<lambda>apipe.
           Inr (Some (pipe1, apipe, fork_id), u\<lparr>fds := f\<rparr>)))))))"

fun execute_loop ::
  "uenv \<Rightarrow> ('pq, 'q scommand) gqueue_ops \<Rightarrow> ('q, string) gqueue_ops \<Rightarrow> nat \<Rightarrow> nat list \<Rightarrow>
   (nat \<times> nat) option \<Rightarrow> 'pq pipeline \<Rightarrow> nat list \<Rightarrow> ushell \<Rightarrow>
   abort + ('pq pipeline \<times> nat list) option \<times> ushell" where
  "execute_loop E GP G n [] pipe1 apipe pids u = Inr (Some (apipe, pids), u)"
| "execute_loop E GP G n (i # is) pipe1 apipe pids u =
     sbind (execute_step E GP G n i pipe1 apipe u) (\<lambda>(r, u).
       case r of
         None \<Rightarrow> Inr (None, u)
       | Some (pipe1, apipe, pid) \<Rightarrow> execute_loop E GP G n is pipe1 apipe (pids @ [pid]) u)"

definition execute_pipeline ::
  "uenv \<Rightarrow> ('pq, 'q scommand) gqueue_ops \<Rightarrow> ('q, string) gqueue_ops \<Rightarrow> 'pq pipeline option \<Rightarrow> ushell \<Rightarrow>
   abort + unit flow \<times> ushell" where
  "execute_pipeline E GP G apipe u =
     (case apipe of
        None \<Rightarrow> Inl AssertFailed
      | Some p \<Rightarrow>
          sbind (pipeline_length GP (Some p)) (\<lambda>n.
          sbind (builtin_alone GP G (Some p)) (\<lambda>alone.
          if alone then
            sbind (pipeline_front GP (Some p)) (\<lambda>c.
            sbind (builtin_run E G c u) (\<lambda>(r, u).
              case r of Exit k \<Rightarrow> Inr (Exit k, u) | _ \<Rightarrow> Inr (Return (), u)))
          else
            sbind (pipeline_get_wait (Some p)) (\<lambda>wait.
            sbind (execute_loop E GP G n [1..<n + 1] None p [] (if wait then u else u\<lparr>sigchld_ign := True\<rparr>)) (\<lambda>(r, u).
              case r of
                None \<Rightarrow> Inr (Return (), u)
              | Some (p, pids) \<Rightarrow>
                  sbind (pipeline_get_wait (Some p)) (\<lambda>wait.
                  Inr (Return (), if wait then u\<lparr>waited := waited u @ pids\<rparr> else u)))))))"

section \<open>mybash.c\<close>

definition show_prompt :: "uenv \<Rightarrow> ushell \<Rightarrow> ushell" where
  "show_prompt E u = c_printf (prompt E (udir u)) u"

text \<open>The main loop; an \<open>Exit\<close> is the \<^verbatim>\<open>exit\<close> builtin, a \<open>Return\<close> the end of the input.\<close>

partial_function (option) main_loop ::
  "uenv \<Rightarrow> ('pq, 'q scommand) gqueue_ops \<Rightarrow> ('q, string) gqueue_ops \<Rightarrow> 'p parser_ops \<Rightarrow> 'p \<Rightarrow> ushell \<Rightarrow>
   (abort + unit flow \<times> ushell) option" where
  "main_loop E GP G L input u =
     Option.bind (parse_pipeline GP G L input) (\<lambda>r.
       case r of
         Inl e \<Rightarrow> Some (Inl e)
       | Inr (pl, out, input) \<Rightarrow>
           (case (case pl of
                    None \<Rightarrow> Inr (Return (), c_printf out (show_prompt E u))
                  | Some p \<Rightarrow>
                      sbind (execute_pipeline E GP G (Some p) (c_printf out (show_prompt E u))) (\<lambda>(r, u).
                        case r of
                          Return _ \<Rightarrow> sbind (pipeline_destroy GP (Some p)) (\<lambda>_. Inr (r, u))
                        | other \<Rightarrow> Inr (other, u))) of
              Inl e \<Rightarrow> Some (Inl e)
            | Inr (r, u) \<Rightarrow>
                (case r of
                   Return _ \<Rightarrow> if parser_at_eof L input then Some (Inr (Return (), u)) else main_loop E GP G L input u
                 | other \<Rightarrow> Some (Inr (other, u)))))"

section \<open>Descriptor tables\<close>

definition room :: "nat \<Rightarrow> uenv \<Rightarrow> fdtable \<Rightarrow> bool" where
  "room k E f \<longleftrightarrow> k \<le> card {n. n < open_max E \<and> f n = None}"

lemma room_Suc:
  assumes "room (Suc k) E f"
  shows "\<exists>n. lowest_free E f = Some n \<and> f n = None \<and> (\<forall>x. room k E (f(n := x)))"
proof -
  have "{n. n < open_max E \<and> f n = None} \<noteq> {}"
  proof
    assume "{n. n < open_max E \<and> f n = None} = {}"
    then show False using assms unfolding room_def by (metis card.empty not_less_eq_eq zero_le)
  qed
  then have "lowest_free E f \<noteq> None" by (auto simp: lowest_free_def find_None_iff)
  then obtain n where n: "lowest_free E f = Some n" by auto
  then have "n < open_max E" "f n = None" by (auto simp: lowest_free_def find_upt_Some)
  moreover have "room k E (f(n := x))" for x
  proof -
    have "card ({m. m < open_max E \<and> f m = None} - {n}) = card {m. m < open_max E \<and> f m = None} - 1"
      using \<open>n < open_max E\<close> \<open>f n = None\<close> by simp
    moreover have "card ({m. m < open_max E \<and> f m = None} - {n}) \<le> card {m. m < open_max E \<and> (f(n := x)) m = None}"
      by (rule card_mono) auto
    ultimately show ?thesis using assms by (simp add: room_def)
  qed
  ultimately show ?thesis using n by blast
qed

lemma room_used: "f n \<noteq> None \<Longrightarrow> x \<noteq> None \<Longrightarrow> room k E (f(n := x)) \<longleftrightarrow> room k E f"
proof -
  assume "f n \<noteq> None" "x \<noteq> None"
  then have "{m. m < open_max E \<and> (f(n := x)) m = None} = {m. m < open_max E \<and> f m = None}"
    by (auto split: if_splits)
  then show ?thesis by (simp add: room_def)
qed

lemma room_mono: "room k E f \<Longrightarrow> j \<le> k \<Longrightarrow> room j E f"
  by (simp add: room_def)

lemma c_pipe_ok:
  assumes "room (k + 2) E (fds u)"
  shows "\<exists>r w. c_pipe E a u = (Some (r, w), u\<lparr>fds := (fds u)(r := Some (Pipe_read (npipes u)),
       w := Some (Pipe_write (npipes u))), npipes := npipes u + 1\<rparr>) \<and>
     r \<noteq> w \<and> fds u r = None \<and> fds u w = None"
proof -
  obtain r where r: "lowest_free E (fds u) = Some r" "fds u r = None"
    "\<forall>x. room (Suc k) E ((fds u)(r := x))"
    using room_Suc [of "Suc k" E "fds u"] assms by auto
  let ?f = "(fds u)(r := Some (Pipe_read (npipes u)))"
  obtain w where w: "lowest_free E ?f = Some w" "?f w = None"
    using room_Suc [of k E ?f] r(3) by auto
  then have "r \<noteq> w" by auto
  with r w show ?thesis by (auto simp: c_pipe_def Let_def)
qed

lemma redirect_ok:
  assumes "room 1 E f" and "f t \<noteq> None" and "\<And>x. name = Some x \<Longrightarrow> open_ok E x flags"
  shows "redirect_to E name flags t f = Return (case name of None \<Rightarrow> f | Some x \<Rightarrow> f(t := Some (Opened x flags)))"
proof (cases name)
  case None
  then show ?thesis by (simp add: redirect_to_def)
next
  case (Some x)
  obtain r where r: "lowest_free E f = Some r" "f r = None" using room_Suc [of 0 E f] assms(1) by auto
  then have "r \<noteq> t" using assms(2) by auto
  then show ?thesis
    using Some r assms(3) by (auto simp: redirect_to_def dup2_def close_fd_def fun_eq_iff)
qed

text \<open>Where a command's standard input and output go, and what a child inherits.\<close>

definition redirected :: "'q scommand \<Rightarrow> fdtable \<Rightarrow> fdtable" where
  "redirected c f =
     f(0 := (case redir_in c of None \<Rightarrow> f 0 | Some x \<Rightarrow> Some (File_in x)),
       1 := (case redir_out c of None \<Rightarrow> f 1 | Some x \<Rightarrow> Some (File_out x)))"

definition stage_table :: "nat \<Rightarrow> nat \<Rightarrow> nat \<Rightarrow> fdtable \<Rightarrow> fdtable" where
  "stage_table b n k f =
     f(0 := (if k = 0 then f 0 else Some (Pipe_read (b + k - 1))),
       1 := (if k + 1 = n then f 1 else Some (Pipe_write (b + k))))"

text \<open>Nothing refused by the outside world.\<close>

definition fair :: "uenv \<Rightarrow> bool" where
  "fair E \<longleftrightarrow> (\<forall>x flags. open_ok E x flags) \<and> (\<forall>n. fork_ok E n) \<and> (\<forall>x. exec_ok E x)"

definition stdio :: "fdtable \<Rightarrow> bool" where
  "stdio f \<longleftrightarrow> f 0 \<noteq> None \<and> f 1 \<noteq> None"

text \<open>A table with both ends of pipe \<open>x\<close> open, at descriptors that are free below.\<close>

definition with_pipe :: "nat \<times> nat \<Rightarrow> nat \<Rightarrow> fdtable \<Rightarrow> fdtable" where
  "with_pipe a x f = f(fst a := Some (Pipe_read x), snd a := Some (Pipe_write x))"

definition fresh_pair :: "nat \<times> nat \<Rightarrow> fdtable \<Rightarrow> bool" where
  "fresh_pair a f \<longleftrightarrow> fst a \<noteq> snd a \<and> f (fst a) = None \<and> f (snd a) = None"

lemma fresh_not_std:
  "fresh_pair a f \<Longrightarrow> stdio f \<Longrightarrow> fst a \<noteq> 0 \<and> fst a \<noteq> 1 \<and> snd a \<noteq> 0 \<and> snd a \<noteq> 1"
  unfolding fresh_pair_def stdio_def by (intro conjI notI) auto

lemma in_end_ok:
  "fresh_pair a f \<Longrightarrow> stdio f \<Longrightarrow> in_end (Some a) (with_pipe a x f) = Inr (f(0 := Some (Pipe_read x)))"
  using fresh_not_std [of a f]
  by (cases a) (auto simp: in_end_def with_pipe_def fresh_pair_def stdio_def dup2_def close_fd_def fun_eq_iff)

lemma out_end_ok:
  "fresh_pair a f \<Longrightarrow> stdio f \<Longrightarrow> out_end (Some a) (with_pipe a x f) = Inr (f(1 := Some (Pipe_write x)))"
  using fresh_not_std [of a f]
  by (cases a) (auto simp: out_end_def with_pipe_def fresh_pair_def stdio_def dup2_def close_fd_def fun_eq_iff)

lemma with_pipe_swap:
  "fresh_pair a f \<Longrightarrow> fresh_pair b (with_pipe a x f) \<Longrightarrow>
   with_pipe b y (with_pipe a x f) = with_pipe a x (with_pipe b y f)"
  by (cases a; cases b) (auto simp: with_pipe_def fresh_pair_def fun_eq_iff)

lemma close_pair_ok: "fresh_pair a f \<Longrightarrow> close_pair (Some a) (with_pipe a x f) = Inr f"
  by (cases a) (auto simp: close_pair_def with_pipe_def fresh_pair_def close_fd_def fun_eq_iff)

lemma fresh_pair_under:
  "fresh_pair b (with_pipe a x f) \<Longrightarrow> fresh_pair b f"
  by (cases a; cases b) (auto simp: with_pipe_def fresh_pair_def split: if_splits)

lemma fresh_pair_over:
  "fresh_pair a f \<Longrightarrow> fresh_pair b (with_pipe a x f) \<Longrightarrow> fresh_pair a (with_pipe b y f)"
  by (cases a; cases b) (auto simp: with_pipe_def fresh_pair_def split: if_splits)

lemma fresh_pair_std: "fresh_pair a f \<Longrightarrow> stdio f \<Longrightarrow> j \<le> 1 \<Longrightarrow> fresh_pair a (f(j := Some y))"
  using fresh_not_std [of a f]
  by (cases a) (auto simp: fresh_pair_def le_Suc_eq)

lemma stdio_with_pipe: "stdio f \<Longrightarrow> stdio (with_pipe a x f)"
  by (auto simp: stdio_def with_pipe_def)

lemma with_pipe_std: "fresh_pair a f \<Longrightarrow> stdio f \<Longrightarrow> (with_pipe a x f)(0 := Some y) = with_pipe a x (f(0 := Some y))"
  by (cases a) (auto simp: with_pipe_def fresh_pair_def stdio_def fun_eq_iff)

lemma room_with_pipe: "fresh_pair a f \<Longrightarrow> room (k + 2) E f \<Longrightarrow> room k E (with_pipe a x f)"
proof -
  assume a: "fresh_pair a f" "room (k + 2) E f"
  have "card ({n. n < open_max E \<and> f n = None} - {fst a, snd a}) \<le> card {n. n < open_max E \<and> with_pipe a x f n = None}"
    by (rule card_mono) (auto simp: with_pipe_def)
  moreover have "card {n. n < open_max E \<and> f n = None} - card {fst a, snd a}
      \<le> card ({n. n < open_max E \<and> f n = None} - {fst a, snd a})"
    by (rule diff_card_le_card_Diff) simp
  ultimately show ?thesis using a by (simp add: room_def fresh_pair_def)
qed

locale shell_queues = string_queue G elems + command_queue GP pelems
  for G :: "('q, string) gqueue_ops" and elems and GP :: "('pq, 'q scommand) gqueue_ops" and pelems
begin

lemma execute_command_ok:
  assumes "fair E" and "room 1 E f" and "stdio f" and "elems (comm c) \<noteq> []"
  shows "execute_command E G c f = Inr (Exec (elems (comm c)) (redirected c f))"
proof -
  let ?g = "case redir_in c of None \<Rightarrow> f | Some x \<Rightarrow> f(0 := Some (File_in x))"
  have g: "room 1 E ?g" "?g 1 \<noteq> None"
    using assms(2,3) by (auto simp: stdio_def room_used split: option.split)
  have "redirect_to E (redir_in c) O_RDONLY 0 f = Return ?g"
    unfolding File_in_def using assms by (intro redirect_ok) (auto simp: stdio_def fair_def)
  moreover have "redirect_to E (redir_out c) (O_CREAT + O_WRONLY + O_TRUNC) 1 ?g =
      Return (case redir_out c of None \<Rightarrow> ?g | Some x \<Rightarrow> ?g(1 := Some (File_out x)))"
    unfolding File_out_def using g assms by (intro redirect_ok) (auto simp: fair_def)
  moreover have "(case redir_out c of None \<Rightarrow> ?g | Some x \<Rightarrow> ?g(1 := Some (File_out x))) = redirected c f"
    by (auto simp: redirected_def fun_eq_iff split: option.split)
  ultimately have "redirection E c f = Inr (Return (redirected c f))"
    by (simp add: redirection_def scommand_get_redir_in_def scommand_get_redir_out_def)
  then show ?thesis
    using assms(1,4) sc.drain_contents [of c]
    by (cases "elems (comm c)") (auto simp: execute_command_def scommand_length_def fair_def)
qed

text \<open>
  The table of the shell when it forks child \<open>k\<close>: the previous pipe, unless the child is the
  first, and the next one, unless it is the last.
\<close>

lemma child_run_ok:
  assumes E: "fair E" "room 1 E f" "stdio f" and args: "elems (comm c) \<noteq> []" and "k < n"
    and p0: "k > 0 \<Longrightarrow> pipe0 = Some a \<and> fresh_pair a f"
    and p1: "k + 1 < n \<Longrightarrow> pipe1 = Some d \<and> fresh_pair d (if k > 0 then with_pipe a (b + k - 1) f else f)"
  shows "child_run E G n (k + 1) pipe0 pipe1 c
      (let g = (if k > 0 then with_pipe a (b + k - 1) f else f)
       in if k + 1 < n then with_pipe d (b + k) g else g)
     = Inr (Exec (elems (comm c)) (redirected c (stage_table b n k f)))"
proof -
  have st: "room 1 E (stage_table b n k f)" "stdio (stage_table b n k f)"
    using E by (auto simp: stage_table_def stdio_def room_used)
  note ex = execute_command_ok [OF E(1) st args]
  consider "n = 1" | "n > 1" "k = 0" | "n > 1" "k > 0" "k + 1 = n" | "k > 0" "k + 1 < n"
    using \<open>k < n\<close> by linarith
  then show ?thesis
  proof cases
    case 1
    then have "stage_table b n k f = f" using \<open>k < n\<close> by (simp add: stage_table_def)
    with ex 1 show ?thesis using \<open>k < n\<close> by (simp add: child_run_def)
  next
    case 2
    then have "stage_table b n k f = f(1 := Some (Pipe_write b))" by (simp add: stage_table_def)
    with ex 2 p1 E(3) show ?thesis by (simp add: child_run_def out_end_ok)
  next
    case 3
    then have "stage_table b n k f = f(0 := Some (Pipe_read (b + k - 1)))"
      by (auto simp: stage_table_def fun_eq_iff)
    with ex 3 p0 E(3) show ?thesis by (simp add: child_run_def in_end_ok)
  next
    case 4
    let ?x = "b + k - 1" and ?y = "b + k"
    have a: "pipe0 = Some a" "fresh_pair a f" and d: "pipe1 = Some d" "fresh_pair d (with_pipe a ?x f)"
      using p0 p1 4 by auto
    have d': "fresh_pair d f" and a': "fresh_pair a (with_pipe d ?y f)"
      using fresh_pair_under [OF d(2)] fresh_pair_over [OF a(2) d(2)] by auto
    have "in_end (Some a) (with_pipe d ?y (with_pipe a ?x f)) = Inr (with_pipe d ?y (f(0 := Some (Pipe_read ?x))))"
      using in_end_ok [OF a' stdio_with_pipe [OF E(3)], of ?x] with_pipe_swap [OF a(2) d(2)]
        with_pipe_std [OF d' E(3)] by simp
    moreover have "out_end (Some d) (with_pipe d ?y (f(0 := Some (Pipe_read ?x)))) =
        Inr (f(0 := Some (Pipe_read ?x), 1 := Some (Pipe_write ?y)))"
      using E(3) by (intro out_end_ok fresh_pair_std [OF d' E(3)]) (auto simp: stdio_def)
    moreover have "stage_table b n k f = f(0 := Some (Pipe_read ?x), 1 := Some (Pipe_write ?y))"
      using 4 by (auto simp: stage_table_def fun_eq_iff)
    ultimately show ?thesis using ex 4 a(1) d(1) by (simp add: child_run_def)
  qed
qed

text \<open>The shell before it forks child \<open>k\<close>.\<close>

definition at_head :: "nat \<Rightarrow> nat \<Rightarrow> fdtable \<Rightarrow> nat \<Rightarrow> (nat \<times> nat) option \<Rightarrow> ushell \<Rightarrow> bool" where
  "at_head n b f k pipe1 u \<longleftrightarrow>
     (if 0 < k \<and> k < n then \<exists>a. pipe1 = Some a \<and> fresh_pair a f \<and> fds u = with_pipe a (b + k - 1) f
      else fds u = f) \<and> (k < n \<longrightarrow> npipes u = b + k)"

lemma execute_step_ok:
  assumes E: "fair E" "room 4 E f" "stdio f" and h: "at_head n b f k pipe1 u" and k: "k < n"
    and p: "pelems (pipe p) = c # cs" and args: "elems (comm c) \<noteq> []"
  shows "\<exists>pipe1' p' u'. execute_step E GP G n (k + 1) pipe1 p u = Inr (Some (pipe1', p', npid u), u') \<and>
     pelems (pipe p') = cs \<and> waiting p' = waiting p \<and> at_head n b f (k + 1) pipe1' u' \<and>
     children u' = children u @ [(npid u, Exec (elems (comm c)) (redirected c (stage_table b n k f)))] \<and>
     npid u' = npid u + 1 \<and> waited u' = waited u"
proof -
  obtain a where a: "k > 0 \<Longrightarrow> pipe1 = Some a \<and> fresh_pair a f"
    and fu: "fds u = (if k > 0 then with_pipe a (b + k - 1) f else f)" and b: "npipes u = b + k"
    using h k by (cases "k > 0") (auto simp: at_head_def)
  let ?g = "if k > 0 then with_pipe a (b + k - 1) f else f"
  have room: "room 2 E ?g" using E(2) a by (auto intro: room_mono simp: room_with_pipe)
  obtain d u1 where d: "k + 1 < n \<Longrightarrow> fresh_pair d ?g"
    and pipe: "(if k + 1 \<noteq> n then c_pipe E pipe1 u else (pipe1, u)) = (if k + 1 < n then Some d else pipe1, u1)"
    and u1: "fds u1 = (if k + 1 < n then with_pipe d (b + k) ?g else ?g)" "npid u1 = npid u"
      "children u1 = children u" "waited u1 = waited u" "k + 1 < n \<Longrightarrow> npipes u1 = b + (k + 1)"
  proof (cases "k + 1 < n")
    case True
    obtain r w where rw: "c_pipe E pipe1 u = (Some (r, w), u\<lparr>fds := (fds u)(r := Some (Pipe_read (npipes u)),
       w := Some (Pipe_write (npipes u))), npipes := npipes u + 1\<rparr>)" "r \<noteq> w" "fds u r = None" "fds u w = None"
      using c_pipe_ok [of 0 E u pipe1] room fu by (auto simp: numeral_2_eq_2)
    show ?thesis
      by (rule that [of "(r, w)" "snd (c_pipe E pipe1 u)"])
        (use rw True fu b in \<open>auto simp: fresh_pair_def with_pipe_def\<close>)
  next
    case False
    with k have "k + 1 = n" by simp
    then show ?thesis by (intro that [of _ u]) (use fu in auto)
  qed
  let ?pipe1' = "if k + 1 < n then Some d else pipe1"
  have "child_run E G n (k + 1) pipe1 ?pipe1' c (fds u1)
      = Inr (Exec (elems (comm c)) (redirected c (stage_table b n k f)))"
    unfolding u1(1)
    by (rule child_run_ok [where a = a and d = d and b = b and n = n and k = k, unfolded Let_def])
      (use E room_mono [OF E(2), of 1] args k a d in simp_all)
  moreover have close: "(if k + 1 > 1 then close_pair pipe1 (fds u1) else Inr (fds u1))
      = Inr (if k + 1 < n then with_pipe d (b + k) f else f)"
    using a d u1(1) close_pair_ok [of a f] close_pair_ok [of a "with_pipe d (b + k) f"]
      fresh_pair_over with_pipe_swap by (auto split: if_splits)
  moreover obtain p' where "pipeline_pop_front GP (Some p) = Inr p'" "pelems (pipe p') = cs" "waiting p' = waiting p"
    using p by (auto simp: pipeline_pop_front_def scommand_destroy_def)
  moreover have "pipeline_front GP (Some p) = Inr c" using p by (simp add: pipeline_front_def)
  moreover have "at_head n b f (k + 1) ?pipe1' (u1\<lparr>children := x, npid := y,
      fds := if k + 1 < n then with_pipe d (b + k) f else f\<rparr>)" for x y
    using d u1(5) by (cases "k > 0") (auto simp: at_head_def intro: fresh_pair_under)
  ultimately show ?thesis
    using E(1) pipe u1 by (auto simp: execute_step_def Let_def fair_def)
qed

text \<open>All the children, from number \<open>k\<close> on.\<close>

lemma execute_loop_ok:
  assumes E: "fair E" "room 4 E f" "stdio f" and h: "at_head n b f k pipe1 u"
    and p: "k + length (pelems (pipe p)) = n" and args: "\<forall>c \<in> set (pelems (pipe p)). elems (comm c) \<noteq> []"
  shows "\<exists>p' u'. execute_loop E GP G n [k + 1..<n + 1] pipe1 p pids u =
       Inr (Some (p', pids @ [npid u..<npid u + length (pelems (pipe p))]), u') \<and>
     waiting p' = waiting p \<and> fds u' = f \<and> waited u' = waited u \<and>
     children u' = children u @ map (\<lambda>j. (npid u + j, Exec (elems (comm (pelems (pipe p) ! j)))
       (redirected (pelems (pipe p) ! j) (stage_table b n (k + j) f)))) [0..<length (pelems (pipe p))]"
  using h p args
proof (induction "pelems (pipe p)" arbitrary: k pipe1 p pids u)
  case Nil
  then show ?case by (auto simp: at_head_def simp flip: Nil.hyps)
next
  case (Cons c cs)
  have pc: "pelems (pipe p) = c # cs" using Cons.hyps(2) by simp
  with Cons.prems have k: "k < n" and c: "elems (comm c) \<noteq> []" by auto
  obtain pipe2 p2 u2 where s: "execute_step E GP G n (k + 1) pipe1 p u = Inr (Some (pipe2, p2, npid u), u2)"
    "pelems (pipe p2) = cs" "waiting p2 = waiting p" "at_head n b f (k + 1) pipe2 u2"
    "children u2 = children u @ [(npid u, Exec (elems (comm c)) (redirected c (stage_table b n k f)))]"
    "npid u2 = npid u + 1" "waited u2 = waited u"
    using execute_step_ok [OF E Cons.prems(1) k pc c] by blast
  have hyp: "k + 1 + length (pelems (pipe p2)) = n" "\<forall>c \<in> set (pelems (pipe p2)). elems (comm c) \<noteq> []"
    using Cons.prems pc s(2) by auto
  obtain p' u' where loop: "execute_loop E GP G n [k + 1 + 1..<n + 1] pipe2 p2 (pids @ [npid u]) u2 =
       Inr (Some (p', (pids @ [npid u]) @ [npid u2..<npid u2 + length cs]), u')"
    and r: "waiting p' = waiting p2" "fds u' = f" "waited u' = waited u2"
     "children u' = children u2 @ map (\<lambda>j. (npid u2 + j, Exec (elems (comm (cs ! j)))
       (redirected (cs ! j) (stage_table b n (k + 1 + j) f)))) [0..<length cs]"
    using Cons.hyps(1) [OF s(2) [symmetric] s(4) hyp, of "pids @ [npid u]"] unfolding s(2) by blast
  have up: "[k + 1..<n + 1] = (k + 1) # [k + 1 + 1..<n + 1]" using k by (simp add: upt_conv_Cons)
  have l: "[npid u..<npid u + length (c # cs)] = npid u # [npid u2..<npid u2 + length cs]"
    by (simp add: upt_conv_Cons s(6) del: upt_Suc)
  have m: "[0..<length (c # cs)] = 0 # map Suc [0..<length cs]"
    by (simp add: upt_conv_Cons map_Suc_upt del: upt_Suc)
  show ?case
    unfolding up pc l m using s r loop
    by (intro exI [of _ p'] exI [of _ u']) (simp add: comp_def)
qed

end

section \<open>Properties\<close>

interpretation lsq: shell_queues "list_gqueue :: (string list, string) gqueue_ops" "\<lambda>q. q"
  "list_gqueue :: (string list scommand list, string list scommand) gqueue_ops" "\<lambda>q. q" ..

lemma find_builtin: "foldl (\<lambda>internal b. internal \<or> b = command) v bs \<longleftrightarrow> v \<or> command \<in> set bs"
  by (induction bs arbitrary: v) auto

context shell_queues begin

lemma builtin_alone_eq:
  assumes "\<forall>c \<in> set (pelems (pipe p)). elems (comm c) \<noteq> []"
  shows "builtin_alone GP G (Some p) =
     Inr (length (pelems (pipe p)) = 1 \<and> hd (elems (comm (hd (pelems (pipe p))))) \<in> set buildins)"
  using assms
  by (cases "pelems (pipe p)")
    (auto simp: builtin_alone_def pipeline_length_def pipeline_front_def builtin_is_internal_def
      scommand_front_def find_builtin neq_Nil_conv)

lemma execute_pipeline_ok:
  assumes E: "fair E" "room 4 E (fds u)" "stdio (fds u)"
    and cs: "pelems (pipe p) = cs" "\<forall>c \<in> set cs. elems (comm c) \<noteq> []"
    and nb: "\<not> (length cs = 1 \<and> hd (elems (comm (hd cs))) \<in> set buildins)"
  shows "\<exists>u'. execute_pipeline E GP G (Some p) u = Inr (Return (), u') \<and> fds u' = fds u \<and>
     children u' = children u @ map (\<lambda>j. (npid u + j, Exec (elems (comm (cs ! j)))
       (redirected (cs ! j) (stage_table (npipes u) (length cs) j (fds u))))) [0..<length cs] \<and>
     waited u' = waited u @ (if waiting p then [npid u..<npid u + length cs] else [])"
proof -
  let ?u = "if waiting p then u else u\<lparr>sigchld_ign := True\<rparr>"
  have f: "fds ?u = fds u" "npid ?u = npid u" "npipes ?u = npipes u" "children ?u = children u"
    "waited ?u = waited u" by simp_all
  have h: "at_head (length cs) (npipes u) (fds u) 0 None ?u" by (simp add: at_head_def)
  obtain p' u' where r: "execute_loop E GP G (length cs) [0 + 1..<length cs + 1] None p [] ?u =
       Inr (Some (p', [] @ [npid u..<npid u + length cs]), u')" "waiting p' = waiting p" "fds u' = fds u"
     "waited u' = waited u"
     "children u' = children u @ map (\<lambda>j. (npid u + j, Exec (elems (comm (cs ! j)))
       (redirected (cs ! j) (stage_table (npipes u) (length cs) (0 + j) (fds u))))) [0..<length cs]"
    using execute_loop_ok [OF E h, of p "[]"] cs unfolding f by (auto simp del: upt_Suc)
  have "builtin_alone GP G (Some p) = Inr False"
    using builtin_alone_eq [of p] cs nb by simp
  with r cs(1) show ?thesis
    by (simp add: execute_pipeline_def pipeline_length_def pipeline_get_wait_def del: upt_Suc)
qed

end

text \<open>C26: A pipeline of external commands is wired as drawn: child \<open>k\<close> runs with the \<open>k\<close>-th command's
  arguments, reading from the pipe the previous child writes to and writing to the one the next
  reads from (the ends of the chain keep the shell's own input and output, and a command's
  redirections win over its pipes); no child and, afterwards, not the shell either has any other
  pipe end open; and the shell waits for exactly these children unless the pipeline ends in \<^verbatim>\<open>&\<close>.\<close>

theorem execute_pipeline_wiring:
  assumes "shell_queues G elems GP pelems" and "fair E" and "room 4 E (fds u)" and "stdio (fds u)"
    and "pelems (pipe p) = cs" and "\<forall>c \<in> set cs. elems (comm c) \<noteq> []"
    and "\<not> (length cs = 1 \<and> hd (elems (comm (hd cs))) \<in> set buildins)"
  shows "\<exists>u'. execute_pipeline E GP G (Some p) u = Inr (Return (), u') \<and> fds u' = fds u \<and>
     children u' = children u @ map (\<lambda>j. (npid u + j, Exec (elems (comm (cs ! j)))
       (redirected (cs ! j) (stage_table (npipes u) (length cs) j (fds u))))) [0..<length cs] \<and>
     waited u' = waited u @ (if waiting p then [npid u..<npid u + length cs] else [])"
  using assms by (rule shell_queues.execute_pipeline_ok)

definition fair_env :: uenv where
  "fair_env = \<lparr>open_max = 10, open_ok = (\<lambda>_ _. True), fork_ok = (\<lambda>_. True), exec_ok = (\<lambda>_. True),
     exec_error = (\<lambda>_. ''No such file or directory''),
     chdir_ok = (\<lambda>_. True), getlogin = Some ''u'', prompt = (\<lambda>d. ''h:'' @ d @ ''$>'')\<rparr>"

definition new_shell :: ushell where
  "new_shell = \<lparr>fds = (\<lambda>n. if n < 3 then Some (Terminal n) else None), npipes = 0, npid = 100,
     uout = [], udir = ''/'', children = [], waited = [], sigchld_ign = False\<rparr>"

lemma new_shell_ok: "fair fair_env" "room 4 fair_env (fds new_shell)" "stdio (fds new_shell)"
proof -
  have "card {3, 4, 5, 6 :: nat} \<le> card {n. n < open_max fair_env \<and> fds new_shell n = None}"
    by (rule card_mono) (auto simp: fair_env_def new_shell_def)
  then show "room 4 fair_env (fds new_shell)" by (simp add: room_def)
qed (simp_all add: fair_def stdio_def fair_env_def new_shell_def)

theorem execute_pipeline_wiring_witness:
  "\<exists>u'. execute_pipeline fair_env list_gqueue list_gqueue
     (Some \<lparr>pipe = [\<lparr>comm = [''ls''], redir_in = None, redir_out = None\<rparr>,
        \<lparr>comm = [''wc'', ''-l''], redir_in = None, redir_out = Some ''out''\<rparr>], waiting = True\<rparr>) new_shell
     = Inr (Return (), u') \<and> fds u' = fds new_shell \<and> waited u' = [100, 101] \<and>
     (\<exists>f g. children u' = [(100, Exec [''ls''] f), (101, Exec [''wc'', ''-l''] g)] \<and>
        f 1 = Some (Pipe_write 0) \<and> g 0 = Some (Pipe_read 0) \<and> g 1 = Some (File_out ''out'') \<and> f 3 = None)"
proof -
  let ?cs = "[\<lparr>comm = [''ls''], redir_in = None, redir_out = None\<rparr>,
        \<lparr>comm = [''wc'', ''-l''], redir_in = None, redir_out = Some ''out''\<rparr>]"
  have up: "[0..<length ?cs] = [0, 1]" "[100..<100 + length ?cs] = [100, 101 :: nat]"
    by (simp_all add: upt_rec)
  show ?thesis
    using execute_pipeline_wiring [OF lsq.shell_queues_axioms new_shell_ok, of "\<lparr>pipe = ?cs, waiting = True\<rparr>" ?cs]
    by (auto simp: up redirected_def stage_table_def new_shell_def upt_rec)
qed

context shell_queues begin

lemma internal_eq:
  "elems (comm c) = a # args \<Longrightarrow> builtin_is_internal G (Some c) = Inr (a \<in> set buildins)"
  by (simp add: builtin_is_internal_def scommand_front_def find_builtin)

lemma run_exit:
  "elems (comm c) = ''exit'' # args \<Longrightarrow>
   builtin_run E G c u = Inr (Exit 0, u\<lparr>uout := uout u @ ''Bye!'' @ [CHR 0x0A]\<rparr>)"
  by (simp add: builtin_run_def internal_eq scommand_front_def c_printf_def) (simp add: buildins_def)

lemma run_cd:
  assumes "elems (comm c) = ''cd'' # args" and "getlogin E = Some l" and "cstring l"
  defines "d \<equiv> (case args of [] \<Rightarrow> ''/home/'' @ l | a # _ \<Rightarrow> a)"
  shows "\<exists>c'. builtin_run E G c u = Inr (Return c',
          if chdir_ok E d then u\<lparr>udir := d\<rparr>
          else u\<lparr>uout := uout u @ ''mybash: cd: The following directory>'' @ d @ '' does not exist'' @ [CHR 0x0A]\<rparr>)"
proof -
  have b: "''cd'' \<in> set buildins" "buildins ! 0 = ''cd''" by (simp_all add: buildins_def)
  have m: "strmerge ''/home/'' l = Inr (''/home/'' @ l)"
    using assms(3) by (intro strmerge_append) simp_all
  show ?thesis
    using assms(1,2) b m
    by (cases args)
      (simp_all add: builtin_run_def internal_eq scommand_front_def scommand_pop_front_def scommand_length_def
        scommand_push_back_def c_printf_def d_def)
qed

lemma pipeline_single:
  assumes "pelems (pipe p) = [c]" and "elems (comm c) = a # args" and "a \<in> set buildins"
    and "builtin_run E G c u = Inr (r, u')"
  shows "execute_pipeline E GP G (Some p) u = Inr (case r of Exit k \<Rightarrow> Exit k | _ \<Rightarrow> Return (), u')"
  using assms builtin_alone_eq [of p]
  by (cases r) (simp_all add: execute_pipeline_def pipeline_length_def pipeline_front_def)

lemma execute_builtin:
  assumes "pelems (pipe p) = [c]" and "getlogin E = Some l" and "cstring l"
  defines "d \<equiv> (\<lambda>args. case args of [] \<Rightarrow> ''/home/'' @ l | a # _ \<Rightarrow> a)"
  shows "elems (comm c) = ''exit'' # args \<Longrightarrow> execute_pipeline E GP G (Some p) u =
       Inr (Exit 0, u\<lparr>uout := uout u @ ''Bye!'' @ [CHR 0x0A]\<rparr>)"
    and "elems (comm c) = ''cd'' # args \<Longrightarrow> execute_pipeline E GP G (Some p) u = Inr (Return (),
          if chdir_ok E (d args) then u\<lparr>udir := d args\<rparr>
          else u\<lparr>uout := uout u @ ''mybash: cd: The following directory>'' @ d args @ '' does not exist'' @ [CHR 0x0A]\<rparr>)"
proof -
  have b: "''exit'' \<in> set buildins" "''cd'' \<in> set buildins" by (simp_all add: buildins_def)
  show "execute_pipeline E GP G (Some p) u = Inr (Exit 0, u\<lparr>uout := uout u @ ''Bye!'' @ [CHR 0x0A]\<rparr>)"
    if "elems (comm c) = ''exit'' # args"
    using pipeline_single [OF assms(1) that b(1) run_exit [OF that]] by simp
  assume cd: "elems (comm c) = ''cd'' # args"
  obtain c' where "builtin_run E G c u = Inr (Return c',
          if chdir_ok E (d args) then u\<lparr>udir := d args\<rparr>
          else u\<lparr>uout := uout u @ ''mybash: cd: The following directory>'' @ d args @ '' does not exist'' @ [CHR 0x0A]\<rparr>)"
    using run_cd [OF cd assms(2,3), of u] unfolding d_def by blast
  from pipeline_single [OF assms(1) cd b(2) this]
  show "execute_pipeline E GP G (Some p) u = Inr (Return (),
          if chdir_ok E (d args) then u\<lparr>udir := d args\<rparr>
          else u\<lparr>uout := uout u @ ''mybash: cd: The following directory>'' @ d args @ '' does not exist'' @ [CHR 0x0A]\<rparr>)"
    by simp
qed

end

text \<open>A single builtin runs in the shell itself, without forking: \<^verbatim>\<open>exit\<close> says goodbye and ends the
  shell with status 0, \<^verbatim>\<open>cd\<close> changes the directory to its argument or, without one, to the user's
  home, and reports a directory it cannot enter.\<close>

theorem execute_pipeline_builtin:
  assumes "shell_queues G elems GP pelems" and "pelems (pipe p) = [c]" and "getlogin E = Some l" and "cstring l"
  shows "(\<forall>args. elems (comm c) = ''exit'' # args \<longrightarrow> execute_pipeline E GP G (Some p) u =
       Inr (Exit 0, u\<lparr>uout := uout u @ ''Bye!'' @ [CHR 0x0A]\<rparr>)) \<and>
     (\<forall>args d. elems (comm c) = ''cd'' # args \<longrightarrow> d = (case args of [] \<Rightarrow> ''/home/'' @ l | a # _ \<Rightarrow> a) \<longrightarrow>
        execute_pipeline E GP G (Some p) u = Inr (Return (),
          if chdir_ok E d then u\<lparr>udir := d\<rparr>
          else u\<lparr>uout := uout u @ ''mybash: cd: The following directory>'' @ d @ '' does not exist'' @ [CHR 0x0A]\<rparr>))"
  using shell_queues.execute_builtin [OF assms] by blast

theorem execute_pipeline_builtin_witness:
  "execute_pipeline fair_env list_gqueue list_gqueue
     (Some \<lparr>pipe = [\<lparr>comm = [''cd''], redir_in = None, redir_out = None\<rparr>], waiting = True\<rparr>) new_shell
   = Inr (Return (), new_shell\<lparr>udir := ''/home/u''\<rparr>)"
  using execute_pipeline_builtin [OF lsq.shell_queues_axioms,
      of "\<lparr>pipe = [\<lparr>comm = [''cd''], redir_in = None, redir_out = None\<rparr>], waiting = True\<rparr>" _ fair_env "''u''" new_shell]
  by (simp add: fair_env_def)

text \<open>C40: When \<^verbatim>\<open>fork\<close> fails for the first of several commands, \<^verbatim>\<open>execute_pipeline\<close> says so and returns
  with the two ends of the pipe it has just made still open in the shell.\<close>

theorem execute_pipeline_fork_failure:
  assumes "shell_queues G elems GP pelems" and "\<not> fork_ok E (npid u)" and "room 2 E (fds u)"
    and "length (pelems (pipe p)) > 1" and "\<forall>c \<in> set (pelems (pipe p)). elems (comm c) \<noteq> []"
  shows "\<exists>u' a. execute_pipeline E GP G (Some p) u = Inr (Return (), u') \<and> children u' = children u \<and>
     uout u' = uout u @ ''Fork did not work!'' @ [CHR 0x0A] \<and>
     fresh_pair a (fds u) \<and> fds u' = with_pipe a (npipes u) (fds u)"
proof -
  let ?u = "if waiting p then u else u\<lparr>sigchld_ign := True\<rparr>"
  have f: "fds ?u = fds u" "npid ?u = npid u" "npipes ?u = npipes u" by simp_all
  have G: "gqueue G elems" "gqueue GP pelems"
    using assms(1) by (auto simp: shell_queues_def string_queue_def command_queue_def)
  obtain r w where rw: "c_pipe E None ?u = (Some (r, w), ?u\<lparr>fds := (fds u)(r := Some (Pipe_read (npipes u)),
       w := Some (Pipe_write (npipes u))), npipes := npipes u + 1\<rparr>)" "r \<noteq> w" "fds u r = None" "fds u w = None"
    using c_pipe_ok [of 0 E ?u None] assms(3) unfolding f by (auto simp: numeral_2_eq_2)
  obtain c cs where c: "pelems (pipe p) = c # cs" using assms(4) by (cases "pelems (pipe p)") auto
  have up: "[1..<length (pelems (pipe p)) + 1] = 1 # [2..<length (pelems (pipe p)) + 1]"
    using assms(4) upt_conv_Cons [of 1 "length (pelems (pipe p)) + 1"]
    by (force simp: numeral_2_eq_2 simp del: upt_Suc)
  have "builtin_alone GP G (Some p) = Inr False"
    using shell_queues.builtin_alone_eq [OF assms(1,5)] assms(4) by simp
  then have "\<exists>u'. execute_pipeline E GP G (Some p) u = Inr (Return (), u') \<and> children u' = children u \<and>
     uout u' = uout u @ ''Fork did not work!'' @ [CHR 0x0A] \<and> fds u' = with_pipe (r, w) (npipes u) (fds u)"
    using c assms(2,4) rw up
    by (simp add: execute_pipeline_def pipeline_length_def pipeline_get_wait_def pipeline_front_def
        execute_step_def gqueue.get_length [OF G(2)] gqueue.is_empty [OF G(2)] gqueue.peek_head [OF G(2)]
        c_printf_def with_pipe_def del: upt_Suc)
  with rw show ?thesis by (auto simp: fresh_pair_def)
qed

theorem execute_pipeline_fork_failure_witness:
  "\<exists>u' a. execute_pipeline (fair_env\<lparr>fork_ok := (\<lambda>_. False)\<rparr>) list_gqueue list_gqueue
     (Some \<lparr>pipe = [\<lparr>comm = [''ls''], redir_in = None, redir_out = None\<rparr>,
        \<lparr>comm = [''wc''], redir_in = None, redir_out = None\<rparr>], waiting = True\<rparr>) new_shell = Inr (Return (), u') \<and>
     fds u' = with_pipe a 0 (fds new_shell) \<and> fds u' (fst a) \<noteq> None"
proof -
  let ?E = "fair_env\<lparr>fork_ok := (\<lambda>_. False)\<rparr>"
  have "room 2 ?E (fds new_shell)"
    using room_mono [OF new_shell_ok(2), of 2] by (simp add: room_def)
  then obtain u' a where "execute_pipeline ?E list_gqueue list_gqueue (Some \<lparr>pipe = [\<lparr>comm = [''ls''], redir_in = None, redir_out = None\<rparr>,
        \<lparr>comm = [''wc''], redir_in = None, redir_out = None\<rparr>], waiting = True\<rparr>) new_shell = Inr (Return (), u')"
    "fds u' = with_pipe a (npipes new_shell) (fds new_shell)"
    using execute_pipeline_fork_failure [OF lsq.shell_queues_axioms, of ?E new_shell
        "\<lparr>pipe = [\<lparr>comm = [''ls''], redir_in = None, redir_out = None\<rparr>,
        \<lparr>comm = [''wc''], redir_in = None, redir_out = None\<rparr>], waiting = True\<rparr>"]
    by auto
  moreover have "with_pipe a x f (fst a) \<noteq> None" for x f by (simp add: with_pipe_def)
  moreover have "npipes new_shell = 0" by (simp add: new_shell_def)
  ultimately show ?thesis by metis
qed

end
