(* ===== verification/Spinlock.thy ===== *)
theory Spinlock
  imports Prelude
begin

text \<open>
  Mutual exclusion between CPUs, \<^verbatim>\<open>src/lab2/kernel/spinlock.c\<close>: the per-CPU interrupt
  nesting (\<^verbatim>\<open>push_off\<close>, \<^verbatim>\<open>pop_off\<close>) and \<^verbatim>\<open>acquire\<close>, \<^verbatim>\<open>release\<close>, \<^verbatim>\<open>holding\<close>.  The state is a
  record that every later layer of the kernel extends; the operations are polymorphic in
  the extension.  A \<^verbatim>\<open>struct spinlock\<close> is named by the object it is embedded in
  (\<open>lockid\<close>), a \<^verbatim>\<open>void *\<close> sleep channel by the object whose address it is (\<open>chan\<close>).
  The memory barriers have no effect in this sequential reading and the spin on a lock of
  another CPU is the outcome \<open>Blocked (Spinning l)\<close>.
\<close>

section \<open>Names of locks and channels\<close>

datatype slockid = SL_buf nat | SL_inode nat

datatype lockid =
    L_kmem | L_pid | L_wait | L_proc nat | L_bcache | L_slk slockid | L_log | L_itable
  | L_ftable | L_pipe u64 | L_cons | L_pr | L_uart | L_ticks | L_vdisk | L_sem nat

datatype chan =
    Ch_proc nat | Ch_sem nat | Ch_slk slockid | Ch_log | Ch_ticks | Ch_nread u64
  | Ch_nwrite u64 | Ch_cons | Ch_uart | Ch_vdisk | Ch_buf nat

datatype wait = Swtch nat | Spinning lockid | Polling string

section \<open>State\<close>

record spinlock =
  locked :: u32
  lk_name :: string
  lk_cpu :: "nat option"

text \<open>
  \<^verbatim>\<open>struct cpu\<close> without the saved registers of the scheduler's context, which only the
  assembly of \<^verbatim>\<open>swtch\<close> touches.
\<close>

record cpu =
  cpu_proc :: "nat option"
  noff :: int
  intena :: bool

text \<open>
  \<open>hart\<close> is the \<^verbatim>\<open>tp\<close> register, \<open>sie\<close> the SIE bit of \<^verbatim>\<open>sstatus\<close>, \<open>kout\<close> the characters the
  console has sent; \<open>pr_locking\<close> and \<open>panicked\<close> are \<^verbatim>\<open>printf.c\<close>'s variables.
\<close>

record lockst =
  hart :: nat
  sie :: bool
  cpus :: "nat \<Rightarrow> cpu"
  locks :: "lockid \<Rightarrow> spinlock"
  kout :: string
  pr_locking :: bool
  panicked :: bool

type_synonym ('a, 's) kr = "(wait, 'a, 's) kres"

definition kputs :: "string \<Rightarrow> 'a lockst_scheme \<Rightarrow> 'a lockst_scheme" where
  "kputs msg s = s\<lparr>kout := kout s @ msg\<rparr>"

definition newline :: char where "newline = CHR 0x0A"

section \<open>riscv.h and proc.c: interrupts and the current CPU\<close>

definition intr_on :: "'a lockst_scheme \<Rightarrow> 'a lockst_scheme" where
  "intr_on s = s\<lparr>sie := True\<rparr>"

definition intr_off :: "'a lockst_scheme \<Rightarrow> 'a lockst_scheme" where
  "intr_off s = s\<lparr>sie := False\<rparr>"

definition intr_get :: "'a lockst_scheme \<Rightarrow> bool" where
  "intr_get s = sie s"

definition cpuid :: "'a lockst_scheme \<Rightarrow> nat" where
  "cpuid s = hart s"

definition mycpu :: "'a lockst_scheme \<Rightarrow> cpu" where
  "mycpu s = cpus s (cpuid s)"

text \<open>A store through the pointer \<^verbatim>\<open>mycpu()\<close>.\<close>

definition upd_mycpu :: "(cpu \<Rightarrow> cpu) \<Rightarrow> 'a lockst_scheme \<Rightarrow> 'a lockst_scheme" where
  "upd_mycpu f s = s\<lparr>cpus := (cpus s)(cpuid s := f (mycpu s))\<rparr>"

section \<open>spinlock.c\<close>

definition initlock :: "lockid \<Rightarrow> string \<Rightarrow> 'a lockst_scheme \<Rightarrow> 'a lockst_scheme" where
  "initlock l nm s = s\<lparr>locks := (locks s)(l := \<lparr>locked = 0, lk_name = nm, lk_cpu = None\<rparr>)\<rparr>"

definition holding :: "lockid \<Rightarrow> 'a lockst_scheme \<Rightarrow> bool" where
  "holding l s \<longleftrightarrow> locked (locks s l) \<noteq> 0 \<and> lk_cpu (locks s l) = Some (cpuid s)"

definition push_off :: "'a lockst_scheme \<Rightarrow> 'a lockst_scheme" where
  "push_off s =
     (let old = intr_get s;
          s = intr_off s;
          s = (if noff (mycpu s) = 0 then upd_mycpu (\<lambda>c. c\<lparr>intena := old\<rparr>) s else s)
      in upd_mycpu (\<lambda>c. c\<lparr>noff := noff c + 1\<rparr>) s)"

definition pop_off :: "'a lockst_scheme \<Rightarrow> (unit, 'a lockst_scheme) kr" where
  "pop_off s =
     (if intr_get s then Panic ''pop_off - interruptible''
      else if noff (mycpu s) < 1 then Panic ''pop_off''
      else
        (let s = upd_mycpu (\<lambda>c. c\<lparr>noff := noff c - 1\<rparr>) s
         in Ok () (if noff (mycpu s) = 0 \<and> intena (mycpu s) then intr_on s else s)))"

definition acquire :: "lockid \<Rightarrow> 'a lockst_scheme \<Rightarrow> (unit, 'a lockst_scheme) kr" where
  "acquire l s =
     (let s = push_off s in
      if holding l s then Panic ''acquire''
      else if locked (locks s l) \<noteq> 0 then Blocked (Spinning l) s
      else Ok () (s\<lparr>locks := (locks s)(l := (locks s l)\<lparr>locked := 1, lk_cpu := Some (cpuid s)\<rparr>)\<rparr>))"

definition release :: "lockid \<Rightarrow> 'a lockst_scheme \<Rightarrow> (unit, 'a lockst_scheme) kr" where
  "release l s =
     (if \<not> holding l s then Panic ''release''
      else
        (let s = s\<lparr>locks := (locks s)(l := (locks s l)\<lparr>lk_cpu := None\<rparr>)\<rparr>;
             s = s\<lparr>locks := (locks s)(l := (locks s l)\<lparr>locked := 0\<rparr>)\<rparr>
         in pop_off s))"

section \<open>Lock discipline\<close>

text \<open>
  \<open>irq_ok\<close>: the interrupt bookkeeping of this CPU is as \<^verbatim>\<open>push_off\<close> and \<^verbatim>\<open>pop_off\<close> keep
  it: outside every critical section \<open>intena\<close> mirrors the interrupt enable bit, and inside
  one interrupts are off.  \<open>free\<close>: nobody holds the lock.
\<close>

definition irq_ok :: "'a lockst_scheme \<Rightarrow> bool" where
  "irq_ok s \<longleftrightarrow> (if noff (mycpu s) = 0 then intena (mycpu s) = sie s else 0 < noff (mycpu s) \<and> \<not> sie s)"

definition free :: "lockid \<Rightarrow> 'a lockst_scheme \<Rightarrow> bool" where
  "free l s \<longleftrightarrow> locked (locks s l) = 0 \<and> lk_cpu (locks s l) = None"

definition grab :: "lockid \<Rightarrow> 'a lockst_scheme \<Rightarrow> 'a lockst_scheme" where
  "grab l s = (let s = push_off s in
     s\<lparr>locks := (locks s)(l := (locks s l)\<lparr>locked := 1, lk_cpu := Some (cpuid s)\<rparr>)\<rparr>)"

definition ungrab :: "lockid \<Rightarrow> 'a lockst_scheme \<Rightarrow> 'a lockst_scheme" where
  "ungrab l s =
     (let s = s\<lparr>locks := (locks s)(l := (locks s l)\<lparr>lk_cpu := None, locked := 0\<rparr>)\<rparr>;
          s = upd_mycpu (\<lambda>c. c\<lparr>noff := noff c - 1\<rparr>) s
      in if noff (mycpu s) = 0 \<and> intena (mycpu s) then intr_on s else s)"

lemmas irq_defs = push_off_def pop_off_def intr_on_def intr_off_def intr_get_def cpuid_def
  mycpu_def upd_mycpu_def

lemma acquire_free [kernel_simps]: "free l s \<Longrightarrow> acquire l s = Ok () (grab l s)"
  by (simp add: acquire_def grab_def free_def holding_def Let_def irq_defs)

lemma release_held:
  "holding l s \<Longrightarrow> irq_ok s \<Longrightarrow> 0 < noff (mycpu s) \<Longrightarrow> release l s = Ok () (ungrab l s)"
  by (auto simp: release_def ungrab_def irq_ok_def holding_def Let_def irq_defs)

lemma holding_grab [kernel_simps]: "holding l (grab l s)"
  by (simp add: holding_def grab_def Let_def irq_defs)

lemma holding_grab_other [kernel_simps]: "l \<noteq> m \<Longrightarrow> holding l (grab m s) \<longleftrightarrow> holding l s"
  by (auto simp: holding_def grab_def Let_def irq_defs)

lemma free_grab [kernel_simps]: "free l (grab m s) \<longleftrightarrow> l \<noteq> m \<and> free l s"
  by (auto simp: free_def grab_def Let_def irq_defs)

lemma free_not_holding: "free l s \<Longrightarrow> \<not> holding l s"
  by (simp add: free_def holding_def)

lemma irq_ok_grab [kernel_simps]: "irq_ok s \<Longrightarrow> irq_ok (grab l s)"
  by (auto simp: irq_ok_def grab_def Let_def irq_defs split: if_splits)

lemma noff_grab: "noff (mycpu (grab l s)) = noff (mycpu s) + 1"
  by (simp add: grab_def Let_def irq_defs)

lemma irq_ok_noff: "irq_ok s \<Longrightarrow> 0 \<le> noff (mycpu s)"
  by (auto simp: irq_ok_def split: if_splits)

lemma noff_grab_pos [kernel_simps]: "irq_ok s \<Longrightarrow> 0 < noff (mycpu (grab l s))"
  using irq_ok_noff [of s] by (simp add: noff_grab)

text \<open>Releasing what was acquired restores the state: locks, interrupts and all.\<close>

lemma ungrab_grab [kernel_simps]:
  assumes "irq_ok s" and "free l s"
  shows "ungrab l (grab l s) = s"
proof -
  have l: "(locks s l)\<lparr>lk_cpu := a, locked := b, lk_cpu := None, locked := 0\<rparr> = locks s l" for a b
    using assms(2) by (cases "locks s l") (simp add: free_def)
  have l': "(locks s l)\<lparr>locked := b, lk_cpu := a, lk_cpu := None, locked := 0\<rparr> = locks s l" for a b
    using assms(2) by (cases "locks s l") (simp add: free_def)
  have l'': "(locks s l)\<lparr>lk_cpu := None, locked := 0\<rparr> = locks s l"
    using assms(2) by (cases "locks s l") (simp add: free_def)
  note l = l l' l''
  have c: "(cpus s (hart s))\<lparr>noff := noff (cpus s (hart s))\<rparr> = cpus s (hart s)" by simp
  show ?thesis
  proof (cases "noff (mycpu s) = 0")
    case True
    then have i: "intena (cpus s (hart s)) = sie s"
      using assms(1) by (simp add: irq_ok_def irq_defs)
    have c1: "(cpus s (hart s))\<lparr>intena := sie s, noff := a, noff := 0\<rparr> = cpus s (hart s)" for a
      using True i by (cases "cpus s (hart s)") (simp add: irq_defs)
    have c2: "(cpus s (hart s))\<lparr>intena := sie s, noff := 0\<rparr> = cpus s (hart s)"
      using True i by (cases "cpus s (hart s)") (simp add: irq_defs)
    show ?thesis
      using True i l c1 c2
      by (cases "sie s") (simp_all add: ungrab_def grab_def Let_def irq_defs fun_upd_idem)
  next
    case False
    then have "\<not> sie s" using assms(1) by (simp add: irq_ok_def)
    with False l c show ?thesis
      by (simp add: ungrab_def grab_def Let_def irq_defs fun_upd_idem)
  qed
qed

lemma release_grab [kernel_simps]:
  "irq_ok s \<Longrightarrow> free l s \<Longrightarrow> release l (grab l s) = Ok () s"
  by (simp add: release_held kernel_simps)

lemma grab_comm: "l \<noteq> m \<Longrightarrow> grab l (grab m s) = grab m (grab l s)"
  by (auto simp: grab_def Let_def irq_defs fun_upd_twist)

text \<open>Locks need not be released in the reverse order: the outer one may go first.\<close>

lemma release_outer [kernel_simps]:
  "irq_ok s \<Longrightarrow> free l s \<Longrightarrow> l \<noteq> m \<Longrightarrow> release l (grab m (grab l s)) = Ok () (grab m s)"
  by (subst grab_comm) (auto simp: kernel_simps)

text \<open>The critical section that most functions of the kernel are.\<close>

definition with_lock ::
  "lockid \<Rightarrow> ('a lockst_scheme \<Rightarrow> ('b, 'a lockst_scheme) kr) \<Rightarrow> 'a lockst_scheme \<Rightarrow> ('b, 'a lockst_scheme) kr" where
  "with_lock l body s =
     kthen (acquire l s) (\<lambda>s. kbind (body s) (\<lambda>a s. kthen (release l s) (\<lambda>s. Ok a s)))"

lemma with_lock_Ok:
  "irq_ok s \<Longrightarrow> free l s \<Longrightarrow> body (grab l s) = Ok a (grab l t) \<Longrightarrow> irq_ok t \<Longrightarrow> free l t \<Longrightarrow>
   with_lock l body s = Ok a t"
  by (simp add: with_lock_def kernel_simps)

text \<open>
  The layers above extend the record.  For each field \<open>F\<close> they add, the same facts hold: a lock
  operation neither reads nor writes it.
\<close>

lemma kout_frame [frame_simps]:
  "irq_ok (s\<lparr>kout := x\<rparr>) \<longleftrightarrow> irq_ok s" "free l (s\<lparr>kout := x\<rparr>) \<longleftrightarrow> free l s"
  "holding l (s\<lparr>kout := x\<rparr>) \<longleftrightarrow> holding l s" "mycpu (s\<lparr>kout := x\<rparr>) = mycpu s"
  "(grab l s)\<lparr>kout := x\<rparr> = grab l (s\<lparr>kout := x\<rparr>)" "kout (grab l s) = kout s"
  by (simp_all add: irq_ok_def free_def holding_def grab_def Let_def irq_defs)

lemma pr_locking_frame [frame_simps]:
  "irq_ok (s\<lparr>pr_locking := x\<rparr>) \<longleftrightarrow> irq_ok s" "free l (s\<lparr>pr_locking := x\<rparr>) \<longleftrightarrow> free l s"
  "(grab l s)\<lparr>pr_locking := x\<rparr> = grab l (s\<lparr>pr_locking := x\<rparr>)" "pr_locking (grab l s) = pr_locking s"
  by (simp_all add: irq_ok_def free_def holding_def grab_def Let_def irq_defs)

lemma grab_cpu_frame [frame_simps]:
  "hart (grab l s) = hart s" "cpu_proc (mycpu (grab l s)) = cpu_proc (mycpu s)"
  "hart (s\<lparr>kout := x\<rparr>) = hart s"
  by (simp_all add: grab_def Let_def irq_defs)

lemma cpu_proc_frame [frame_simps]:
  "upd_mycpu (cpu_proc_update f) (grab l s) = grab l (upd_mycpu (cpu_proc_update f) s)"
  "irq_ok (upd_mycpu (cpu_proc_update f) s) \<longleftrightarrow> irq_ok s"
  "free l (upd_mycpu (cpu_proc_update f) s) \<longleftrightarrow> free l s"
  "holding l (upd_mycpu (cpu_proc_update f) s) \<longleftrightarrow> holding l s"
  "mycpu (upd_mycpu (cpu_proc_update f) s) = cpu_proc_update f (mycpu s)"
proof -
  have upd: "cpu_proc_update f (c\<lparr>intena := a, noff := b\<rparr>) = (cpu_proc_update f c)\<lparr>intena := a, noff := b\<rparr>"
    "cpu_proc_update f (c\<lparr>noff := b\<rparr>) = (cpu_proc_update f c)\<lparr>noff := b\<rparr>"
    "cpu_proc_update f (c\<lparr>intena := a\<rparr>) = (cpu_proc_update f c)\<lparr>intena := a\<rparr>" for a b and c :: cpu
    by (cases c; simp)+
  show "upd_mycpu (cpu_proc_update f) (grab l s) = grab l (upd_mycpu (cpu_proc_update f) s)"
    by (cases s) (simp add: grab_def Let_def irq_defs upd)
qed (simp_all add: irq_ok_def free_def holding_def irq_defs)

lemma kputs_frame [frame_simps]:
  "irq_ok (kputs m s) \<longleftrightarrow> irq_ok s" "free l (kputs m s) \<longleftrightarrow> free l s"
  "holding l (kputs m s) \<longleftrightarrow> holding l s" "mycpu (kputs m s) = mycpu s"
  "kputs m (grab l s) = grab l (kputs m s)"
  by (simp_all add: kputs_def frame_simps)

lemma initlock_frame [frame_simps]:
  "irq_ok (initlock l n s) \<longleftrightarrow> irq_ok s" "free m (initlock l n s) \<longleftrightarrow> m = l \<or> free m s"
  "mycpu (initlock l n s) = mycpu s"
  by (auto simp: initlock_def irq_ok_def free_def irq_defs)

text \<open>The interrupt state restored after a switch: both the bit and \<^verbatim>\<open>intena\<close>.\<close>

definition set_irq :: "bool \<Rightarrow> 'a lockst_scheme \<Rightarrow> 'a lockst_scheme" where
  "set_irq b s = (upd_mycpu (\<lambda>c. c\<lparr>intena := b\<rparr>) s)\<lparr>sie := b\<rparr>"

lemma intena_grab:
  assumes "noff (mycpu s) = 0"
  shows "upd_mycpu (\<lambda>c. c\<lparr>intena := b\<rparr>) (grab l s) = grab l (set_irq b s)"
proof -
  have eq: "c\<lparr>noff := 1, intena := b\<rparr> = c\<lparr>intena := b, noff := 1\<rparr>" for c :: cpu
    by (cases c) simp
  show ?thesis
    using assms by (cases s) (simp add: grab_def set_irq_def Let_def irq_defs eq)
qed

lemma set_irq_frame [frame_simps]:
  "noff (mycpu s) = 0 \<Longrightarrow> irq_ok (set_irq b s)" "free l (set_irq b s) \<longleftrightarrow> free l s"
  "holding l (set_irq b s) \<longleftrightarrow> holding l s" "noff (mycpu (set_irq b s)) = noff (mycpu s)"
  "cpu_proc (mycpu (set_irq b s)) = cpu_proc (mycpu s)"
  by (simp_all add: set_irq_def irq_ok_def free_def holding_def irq_defs)

text \<open>
  \<open>irq_ok\<close> holds after every \<^verbatim>\<open>push_off\<close>, but the hardware and \<^verbatim>\<open>intr_on\<close>/\<^verbatim>\<open>intr_off\<close> change the
  interrupt bit without \<^verbatim>\<open>intena\<close>.  Outside a critical section a stale \<^verbatim>\<open>intena\<close> makes no difference:
  the next \<^verbatim>\<open>push_off\<close> acts as on \<open>fresh_irq s\<close>, where \<open>irq_ok\<close> holds.
\<close>

definition fresh_irq :: "'a lockst_scheme \<Rightarrow> 'a lockst_scheme" where
  "fresh_irq s = upd_mycpu (\<lambda>c. c\<lparr>intena := sie s\<rparr>) s"

lemma fresh_irq_frame [frame_simps]:
  "noff (mycpu (fresh_irq s)) = noff (mycpu s)" "free l (fresh_irq s) \<longleftrightarrow> free l s" "sie (fresh_irq s) = sie s"
  by (simp_all add: fresh_irq_def free_def irq_defs)

lemma fresh_irq_ok: "noff (mycpu s) = 0 \<Longrightarrow> irq_ok (fresh_irq s)"
  by (simp add: irq_ok_def fresh_irq_def irq_defs)

lemma push_off_fresh: "noff (mycpu s) = 0 \<Longrightarrow> push_off (fresh_irq s) = push_off s"
  by (cases s) (simp add: push_off_def fresh_irq_def Let_def irq_defs)

lemma acquire_fresh: "noff (mycpu s) = 0 \<Longrightarrow> acquire l (fresh_irq s) = acquire l s"
  by (simp add: acquire_def push_off_fresh)

section \<open>The contract of a lock\<close>

text \<open>
  What users of a lock rely on.  \<open>enter l s\<close> is the state in which the lock \<open>l\<close>, free in \<open>s\<close>,
  is held.
\<close>

primrec acquire_all :: "('l \<Rightarrow> 's \<Rightarrow> ('w, unit, 's) kres) \<Rightarrow> 'l list \<Rightarrow> 's \<Rightarrow> ('w, unit, 's) kres" where
  "acquire_all acq [] s = Ok () s"
| "acquire_all acq (l # ls) s = kthen (acq l s) (acquire_all acq ls)"

lemma acquire_all_append:
  "acquire_all f (xs @ ys) t = kthen (acquire_all f xs t) (acquire_all f ys)"
  by (induction xs arbitrary: t) (auto simp: kthen_kthen intro!: kthen_cong)

locale mutex =
  fixes acq rel :: "'l \<Rightarrow> 's \<Rightarrow> ('w, unit, 's) kres"
    and held avail :: "'l \<Rightarrow> 's \<Rightarrow> bool"
    and ok :: "'s \<Rightarrow> bool"
    and enter :: "'l \<Rightarrow> 's \<Rightarrow> 's"
  assumes acq_ok: "ok s \<Longrightarrow> avail l s \<Longrightarrow> acq l s = Ok () (enter l s)"
    and rel_ok: "ok s \<Longrightarrow> avail l s \<Longrightarrow> rel l (enter l s) = Ok () s"
    and enter_held: "ok s \<Longrightarrow> avail l s \<Longrightarrow> held l (enter l s)"
    and enter_keeps: "ok s \<Longrightarrow> avail l s \<Longrightarrow> ok (enter l s)"
    and enter_avail: "ok s \<Longrightarrow> avail l s \<Longrightarrow> avail m (enter l s) \<longleftrightarrow> m \<noteq> l \<and> avail m s"
    and held_not_avail: "held l s \<Longrightarrow> \<not> avail l s"
begin

lemma acquire_all_enters:
  "ok s \<Longrightarrow> distinct ls \<Longrightarrow> \<forall>l \<in> set ls. avail l s \<Longrightarrow>
   acquire_all acq ls s = Ok () (fold enter ls s) \<and> ok (fold enter ls s) \<and>
   (\<forall>m. avail m (fold enter ls s) \<longleftrightarrow> m \<notin> set ls \<and> avail m s)"
proof (induction ls arbitrary: s)
  case Nil
  then show ?case by simp
next
  case (Cons l ls)
  then have l: "avail l s" and "ok (enter l s)" by (auto intro: enter_keeps)
  moreover have "\<forall>m \<in> set ls. avail m (enter l s)"
    using Cons.prems l by (auto simp: enter_avail)
  ultimately show ?case
    using Cons.IH [of "enter l s"] Cons.prems by (auto simp: acq_ok enter_avail)
qed

text \<open>Releasing in the reverse order of acquisition restores the state.\<close>

lemma acquire_release_all:
  "ok s \<Longrightarrow> distinct ls \<Longrightarrow> \<forall>l \<in> set ls. avail l s \<Longrightarrow>
   kthen (acquire_all acq ls s) (acquire_all rel (rev ls)) = Ok () s"
proof (induction ls arbitrary: s rule: rev_induct)
  case Nil
  then show ?case by simp
next
  case (snoc l ls)
  let ?t = "fold enter ls s"
  have "acquire_all acq ls s = Ok () ?t" and t: "ok ?t" "avail l ?t"
    using acquire_all_enters [of s ls] snoc.prems by auto
  moreover have "kthen (acquire_all acq ls s) (acquire_all rel (rev ls)) = Ok () s"
    using snoc by auto
  ultimately show ?case by (simp add: acquire_all_append acq_ok rel_ok)
qed

lemma held_after: "ok s \<Longrightarrow> avail l s \<Longrightarrow> acq l s = Ok () t \<Longrightarrow> held l t \<and> \<not> avail l t"
  by (metis acq_ok enter_held held_not_avail kres.inject(1))

end

interpretation spin: mutex acquire release holding free irq_ok grab
  by unfold_locales (auto simp: kernel_simps dest: free_not_holding)

lemma acquire_all_fresh:
  "noff (mycpu s) = 0 \<Longrightarrow> ls \<noteq> [] \<Longrightarrow> acquire_all acquire ls (fresh_irq s) = acquire_all acquire ls s"
  by (cases ls) (simp_all add: acquire_fresh)

section \<open>Properties\<close>

text \<open>C38: Any number of distinct free spin locks can be acquired one after the other and released in
  the reverse order, whatever \<^verbatim>\<open>intena\<close> holds: no call panics or spins, and afterwards every lock, the
  nesting count and the interrupt enable bit are what they were.  Outside a critical section the
  first \<^verbatim>\<open>acquire\<close> records the interrupt bit in \<^verbatim>\<open>intena\<close>, inside one \<^verbatim>\<open>intena\<close> is left alone.\<close>

theorem spinlocks_nest:
  assumes "0 \<le> noff (mycpu s)" and "0 < noff (mycpu s) \<Longrightarrow> \<not> sie s"
    and "distinct ls" and "\<forall>l \<in> set ls. free l s"
  shows "kthen (acquire_all acquire ls s) (acquire_all release (rev ls)) =
    Ok () (if ls \<noteq> [] \<and> noff (mycpu s) = 0 then upd_mycpu (\<lambda>c. c\<lparr>intena := sie s\<rparr>) s else s)"
proof (cases "noff (mycpu s) = 0 \<and> ls \<noteq> []")
  case True
  have "kthen (acquire_all acquire ls (fresh_irq s)) (acquire_all release (rev ls)) = Ok () (fresh_irq s)"
    using assms(3,4) True by (intro spin.acquire_release_all) (auto simp: fresh_irq_ok frame_simps)
  with True show ?thesis by (simp add: acquire_all_fresh) (simp add: fresh_irq_def)
next
  case False
  show ?thesis
  proof (cases "ls = []")
    case ne: False
    with False have n: "noff (mycpu s) \<noteq> 0" by simp
    with assms(1,2) have "irq_ok s" by (simp add: irq_ok_def)
    then show ?thesis using spin.acquire_release_all [of s ls] assms(3,4) n by simp
  qed simp
qed

definition boot_locks :: "lockst" where
  "boot_locks = \<lparr>hart = 0, sie = True, cpus = (\<lambda>_. \<lparr>cpu_proc = None, noff = 0, intena = True\<rparr>),
     locks = (\<lambda>_. \<lparr>locked = 0, lk_name = [], lk_cpu = None\<rparr>), kout = [], pr_locking = True, panicked = False\<rparr>"

text \<open>The locks of a CPU with interrupts on, and of one with interrupts off and a stale \<^verbatim>\<open>intena\<close>.\<close>

theorem spinlocks_nest_witness:
  "kthen (acquire_all acquire [L_wait, L_proc 3, L_kmem] boot_locks)
     (acquire_all release [L_kmem, L_proc 3, L_wait]) = Ok () boot_locks \<and>
   (let s = boot_locks\<lparr>sie := False\<rparr> in intena (mycpu s) \<and>
     (\<exists>t. kthen (acquire_all acquire [L_wait, L_kmem] s) (acquire_all release [L_kmem, L_wait]) = Ok () t \<and>
       \<not> sie t \<and> \<not> intena (mycpu t)))"
  using spinlocks_nest [of boot_locks "[L_wait, L_proc 3, L_kmem]"]
    spinlocks_nest [of "boot_locks\<lparr>sie := False\<rparr>" "[L_wait, L_kmem]"]
  by (simp add: boot_locks_def free_def irq_defs Let_def fun_upd_idem)

text \<open>The misuses are caught: acquiring a lock this CPU already holds and releasing one it does
  not hold both panic, and a lock held by another CPU makes \<^verbatim>\<open>acquire\<close> spin with interrupts off.\<close>

theorem spinlock_misuse:
  "(holding l s \<longrightarrow> acquire l s = Panic ''acquire'') \<and>
   (\<not> holding l s \<longrightarrow> release l s = Panic ''release'') \<and>
   (locked (locks s l) \<noteq> 0 \<and> lk_cpu (locks s l) \<noteq> Some (hart s) \<longrightarrow>
      acquire l s = Blocked (Spinning l) (push_off s) \<and> \<not> sie (push_off s))"
  by (auto simp: acquire_def release_def holding_def Let_def irq_defs)

theorem spinlock_misuse_witness:
  "holding L_kmem (grab L_kmem boot_locks) \<and> acquire L_kmem (grab L_kmem boot_locks) = Panic ''acquire'' \<and>
   \<not> holding L_kmem boot_locks \<and> release L_kmem boot_locks = Panic ''release'' \<and>
   acquire L_kmem ((grab L_kmem boot_locks)\<lparr>hart := 1\<rparr>)
     = Blocked (Spinning L_kmem) (push_off ((grab L_kmem boot_locks)\<lparr>hart := 1\<rparr>))"
  using spinlock_misuse [of L_kmem "grab L_kmem boot_locks"] spinlock_misuse [of L_kmem boot_locks]
    spinlock_misuse [of L_kmem "(grab L_kmem boot_locks)\<lparr>hart := 1\<rparr>"]
  by (simp add: kernel_simps) (simp add: grab_def boot_locks_def holding_def Let_def irq_defs)

end
