(* ===== verification/Cstring.thy ===== *)
theory Cstring
  imports Prelude
begin

text \<open>
  The byte and string routines: \<^verbatim>\<open>src/lab2/kernel/string.c\<close> and, with the suffix \<open>_u\<close> where both
  have a function of one name, \<^verbatim>\<open>src/lab2/user/ulib.c\<close>.  Memory is a function from addresses
  to bytes; a routine takes it and returns it.  Loops bounded by a count are recursive on
  it; loops that run to a NUL are partial functions, \<open>None\<close> when there is none.  \<^verbatim>\<open>char\<close> is
  unsigned, as on RISC-V.
\<close>

section \<open>string.c\<close>

definition memset :: "nat \<Rightarrow> u8 \<Rightarrow> nat \<Rightarrow> bytes \<Rightarrow> bytes" where
  "memset dst c n m = fold (\<lambda>i m. m(dst + i := c)) [0..<n] m"

primrec memcmp :: "nat \<Rightarrow> nat \<Rightarrow> nat \<Rightarrow> bytes \<Rightarrow> int" where
  "memcmp 0 s1 s2 m = 0"
| "memcmp (Suc n) s1 s2 m =
     (if m s1 \<noteq> m s2 then uint (m s1) - uint (m s2) else memcmp n (s1 + 1) (s2 + 1) m)"

text \<open>\<^verbatim>\<open>while(n-- > 0) *--d = *--s;\<close> and \<^verbatim>\<open>while(n-- > 0) *d++ = *s++;\<close>\<close>

primrec copy_backward :: "nat \<Rightarrow> nat \<Rightarrow> nat \<Rightarrow> bytes \<Rightarrow> bytes" where
  "copy_backward 0 d s m = m"
| "copy_backward (Suc n) d s m = copy_backward n (d - 1) (s - 1) (m(d - 1 := m (s - 1)))"

primrec copy_forward :: "nat \<Rightarrow> nat \<Rightarrow> nat \<Rightarrow> bytes \<Rightarrow> bytes" where
  "copy_forward 0 d s m = m"
| "copy_forward (Suc n) d s m = copy_forward n (d + 1) (s + 1) (m(d := m s))"

definition memmove :: "nat \<Rightarrow> nat \<Rightarrow> nat \<Rightarrow> bytes \<Rightarrow> bytes" where
  "memmove dst src n m =
     (if n = 0 then m
      else if src < dst \<and> src + n > dst then copy_backward n (dst + n) (src + n) m
      else copy_forward n dst src m)"

definition memcpy :: "nat \<Rightarrow> nat \<Rightarrow> nat \<Rightarrow> bytes \<Rightarrow> bytes" where
  "memcpy dst src n m = memmove dst src n m"

primrec strncmp :: "nat \<Rightarrow> nat \<Rightarrow> nat \<Rightarrow> bytes \<Rightarrow> int" where
  "strncmp 0 p q m = 0"
| "strncmp (Suc n) p q m =
     (if m p \<noteq> 0 \<and> m p = m q then strncmp n (p + 1) (q + 1) m else uint (m p) - uint (m q))"

text \<open>
  \<^verbatim>\<open>strncpy\<close>'s two loops.  The first consumes one of the \<open>n\<close> per character copied, the
  terminating NUL included; the second zeroes what is left.
\<close>

primrec strncpy_fill :: "nat \<Rightarrow> nat \<Rightarrow> bytes \<Rightarrow> bytes" where
  "strncpy_fill 0 s m = m"
| "strncpy_fill (Suc n) s m = strncpy_fill n (s + 1) (m(s := 0))"

primrec strncpy :: "nat \<Rightarrow> nat \<Rightarrow> nat \<Rightarrow> bytes \<Rightarrow> bytes" where
  "strncpy 0 s t m = m"
| "strncpy (Suc n) s t m =
     (let m' = m(s := m t)
      in if m t \<noteq> 0 then strncpy n (s + 1) (t + 1) m' else strncpy_fill n (s + 1) m')"

primrec safestrcpy_loop :: "nat \<Rightarrow> nat \<Rightarrow> nat \<Rightarrow> bytes \<Rightarrow> bytes" where
  "safestrcpy_loop 0 s t m = m(s := 0)"
| "safestrcpy_loop (Suc n) s t m =
     (let m' = m(s := m t)
      in if m t \<noteq> 0 then safestrcpy_loop n (s + 1) (t + 1) m' else m'(s + 1 := 0))"

definition safestrcpy :: "nat \<Rightarrow> nat \<Rightarrow> int \<Rightarrow> bytes \<Rightarrow> bytes" where
  "safestrcpy s t n m = (if n \<le> 0 then m else safestrcpy_loop (nat n - 1) s t m)"

partial_function (option) strlen_from :: "bytes \<Rightarrow> nat \<Rightarrow> nat \<Rightarrow> nat option" where
  "strlen_from m s n = (if m (s + n) \<noteq> 0 then strlen_from m s (n + 1) else Some n)"

definition strlen :: "nat \<Rightarrow> bytes \<Rightarrow> nat option" where
  "strlen s m = strlen_from m s 0"

section \<open>ulib.c\<close>

partial_function (option) strcpy :: "nat \<Rightarrow> nat \<Rightarrow> bytes \<Rightarrow> bytes option" where
  "strcpy s t m =
     (let m' = m(s := m t) in if m t \<noteq> 0 then strcpy (s + 1) (t + 1) m' else Some m')"

partial_function (option) strcmp :: "bytes \<Rightarrow> nat \<Rightarrow> nat \<Rightarrow> int option" where
  "strcmp m p q =
     (if m p \<noteq> 0 \<and> m p = m q then strcmp m (p + 1) (q + 1) else Some (uint (m p) - uint (m q)))"

text \<open>The outer option of \<open>strchr\<close> is termination, the inner one the pointer or 0.\<close>

partial_function (option) strchr :: "bytes \<Rightarrow> nat \<Rightarrow> u8 \<Rightarrow> nat option option" where
  "strchr m s c =
     (if m s \<noteq> 0 then (if m s = c then Some (Some s) else strchr m (s + 1) c) else Some None)"

text \<open>\<^verbatim>\<open>gets\<close>: \<open>input\<close> is what successive one-byte \<^verbatim>\<open>read\<close>s of the standard input return.\<close>

fun gets_loop :: "nat \<Rightarrow> nat \<Rightarrow> nat \<Rightarrow> u8 list \<Rightarrow> bytes \<Rightarrow> bytes \<times> u8 list" where
  "gets_loop 0 buf i input m = (m(buf + i := 0), input)"
| "gets_loop (Suc k) buf i [] m = (m(buf + i := 0), [])"
| "gets_loop (Suc k) buf i (c # input) m =
     (let m = m(buf + i := c)
      in if c = 10 \<or> c = 13 then (m(buf + (i + 1) := 0), input)
         else gets_loop k buf (i + 1) input m)"

definition gets :: "nat \<Rightarrow> int \<Rightarrow> u8 list \<Rightarrow> bytes \<Rightarrow> bytes \<times> u8 list" where
  "gets buf max_len input m = gets_loop (nat (max_len - 1)) buf 0 input m"

partial_function (option) atoi_loop :: "bytes \<Rightarrow> nat \<Rightarrow> u32 \<Rightarrow> u32 option" where
  "atoi_loop m s n =
     (if 48 \<le> m s \<and> m s \<le> 57 then atoi_loop m (s + 1) (n * 10 + ucast (m s) - 48) else Some n)"

definition atoi :: "nat \<Rightarrow> bytes \<Rightarrow> u32 option" where
  "atoi s m = atoi_loop m s 0"

definition memmove_u :: "nat \<Rightarrow> nat \<Rightarrow> int \<Rightarrow> bytes \<Rightarrow> bytes" where
  "memmove_u dst src n m =
     (if src > dst then copy_forward (nat n) dst src m
      else copy_backward (nat n) (nat (int dst + n)) (nat (int src + n)) m)"

section \<open>Copies\<close>

lemma memset_apply:
  "memset dst c n m a = (if dst \<le> a \<and> a < dst + n then c else m a)"
  by (induction n) (auto simp: memset_def)

lemma copy_forward_apply:
  "d \<le> s \<or> s + n \<le> d \<Longrightarrow>
   copy_forward n d s m a = (if d \<le> a \<and> a < d + n then m (s + (a - d)) else m a)"
proof (induction n arbitrary: d s m)
  case (Suc n)
  have "copy_forward n (d + 1) (s + 1) (m(d := m s)) a =
      (if d + 1 \<le> a \<and> a < d + 1 + n then (m(d := m s)) (s + 1 + (a - (d + 1))) else (m(d := m s)) a)"
    by (rule Suc.IH) (use Suc.prems in auto)
  with Suc.prems show ?case by (auto simp: Suc_diff_Suc)
qed auto

lemma copy_backward_apply:
  "s \<le> d \<or> d + n \<le> s \<Longrightarrow>
   copy_backward n (d + n) (s + n) m a = (if d \<le> a \<and> a < d + n then m (s + (a - d)) else m a)"
proof (induction n arbitrary: m)
  case (Suc n)
  have "copy_backward n (d + n) (s + n) (m(d + n := m (s + n))) a =
      (if d \<le> a \<and> a < d + n then (m(d + n := m (s + n))) (s + (a - d)) else (m(d + n := m (s + n))) a)"
    by (rule Suc.IH) (use Suc.prems in auto)
  with Suc.prems show ?case by (auto simp: less_Suc_eq)
qed auto

lemma memmove_eq: "memmove dst src n m = splice m dst n (\<lambda>i. m (src + i))"
  by (auto simp: memmove_def splice_def fun_eq_iff copy_forward_apply copy_backward_apply)

lemma memmove_u_eq:
  "0 \<le> n \<Longrightarrow> memmove_u dst src n m = splice m dst (nat n) (\<lambda>i. m (src + i))"
proof -
  assume "0 \<le> n"
  then have "nat (int dst + n) = dst + nat n" "nat (int src + n) = src + nat n" by auto
  then show ?thesis
    by (auto simp: memmove_u_def splice_def fun_eq_iff copy_forward_apply copy_backward_apply)
qed

section \<open>Strings in memory\<close>

definition str_at :: "bytes \<Rightarrow> nat \<Rightarrow> u8 list \<Rightarrow> bool" where
  "str_at m p s \<longleftrightarrow> (\<forall>i < length s. m (p + i) = s ! i \<and> s ! i \<noteq> 0) \<and> m (p + length s) = 0"

lemma str_at_Nil [simp]: "str_at m p [] \<longleftrightarrow> m p = 0"
  by (simp add: str_at_def)

lemma str_at_Cons [simp]: "str_at m p (c # s) \<longleftrightarrow> m p = c \<and> c \<noteq> 0 \<and> str_at m (p + 1) s"
  by (auto simp: str_at_def less_Suc_eq_0_disj)

lemma strlen_from_str_at: "str_at m (p + k) s \<Longrightarrow> strlen_from m p k = Some (k + length s)"
proof (induction s arbitrary: k)
  case Nil
  then show ?case by (simp add: strlen_from.simps)
next
  case (Cons c s)
  then show ?case using Cons.IH [of "k + 1"] by (simp add: strlen_from.simps [of m p k] add.assoc)
qed

lemma strlen_str_at: "str_at m p s \<Longrightarrow> strlen p m = Some (length s)"
  using strlen_from_str_at [of m p 0 s] by (simp add: strlen_def)

lemma str_at_frame: "str_at m p s \<Longrightarrow> (\<And>i. i \<le> length s \<Longrightarrow> m' (p + i) = m (p + i)) \<Longrightarrow> str_at m' p s"
  by (auto simp: str_at_def)
text \<open>\<^verbatim>\<open>safestrcpy\<close>: at most \<open>n - 1\<close> characters and always a NUL.\<close>

lemma safestrcpy_loop_str_at:
  assumes "str_at m t cs" and "d + k < t \<or> t + length cs < d"
  shows "str_at (safestrcpy_loop k d t m) d (take k cs) \<and>
     (\<forall>a. a < d \<or> d + k < a \<longrightarrow> safestrcpy_loop k d t m a = m a)"
  using assms
proof (induction k arbitrary: d t m cs)
  case 0
  then show ?case by simp
next
  case (Suc k)
  show ?case
  proof (cases cs)
    case Nil
    then show ?thesis using Suc.prems by (auto simp: Let_def)
  next
    case (Cons c cs')
    define m1 where "m1 = m(d := m t)"
    have m1: "m1 d = m t" "\<And>a. a \<noteq> d \<Longrightarrow> m1 a = m a" by (simp_all add: m1_def)
    have t: "m t = c" "c \<noteq> 0" "str_at m (t + 1) cs'" using Suc.prems(1) Cons by simp_all
    have s': "str_at m1 (t + 1) cs'"
      using t(3) by (rule str_at_frame) (use Suc.prems(2) Cons m1 in auto)
    have IH: "str_at (safestrcpy_loop k (d + 1) (t + 1) m1) (d + 1) (take k cs')"
      "\<And>a. a < d + 1 \<or> d + 1 + k < a \<Longrightarrow> safestrcpy_loop k (d + 1) (t + 1) m1 a = m1 a"
      using Suc.IH [OF s', of "d + 1"] Suc.prems(2) Cons by auto
    have step: "safestrcpy_loop (Suc k) d t m = safestrcpy_loop k (d + 1) (t + 1) m1"
      using t by (simp add: m1_def)
    show ?thesis
      unfolding step using IH t m1 Cons by (auto simp del: safestrcpy_loop.simps)
  qed
qed

lemma strncmp_str_at:
  assumes "str_at m p a" and "str_at m q b"
  shows "strncmp n p q m = 0 \<longleftrightarrow> take n a = take n b"
  using assms
proof (induction n arbitrary: p q a b)
  case 0
  then show ?case by simp
next
  case (Suc n)
  show ?case
  proof (cases a)
    case Nil
    then have "m p = 0" using Suc.prems(1) by simp
    with Nil Suc.prems show ?thesis by (cases b) (auto simp: unsigned_eq_0_iff)
  next
    case (Cons c a')
    then have p: "m p = c" "c \<noteq> 0" "str_at m (p + 1) a'" using Suc.prems(1) by auto
    show ?thesis
    proof (cases b)
      case Nil
      then show ?thesis using Suc.prems(2) p Cons by (simp add: unsigned_eq_0_iff)
    next
      case (Cons d b')
      then show ?thesis
        using Suc.prems(2) p Suc.IH [OF p(3), of "q + 1" b'] \<open>a = c # a'\<close> by (auto simp: word_uint_eq_iff)
    qed
  qed
qed

lemma strcmp_str_at:
  assumes "str_at m p a" and "str_at m q b"
  shows "\<exists>r. strcmp m p q = Some r \<and> (r = 0 \<longleftrightarrow> a = b)"
  using assms
proof (induction a arbitrary: p q b)
  case Nil
  then show ?case by (cases b) (auto simp: strcmp.simps [of m p q] unsigned_eq_0_iff)
next
  case (Cons c a)
  note IH = Cons.IH and prems = Cons.prems
  show ?case
  proof (cases b)
    case Nil
    then show ?thesis using prems by (auto simp: strcmp.simps [of m p q] unsigned_eq_0_iff)
  next
    case (Cons d b')
    then show ?thesis
      using IH [of "p + 1" "q + 1" b'] prems
      by (auto simp: strcmp.simps [of m p q] word_uint_eq_iff)
  qed
qed

section \<open>Properties\<close>

text \<open>C36: Both \<^verbatim>\<open>memmove\<close>s, which choose their direction by different tests, copy \<open>n\<close> bytes from the
  original contents of the source to the destination and change nothing else, however the two
  ranges overlap.\<close>

theorem memmove_overlap:
  "memmove dst src n m = splice m dst n (\<lambda>i. m (src + i)) \<and>
   memmove_u dst src (int n) m = splice m dst n (\<lambda>i. m (src + i))"
  by (simp add: memmove_eq memmove_u_eq)

text \<open>C37: \<^verbatim>\<open>safestrcpy(d, t, n)\<close> with \<open>n > 0\<close> always leaves a terminated string at the destination, the
  first \<open>n - 1\<close> characters of the source or all of it if shorter, and writes nowhere outside the
  \<open>n\<close> bytes it was given.\<close>

theorem safestrcpy_terminates_string:
  assumes "str_at m t cs" and "0 < n" and "d + nat n \<le> t \<or> t + length cs < d"
  shows "str_at (safestrcpy d t n m) d (take (nat n - 1) cs) \<and>
     (\<forall>a. a < d \<or> d + nat n \<le> a \<longrightarrow> safestrcpy d t n m a = m a)"
  using safestrcpy_loop_str_at [OF assms(1), of d "nat n - 1"] assms(2,3)
  by (auto simp: safestrcpy_def)

theorem safestrcpy_terminates_string_witness:
  "str_at (safestrcpy 0 100 3 (\<lambda>a. if a = 105 then 0 else 7)) 0 [7, 7]"
proof -
  have "str_at (\<lambda>a. if a = 105 then 0 else 7) 100 [7, 7, 7, 7, 7]" by simp
  from safestrcpy_terminates_string [OF this, of 3 0] show ?thesis by simp
qed

text \<open>On terminated strings \<^verbatim>\<open>strncmp\<close> returns 0 exactly when the first \<open>n\<close> characters agree, \<^verbatim>\<open>strcmp\<close>
  always returns, with 0 exactly for equal strings, and \<^verbatim>\<open>strlen\<close> returns the length.\<close>

theorem string_comparison:
  assumes "str_at m p a" and "str_at m q b"
  shows "(strncmp n p q m = 0 \<longleftrightarrow> take n a = take n b) \<and>
     (\<exists>r. strcmp m p q = Some r \<and> (r = 0 \<longleftrightarrow> a = b)) \<and> strlen p m = Some (length a)"
  using strncmp_str_at [OF assms] strcmp_str_at [OF assms] strlen_str_at [OF assms(1)] by blast

theorem string_comparison_witness:
  "strncmp 1 0 10 ((\<lambda>_. 0)(0 := 65, 10 := 65, 11 := 66)) = 0 \<and> strlen 10 ((\<lambda>_. 0)(0 := 65, 10 := 65, 11 := 66)) = Some 2"

  using string_comparison [of "(\<lambda>_. 0)(0 := 65, 10 := 65, 11 := 66)" 10 "[65, 66]" 0 "[65]" 1]
    string_comparison [of "(\<lambda>_. 0)(0 := 65, 10 := 65, 11 := 66)" 0 "[65]" 10 "[65, 66]" 1] by simp

end
