(* ===== verification/Printf.thy ===== *)
theory Printf
  imports Spinlock Cstring
begin

text \<open>
  Formatted output, \<^verbatim>\<open>src/lab2/kernel/printf.c\<close> and \<^verbatim>\<open>src/lab2/user/printf.c\<close> (suffix \<open>_u\<close>).  What
  is printed is a string; \<open>None\<close> is undefined behaviour: a conversion without its argument, or
  a number that does not fit \<^verbatim>\<open>printint\<close>'s buffer of 16 characters.  The variable arguments are
  a list of typed values.
\<close>

section \<open>Numbers\<close>

definition digits :: string where "digits = ''0123456789abcdef''"
definition digits_u :: string where "digits_u = ''0123456789ABCDEF''"

text \<open>
  The \<^verbatim>\<open>do ... while\<close> loop, with the free places of the buffer; the digits come out in reverse.
\<close>

primrec digits_loop :: "nat \<Rightarrow> string \<Rightarrow> u32 \<Rightarrow> u32 \<Rightarrow> string \<Rightarrow> string option" where
  "digits_loop 0 ds x base buf = None"
| "digits_loop (Suc places) ds x base buf =
     (let buf = buf @ [ds ! unat (x mod base)]; x = x div base
      in if x \<noteq> 0 then digits_loop places ds x base buf else Some buf)"

definition with_sign :: "bool \<Rightarrow> string option \<Rightarrow> string option" where
  "with_sign neg buf =
     (case buf of
        None \<Rightarrow> None
      | Some buf \<Rightarrow>
          if neg then (if length buf < 16 then Some (rev (buf @ ''-'')) else None) else Some (rev buf))"

definition printint :: "u32 \<Rightarrow> u32 \<Rightarrow> bool \<Rightarrow> string option" where
  "printint xx base sign =
     (let sign = (sign \<and> sint xx < 0);
          x = (if sign then - xx else xx)
      in with_sign sign (digits_loop 16 digits x base []))"

definition printint_u :: "u32 \<Rightarrow> u32 \<Rightarrow> bool \<Rightarrow> string option" where
  "printint_u xx base sign =
     (let (neg, x) = (if sign \<and> sint xx < 0 then (True, - xx) else (False, xx))
      in with_sign neg (digits_loop 16 digits_u x base []))"

primrec hex_loop :: "nat \<Rightarrow> string \<Rightarrow> u64 \<Rightarrow> string" where
  "hex_loop 0 ds x = []"
| "hex_loop (Suc i) ds x = ds ! unat (drop_bit 60 x) # hex_loop i ds (push_bit 4 x)"

definition printptr :: "u64 \<Rightarrow> string" where
  "printptr x = ''0x'' @ hex_loop 16 digits x"

definition printptr_u :: "u64 \<Rightarrow> string" where
  "printptr_u x = ''0x'' @ hex_loop 16 digits_u x"

section \<open>Formats\<close>

datatype varg = V_int u32 | V_uint64 u64 | V_str "string option"

fun va_int :: "varg list \<Rightarrow> (u32 \<times> varg list) option" where
  "va_int (V_int x # as) = Some (x, as)"
| "va_int as = None"

fun va_uint64 :: "varg list \<Rightarrow> (u64 \<times> varg list) option" where
  "va_uint64 (V_uint64 x # as) = Some (x, as)"
| "va_uint64 as = None"

fun va_str :: "varg list \<Rightarrow> (string \<times> varg list) option" where
  "va_str (V_str s # as) = Some (case s of None \<Rightarrow> ''(null)'' | Some s \<Rightarrow> s, as)"
| "va_str as = None"

definition conv ::
  "('v \<times> varg list) option \<Rightarrow> ('v \<Rightarrow> string option) \<Rightarrow> (string \<times> varg list) option" where
  "conv arg show =
     Option.bind arg (\<lambda>(v, as). map_option (\<lambda>out. (out, as)) (show v))"

text \<open>The kernel's \<^verbatim>\<open>switch\<close> on the character after \<^verbatim>\<open>%\<close>.\<close>

definition conversion :: "char \<Rightarrow> varg list \<Rightarrow> (string \<times> varg list) option" where
  "conversion c as =
     (if c = CHR ''d'' then conv (va_int as) (\<lambda>x. printint x 10 True)
      else if c = CHR ''x'' then conv (va_int as) (\<lambda>x. printint x 16 True)
      else if c = CHR ''p'' then conv (va_uint64 as) (\<lambda>x. Some (printptr x))
      else if c = CHR ''s'' then conv (va_str as) Some
      else if c = CHR ''%'' then Some (''%'', as)
      else Some ([CHR ''%'', c], as))"

definition emit :: "string \<Rightarrow> string option \<Rightarrow> string option" where
  "emit out rest = map_option (\<lambda>r. out @ r) rest"

fun printf_loop :: "string \<Rightarrow> varg list \<Rightarrow> string option" where
  "printf_loop [] as = Some []"
| "printf_loop (c # fmt) as =
     (if c \<noteq> CHR ''%'' then emit [c] (printf_loop fmt as)
      else case fmt of
          [] \<Rightarrow> Some []
        | d # fmt' \<Rightarrow>
            (case conversion d as of
               None \<Rightarrow> None
             | Some (out, as) \<Rightarrow> emit out (printf_loop fmt' as)))"

text \<open>\<^verbatim>\<open>printf\<close> of the kernel; \<open>None\<close> is the null format.\<close>

definition printf :: "string option \<Rightarrow> varg list \<Rightarrow> 'a lockst_scheme \<Rightarrow> (unit, 'a lockst_scheme) kr" where
  "printf fmt as s =
     (let locking = pr_locking s in
      kthen (if locking then acquire L_pr s else Ok () s) (\<lambda>s.
      case fmt of
        None \<Rightarrow> Panic ''null fmt''
      | Some f \<Rightarrow>
          (case printf_loop f as of
             None \<Rightarrow> Fault ''printf: arguments''
           | Some out \<Rightarrow>
               if locking then release L_pr (kputs out s) else Ok () (kputs out s))))"

text \<open>\<^verbatim>\<open>panic\<close> prints its message, as a format, and never returns.\<close>

definition panic :: "string \<Rightarrow> 'a lockst_scheme \<Rightarrow> (unit, 'a lockst_scheme) kr" where
  "panic msg s =
     (let s = s\<lparr>pr_locking := False\<rparr> in
      kthen (printf (Some ''panic: '') [] s) (\<lambda>s.
      kthen (printf (Some msg) [] s) (\<lambda>s.
      kthen (printf (Some [newline]) [] s) (\<lambda>s. Panic msg))))"

definition printfinit :: "'a lockst_scheme \<Rightarrow> 'a lockst_scheme" where
  "printfinit s = (initlock L_pr ''pr'' s)\<lparr>pr_locking := True\<rparr>"

text \<open>The user library's loop, which remembers a \<^verbatim>\<open>%\<close> in its state.\<close>

definition conversion_u :: "char \<Rightarrow> varg list \<Rightarrow> (string \<times> varg list) option" where
  "conversion_u c as =
     (if c = CHR ''d'' then conv (va_int as) (\<lambda>x. printint_u x 10 True)
      else if c = CHR ''l'' then conv (va_uint64 as) (\<lambda>x. printint_u (ucast x) 10 False)
      else if c = CHR ''x'' then conv (va_int as) (\<lambda>x. printint_u x 16 False)
      else if c = CHR ''p'' then conv (va_uint64 as) (\<lambda>x. Some (printptr_u x))
      else if c = CHR ''s'' then conv (va_str as) Some
      else if c = CHR ''c'' then conv (va_int as) (\<lambda>x. Some [char_of (unat x mod 256)])
      else if c = CHR ''%'' then Some (''%'', as)
      else Some ([CHR ''%'', c], as))"

fun vprintf_loop :: "bool \<Rightarrow> string \<Rightarrow> varg list \<Rightarrow> string option" where
  "vprintf_loop percent [] as = Some []"
| "vprintf_loop False (c # fmt) as =
     (if c = CHR ''%'' then vprintf_loop True fmt as else emit [c] (vprintf_loop False fmt as))"
| "vprintf_loop True (c # fmt) as =
     (case conversion_u c as of
        None \<Rightarrow> None
      | Some (out, as) \<Rightarrow> emit out (vprintf_loop False fmt as))"

definition vprintf :: "string \<Rightarrow> varg list \<Rightarrow> string option" where
  "vprintf fmt as = vprintf_loop False fmt as"

section \<open>Numbers are printed in positional notation\<close>

fun numeral_of :: "string \<Rightarrow> nat \<Rightarrow> nat \<Rightarrow> string" where
  "numeral_of ds b n = (if n < b \<or> b < 2 then [ds ! n] else numeral_of ds b (n div b) @ [ds ! (n mod b)])"

declare numeral_of.simps [simp del]

lemma digits_loop_numeral:
  assumes "2 \<le> unat base" and "unat x < unat base ^ Suc places"
  shows "digits_loop (Suc places) ds x base buf = Some (buf @ rev (numeral_of ds (unat base) (unat x)))"
  using assms(2)
proof (induction places arbitrary: x buf)
  case (0 x buf)
  have d: "unat (x div base) = unat x div unat base" "unat (x mod base) = unat x mod unat base"
    by (simp_all add: unat_div unat_mod)
  then have "x div base = 0" using 0 by (simp add: word_unat_eq_iff)
  then show ?case using 0 d(2) by (simp add: numeral_of.simps [of ds "unat base" "unat x"] Let_def)
next
  case (Suc places x buf)
  let ?b = "unat base"
  have d: "unat (x div base) = unat x div ?b" "unat (x mod base) = unat x mod ?b"
    by (simp_all add: unat_div unat_mod)
  show ?case
  proof (cases "unat x < ?b")
    case True
    then have "x div base = 0" using d(1) by (simp add: word_unat_eq_iff)
    then show ?thesis using True d(2) by (simp add: numeral_of.simps [of ds ?b "unat x"] Let_def)
  next
    case False
    then have "x div base \<noteq> 0"
      using d(1) assms(1) by (auto simp: div_eq_0_iff word_unat_eq_iff)
    moreover have "unat (x div base) < ?b ^ Suc places"
      using Suc.prems d(1) assms(1) by (simp add: less_mult_imp_div_less mult.commute mult.assoc)
    ultimately show ?thesis
      using Suc.IH [of "x div base"] False assms(1) d
      by (simp add: numeral_of.simps [of ds ?b "unat x"] Let_def)
  qed
qed

lemma u32_fits: "unat x < 10 ^ Suc 15" "unat x < 16 ^ Suc 15" for x :: u32
  using unsigned_less [of x, where ?'a = nat] by simp_all

lemma length_numeral_of:
  "2 \<le> b \<Longrightarrow> n < b ^ Suc k \<Longrightarrow> length (numeral_of ds b n) \<le> Suc k"
proof (induction k arbitrary: n)
  case 0
  then show ?case by (simp add: numeral_of.simps [of ds b n])
next
  case (Suc k)
  then have "n div b < b ^ Suc k" by (simp add: less_mult_imp_div_less mult.commute mult.assoc)
  then show ?case using Suc.IH [of "n div b"] Suc.prems(1) by (simp add: numeral_of.simps [of ds b n])
qed

text \<open>\<^verbatim>\<open>%d\<close>: the sign and the magnitude, for every integer, and never more than 11 characters.\<close>

definition decimal :: "nat \<Rightarrow> string" where
  "decimal n = numeral_of digits 10 n"

lemma magnitude: "unat (if sint x < 0 then - x else x) = nat \<bar>sint x\<bar>" for x :: u32
proof -
  have "(if sint x < 0 then - x else x) = of_int \<bar>sint x\<bar>" by simp
  moreover have "\<bar>sint x\<bar> < 2 ^ 32"
    using sint_greater_eq [of x] sint_less [of x] by auto
  ultimately have "uint (if sint x < 0 then - x else x) = \<bar>sint x\<bar>"
    by (simp add: unsigned_of_int take_bit_int_eq_self del: of_int_abs)
  then show ?thesis by (metis nat_uint_eq)
qed

lemma printint_decimal:
  "printint x 10 True = Some ((if sint x < 0 then ''-'' else []) @ decimal (nat \<bar>sint x\<bar>))"
proof -
  let ?y = "if sint x < 0 then - x else x"
  have loop: "digits_loop 16 digits ?y 10 [] = Some (rev (decimal (nat \<bar>sint x\<bar>)))"
    using digits_loop_numeral [of 10 ?y 15 digits "[]"] u32_fits(1) [of ?y] magnitude [of x]
    by (simp add: decimal_def del: digits_loop.simps) 
  have "length (decimal (nat \<bar>sint x\<bar>)) < 16"
  proof -
    have "nat \<bar>sint x\<bar> < 10 ^ Suc 9"
      using sint_greater_eq [of x] sint_less [of x] by auto
    from length_numeral_of [where ds = digits, OF _ this] show ?thesis by (simp add: decimal_def)
  qed
  with loop show ?thesis
    by (cases "sint x < 0") (simp_all add: printint_def with_sign_def Let_def)
qed

lemma digit_cases: "r < 10 \<Longrightarrow> r \<in> {0, 1, 2, 3, 4, 5, 6, 7, 8, 9 :: nat}" by auto

lemma digits_agree: "r < 10 \<Longrightarrow> digits_u ! r = digits ! r"
  using digit_cases [of r] by (auto simp: digits_def digits_u_def)

lemma digit_byte: "r < 10 \<Longrightarrow> (of_char (digits ! r) :: u8) = 48 + of_nat r"
  using digit_cases [of r] by (auto simp: digits_def)

lemma digit_word: "r < 10 \<Longrightarrow> 48 + of_nat r \<le> (57 :: u8) \<and> 48 \<le> (48 + of_nat r :: u8) \<and>
    ucast (48 + of_nat r :: u8) = (48 + of_nat r :: u32)"
  using digit_cases [of r] by auto

lemma decimal_u: "numeral_of digits_u 10 n = decimal n"
  unfolding decimal_def
proof (induction n rule: less_induct)
  case (less n)
  then show ?case
    by (subst (1 2) numeral_of.simps) (auto simp: digits_agree)
qed

lemma printint_u_decimal: "printint_u x 10 True = printint x 10 True"
proof -
  have "digits_loop 16 digits_u y 10 [] = digits_loop 16 digits y 10 []" for y
    using digits_loop_numeral [of 10 y 15 digits "[]"] digits_loop_numeral [of 10 y 15 digits_u "[]"]
      u32_fits(1) [of y] by (simp add: decimal_u decimal_def del: digits_loop.simps)
  then show ?thesis by (auto simp: printint_def printint_u_def Let_def)
qed

lemma atoi_decimal:
  "(\<And>i. i < length (decimal n) \<Longrightarrow> m (p + i) = of_char (decimal n ! i)) \<Longrightarrow>
   atoi_loop m p 0 = atoi_loop m (p + length (decimal n)) (of_nat n)"
proof (induction n rule: less_induct)
  case (less n)
  have step: "atoi_loop m q a = atoi_loop m (q + 1) (a * 10 + of_nat r)"
    if "m q = of_char (digits ! r)" "r < 10" for q a r
    using that digit_word [of r] by (subst atoi_loop.simps) (simp add: digit_byte algebra_simps)
  show ?case
  proof (cases "n < 10")
    case True
    then have d: "decimal n = [digits ! n]" by (simp add: decimal_def numeral_of.simps)
    then show ?thesis using step [of p n 0] less.prems [of 0] True by simp
  next
    case False
    let ?l = "length (decimal (n div 10))"
    have d: "decimal n = decimal (n div 10) @ [digits ! (n mod 10)]"
      using False by (simp add: decimal_def numeral_of.simps [of digits 10 n])
    have IH: "atoi_loop m p 0 = atoi_loop m (p + ?l) (of_nat (n div 10))"
    proof (rule less.IH)
      fix i assume "i < ?l"
      then show "m (p + i) = of_char (decimal (n div 10) ! i)"
        using less.prems [of i] by (simp add: d nth_append)
    qed (use False in simp)
    have "m (p + ?l) = of_char (digits ! (n mod 10))" using less.prems [of ?l] by (simp add: d)
    from step [OF this] have "atoi_loop m (p + ?l) (of_nat (n div 10)) =
        atoi_loop m (p + ?l + 1) (of_nat (n div 10) * 10 + of_nat (n mod 10))" by simp
    moreover have "of_nat (n div 10) * 10 + of_nat (n mod 10) = (of_nat n :: u32)"
      by (metis div_mult_mod_eq of_nat_add of_nat_mult of_nat_numeral)
    ultimately show ?thesis using IH d by simp
  qed
qed

text \<open>Formats without conversions.\<close>

lemma printf_loop_plain: "CHR ''%'' \<notin> set f \<Longrightarrow> printf_loop f as = Some f"
  by (induction f) (auto simp: emit_def)

lemma printf_prints:
  assumes "irq_ok s" and "free L_pr s" and "printf_loop f as = Some out"
  shows "printf (Some f) as s = Ok () (kputs out s)"
  using assms by (simp add: printf_def Let_def kernel_simps frame_simps)

lemma printf_plain [kernel_simps]:
  assumes "irq_ok s" and "free L_pr s" and "CHR ''%'' \<notin> set f"
  shows "printf (Some f) as s = Ok () (kputs f s)"
  using assms by (simp add: printf_def Let_def printf_loop_plain kernel_simps frame_simps)

text \<open>The characters that follow a percent sign in a format.\<close>

fun conv_chars :: "string \<Rightarrow> char list" where
  "conv_chars (c # d # fmt) = (if c = CHR ''%'' then d # conv_chars fmt else conv_chars (d # fmt))"
| "conv_chars fmt = []"

lemma conversion_u_eq:
  "c \<notin> set ''xlcp'' \<Longrightarrow> conversion_u c as = conversion c as"
  by (simp add: conversion_u_def conversion_def printint_u_decimal)

section \<open>Properties\<close>

text \<open>C34: \<^verbatim>\<open>%d\<close> prints every 32-bit integer, in the kernel and in the user library alike, as a minus
  sign if it is negative and its decimal digits without leading zeros; the buffer always suffices.
  \<^verbatim>\<open>atoi\<close>, on what was printed for a number, returns the number if it is not negative and 0 if it is:
  it knows no sign and stops at the minus.\<close>

theorem printint_atoi:
  "printint x 10 True = Some ((if sint x < 0 then ''-'' else []) @ decimal (nat \<bar>sint x\<bar>)) \<and>
   printint_u x 10 True = printint x 10 True \<and>
   (printint x 10 True = Some t \<longrightarrow> str_at m p (map of_char t) \<longrightarrow>
      atoi p m = Some (if sint x < 0 then 0 else x))"
proof -
  let ?n = "nat \<bar>sint x\<bar>"
  have "atoi p m = Some (if sint x < 0 then 0 else x)"
    if t: "printint x 10 True = Some t" and a: "str_at m p (map of_char t)"
  proof (cases "sint x < 0")
    case True
    then have "t = CHR ''-'' # decimal ?n" using t printint_decimal [of x] by simp
    then have "m p = of_char (CHR ''-'')" using a by simp
    then have "m p = 45" by simp
    with True show ?thesis by (simp add: atoi_def atoi_loop.simps [of m p])
  next
    case False
    then have "t = decimal ?n" using t printint_decimal [of x] by simp
    then have a: "str_at m p (map of_char (decimal ?n))" using a by simp
    have "atoi_loop m p 0 = atoi_loop m (p + length (decimal ?n)) (of_nat ?n)"
      using a by (intro atoi_decimal) (simp add: str_at_def)
    moreover have "m (p + length (decimal ?n)) = 0" using a by (simp add: str_at_def)
    then have "atoi_loop m (p + length (decimal ?n)) (of_nat ?n) = Some (of_nat ?n)"
      by (subst atoi_loop.simps) simp
    moreover have "of_nat ?n = x"
      using False by (simp add: of_nat_nat)
    ultimately show ?thesis using False by (simp add: atoi_def)
  qed
  then show ?thesis using printint_decimal [of x] printint_u_decimal [of x] by blast
qed

theorem printint_atoi_witness:
  "printint (- 42) 10 True = Some ''-42'' \<and> atoi 0 ((\<lambda>_. 0)(0 := 55)) = Some 7 \<and>
   atoi 0 ((\<lambda>_. 0)(0 := 45, 1 := 52, 2 := 50)) = Some 0"
proof -
  have d: "decimal 7 = ''7''" "decimal 42 = ''42''"
    by (simp_all add: decimal_def numeral_of.simps digits_def)
  have "printint 7 10 True = Some ''7''" and minus: "printint (- 42) 10 True = Some ''-42''"
    using printint_atoi [of 7 "[]" "\<lambda>_. 0" 0] printint_atoi [of "- 42" "[]" "\<lambda>_. 0" 0] d by simp_all
  moreover have "str_at ((\<lambda>_. 0)(0 := 55)) 0 (map of_char ''7'')"
    "str_at ((\<lambda>_. 0)(0 := 45, 1 := 52, 2 := 50)) 0 (map of_char ''-42'')"
    by (simp_all add: str_at_def nth_Cons')
  ultimately show ?thesis
    using printint_atoi [of 7 "''7''" "(\<lambda>_. 0)(0 := 55)" 0]
      printint_atoi [of "- 42" "''-42''" "(\<lambda>_. 0)(0 := 45, 1 := 52, 2 := 50)" 0] by simp
qed

text \<open>C35: The two \<^verbatim>\<open>printf\<close>s, one a loop that looks ahead and the other a state machine, print the same
  for every format whose conversions are among those both define alike (\<^verbatim>\<open>%d\<close>, \<^verbatim>\<open>%s\<close>, \<^verbatim>\<open>%%\<close> and the
  unknown ones), including formats that end in a percent sign and calls with too few arguments.\<close>

theorem printf_agree:
  assumes "set (conv_chars fmt) \<inter> set ''xlcp'' = {}"
  shows "vprintf fmt as = printf_loop fmt as"
  unfolding vprintf_def using assms
proof (induction fmt as rule: printf_loop.induct)
  case (1 as)
  then show ?case by simp
next
  case (2 c fmt as)
  show ?case
  proof (cases "c = CHR ''%''")
    case False
    have "set (conv_chars fmt) \<inter> set ''xlcp'' = {}"
      using 2(3) False by (cases fmt) (auto split: if_splits)
    then show ?thesis using 2(1) [OF False] False by simp
  next
    case True
    show ?thesis
    proof (cases fmt)
      case Nil
      then show ?thesis using True by simp
    next
      case (Cons d fmt')
      have d: "d \<notin> set ''xlcp''" "set (conv_chars fmt') \<inter> set ''xlcp'' = {}"
        using 2(3) True Cons by auto
      have "vprintf_loop False fmt' as' = printf_loop fmt' as'" if "conversion d as = Some (out, as')" for out as'
        using 2(2) [of d fmt' "(out, as')" out as'] True Cons that d(2) by simp
      then show ?thesis
        using True Cons conversion_u_eq [OF d(1), of as] by (auto split: option.splits)
    qed
  qed
qed

theorem printf_agree_witness:
  "vprintf ''n=%d %s%'' [V_int 5, V_str None] = printf_loop ''n=%d %s%'' [V_int 5, V_str None]"
  by (rule printf_agree) simp

end
