(* ===== verification/Proctab.thy ===== *)
theory Proctab
  imports Printf
begin

text \<open>
  The process table and the scheduler's hand-over, \<^verbatim>\<open>src/lab2/kernel/proc.h\<close> and the part of
  \<^verbatim>\<open>proc.c\<close> that needs neither memory nor files: \<^verbatim>\<open>procinit\<close>, \<^verbatim>\<open>myproc\<close>, \<^verbatim>\<open>allocpid\<close>,
  \<^verbatim>\<open>scheduler\<close>, \<^verbatim>\<open>sched\<close>, \<^verbatim>\<open>yield\<close>, \<^verbatim>\<open>sleep\<close>, \<^verbatim>\<open>wakeup\<close>, \<^verbatim>\<open>kill\<close>, \<^verbatim>\<open>setkilled\<close>, \<^verbatim>\<open>killed\<close> and
  \<^verbatim>\<open>procdump\<close>.  A pointer into \<^verbatim>\<open>proc[NPROC]\<close> is its index.

  \<^verbatim>\<open>swtch\<close> is assembly that exchanges the stack of a process for the scheduler's.  A
  function that calls \<^verbatim>\<open>sched\<close> is therefore cut there: up to the switch it ends in
  \<open>Blocked (Swtch p) s\<close>, where the process table in \<open>s\<close> says why \<open>p\<close> gave up the CPU; the
  code after the switch is a function of its own (\<open>sched_return\<close>, \<open>sleep_return\<close>,
  \<open>yield_return\<close>), and so is each half of an iteration of \<^verbatim>\<open>scheduler\<close>.
\<close>

section \<open>proc.h\<close>

definition NPROC :: nat where "NPROC = 64"
definition NCPU :: nat where "NCPU = 8"
definition NOFILE :: nat where "NOFILE = 16"

datatype procstate = UNUSED | USED | SLEEPING | RUNNABLE | RUNNING | ZOMBIE

text \<open>
  \<open>ofile\<close> holds indices into the file table, \<open>cwd\<close> one into the inode table; \<open>pagetable\<close> and
  \<open>trapframe\<close> are physical addresses, 0 being the null pointer.
\<close>

record proc =
  pstate :: procstate
  pchan :: "chan option"
  pkilled :: u32
  xstate :: u32
  pid :: u32
  parent :: "nat option"
  kstack :: u64
  sz :: u64
  pagetable :: u64
  trapframe :: u64
  ofile :: "nat \<Rightarrow> nat option"
  cwd :: "nat option"
  pname :: string

record procst = lockst +
  procs :: "nat \<Rightarrow> proc"
  nextpid :: u32
  initproc :: "nat option"

lemma procs_frame [frame_simps]:
  "irq_ok (s\<lparr>procs := x\<rparr>) \<longleftrightarrow> irq_ok s" "free l (s\<lparr>procs := x\<rparr>) \<longleftrightarrow> free l s"
  "holding l (s\<lparr>procs := x\<rparr>) \<longleftrightarrow> holding l s" "mycpu (s\<lparr>procs := x\<rparr>) = mycpu s"
  "(grab l s)\<lparr>procs := x\<rparr> = grab l (s\<lparr>procs := x\<rparr>)" "procs (grab l s) = procs s"
  "procs (kputs m s) = procs s"
  by (simp_all add: irq_ok_def free_def holding_def grab_def kputs_def Let_def irq_defs)

lemma nextpid_frame [frame_simps]:
  "irq_ok (s\<lparr>nextpid := x\<rparr>) \<longleftrightarrow> irq_ok s" "free l (s\<lparr>nextpid := x\<rparr>) \<longleftrightarrow> free l s"
  "holding l (s\<lparr>nextpid := x\<rparr>) \<longleftrightarrow> holding l s" "mycpu (s\<lparr>nextpid := x\<rparr>) = mycpu s"
  "(grab l s)\<lparr>nextpid := x\<rparr> = grab l (s\<lparr>nextpid := x\<rparr>)" "nextpid (grab l s) = nextpid s"
  "nextpid (kputs m s) = nextpid s"
  by (simp_all add: irq_ok_def free_def holding_def grab_def kputs_def Let_def irq_defs)

lemma initproc_frame [frame_simps]:
  "irq_ok (s\<lparr>initproc := x\<rparr>) \<longleftrightarrow> irq_ok s" "free l (s\<lparr>initproc := x\<rparr>) \<longleftrightarrow> free l s"
  "holding l (s\<lparr>initproc := x\<rparr>) \<longleftrightarrow> holding l s" "mycpu (s\<lparr>initproc := x\<rparr>) = mycpu s"
  "(grab l s)\<lparr>initproc := x\<rparr> = grab l (s\<lparr>initproc := x\<rparr>)" "initproc (grab l s) = initproc s"
  "initproc (kputs m s) = initproc s"
  by (simp_all add: irq_ok_def free_def holding_def grab_def kputs_def Let_def irq_defs)

definition upd_proc :: "nat \<Rightarrow> (proc \<Rightarrow> proc) \<Rightarrow> 'a procst_scheme \<Rightarrow> 'a procst_scheme" where
  "upd_proc p f s = s\<lparr>procs := (procs s)(p := f (procs s p))\<rparr>"

lemma upd_proc_frame [frame_simps]:
  "irq_ok (upd_proc p f s) \<longleftrightarrow> irq_ok s" "free l (upd_proc p f s) \<longleftrightarrow> free l s"
  "holding l (upd_proc p f s) \<longleftrightarrow> holding l s" "mycpu (upd_proc p f s) = mycpu s"
  "upd_proc p f (grab l s) = grab l (upd_proc p f s)"
  by (simp_all add: upd_proc_def frame_simps)

lemma procs_upd_proc [simp]: "procs (upd_proc p f s) = (procs s)(p := f (procs s p))"
  by (simp add: upd_proc_def)

section \<open>proc.c\<close>

definition TRAMPOLINE :: u64 where "TRAMPOLINE = push_bit 38 1 - 4096"

definition KSTACK :: "nat \<Rightarrow> u64" where
  "KSTACK p = TRAMPOLINE - of_nat ((p + 1) * 2 * 4096)"

definition procinit :: "'a procst_scheme \<Rightarrow> 'a procst_scheme" where
  "procinit s =
     fold (\<lambda>p s. upd_proc p (\<lambda>q. q\<lparr>pstate := UNUSED, kstack := KSTACK p\<rparr>) (initlock (L_proc p) ''proc'' s))
       [0..<NPROC] (initlock L_wait ''wait_lock'' (initlock L_pid ''nextpid'' s))"

definition myproc :: "'a procst_scheme \<Rightarrow> (nat option, 'a procst_scheme) kr" where
  "myproc s =
     (let s = push_off s; p = cpu_proc (mycpu s)
      in kthen (pop_off s) (\<lambda>s. Ok p s))"

definition allocpid :: "'a procst_scheme \<Rightarrow> (u32, 'a procst_scheme) kr" where
  "allocpid s =
     kthen (acquire L_pid s) (\<lambda>s.
       let p = nextpid s; s = s\<lparr>nextpid := nextpid s + 1\<rparr>
       in kthen (release L_pid s) (\<lambda>s. Ok p s))"

text \<open>
  The checks of \<^verbatim>\<open>sched\<close> and the switch away from process \<open>p\<close>; \<open>sched_return\<close> runs when
  the process is switched to again, with the \<^verbatim>\<open>intena\<close> it saved.
\<close>

definition sched :: "'a procst_scheme \<Rightarrow> (unit, 'a procst_scheme) kr" where
  "sched s =
     kbind (myproc s) (\<lambda>me s.
       case me of
         None \<Rightarrow> Fault ''sched: no process''
       | Some p \<Rightarrow>
           if \<not> holding (L_proc p) s then Panic ''sched p->lock''
           else if noff (mycpu s) \<noteq> 1 then Panic ''sched locks''
           else if pstate (procs s p) = RUNNING then Panic ''sched running''
           else if intr_get s then Panic ''sched interruptible''
           else Blocked (Swtch p) s)"

definition sched_return :: "bool \<Rightarrow> 'a procst_scheme \<Rightarrow> 'a procst_scheme" where
  "sched_return saved s = upd_mycpu (\<lambda>c. c\<lparr>intena := saved\<rparr>) s"

definition yield_cpu :: "'a procst_scheme \<Rightarrow> (unit, 'a procst_scheme) kr" where
  "yield_cpu s =
     kbind (myproc s) (\<lambda>me s.
       case me of
         None \<Rightarrow> Fault ''yield: no process''
       | Some p \<Rightarrow>
           kthen (acquire (L_proc p) s) (\<lambda>s.
             sched (upd_proc p (\<lambda>q. q\<lparr>pstate := RUNNABLE\<rparr>) s)))"

definition yield_return :: "nat \<Rightarrow> bool \<Rightarrow> 'a procst_scheme \<Rightarrow> (unit, 'a procst_scheme) kr" where
  "yield_return p saved s = release (L_proc p) (sched_return saved s)"

definition sleep :: "chan \<Rightarrow> lockid \<Rightarrow> 'a procst_scheme \<Rightarrow> (unit, 'a procst_scheme) kr" where
  "sleep ch lk s =
     kbind (myproc s) (\<lambda>me s.
       case me of
         None \<Rightarrow> Fault ''sleep: no process''
       | Some p \<Rightarrow>
           kthen (acquire (L_proc p) s) (\<lambda>s.
           kthen (release lk s) (\<lambda>s.
             sched (upd_proc p (\<lambda>q. q\<lparr>pchan := Some ch, pstate := SLEEPING\<rparr>) s))))"

definition sleep_return :: "nat \<Rightarrow> lockid \<Rightarrow> bool \<Rightarrow> 'a procst_scheme \<Rightarrow> (unit, 'a procst_scheme) kr" where
  "sleep_return p lk saved s =
     (let s = upd_proc p (\<lambda>q. q\<lparr>pchan := None\<rparr>) (sched_return saved s)
      in kthen (release (L_proc p) s) (\<lambda>s. acquire lk s))"

definition wakeup :: "chan \<Rightarrow> 'a procst_scheme \<Rightarrow> (unit, 'a procst_scheme) kr" where
  "wakeup ch s =
     kfor (\<lambda>p s.
       kbind (myproc s) (\<lambda>me s.
         if Some p \<noteq> me then
           kthen (acquire (L_proc p) s) (\<lambda>s.
             let s = (if pstate (procs s p) = SLEEPING \<and> pchan (procs s p) = Some ch
                      then upd_proc p (\<lambda>q. q\<lparr>pstate := RUNNABLE\<rparr>) s else s)
             in release (L_proc p) s)
         else Ok () s)) [0..<NPROC] s"

definition kill :: "u32 \<Rightarrow> 'a procst_scheme \<Rightarrow> (u32, 'a procst_scheme) kr" where
  "kill target s =
     kbind (kscan (\<lambda>p s.
       kthen (acquire (L_proc p) s) (\<lambda>s.
         if pid (procs s p) = target then
           (let s = upd_proc p (\<lambda>q. q\<lparr>pkilled := 1\<rparr>) s;
                s = (if pstate (procs s p) = SLEEPING
                     then upd_proc p (\<lambda>q. q\<lparr>pstate := RUNNABLE\<rparr>) s else s)
            in kthen (release (L_proc p) s) (\<lambda>s. Ok (Some 0) s))
         else kthen (release (L_proc p) s) (\<lambda>s. Ok None s))) [0..<NPROC] s)
       (\<lambda>r s. Ok (case r of None \<Rightarrow> - 1 | Some v \<Rightarrow> v) s)"

definition setkilled :: "nat \<Rightarrow> 'a procst_scheme \<Rightarrow> (unit, 'a procst_scheme) kr" where
  "setkilled p s =
     kthen (acquire (L_proc p) s) (\<lambda>s.
       release (L_proc p) (upd_proc p (\<lambda>q. q\<lparr>pkilled := 1\<rparr>) s))"

definition killed :: "nat \<Rightarrow> 'a procst_scheme \<Rightarrow> (u32, 'a procst_scheme) kr" where
  "killed p s =
     kthen (acquire (L_proc p) s) (\<lambda>s.
       let k = pkilled (procs s p) in kthen (release (L_proc p) s) (\<lambda>s. Ok k s))"

text \<open>
  One turn of the inner loop of \<^verbatim>\<open>scheduler\<close>, up to the switch to \<open>p\<close> (answer \<open>True\<close>: \<open>p\<close> now
  runs, holding its lock) or past it, and what the scheduler does when \<open>p\<close> switches back.
\<close>

definition scheduler_turn :: "nat \<Rightarrow> 'a procst_scheme \<Rightarrow> (bool, 'a procst_scheme) kr" where
  "scheduler_turn p s =
     kthen (acquire (L_proc p) s) (\<lambda>s.
       if pstate (procs s p) = RUNNABLE then
         (let s = upd_proc p (\<lambda>q. q\<lparr>pstate := RUNNING\<rparr>) s;
              s = upd_mycpu (\<lambda>c. c\<lparr>cpu_proc := Some p\<rparr>) s
          in Ok True s)
       else kthen (release (L_proc p) s) (\<lambda>s. Ok False s))"

definition scheduler_back :: "nat \<Rightarrow> 'a procst_scheme \<Rightarrow> (unit, 'a procst_scheme) kr" where
  "scheduler_back p s = release (L_proc p) (upd_mycpu (\<lambda>c. c\<lparr>cpu_proc := None\<rparr>) s)"

fun state_name :: "procstate \<Rightarrow> string" where
  "state_name UNUSED = ''unused''"
| "state_name USED = ''used''"
| "state_name SLEEPING = ''sleep ''"
| "state_name RUNNABLE = ''runble''"
| "state_name RUNNING = ''run   ''"
| "state_name ZOMBIE = ''zombie''"

text \<open>\<^verbatim>\<open>procdump\<close> takes no lock on the table; every state of the enumeration has a name.\<close>

definition procdump :: "'a procst_scheme \<Rightarrow> (unit, 'a procst_scheme) kr" where
  "procdump s =
     kthen (printf (Some [newline]) [] s) (\<lambda>s.
     kfor (\<lambda>p s.
       if pstate (procs s p) = UNUSED then Ok () s
       else
         kthen (printf (Some ''%d %s %s'')
             [V_int (pid (procs s p)), V_str (Some (state_name (pstate (procs s p)))), V_str (Some (pname (procs s p)))] s)
           (\<lambda>s. printf (Some [newline]) [] s)) [0..<NPROC] s)"

section \<open>Facts about the operations\<close>

text \<open>What \<^verbatim>\<open>procdump\<close> prints: a newline, then a line for each process slot in use.\<close>

definition dump_line :: "proc \<Rightarrow> string" where
  "dump_line q =
     (if pstate q = UNUSED then []
      else (if sint (pid q) < 0 then ''-'' else []) @ decimal (nat \<bar>sint (pid q)\<bar>) @ '' '' @
        state_name (pstate q) @ '' '' @ pname q @ [newline])"

definition dump :: "(nat \<Rightarrow> proc) \<Rightarrow> string" where
  "dump P = newline # concat (map (\<lambda>p. dump_line (P p)) [0..<NPROC])"

lemma procdump_loop:
  assumes "irq_ok s" and "free L_pr s"
  shows "kfor (\<lambda>p s.
       if pstate (procs s p) = UNUSED then Ok () s
       else
         kthen (printf (Some ''%d %s %s'')
             [V_int (pid (procs s p)), V_str (Some (state_name (pstate (procs s p)))), V_str (Some (pname (procs s p)))] s)
           (\<lambda>s. printf (Some [newline]) [] s)) ps s =
     Ok () (kputs (concat (map (\<lambda>p. dump_line (procs s p)) ps)) s)"
  using assms
proof (induction ps arbitrary: s)
  case Nil
  then show ?case by (simp add: kputs_def)
next
  case (Cons p ps)
  let ?q = "procs s p"
  let ?row = "(if sint (pid ?q) < 0 then ''-'' else []) @ decimal (nat \<bar>sint (pid ?q)\<bar>) @ '' '' @
        state_name (pstate ?q) @ '' '' @ pname ?q"
  have row: "printf_loop ''%d %s %s'' [V_int (pid ?q), V_str (Some (state_name (pstate ?q))), V_str (Some (pname ?q))] = Some ?row"
    by (simp add: conversion_def conv_def emit_def printint_decimal)
  have nl: "printf_loop [newline] [] = Some [newline]" by (simp add: newline_def emit_def)
  have pr: "procs (kputs m s) = procs s" for m by (simp add: kputs_def)
  have k: "kputs b (kputs a s) = kputs (a @ b) s" for a b by (simp add: kputs_def)
  have ok: "irq_ok (kputs m s)" "free L_pr (kputs m s)" for m using Cons.prems by (simp_all add: frame_simps)
  show ?case
  proof (cases "pstate ?q = UNUSED")
    case True
    then show ?thesis using Cons.IH [OF Cons.prems] by (simp add: dump_line_def)
  next
    case False
    then show ?thesis
      using Cons.IH [OF ok] printf_prints [OF Cons.prems row] printf_prints [OF ok nl]
      by (simp add: pr k dump_line_def)
  qed
qed

lemma procdump_ok:
  assumes "irq_ok s" and "free L_pr s"
  shows "procdump s = Ok () (kputs (dump (procs s)) s)"
proof -
  have ok: "irq_ok (kputs m s)" "free L_pr (kputs m s)" for m using assms by (simp_all add: frame_simps)
  have "printf_loop [newline] [] = Some [newline]" by (simp add: newline_def emit_def)
  from printf_prints [OF assms this] procdump_loop [OF ok]
  show ?thesis by (simp add: procdump_def dump_def kputs_def)
qed

definition me :: "'a procst_scheme \<Rightarrow> nat option" where
  "me s = cpu_proc (mycpu s)"

definition proc_locks_free :: "'a procst_scheme \<Rightarrow> bool" where
  "proc_locks_free s \<longleftrightarrow> (\<forall>p < NPROC. free (L_proc p) s)"

lemma me_frame [frame_simps]:
  "me (grab l s) = me s" "me (upd_proc p f s) = me s" "me (s\<lparr>procs := x\<rparr>) = me s"
  "me (s\<lparr>nextpid := n\<rparr>) = me s" "me (kputs m s) = me s"
  by (simp_all add: me_def frame_simps)

lemma pop_push_off: "irq_ok s \<Longrightarrow> pop_off (push_off s) = Ok () s"
proof -
  assume ok: "irq_ok s"
  let ?l = "L_kmem"
  have "pop_off (push_off s) = Ok () (let s = upd_mycpu (\<lambda>c. c\<lparr>noff := noff c - 1\<rparr>) (push_off s)
      in if noff (mycpu s) = 0 \<and> intena (mycpu s) then intr_on s else s)"
    using ok by (auto simp: irq_ok_def pop_off_def push_off_def intr_on_def intr_off_def intr_get_def
        cpuid_def mycpu_def upd_mycpu_def Let_def split: if_splits)
  also have "\<dots> = Ok () s"
  proof (cases "noff (mycpu s) = 0")
    case True
    then have i: "intena (cpus s (hart s)) = sie s" using ok by (simp add: irq_ok_def irq_defs)
    have c1: "(cpus s (hart s))\<lparr>intena := sie s, noff := a, noff := 0\<rparr> = cpus s (hart s)" for a
      using True i by (cases "cpus s (hart s)") (simp add: irq_defs)
    have c2: "(cpus s (hart s))\<lparr>intena := sie s, noff := 0\<rparr> = cpus s (hart s)"
      using True i by (cases "cpus s (hart s)") (simp add: irq_defs)
    show ?thesis
      using True i c1 c2 by (cases "sie s") (simp_all add: Let_def irq_defs fun_upd_idem)
  next
    case False
    then show ?thesis
      using ok by (simp add: irq_ok_def Let_def irq_defs fun_upd_idem)
  qed
  finally show ?thesis .
qed

lemma myproc_ok [kernel_simps]: "irq_ok s \<Longrightarrow> myproc s = Ok (me s) s"
  by (simp add: myproc_def Let_def pop_push_off me_def) (simp add: irq_defs Let_def)

lemma allocpid_ok:
  "irq_ok s \<Longrightarrow> free L_pid s \<Longrightarrow> allocpid s = Ok (nextpid s) (s\<lparr>nextpid := nextpid s + 1\<rparr>)"
  by (simp add: allocpid_def Let_def kernel_simps frame_simps)

lemma kfor_procs:
  assumes body: "\<And>p t. p < n \<Longrightarrow> I t \<Longrightarrow> body p t = Ok () (upd_proc p (g p) t)"
    and I: "\<And>p t. p < n \<Longrightarrow> I t \<Longrightarrow> I (upd_proc p (g p) t)" and "I s"
  shows "kfor body [0..<n] s = Ok () (s\<lparr>procs := (\<lambda>p. if p < n then g p (procs s p) else procs s p)\<rparr>) \<and>
     I (s\<lparr>procs := (\<lambda>p. if p < n then g p (procs s p) else procs s p)\<rparr>)"
  using body I
proof (induction n)
  case 0
  then show ?case using \<open>I s\<close> by simp
next
  case (Suc n)
  let ?t = "s\<lparr>procs := (\<lambda>p. if p < n then g p (procs s p) else procs s p)\<rparr>"
  have IH: "kfor body [0..<n] s = Ok () ?t" "I ?t" using Suc by auto
  have u: "upd_proc n (g n) ?t = s\<lparr>procs := (\<lambda>p. if p < Suc n then g p (procs s p) else procs s p)\<rparr>"
    by (auto simp: upd_proc_def fun_eq_iff less_Suc_eq)
  have "kfor body [0..<Suc n] s = Ok () (upd_proc n (g n) ?t)" "I (upd_proc n (g n) ?t)"
    using IH Suc.prems by (auto simp: kfor_append)
  then show ?case by (simp only: u)
qed

definition woken :: "chan \<Rightarrow> nat option \<Rightarrow> (nat \<Rightarrow> proc) \<Rightarrow> nat \<Rightarrow> proc" where
  "woken ch self P = (\<lambda>p. if p < NPROC \<and> Some p \<noteq> self \<and> pstate (P p) = SLEEPING \<and> pchan (P p) = Some ch
     then (P p)\<lparr>pstate := RUNNABLE\<rparr> else P p)"

lemma proc_locks_free_frame [frame_simps]:
  "proc_locks_free (upd_proc p f s) \<longleftrightarrow> proc_locks_free s"
  "proc_locks_free (s\<lparr>procs := x\<rparr>) \<longleftrightarrow> proc_locks_free s"
  "(\<And>p. l \<noteq> L_proc p) \<Longrightarrow> proc_locks_free (grab l s) \<longleftrightarrow> proc_locks_free s"
  by (auto simp: proc_locks_free_def frame_simps kernel_simps)

lemma upd_proc_id: "upd_proc p (\<lambda>q. q) s = s"
  by (simp add: upd_proc_def)

lemma wakeup_ok:
  assumes "irq_ok s" and "proc_locks_free s"
  shows "wakeup ch s = Ok () (s\<lparr>procs := woken ch (me s) (procs s)\<rparr>)"
proof -
  let ?g = "\<lambda>p q. if Some p \<noteq> me s \<and> pstate q = SLEEPING \<and> pchan q = Some ch
     then q\<lparr>pstate := RUNNABLE\<rparr> else q"
  let ?I = "\<lambda>t. irq_ok t \<and> proc_locks_free t \<and> me t = me s"
  have upd: "upd_proc p (?g p) t = (if Some p \<noteq> me s \<and> pstate (procs t p) = SLEEPING \<and> pchan (procs t p) = Some ch
      then upd_proc p (\<lambda>q. q\<lparr>pstate := RUNNABLE\<rparr>) t else t)" for p and t :: "'a procst_scheme"
    by (auto simp: upd_proc_def)
  have "wakeup ch s = Ok () (s\<lparr>procs := (\<lambda>p. if p < NPROC then ?g p (procs s p) else procs s p)\<rparr>) \<and>
     ?I (s\<lparr>procs := (\<lambda>p. if p < NPROC then ?g p (procs s p) else procs s p)\<rparr>)"
    unfolding wakeup_def
  proof (rule kfor_procs [where I = ?I and g = ?g])
    fix p and t :: "'a procst_scheme"
    assume "p < NPROC" and t: "?I t"
    then have f: "free (L_proc p) t" by (simp add: proc_locks_free_def)
    show "kbind (myproc t) (\<lambda>me s. if Some p \<noteq> me then
           kthen (acquire (L_proc p) s) (\<lambda>s.
             let s = (if pstate (procs s p) = SLEEPING \<and> pchan (procs s p) = Some ch
                      then upd_proc p (\<lambda>q. q\<lparr>pstate := RUNNABLE\<rparr>) s else s)
             in release (L_proc p) s)
         else Ok () s) = Ok () (upd_proc p (?g p) t)"
      unfolding upd using t f by (auto simp: kernel_simps frame_simps Let_def)
  qed (use assms in \<open>simp_all add: frame_simps\<close>)
  moreover have "(\<lambda>p. if p < NPROC then ?g p (procs s p) else procs s p) = woken ch (me s) (procs s)"
    by (auto simp: woken_def fun_eq_iff)
  ultimately show ?thesis by simp
qed

lemma set_irq_proc_frame [frame_simps]:
  "procs (set_irq b s) = procs s" "me (set_irq b s) = me s"
  "proc_locks_free (set_irq b s) \<longleftrightarrow> proc_locks_free s"
  "upd_proc p f (set_irq b s) = set_irq b (upd_proc p f s)"
  by (simp_all add: me_def proc_locks_free_def frame_simps) (simp_all add: set_irq_def irq_defs upd_proc_def)

lemma sched_return_grab [kernel_simps]:
  "noff (mycpu s) = 0 \<Longrightarrow> sched_return b (grab l s) = grab l (set_irq b s)"
  by (simp add: sched_return_def intena_grab)

lemma yield_return_ok:
  "noff (mycpu s) = 0 \<Longrightarrow> free (L_proc p) s \<Longrightarrow> yield_return p b (grab (L_proc p) s) = Ok () (set_irq b s)"
  by (simp add: yield_return_def kernel_simps frame_simps)

lemma sleep_return_ok:
  "noff (mycpu s) = 0 \<Longrightarrow> free (L_proc p) s \<Longrightarrow> free lk s \<Longrightarrow>
   sleep_return p lk b (grab (L_proc p) s) =
     Ok () (grab lk (set_irq b (upd_proc p (\<lambda>q. q\<lparr>pchan := None\<rparr>) s)))"
  by (simp add: sleep_return_def Let_def kernel_simps frame_simps)

lemma yield_cpu_ok:
  assumes "irq_ok s" and "noff (mycpu s) = 0" and "free (L_proc p) s" and "me s = Some p"
  shows "yield_cpu s = Blocked (Swtch p) (grab (L_proc p) (upd_proc p (\<lambda>q. q\<lparr>pstate := RUNNABLE\<rparr>) s))"
proof -
  let ?t = "grab (L_proc p) (upd_proc p (\<lambda>q. q\<lparr>pstate := RUNNABLE\<rparr>) s)"
  have t: "irq_ok ?t" "holding (L_proc p) ?t" "noff (mycpu ?t) = 1" "me ?t = Some p"
    "pstate (procs ?t p) \<noteq> RUNNING"
    using assms by (auto simp: kernel_simps frame_simps noff_grab)
  then have "\<not> sie ?t" by (simp add: irq_ok_def)
  with t have "sched ?t = Blocked (Swtch p) ?t" by (simp add: sched_def kernel_simps intr_get_def)
  then show ?thesis
    using assms by (simp add: yield_cpu_def kernel_simps frame_simps)
qed

lemma killed_ok [kernel_simps]:
  "irq_ok s \<Longrightarrow> free (L_proc p) s \<Longrightarrow> killed p s = Ok (pkilled (procs s p)) s"
  by (simp add: killed_def Let_def kernel_simps frame_simps)

lemma setkilled_ok:
  "irq_ok s \<Longrightarrow> free (L_proc p) s \<Longrightarrow> setkilled p s = Ok () (upd_proc p (\<lambda>q. q\<lparr>pkilled := 1\<rparr>) s)"
  by (simp add: setkilled_def kernel_simps frame_simps)

text \<open>Going to sleep: the caller's lock is released, the process's own stays held.\<close>

lemma sleep_ok:
  assumes "irq_ok s" and "free lk s" and "free (L_proc p) s" and "lk \<noteq> L_proc p"
    and "me s = Some p" and "noff (mycpu s) = 0"
  shows "sleep ch lk (grab lk s) = Blocked (Swtch p)
     (grab (L_proc p) (upd_proc p (\<lambda>q. q\<lparr>pchan := Some ch, pstate := SLEEPING\<rparr>) s))"
proof -
  let ?t = "grab (L_proc p) (upd_proc p (\<lambda>q. q\<lparr>pchan := Some ch, pstate := SLEEPING\<rparr>) s)"
  have t: "irq_ok ?t" "holding (L_proc p) ?t" "noff (mycpu ?t) = 1" "me ?t = Some p"
    "pstate (procs ?t p) \<noteq> RUNNING"
    using assms by (auto simp: kernel_simps frame_simps noff_grab)
  then have "\<not> sie ?t" by (simp add: irq_ok_def)
  with t have "sched ?t = Blocked (Swtch p) ?t" by (simp add: sched_def kernel_simps intr_get_def)
  then show ?thesis
    using assms by (simp add: sleep_def kernel_simps frame_simps)
qed

lemma scheduler_turn_ok:
  assumes "irq_ok s" and "free (L_proc p) s"
  shows "scheduler_turn p s =
    (if pstate (procs s p) = RUNNABLE
     then Ok True (upd_mycpu (\<lambda>c. c\<lparr>cpu_proc := Some p\<rparr>)
       (grab (L_proc p) (upd_proc p (\<lambda>q. q\<lparr>pstate := RUNNING\<rparr>) s)))
     else Ok False s)"
  using assms by (auto simp: scheduler_turn_def kernel_simps frame_simps Let_def)

lemma scheduler_back_ok:
  assumes "irq_ok s" and "free (L_proc p) s" and "noff (mycpu s) = 0"
  shows "scheduler_back p (grab (L_proc p) s) = Ok () (upd_mycpu (\<lambda>c. c\<lparr>cpu_proc := None\<rparr>) s)"
  using assms by (simp add: scheduler_back_def kernel_simps frame_simps)

lemma kill_eq:
  assumes "irq_ok s" and "proc_locks_free s"
  shows "kill target s =
    (case find (\<lambda>p. pid (procs s p) = target) [0..<NPROC] of
       None \<Rightarrow> Ok (- 1) s
     | Some p \<Rightarrow> Ok 0 (upd_proc p (\<lambda>q. q\<lparr>pkilled := 1,
         pstate := (if pstate q = SLEEPING then RUNNABLE else pstate q)\<rparr>) s))"
proof -
  let ?body = "\<lambda>p s. kthen (acquire (L_proc p) s) (\<lambda>s.
         if pid (procs s p) = target then
           (let s = upd_proc p (\<lambda>q. q\<lparr>pkilled := 1\<rparr>) s;
                s = (if pstate (procs s p) = SLEEPING
                     then upd_proc p (\<lambda>q. q\<lparr>pstate := RUNNABLE\<rparr>) s else s)
            in kthen (release (L_proc p) s) (\<lambda>s. Ok (Some 0) s))
         else kthen (release (L_proc p) s) (\<lambda>s. Ok None s))"
  have free: "p < NPROC \<Longrightarrow> free (L_proc p) s" for p using assms(2) by (simp add: proc_locks_free_def)
  have id: "upd_proc p (\<lambda>q. q\<lparr>pkilled := 1\<rparr>) s
      = upd_proc p (\<lambda>q. q\<lparr>pkilled := 1, pstate := (if pstate q = SLEEPING then RUNNABLE else pstate q)\<rparr>) s"
    if "pstate (procs s p) \<noteq> SLEEPING" for p
    using that by (simp add: upd_proc_def)
  have twice: "upd_proc p (\<lambda>q. q\<lparr>pstate := RUNNABLE\<rparr>) (upd_proc p (\<lambda>q. q\<lparr>pkilled := 1\<rparr>) s)
      = upd_proc p (\<lambda>q. q\<lparr>pkilled := 1, pstate := (if pstate q = SLEEPING then RUNNABLE else pstate q)\<rparr>) s"
    if "pstate (procs s p) = SLEEPING" for p
    using that by (simp add: upd_proc_def)
  have miss: "?body p s = Ok None s" if "p < NPROC" "pid (procs s p) \<noteq> target" for p
    using that assms free by (simp add: kernel_simps frame_simps)
  have hit: "?body p s = Ok (Some 0) (upd_proc p (\<lambda>q. q\<lparr>pkilled := 1,
         pstate := (if pstate q = SLEEPING then RUNNABLE else pstate q)\<rparr>) s)"
    if "p < NPROC" "pid (procs s p) = target" for p
    using that assms free id twice
    by (cases "pstate (procs s p) = SLEEPING") (simp_all add: kernel_simps frame_simps Let_def)
  have scan: "kscan ?body [0..<NPROC] s =
      (case find (\<lambda>p. pid (procs s p) = target) [0..<NPROC] of None \<Rightarrow> Ok None s | Some p \<Rightarrow> ?body p s)"
    by (rule kscan_find) (use miss hit in auto)
  show ?thesis
  proof (cases "find (\<lambda>p. pid (procs s p) = target) [0..<NPROC]")
    case None
    then show ?thesis unfolding kill_def scan by simp
  next
    case (Some p)
    then have p: "p < NPROC" "pid (procs s p) = target" by (auto simp: find_upt_Some)
    show ?thesis unfolding kill_def scan Some option.case hit [OF p] by simp
  qed
qed

section \<open>Properties\<close>


definition idle_proc :: proc where
  "idle_proc = \<lparr>pstate = UNUSED, pchan = None, pkilled = 0, xstate = 0, pid = 0, parent = None,
     kstack = 0, sz = 0, pagetable = 0, trapframe = 0, ofile = (\<lambda>_. None), cwd = None, pname = []\<rparr>"

text \<open>A small state: process 1, pid 7, runs on CPU 0; nothing is locked.\<close>

definition run_state :: procst where
  "run_state = \<lparr>hart = 0, sie = True,
     cpus = (\<lambda>_. \<lparr>cpu_proc = Some 1, noff = 0, intena = True\<rparr>),
     locks = (\<lambda>_. \<lparr>locked = 0, lk_name = [], lk_cpu = None\<rparr>), kout = [],
     pr_locking = True, panicked = False,
     procs = (\<lambda>_. idle_proc)(1 := idle_proc\<lparr>pstate := RUNNING, pid := 7\<rparr>),
     nextpid = 8, initproc = Some 0\<rparr>"

lemma run_state_ok:
  "irq_ok run_state" "noff (mycpu run_state) = 0" "free l run_state" "proc_locks_free run_state"
  "me run_state = Some 1"
  by (simp_all add: run_state_def irq_ok_def irq_defs free_def proc_locks_free_def me_def)


text \<open>\<^verbatim>\<open>kill(pid)\<close> marks the first process with that pid as killed, makes it RUNNABLE if it
  was asleep, changes nothing else and returns 0; with no such process it returns -1 and changes
  nothing.\<close>

theorem kill_marks_first:
  assumes "irq_ok s" and "proc_locks_free s"
  shows "(if \<exists>p < NPROC. pid (procs s p) = target
     then \<exists>p < NPROC. pid (procs s p) = target \<and> (\<forall>q < p. pid (procs s q) \<noteq> target) \<and>
       kill target s = Ok 0 (s\<lparr>procs := (procs s)(p := (procs s p)\<lparr>pkilled := 1,
         pstate := (if pstate (procs s p) = SLEEPING then RUNNABLE else pstate (procs s p))\<rparr>)\<rparr>)
     else kill target s = Ok (- 1) s)"
proof (cases "find (\<lambda>p. pid (procs s p) = target) [0..<NPROC]")
  case None
  have "kill target s = Ok (- 1) s" using kill_eq [OF assms, of target] by (simp add: None)
  moreover have "\<not> (\<exists>p < NPROC. pid (procs s p) = target)" using None by (simp add: find_upt_None)
  ultimately show ?thesis by (simp only: if_False)
next
  case (Some p)
  then have "p < NPROC" "pid (procs s p) = target" "\<forall>q < p. pid (procs s q) \<noteq> target"
    by (auto simp: find_upt_Some)
  then show ?thesis
    using kill_eq [OF assms, of target] unfolding Some by (auto simp: upd_proc_def)
qed

theorem kill_marks_first_witness:
  "\<exists>p < NPROC. pid (procs run_state p) = 7 \<and> (\<forall>q < p. pid (procs run_state q) \<noteq> 7) \<and>
     kill 7 run_state = Ok 0 (run_state\<lparr>procs := (procs run_state)(p := (procs run_state p)\<lparr>pkilled := 1,
       pstate := (if pstate (procs run_state p) = SLEEPING then RUNNABLE else pstate (procs run_state p))\<rparr>)\<rparr>)"
proof -
  have "\<exists>p < NPROC. pid (procs run_state p) = 7"
    by (rule exI [of _ 1]) (simp add: run_state_def NPROC_def)
  then show ?thesis
    using kill_marks_first [OF run_state_ok(1,4), of 7] by (simp only: if_True)
qed

end
