(* ===== verification/Semaphore.thy ===== *)
theory Semaphore
  imports Proctab
begin

text \<open>
  Lab 2's kernel semaphores, \<^verbatim>\<open>src/lab2/kernel/sem_syscall.c\<close>: an array of 512 counters, each
  with a spin lock; value -1 marks a closed semaphore.  Indices and values are C \<^verbatim>\<open>int\<close>s, here
  32-bit words read as signed.  An index outside the array and a signed overflow, which C
  leaves undefined, are the outcome \<open>Fault\<close>.  The loop of \<^verbatim>\<open>sem_down\<close> is cut at \<^verbatim>\<open>sleep\<close>, as
  \<open>Proctab\<close> explains: \<open>sem_down_resume\<close> is what the process executes when it is switched to
  again, and the step relation at the end interleaves any number of processes.
\<close>

section \<open>State and operations\<close>

definition EMPTY_SEM :: u32 where "EMPTY_SEM = - 1"
definition ERR :: u32 where "ERR = 0"
definition SUCCESS :: u32 where "SUCCESS = 1"
definition MAX_SEM :: nat where "MAX_SEM = 512"

record semst = procst +
  sems :: "nat \<Rightarrow> u32"

lemma sems_frame [frame_simps]:
  "irq_ok (s\<lparr>sems := x\<rparr>) \<longleftrightarrow> irq_ok s" "free l (s\<lparr>sems := x\<rparr>) \<longleftrightarrow> free l s"
  "holding l (s\<lparr>sems := x\<rparr>) \<longleftrightarrow> holding l s" "mycpu (s\<lparr>sems := x\<rparr>) = mycpu s"
  "(grab l s)\<lparr>sems := x\<rparr> = grab l (s\<lparr>sems := x\<rparr>)" "sems (grab l s) = sems s"
  "sems (kputs m s) = sems s"
  by (simp_all add: irq_ok_def free_def holding_def grab_def kputs_def Let_def irq_defs)

lemma sems_frame2 [frame_simps]:
  "proc_locks_free (s\<lparr>sems := x\<rparr>) \<longleftrightarrow> proc_locks_free s" "me (s\<lparr>sems := x\<rparr>) = me s"
  "(upd_proc p f s)\<lparr>sems := x\<rparr> = upd_proc p f (s\<lparr>sems := x\<rparr>)" "sems (upd_proc p f s) = sems s"
  by (simp_all add: proc_locks_free_def frame_simps me_def upd_proc_def)

definition upd_sem :: "nat \<Rightarrow> u32 \<Rightarrow> 'a semst_scheme \<Rightarrow> 'a semst_scheme" where
  "upd_sem i v s = s\<lparr>sems := (sems s)(i := v)\<rparr>"

text \<open>The element an index designates, if it lies in the array.\<close>

definition sem_index :: "u32 \<Rightarrow> nat option" where
  "sem_index sem = (if 0 \<le> sint sem \<and> sint sem < int MAX_SEM then Some (nat (sint sem)) else None)"

definition make_sem_array :: "'a semst_scheme \<Rightarrow> 'a semst_scheme" where
  "make_sem_array s =
     fold (\<lambda>i s. initlock (L_sem i) ''semaphore'' (upd_sem i EMPTY_SEM s)) [0..<MAX_SEM] s"

definition sem_open :: "u32 \<Rightarrow> u32 \<Rightarrow> 'a semst_scheme \<Rightarrow> (u32, 'a semst_scheme) kr" where
  "sem_open sem val s =
     (if sint val < 0 \<or> sint sem < 0 \<or> sint sem > int MAX_SEM
      then kthen (printf (Some (''ERROR: semaphore out of range.'' @ [newline])) [] s) (\<lambda>s. Ok ERR s)
      else case sem_index sem of
          None \<Rightarrow> Fault ''semaphore_array: index out of bounds''
        | Some i \<Rightarrow>
            kthen (acquire (L_sem i) s) (\<lambda>s.
              if sems s i \<noteq> EMPTY_SEM then kthen (release (L_sem i) s) (\<lambda>s. Ok ERR s)
              else kthen (release (L_sem i) (upd_sem i val s)) (\<lambda>s. Ok SUCCESS s)))"

definition sem_close :: "u32 \<Rightarrow> 'a semst_scheme \<Rightarrow> (u32, 'a semst_scheme) kr" where
  "sem_close sem s =
     (if sint sem < 0 \<or> sint sem > int MAX_SEM
      then kthen (printf (Some (''ERROR: semaphore out of range.'' @ [newline])) [] s) (\<lambda>s. Ok ERR s)
      else case sem_index sem of
          None \<Rightarrow> Fault ''semaphore_array: index out of bounds''
        | Some i \<Rightarrow>
            kthen (acquire (L_sem i) s) (\<lambda>s.
            kthen (release (L_sem i) (upd_sem i EMPTY_SEM s)) (\<lambda>s. Ok SUCCESS s)))"

definition sem_up :: "u32 \<Rightarrow> 'a semst_scheme \<Rightarrow> (u32, 'a semst_scheme) kr" where
  "sem_up sem s =
     (case sem_index sem of
        None \<Rightarrow> Fault ''semaphore_array: index out of bounds''
      | Some i \<Rightarrow>
          kthen (acquire (L_sem i) s) (\<lambda>s.
            let sem_value = sems s i in
            if sem_value = EMPTY_SEM then
              kthen (release (L_sem i) s) (\<lambda>s.
              kthen (printf (Some (''ERROR: closed semaphore.'' @ [newline])) [] s) (\<lambda>s. Ok ERR s))
            else
              kthen (if sem_value = 0 then wakeup (Ch_sem i) s else Ok () s) (\<lambda>s.
                if sint (sems s i) = 2 ^ 31 - 1 then Fault ''signed overflow''
                else kthen (release (L_sem i) (upd_sem i (sems s i + 1) s)) (\<lambda>s. Ok SUCCESS s))))"

text \<open>
  The rest of \<^verbatim>\<open>sem_down\<close> from the head of its loop, with the lock held.  \<^verbatim>\<open>sleep\<close> does not
  return before the process is switched to again.
\<close>

definition sem_down_loop :: "nat \<Rightarrow> 'a semst_scheme \<Rightarrow> (u32, 'a semst_scheme) kr" where
  "sem_down_loop i s =
     (if sems s i = 0 then
        kthen (sleep (Ch_sem i) (L_sem i) s) (\<lambda>s. Fault ''sleep returned without a switch'')
      else if sint (sems s i) = - (2 ^ 31) then Fault ''signed overflow''
      else kthen (release (L_sem i) (upd_sem i (sems s i - 1) s)) (\<lambda>s. Ok SUCCESS s))"

definition sem_down :: "u32 \<Rightarrow> 'a semst_scheme \<Rightarrow> (u32, 'a semst_scheme) kr" where
  "sem_down sem s =
     (case sem_index sem of
        None \<Rightarrow> Fault ''semaphore_array: index out of bounds''
      | Some i \<Rightarrow>
          kthen (acquire (L_sem i) s) (\<lambda>s.
            let sem_value = sems s i in
            if sem_value = EMPTY_SEM then
              kthen (release (L_sem i) s) (\<lambda>s.
              kthen (printf (Some (''ERROR: closed semaphore.'' @ [newline])) [] s) (\<lambda>s. Ok ERR s))
            else sem_down_loop i s))"

definition sem_down_resume :: "nat \<Rightarrow> nat \<Rightarrow> bool \<Rightarrow> 'a semst_scheme \<Rightarrow> (u32, 'a semst_scheme) kr" where
  "sem_down_resume p i saved s =
     kthen (sleep_return p (L_sem i) saved s) (\<lambda>s. sem_down_loop i s)"

section \<open>What the operations do\<close>

lemma upd_sem_frame [frame_simps]:
  "irq_ok (upd_sem i v s) \<longleftrightarrow> irq_ok s" "free l (upd_sem i v s) \<longleftrightarrow> free l s"
  "holding l (upd_sem i v s) \<longleftrightarrow> holding l s" "mycpu (upd_sem i v s) = mycpu s"
  "upd_sem i v (grab l s) = grab l (upd_sem i v s)" "procs (upd_sem i v s) = procs s"
  "me (upd_sem i v s) = me s" "proc_locks_free (upd_sem i v s) \<longleftrightarrow> proc_locks_free s"
  by (simp_all add: upd_sem_def frame_simps)

lemma sems_upd_sem [simp]: "sems (upd_sem i v s) = (sems s)(i := v)"
  by (simp add: upd_sem_def)

lemma sem_index_SomeD: "sem_index sem = Some i \<Longrightarrow> sint sem = int i \<and> i < MAX_SEM"
  by (auto simp: sem_index_def split: if_splits)


text \<open>The error messages hold no conversion.\<close>

lemma sem_messages: "newline \<noteq> CHR ''%''" "CHR ''%'' \<noteq> newline"
  by (simp_all add: newline_def)

lemma sem_out_of_range:
  assumes "irq_ok s" and "free L_pr s"
  shows "sint val < 0 \<or> sint sem < 0 \<or> int MAX_SEM < sint sem \<Longrightarrow>
      sem_open sem val s = Ok ERR (kputs (''ERROR: semaphore out of range.'' @ [newline]) s)"
    and "sint sem < 0 \<or> int MAX_SEM < sint sem \<Longrightarrow>
      sem_close sem s = Ok ERR (kputs (''ERROR: semaphore out of range.'' @ [newline]) s)"
  using assms by (simp_all add: sem_open_def sem_close_def kernel_simps sem_messages)

lemma sem_open_eq:
  assumes "irq_ok s" and "sem_index sem = Some i" and "free (L_sem i) s" and "0 \<le> sint val"
  shows "sem_open sem val s = (if sems s i = EMPTY_SEM then Ok SUCCESS (upd_sem i val s) else Ok ERR s)"
proof -
  have "\<not> (sint val < 0 \<or> sint sem < 0 \<or> sint sem > int MAX_SEM)"
    using sem_index_SomeD [OF assms(2)] assms(4) by auto
  then show ?thesis
    using assms by (simp add: sem_open_def kernel_simps frame_simps)
qed

lemma sem_close_eq:
  assumes "irq_ok s" and "sem_index sem = Some i" and "free (L_sem i) s"
  shows "sem_close sem s = Ok SUCCESS (upd_sem i EMPTY_SEM s)"
proof -
  have "\<not> (sint sem < 0 \<or> sint sem > int MAX_SEM)" using sem_index_SomeD [OF assms(2)] by auto
  then show ?thesis
    using assms by (simp add: sem_close_def kernel_simps frame_simps)
qed

lemma sem_up_eq:
  assumes "irq_ok s" and "sem_index sem = Some i" and "free (L_sem i) s" and "proc_locks_free s"
    and "free L_pr s"
  shows "sem_up sem s =
    (if sems s i = EMPTY_SEM then Ok ERR (kputs (''ERROR: closed semaphore.'' @ [newline]) s)
     else if sint (sems s i) = 2 ^ 31 - 1 then Fault ''signed overflow''
     else Ok SUCCESS (upd_sem i (sems s i + 1)
       (if sems s i = 0 then s\<lparr>procs := woken (Ch_sem i) (me s) (procs s)\<rparr> else s)))"
  using assms by (auto simp: sem_up_def kernel_simps frame_simps Let_def wakeup_ok sem_messages)

lemma sem_down_loop_eq:
  assumes "irq_ok s" and "free (L_sem i) s" and "free (L_proc p) s"
    and "me s = Some p" and "noff (mycpu s) = 0"
  shows "sem_down_loop i (grab (L_sem i) s) =
    (if sems s i = 0 then Blocked (Swtch p)
       (grab (L_proc p) (upd_proc p (\<lambda>q. q\<lparr>pchan := Some (Ch_sem i), pstate := SLEEPING\<rparr>) s))
     else if sint (sems s i) = - (2 ^ 31) then Fault ''signed overflow''
     else Ok SUCCESS (upd_sem i (sems s i - 1) s))"
  using assms by (auto simp: sem_down_loop_def kernel_simps frame_simps sleep_ok)

lemma sem_down_eq:
  assumes "irq_ok s" and "sem_index sem = Some i" and "free (L_sem i) s" and "free (L_proc p) s"
    and "me s = Some p" and "noff (mycpu s) = 0" and "free L_pr s"
  shows "sem_down sem s =
    (if sems s i = EMPTY_SEM then Ok ERR (kputs (''ERROR: closed semaphore.'' @ [newline]) s)
     else if sems s i = 0 then Blocked (Swtch p)
       (grab (L_proc p) (upd_proc p (\<lambda>q. q\<lparr>pchan := Some (Ch_sem i), pstate := SLEEPING\<rparr>) s))
     else if sint (sems s i) = - (2 ^ 31) then Fault ''signed overflow''
     else Ok SUCCESS (upd_sem i (sems s i - 1) s))"
  using assms by (auto simp: sem_down_def kernel_simps frame_simps Let_def sem_down_loop_eq sem_messages)

text \<open>
  The state in which process \<open>p\<close>, chosen by the scheduler in the middle of \<^verbatim>\<open>sem_down\<close>, comes out of
  \<^verbatim>\<open>sleep\<close>, and what it then does.
\<close>

definition back_in :: "nat \<Rightarrow> bool \<Rightarrow> 'a procst_scheme \<Rightarrow> 'a procst_scheme" where
  "back_in p b s = set_irq b (upd_proc p (\<lambda>q. q\<lparr>pchan := None, pstate := RUNNING\<rparr>)
     (upd_mycpu (\<lambda>c. c\<lparr>cpu_proc := Some p\<rparr>) s))"

lemma back_in_frame [frame_simps]:
  "noff (mycpu s) = 0 \<Longrightarrow> irq_ok (back_in p b s)" "free l (back_in p b s) \<longleftrightarrow> free l s"
  "noff (mycpu (back_in p b s)) = noff (mycpu s)" "me (back_in p b s) = Some p"
  "procs (back_in p b s) = (procs s)(p := (procs s p)\<lparr>pchan := None, pstate := RUNNING\<rparr>)"
  "proc_locks_free (back_in p b s) \<longleftrightarrow> proc_locks_free s"
proof -
  show "procs (back_in p b s) = (procs s)(p := (procs s p)\<lparr>pchan := None, pstate := RUNNING\<rparr>)"
    by (simp add: back_in_def set_irq_def upd_proc_def irq_defs)
qed (simp_all add: back_in_def frame_simps me_def proc_locks_free_def)

lemma sems_back_in [frame_simps]: "sems (back_in p b s) = sems s"
  by (simp add: back_in_def set_irq_def upd_proc_def irq_defs)

lemma upd_proc_mycpu:
  "upd_proc p f (upd_mycpu g s) = upd_mycpu g (upd_proc p f s)"
  by (simp add: upd_proc_def irq_defs)

lemma sleep_return_turn:
  assumes "irq_ok s" and "\<forall>l. free l s" and "noff (mycpu s) = 0"
    and "scheduler_turn p s = Ok True t"
  shows "sleep_return p lk b t = Ok () (grab lk (back_in p b s))"
proof -
  let ?u = "upd_mycpu (\<lambda>c. c\<lparr>cpu_proc := Some p\<rparr>) (upd_proc p (\<lambda>q. q\<lparr>pstate := RUNNING\<rparr>) s)"
  have t: "t = grab (L_proc p) ?u"
    using assms scheduler_turn_ok [of s p] by (simp add: frame_simps split: if_splits)
  have c: "q\<lparr>pstate := RUNNING, pchan := None\<rparr> = q\<lparr>pchan := None, pstate := RUNNING\<rparr>" for q :: proc
    by (cases q) simp
  have "upd_proc p (\<lambda>q. q\<lparr>pchan := None\<rparr>) ?u =
      upd_proc p (\<lambda>q. q\<lparr>pchan := None, pstate := RUNNING\<rparr>) (upd_mycpu (\<lambda>c. c\<lparr>cpu_proc := Some p\<rparr>) s)"
    by (simp add: upd_proc_mycpu [symmetric]) (simp add: upd_proc_def c)
  then show ?thesis
    using assms(1-3) unfolding t by (simp add: sleep_return_ok frame_simps back_in_def)
qed

lemma sem_down_resume_eq:
  assumes "irq_ok s" and "\<forall>l. free l s" and "noff (mycpu s) = 0"
    and "scheduler_turn p s = Ok True t"
  shows "sem_down_resume p i b t =
    (if sems s i = 0 then Blocked (Swtch p)
       (grab (L_proc p) (upd_proc p (\<lambda>q. q\<lparr>pchan := Some (Ch_sem i), pstate := SLEEPING\<rparr>) (back_in p b s)))
     else if sint (sems s i) = - (2 ^ 31) then Fault ''signed overflow''
     else Ok SUCCESS (upd_sem i (sems s i - 1) (back_in p b s)))"
  using sleep_return_turn [OF assms, of "L_sem i" b] assms(1-3)
  by (simp add: sem_down_resume_def sem_down_loop_eq frame_simps)

lemma yield_return_turn:
  assumes "irq_ok s" and "\<forall>l. free l s" and "noff (mycpu s) = 0"
    and "scheduler_turn p s = Ok True t"
  shows "yield_return p b t = Ok () (set_irq b (upd_proc p (\<lambda>q. q\<lparr>pstate := RUNNING\<rparr>)
     (upd_mycpu (\<lambda>c. c\<lparr>cpu_proc := Some p\<rparr>) s)))"
proof -
  let ?u = "upd_mycpu (\<lambda>c. c\<lparr>cpu_proc := Some p\<rparr>) (upd_proc p (\<lambda>q. q\<lparr>pstate := RUNNING\<rparr>) s)"
  have t: "t = grab (L_proc p) ?u"
    using assms scheduler_turn_ok [of s p] by (simp add: frame_simps split: if_splits)
  show ?thesis
    using assms(1-3) unfolding t by (simp add: yield_return_ok frame_simps upd_proc_mycpu)
qed

section \<open>Any number of processes\<close>

text \<open>
  \<open>sem_run i s0 u d s\<close>: from \<open>s0\<close> the kernel can reach \<open>s\<close> with \<open>u\<close> successful \<^verbatim>\<open>sem_up\<close>s and
  \<open>d\<close> successful \<^verbatim>\<open>sem_down\<close>s of semaphore \<open>i\<close>.  A step is a system call of the current process on
  any semaphore, run up to its end or to the switch to the scheduler, a switch between processes,
  or a \<^verbatim>\<open>kill\<close>.  A process whose \<^verbatim>\<open>chan\<close> is a semaphore resumes in \<^verbatim>\<open>sem_down\<close>, any other after
  \<^verbatim>\<open>yield\<close>.  Semaphores are neither opened nor closed meanwhile.
\<close>

inductive sem_run :: "nat \<Rightarrow> semst \<Rightarrow> nat \<Rightarrow> nat \<Rightarrow> semst \<Rightarrow> bool" for i :: nat and s0 :: semst where
  init: "sem_run i s0 0 0 s0"
| up: "sem_run i s0 u d s \<Longrightarrow> sem_index sem = Some j \<Longrightarrow> sem_up sem s = Ok r s' \<Longrightarrow>
     sem_run i s0 (if j = i \<and> r = SUCCESS then u + 1 else u) d s'"
| down: "sem_run i s0 u d s \<Longrightarrow> me s \<noteq> None \<Longrightarrow> sem_index sem = Some j \<Longrightarrow> sem_down sem s = Ok r s' \<Longrightarrow>
     sem_run i s0 u (if j = i \<and> r = SUCCESS then d + 1 else d) s'"
| down_wait: "sem_run i s0 u d s \<Longrightarrow> me s \<noteq> None \<Longrightarrow> sem_index sem = Some j \<Longrightarrow>
     sem_down sem s = Blocked (Swtch p) s1 \<Longrightarrow> scheduler_back p s1 = Ok () s' \<Longrightarrow> sem_run i s0 u d s'"
| yield: "sem_run i s0 u d s \<Longrightarrow> me s \<noteq> None \<Longrightarrow> yield_cpu s = Blocked (Swtch p) s1 \<Longrightarrow> scheduler_back p s1 = Ok () s' \<Longrightarrow>
     sem_run i s0 u d s'"
| resume: "sem_run i s0 u d s \<Longrightarrow> me s = None \<Longrightarrow> p < NPROC \<Longrightarrow> pchan (procs s p) = Some (Ch_sem j) \<Longrightarrow>
     scheduler_turn p s = Ok True s1 \<Longrightarrow> sem_down_resume p j b s1 = Ok r s' \<Longrightarrow>
     sem_run i s0 u (if j = i then d + 1 else d) s'"
| resume_wait: "sem_run i s0 u d s \<Longrightarrow> me s = None \<Longrightarrow> p < NPROC \<Longrightarrow> pchan (procs s p) = Some (Ch_sem j) \<Longrightarrow>
     scheduler_turn p s = Ok True s1 \<Longrightarrow> sem_down_resume p j b s1 = Blocked (Swtch p) s2 \<Longrightarrow>
     scheduler_back p s2 = Ok () s' \<Longrightarrow> sem_run i s0 u d s'"
| run: "sem_run i s0 u d s \<Longrightarrow> me s = None \<Longrightarrow> p < NPROC \<Longrightarrow> pchan (procs s p) = None \<Longrightarrow>
     scheduler_turn p s = Ok True s1 \<Longrightarrow> yield_return p b s1 = Ok () s' \<Longrightarrow> sem_run i s0 u d s'"
| kill: "sem_run i s0 u d s \<Longrightarrow> kill target s = Ok r s' \<Longrightarrow> sem_run i s0 u d s'"

definition quiet :: "'a procst_scheme \<Rightarrow> bool" where
  "quiet s \<longleftrightarrow> irq_ok s \<and> noff (mycpu s) = 0 \<and> (\<forall>l. free l s) \<and>
     (\<forall>p. me s = Some p \<longrightarrow> p < NPROC \<and> pstate (procs s p) = RUNNING)"

definition no_lost_sleeper :: "nat \<Rightarrow> semst \<Rightarrow> bool" where
  "no_lost_sleeper i s \<longleftrightarrow>
     (\<forall>p < NPROC. pstate (procs s p) = SLEEPING \<and> pchan (procs s p) = Some (Ch_sem i) \<longrightarrow> sems s i = 0)"

lemma quiet_procs: "quiet s \<Longrightarrow> proc_locks_free s"
  by (simp add: quiet_def proc_locks_free_def)

lemma quiet_me: "quiet s \<Longrightarrow> me s = Some p \<Longrightarrow> p < NPROC \<and> pstate (procs s p) = RUNNING"
  by (simp add: quiet_def)

lemma sint_inc: "sint w \<noteq> 2 ^ 31 - 1 \<Longrightarrow> sint (w + 1) = sint w + 1" for w :: u32
proof -
  assume w: "sint w \<noteq> 2 ^ 31 - 1"
  have "- (2 ^ 31) \<le> sint w" "sint w < 2 ^ 31"
    using sint_greater_eq [of w] sint_less [of w] by simp_all
  with w show ?thesis by (simp add: sint_word_ariths signed_take_bit_int_eq_self)
qed

lemma sint_dec: "sint w \<noteq> - (2 ^ 31) \<Longrightarrow> sint (w - 1) = sint w - 1" for w :: u32
proof -
  assume w: "sint w \<noteq> - (2 ^ 31)"
  have "- (2 ^ 31) \<le> sint w" "sint w < 2 ^ 31"
    using sint_greater_eq [of w] sint_less [of w] by simp_all
  with w show ?thesis by (simp add: sint_word_ariths signed_take_bit_int_eq_self)
qed

text \<open>The invariant of a run, and its preservation by each kind of step.\<close>

definition sem_inv :: "nat \<Rightarrow> int \<Rightarrow> semst \<Rightarrow> bool" where
  "sem_inv i v s \<longleftrightarrow> quiet s \<and> sint (sems s i) = v \<and> 0 \<le> v \<and> no_lost_sleeper i s"

lemma sem_inv_set:
  "sem_inv i v s \<Longrightarrow> 0 < v \<Longrightarrow> 0 \<le> sint w \<Longrightarrow> sem_inv i (sint w) (upd_sem i w s)"
  by (auto simp: sem_inv_def quiet_def no_lost_sleeper_def frame_simps)

lemma sem_inv_other: "j \<noteq> i \<Longrightarrow> sem_inv i v (upd_sem j w s) \<longleftrightarrow> sem_inv i v s"
  by (auto simp: sem_inv_def quiet_def no_lost_sleeper_def frame_simps)

lemma woken_cases:
  "woken ch m P p = P p \<or> woken ch m P p = (P p)\<lparr>pstate := RUNNABLE\<rparr> \<and> pstate (P p) = SLEEPING"
  by (simp add: woken_def)

lemma sem_inv_woken:
  assumes "sem_inv i v s"
  shows "sem_inv i v (s\<lparr>procs := woken ch (me s) (procs s)\<rparr>)"
proof -
  let ?t = "s\<lparr>procs := woken ch (me s) (procs s)\<rparr>"
  have q: "quiet s" and n: "no_lost_sleeper i s" using assms by (simp_all add: sem_inv_def)
  have "pstate (woken ch (me s) (procs s) p) = RUNNING" if "me s = Some p" for p
    using quiet_me [OF q that] that by (simp add: woken_def)
  then have "quiet ?t" using q by (simp add: quiet_def frame_simps)
  moreover have "no_lost_sleeper i ?t"
    unfolding no_lost_sleeper_def
  proof (intro allI impI)
    fix p assume "p < NPROC" and p: "pstate (procs ?t p) = SLEEPING \<and> pchan (procs ?t p) = Some (Ch_sem i)"
    with woken_cases [of ch "me s" "procs s" p] have "procs ?t p = procs s p" by auto
    with p \<open>p < NPROC\<close> n show "sems ?t i = 0" by (simp add: no_lost_sleeper_def)
  qed
  ultimately show ?thesis using assms by (simp add: sem_inv_def)
qed

lemma woken_none: "p < NPROC \<Longrightarrow> me s \<noteq> Some p \<or> pstate (P p) \<noteq> SLEEPING \<Longrightarrow>
   pstate (woken ch (me s) P p) = SLEEPING \<Longrightarrow> pchan (woken ch (me s) P p) \<noteq> Some ch"
  by (auto simp: woken_def split: if_splits)

text \<open>Raising a semaphore from 0 is safe because the sleepers have been woken.\<close>

lemma sem_inv_raise:
  assumes "sem_inv i 0 s"
  shows "sem_inv i 1 (upd_sem i 1 (s\<lparr>procs := woken (Ch_sem i) (me s) (procs s)\<rparr>))"
proof -
  let ?t = "s\<lparr>procs := woken (Ch_sem i) (me s) (procs s)\<rparr>"
  have q: "quiet s" using assms by (simp add: sem_inv_def)
  have "sem_inv i 0 ?t" using assms by (rule sem_inv_woken)
  moreover have "\<not> (pstate (procs ?t p) = SLEEPING \<and> pchan (procs ?t p) = Some (Ch_sem i))"
    if "p < NPROC" for p
    using woken_none [OF that, of s "procs s" "Ch_sem i"] quiet_me [OF q, of p] by auto
  ultimately show ?thesis
    by (auto simp: sem_inv_def quiet_def no_lost_sleeper_def frame_simps)
qed

lemma sem_inv_kputs: "sem_inv i v (kputs m s) \<longleftrightarrow> sem_inv i v s"
  by (simp add: sem_inv_def quiet_def no_lost_sleeper_def frame_simps)

text \<open>Process \<open>p\<close> leaves the CPU as \<open>f\<close> says, asleep on this semaphore only if its value is 0.\<close>

lemma sem_inv_leave:
  assumes "sem_inv i v s" and "pstate (f (procs s p)) = SLEEPING \<Longrightarrow> pchan (f (procs s p)) = Some (Ch_sem i) \<Longrightarrow> v = 0"
  shows "sem_inv i v (upd_mycpu (\<lambda>c. c\<lparr>cpu_proc := None\<rparr>) (upd_proc p f s))"
proof -
  have "v = 0 \<Longrightarrow> sems s i = 0" using assms(1) by (metis sem_inv_def signed_eq_0_iff)
  then show ?thesis
    using assms by (auto simp: sem_inv_def quiet_def no_lost_sleeper_def frame_simps me_def)
      (auto simp: irq_defs upd_proc_def split: if_splits)
qed

lemma sem_inv_enter:
  assumes "sem_inv i v s" and "p < NPROC" and "pstate (f (procs s p)) = RUNNING"
  shows "sem_inv i v (set_irq b (upd_proc p f (upd_mycpu (\<lambda>c. c\<lparr>cpu_proc := Some p\<rparr>) s)))"
  using assms by (auto simp: sem_inv_def quiet_def no_lost_sleeper_def frame_simps me_def)
    (auto simp: set_irq_def irq_defs upd_proc_def)

lemma sem_up_inv:
  assumes "sem_inv i v s" and "sem_index sem = Some j" and "sem_up sem s = Ok r t"
  shows "sem_inv i (if j = i \<and> r = SUCCESS then v + 1 else v) t"
proof -
  have q: "irq_ok s" "free (L_sem j) s" "proc_locks_free s" "free L_pr s"
    using assms(1) quiet_procs by (auto simp: sem_inv_def quiet_def)
  have neq: "ERR \<noteq> SUCCESS" by (simp add: ERR_def SUCCESS_def)
  have eq: "sem_up sem s = (if sems s j = EMPTY_SEM then Ok ERR (kputs (''ERROR: closed semaphore.'' @ [newline]) s)
     else if sint (sems s j) = 2 ^ 31 - 1 then Fault ''signed overflow''
     else Ok SUCCESS (upd_sem j (sems s j + 1)
       (if sems s j = 0 then s\<lparr>procs := woken (Ch_sem j) (me s) (procs s)\<rparr> else s)))"
    using sem_up_eq [OF q(1) assms(2) q(2-4)] .
  show ?thesis
  proof (cases "sems s j = EMPTY_SEM")
    case True
    then show ?thesis using assms(1,3) eq neq by (auto simp: sem_inv_kputs)
  next
    case opened: False
    then have r: "r = SUCCESS" and m: "sint (sems s j) \<noteq> 2 ^ 31 - 1"
      and t: "t = upd_sem j (sems s j + 1)
       (if sems s j = 0 then s\<lparr>procs := woken (Ch_sem j) (me s) (procs s)\<rparr> else s)"
      using eq assms(3) by (auto split: if_splits)
    show ?thesis
    proof (cases "j = i")
      case False
      then show ?thesis using assms(1) unfolding t by (simp add: sem_inv_other sem_inv_woken)
    next
      case True
      then have v: "sint (sems s j) = v" "0 \<le> v" using assms(1) by (simp_all add: sem_inv_def)
      show ?thesis
      proof (cases "v = 0")
        case True
        then have "sems s j = 0" using v by (metis signed_eq_0_iff)
        then show ?thesis using assms(1) \<open>j = i\<close> True r sem_inv_raise unfolding t by simp
      next
        case False
        then have "sems s j \<noteq> 0" "0 < v" using v by auto
        moreover have "sint (sems s j + 1) = v + 1" using sint_inc [OF m] v by simp
        ultimately show ?thesis
          using sem_inv_set [OF assms(1), of "sems s j + 1"] \<open>j = i\<close> r unfolding t by simp
      qed
    qed
  qed
qed

text \<open>Taking one unit, after \<^verbatim>\<open>sem_down\<close> found the value neither 0 nor the smallest integer.\<close>

lemma sem_inv_take:
  assumes "sem_inv i v s" and "sems s j \<noteq> 0" and "sint (sems s j) \<noteq> - (2 ^ 31)"
  shows "sem_inv i (if j = i then v - 1 else v) (upd_sem j (sems s j - 1) s)"
proof (cases "j = i")
  case True
  then have v: "sint (sems s i) = v" "0 \<le> v" using assms(1) by (simp_all add: sem_inv_def)
  then have "0 < v" using assms(2) True by (metis signed_eq_0_iff order_le_less)
  then show ?thesis
    using sem_inv_set [OF assms(1), of "sems s i - 1"] sint_dec [OF assms(3)] v True by simp
next
  case False
  then show ?thesis using assms(1) by (simp add: sem_inv_other)
qed

lemma sem_down_inv:
  assumes "sem_inv i v s" and "me s \<noteq> None" and "sem_index sem = Some j" and "sem_down sem s = Ok r t"
  shows "sem_inv i (if j = i \<and> r = SUCCESS then v - 1 else v) t"
proof -
  obtain p where p: "me s = Some p" using assms(2) by auto
  have q: "irq_ok s" "free (L_sem j) s" "free (L_proc p) s" "noff (mycpu s) = 0" "free L_pr s"
    using assms(1) by (auto simp: sem_inv_def quiet_def)
  have neq: "ERR \<noteq> SUCCESS" by (simp add: ERR_def SUCCESS_def)
  show ?thesis
    using sem_down_eq [OF q(1) assms(3) q(2,3) p q(4,5)] assms(4) neq sem_inv_take [OF assms(1), of j]
      assms(1) by (auto simp: sem_inv_kputs split: if_splits)
qed

lemma sem_down_wait_inv:
  assumes "sem_inv i v s" and "sem_index sem = Some j" and "sem_down sem s = Blocked (Swtch p) s1"
    and "scheduler_back p s1 = Ok () t" and "me s \<noteq> None"
  shows "sem_inv i v t"
proof -
  obtain p' where p: "me s = Some p'" using assms(5) by auto
  have q: "irq_ok s" "free (L_sem j) s" "free (L_proc p') s" "noff (mycpu s) = 0" "free L_pr s"
    using assms(1) by (auto simp: sem_inv_def quiet_def)
  let ?f = "\<lambda>q. q\<lparr>pchan := Some (Ch_sem j), pstate := SLEEPING\<rparr>"
  have z: "sems s j = 0" and p': "p' = p" and s1: "s1 = grab (L_proc p) (upd_proc p ?f s)"
    using sem_down_eq [OF q(1) assms(2) q(2,3) p q(4,5)] assms(3) by (auto split: if_splits)
  have "t = upd_mycpu (\<lambda>c. c\<lparr>cpu_proc := None\<rparr>) (upd_proc p ?f s)"
    using assms(4) q unfolding s1 p' by (simp add: scheduler_back_ok frame_simps)
  moreover have "j = i \<Longrightarrow> v = 0" using z assms(1) by (auto simp: sem_inv_def)
  ultimately show ?thesis
    using assms(1) by (auto intro!: sem_inv_leave)
qed

lemma yield_inv:
  assumes "sem_inv i v s" and "yield_cpu s = Blocked (Swtch p) s1"
    and "scheduler_back p s1 = Ok () t" and "me s \<noteq> None"
  shows "sem_inv i v t"
proof -
  obtain p' where p: "me s = Some p'" using assms(4) by auto
  have q: "irq_ok s" "noff (mycpu s) = 0" "free (L_proc p') s"
    using assms(1) by (auto simp: sem_inv_def quiet_def)
  let ?f = "\<lambda>q. q\<lparr>pstate := RUNNABLE\<rparr>"
  have p': "p' = p" and s1: "s1 = grab (L_proc p) (upd_proc p ?f s)"
    using yield_cpu_ok [OF q p] assms(2) by auto
  have "t = upd_mycpu (\<lambda>c. c\<lparr>cpu_proc := None\<rparr>) (upd_proc p ?f s)"
    using assms(3) q unfolding s1 p' by (simp add: scheduler_back_ok frame_simps)
  then show ?thesis
    using assms(1) by (auto intro!: sem_inv_leave)
qed

lemma resume_inv:
  assumes "sem_inv i v s" and "p < NPROC" and "scheduler_turn p s = Ok True s1"
  shows "sem_down_resume p j b s1 = Ok r t \<Longrightarrow> sem_inv i (if j = i then v - 1 else v) t"
    and "sem_down_resume p j b s1 = Blocked (Swtch p) s2 \<Longrightarrow> scheduler_back p s2 = Ok () t \<Longrightarrow> sem_inv i v t"
proof -
  let ?u = "back_in p b s"
  have q: "irq_ok s" "\<forall>l. free l s" "noff (mycpu s) = 0"
    using assms(1) by (auto simp: sem_inv_def quiet_def)
  note eq = sem_down_resume_eq [OF q assms(3), of j b]
  have u: "sem_inv i v ?u" and q': "irq_ok ?u" "\<forall>l. free l ?u" "noff (mycpu ?u) = 0"
    using assms(1,2) q by (auto simp: back_in_def intro!: sem_inv_enter) (simp_all add: frame_simps)
  show "sem_inv i (if j = i then v - 1 else v) t" if "sem_down_resume p j b s1 = Ok r t"
    using that eq sem_inv_take [OF u, of j] by (auto simp: frame_simps split: if_splits)
  assume bl: "sem_down_resume p j b s1 = Blocked (Swtch p) s2" and bk: "scheduler_back p s2 = Ok () t"
  let ?f = "\<lambda>q. q\<lparr>pchan := Some (Ch_sem j), pstate := SLEEPING\<rparr>"
  have s2: "s2 = grab (L_proc p) (upd_proc p ?f ?u)" and z: "sems s j = 0"
    using bl eq by (auto split: if_splits)
  have "t = upd_mycpu (\<lambda>c. c\<lparr>cpu_proc := None\<rparr>) (upd_proc p ?f ?u)"
    using bk q' unfolding s2 by (simp add: scheduler_back_ok frame_simps)
  moreover have "j = i \<Longrightarrow> v = 0" using z assms(1) by (auto simp: sem_inv_def)
  ultimately show "sem_inv i v t"
    using u by (auto intro!: sem_inv_leave)
qed

lemma run_inv:
  assumes "sem_inv i v s" and "p < NPROC" and "scheduler_turn p s = Ok True s1"
    and "yield_return p b s1 = Ok () t"
  shows "sem_inv i v t"
proof -
  have q: "irq_ok s" "\<forall>l. free l s" "noff (mycpu s) = 0"
    using assms(1) by (auto simp: sem_inv_def quiet_def)
  show ?thesis
    using yield_return_turn [OF q assms(3), of b] assms(1,2,4) by (auto intro!: sem_inv_enter)
qed

lemma kill_inv:
  assumes "sem_inv i v s" and "kill target s = Ok r t"
  shows "sem_inv i v t"
proof -
  have q: "irq_ok s" "proc_locks_free s" using assms(1) quiet_procs by (auto simp: sem_inv_def quiet_def)
  have "sem_inv i v (upd_proc p (\<lambda>q. q\<lparr>pkilled := 1,
         pstate := (if pstate q = SLEEPING then RUNNABLE else pstate q)\<rparr>) s)" for p
    using assms(1) by (auto simp: sem_inv_def quiet_def no_lost_sleeper_def frame_simps split: if_splits)
  then show ?thesis
    using kill_eq [OF q, of target] assms by (auto split: option.splits)
qed

lemma sem_run_inv:
  assumes "sem_run i s0 u d s" and "sem_inv i v0 s0"
  shows "sem_inv i (v0 + int u - int d) s"
  using assms(1)
proof (induction rule: sem_run.induct)
  case init
  then show ?case using assms(2) by simp
next
  case (up u d s sem j r s')
  then show ?case
    using sem_up_inv [OF up.IH up.hyps(2,3)] by (auto split: if_splits simp: algebra_simps)
next
  case (down u d s sem j r s')
  then show ?case
    using sem_down_inv [OF down.IH down.hyps(2-4)] by (auto split: if_splits simp: algebra_simps)
next
  case (down_wait u d s sem j p s1 s')
  then show ?case using sem_down_wait_inv by blast
next
  case (yield u d s p s1 s')
  then show ?case using yield_inv by blast
next
  case (resume u d s p j s1 b r s')
  then show ?case
    using resume_inv(1) [OF resume.IH resume.hyps(3,5,6)] by (auto split: if_splits simp: algebra_simps)
next
  case (resume_wait u d s p j s1 b s2 s')
  then show ?case using resume_inv(2) by blast
next
  case (run u d s p s1 b s')
  then show ?case using run_inv by blast
next
  case (kill u d s target r s')
  then show ?case using kill_inv by blast
qed

lemma sem_inside: "sem_index sem = Some i \<Longrightarrow> sint sem \<in> {0..511} \<and> i = unat sem"
proof -
  assume "sem_index sem = Some i"
  then have i: "sint sem = int i" "i < 512" using sem_index_SomeD [of sem i] by (auto simp: MAX_SEM_def)
  have "sem = of_nat i" using arg_cong [OF i(1), of "of_int :: int \<Rightarrow> u32"] by simp
  then show ?thesis using i by (simp add: unat_of_nat)
qed

lemma sem_outside:
  assumes "sem_index sem = None"
  shows "sint sem \<notin> {0..511}" and "sem \<noteq> 512 \<Longrightarrow> sint sem < 0 \<or> int MAX_SEM < sint sem"
    and "sem = 512 \<Longrightarrow> \<not> (sint sem < 0 \<or> int MAX_SEM < sint sem)"
proof -
  have "sem = 512" if "sint sem = 512" using arg_cong [OF that, of "of_int :: int \<Rightarrow> u32"] by simp
  then show "sem \<noteq> 512 \<Longrightarrow> sint sem < 0 \<or> int MAX_SEM < sint sem"
    using assms by (force simp: sem_index_def MAX_SEM_def split: if_splits)
qed (use assms in \<open>auto simp: sem_index_def MAX_SEM_def split: if_splits\<close>)

section \<open>Properties\<close>


text \<open>\<open>run_state\<close> with semaphore 3 open at 1.\<close>

definition sem_state :: semst where
  "sem_state = procst.extend run_state (semst.fields ((\<lambda>_. EMPTY_SEM)(3 := 1)))"

lemma sem_state_ok:
  "quiet sem_state" "no_lost_sleeper i sem_state" "sems sem_state 3 = 1" "me sem_state = Some 1"
  "sems sem_state 4 = EMPTY_SEM"
  by (simp_all add: sem_state_def run_state_def quiet_def no_lost_sleeper_def irq_ok_def irq_defs
      free_def me_def NPROC_def idle_proc_def procst.defs semst.defs)


text \<open>C32: The life cycle of a semaphore: it can be opened with any non-negative value once and only
  once until it is closed; while it is closed \<^verbatim>\<open>sem_up\<close> and \<^verbatim>\<open>sem_down\<close> print an error, return 0
  and change no semaphore; closing always succeeds.\<close>

theorem semaphore_lifecycle:
  assumes "quiet s" and "sem_index sem = Some i" and "0 \<le> sint val" and "sems s i = EMPTY_SEM"
    and "me s = Some p"
  shows "(\<exists>s1. sem_open sem val s = Ok SUCCESS s1 \<and> sems s1 = (sems s)(i := val) \<and>
       (\<forall>val'. sem_open sem val' s1 = Ok ERR (if sint val' < 0
          then kputs (''ERROR: semaphore out of range.'' @ [newline]) s1 else s1)) \<and>
       sem_close sem s1 = Ok SUCCESS s) \<and>
     sem_up sem s = Ok ERR (kputs (''ERROR: closed semaphore.'' @ [newline]) s) \<and>
     sem_down sem s = Ok ERR (kputs (''ERROR: closed semaphore.'' @ [newline]) s)"
proof -
  have q: "irq_ok s" "free (L_sem i) s" "proc_locks_free s" "noff (mycpu s) = 0" "free (L_proc p) s"
    "free L_pr s" using assms(1) quiet_procs by (auto simp: quiet_def)
  let ?s1 = "upd_sem i val s"
  have q1: "irq_ok ?s1" "free (L_sem i) ?s1" "free L_pr ?s1" using q by (simp_all add: frame_simps)
  have "val \<noteq> EMPTY_SEM" using assms(3) by (auto simp: EMPTY_SEM_def)
  then have o: "sem_open sem val' ?s1 = Ok ERR (if sint val' < 0 then
      kputs (''ERROR: semaphore out of range.'' @ [newline]) ?s1 else ?s1)" for val'
    using sem_open_eq [OF q1(1) assms(2) q1(2), of val'] sem_out_of_range(1) [OF q1(1,3), of val' sem] by auto
  have "upd_sem i EMPTY_SEM ?s1 = s" using assms(4) by (simp add: upd_sem_def fun_upd_idem)
  then have "sem_close sem ?s1 = Ok SUCCESS s" by (simp add: sem_close_eq [OF q1(1) assms(2) q1(2)])
  with o have "\<exists>s1. sem_open sem val s = Ok SUCCESS s1 \<and> sems s1 = (sems s)(i := val) \<and>
       (\<forall>val'. sem_open sem val' s1 = Ok ERR (if sint val' < 0
          then kputs (''ERROR: semaphore out of range.'' @ [newline]) s1 else s1)) \<and>
       sem_close sem s1 = Ok SUCCESS s"
    using sem_open_eq [OF q(1) assms(2) q(2) assms(3)] assms(4)
    by (intro exI [of _ ?s1]) auto
  moreover have "sem_up sem s = Ok ERR (kputs (''ERROR: closed semaphore.'' @ [newline]) s)"
    using sem_up_eq [OF q(1) assms(2) q(2,3,6)] assms(4) by simp
  moreover have "sem_down sem s = Ok ERR (kputs (''ERROR: closed semaphore.'' @ [newline]) s)"
    using sem_down_eq [OF q(1) assms(2) q(2,5) assms(5) q(4,6)] assms(4) by simp
  ultimately show ?thesis by blast
qed

theorem semaphore_lifecycle_witness:
  "sem_up 4 sem_state = Ok ERR (kputs (''ERROR: closed semaphore.'' @ [newline]) sem_state) \<and>
   (\<exists>s1. sem_open 4 9 sem_state = Ok SUCCESS s1 \<and> sems s1 4 = 9)"
proof -
  have i: "sem_index 4 = Some 4" by (simp add: sem_index_def MAX_SEM_def)
  have v: "0 \<le> sint (9 :: u32)" by simp
  show ?thesis
    using semaphore_lifecycle [OF sem_state_ok(1) i v sem_state_ok(5,4)] by auto
qed

text \<open>C33: Every call on every index, with no lock held: on the elements 0 to 511 all four calls work
  as intended (each result is written out, none is refused for its index); \<^verbatim>\<open>sem_open\<close> and
  \<^verbatim>\<open>sem_close\<close> refuse with a message exactly the negative indices and those above 512 (and
  \<^verbatim>\<open>sem_open\<close> a negative value), so the index 512, one past the array, gets through their check and
  is an access out of bounds; \<^verbatim>\<open>sem_up\<close> and \<^verbatim>\<open>sem_down\<close> check nothing, so every index outside the
  array is one.\<close>

theorem semaphore_bounds:
  assumes "quiet s" and "me s = Some p"
  shows
   "(case sem_index sem of
       Some i \<Rightarrow>
         sem_open sem val s =
           (if sint val < 0 then Ok ERR (kputs (''ERROR: semaphore out of range.'' @ [newline]) s)
            else if sems s i = EMPTY_SEM then Ok SUCCESS (upd_sem i val s) else Ok ERR s) \<and>
         sem_close sem s = Ok SUCCESS (upd_sem i EMPTY_SEM s) \<and>
         sem_up sem s =
           (if sems s i = EMPTY_SEM then Ok ERR (kputs (''ERROR: closed semaphore.'' @ [newline]) s)
            else if sint (sems s i) = 2 ^ 31 - 1 then Fault ''signed overflow''
            else Ok SUCCESS (upd_sem i (sems s i + 1)
              (if sems s i = 0 then s\<lparr>procs := woken (Ch_sem i) (Some p) (procs s)\<rparr> else s))) \<and>
         sem_down sem s =
           (if sems s i = EMPTY_SEM then Ok ERR (kputs (''ERROR: closed semaphore.'' @ [newline]) s)
            else if sems s i = 0 then Blocked (Swtch p)
              (grab (L_proc p) (upd_proc p (\<lambda>q. q\<lparr>pchan := Some (Ch_sem i), pstate := SLEEPING\<rparr>) s))
            else if sint (sems s i) = - (2 ^ 31) then Fault ''signed overflow''
            else Ok SUCCESS (upd_sem i (sems s i - 1) s))
     | None \<Rightarrow>
         sem_open sem val s =
           (if sint val < 0 \<or> sem \<noteq> 512 then Ok ERR (kputs (''ERROR: semaphore out of range.'' @ [newline]) s)
            else Fault ''semaphore_array: index out of bounds'') \<and>
         sem_close sem s =
           (if sem \<noteq> 512 then Ok ERR (kputs (''ERROR: semaphore out of range.'' @ [newline]) s)
            else Fault ''semaphore_array: index out of bounds'') \<and>
         sem_up sem s = Fault ''semaphore_array: index out of bounds'' \<and>
         sem_down sem s = Fault ''semaphore_array: index out of bounds'') \<and>
    (sem_index sem = (if sint sem \<in> {0..511} then Some (unat sem) else None))"
proof -
  have q: "irq_ok s" "free (L_sem i) s" "proc_locks_free s" "noff (mycpu s) = 0" "free (L_proc p) s"
    "free L_pr s" for i using assms(1) quiet_procs by (auto simp: quiet_def)
  note out = sem_out_of_range [OF q(1,6)]
  show ?thesis
  proof (cases "sem_index sem")
    case None
    have "sem_open sem val s = Fault ''semaphore_array: index out of bounds''" if "sem = 512" "\<not> sint val < 0"
      using sem_outside(3) [OF None that(1)] that(2) None unfolding sem_open_def by simp
    moreover have "sem_close sem s = Fault ''semaphore_array: index out of bounds''" if "sem = 512"
      using sem_outside(3) [OF None that] None unfolding sem_close_def by simp
    moreover have "sem_up sem s = Fault ''semaphore_array: index out of bounds''"
      "sem_down sem s = Fault ''semaphore_array: index out of bounds''"
      using None by (simp_all add: sem_up_def sem_down_def)
    ultimately show ?thesis
      using None sem_outside(1,2) [OF None] out(1) [of val sem] out(2) [of sem] by auto
  next
    case (Some i)
    then have i: "sint sem = int i" "i < MAX_SEM" using sem_index_SomeD by auto
    have "sem_open sem val s = Ok ERR (kputs (''ERROR: semaphore out of range.'' @ [newline]) s)" if "sint val < 0"
      using out(1) that by simp
    then show ?thesis
      using Some sem_inside [OF Some] assms(2) sem_open_eq [OF q(1) Some q(2), of val] sem_close_eq [OF q(1) Some q(2)]
        sem_up_eq [OF q(1) Some q(2,3,6)] sem_down_eq [OF q(1) Some q(2,5) assms(2) q(4,6)] by simp
  qed
qed

theorem semaphore_bounds_witness:
  "sem_open 512 1 sem_state = Fault ''semaphore_array: index out of bounds'' \<and>
   sem_up (- 1) sem_state = Fault ''semaphore_array: index out of bounds'' \<and>
   sem_open 0 1 sem_state = Ok SUCCESS (upd_sem 0 1 sem_state) \<and>
   sem_down 3 sem_state = Ok SUCCESS (upd_sem 3 0 sem_state)"
proof -
  note b = semaphore_bounds [OF sem_state_ok(1,4)]
  have "sems sem_state 0 = EMPTY_SEM" by (simp add: sem_state_def semst.defs procst.defs)
  then show ?thesis
    using b [of 512 1] b [of "- 1" 1] b [of 0 1] b [of 3 1] sem_state_ok(3)
    by (simp add: sem_index_def MAX_SEM_def EMPTY_SEM_def)
qed

text \<open>C31: Closing a semaphore does not wake its sleepers, and a process that leaves \<^verbatim>\<open>sleep\<close> in \<^verbatim>\<open>sem_down\<close>
  while the semaphore is closed (because it was killed) does not notice: it decrements the
  marker -1 to -2, reports success, and the semaphore, which nobody has open, can then not be
  opened (until it is closed once more).\<close>

theorem closed_semaphore_decremented:
  assumes "quiet s" and "sem_index sem = Some i"
    and "pstate (procs s p) = SLEEPING" and "pchan (procs s p) = Some (Ch_sem i)" and "p < NPROC"
    and "find (\<lambda>q. pid (procs s q) = target) [0..<NPROC] = Some p"
  shows "\<exists>s1 s2 s3 s4. sem_close sem s = Ok SUCCESS s1 \<and> procs s1 = procs s \<and>
     kill target s1 = Ok 0 s2 \<and> scheduler_turn p s2 = Ok True s3 \<and>
     sem_down_resume p i b s3 = Ok SUCCESS s4 \<and> sint (sems s4 i) = - 2 \<and>
     (\<forall>val. 0 \<le> sint val \<longrightarrow> sem_open sem val s4 = Ok ERR s4)"
proof -
  have q: "irq_ok s" "\<forall>l. free l s" "noff (mycpu s) = 0" "proc_locks_free s"
    using assms(1) quiet_procs by (auto simp: quiet_def)
  let ?s1 = "upd_sem i EMPTY_SEM s"
  let ?s2 = "upd_proc p (\<lambda>q. q\<lparr>pkilled := 1,
         pstate := (if pstate q = SLEEPING then RUNNABLE else pstate q)\<rparr>) ?s1"
  have s1: "sem_close sem s = Ok SUCCESS ?s1" using q assms(2) by (simp add: sem_close_eq)
  have s2: "kill target ?s1 = Ok 0 ?s2"
    using kill_eq [of ?s1 target] q assms(6) by (simp add: frame_simps)
  have q2: "irq_ok ?s2" "\<forall>l. free l ?s2" "noff (mycpu ?s2) = 0" using q by (simp_all add: frame_simps)
  then obtain s3 where s3: "scheduler_turn p ?s2 = Ok True s3"
    using scheduler_turn_ok [of ?s2 p] assms(3) by (simp add: frame_simps)
  let ?s4 = "upd_sem i (- 2) (back_in p b ?s2)"
  have s4: "sem_down_resume p i b s3 = Ok SUCCESS ?s4"
    using sem_down_resume_eq [OF q2 s3, of i b] by (simp add: frame_simps EMPTY_SEM_def)
  have "sem_open sem val ?s4 = Ok ERR ?s4" if "0 \<le> sint val" for val
    using sem_open_eq [of ?s4 sem i val] q2 assms(2) that by (simp add: frame_simps EMPTY_SEM_def)
  then show ?thesis
    using s1 s2 s3 s4 by (intro exI [of _ ?s1] exI [of _ ?s2] exI [of _ s3] exI [of _ ?s4]) (simp add: frame_simps)
qed

text \<open>Process 2, pid 9, asleep in \<^verbatim>\<open>sem_down(5)\<close> while the scheduler runs.\<close>

definition sleeper_state :: semst where
  "sleeper_state = upd_mycpu (\<lambda>c. c\<lparr>cpu_proc := None\<rparr>)
     (upd_proc 2 (\<lambda>q. q\<lparr>pid := 9, pstate := SLEEPING, pchan := Some (Ch_sem 5)\<rparr>)
       (upd_proc 1 (\<lambda>q. q\<lparr>pstate := RUNNABLE\<rparr>) (upd_sem 5 0 sem_state)))"

theorem closed_semaphore_decremented_witness:
  "\<exists>s1 s2 s3 s4. sem_close 5 sleeper_state = Ok SUCCESS s1 \<and> kill 9 s1 = Ok 0 s2 \<and>
     scheduler_turn 2 s2 = Ok True s3 \<and> sem_down_resume 2 5 True s3 = Ok SUCCESS s4 \<and>
     sem_open 5 1 s4 = Ok ERR s4"
proof -
  have i: "sem_index 5 = Some 5" by (simp add: sem_index_def MAX_SEM_def)
  have q: "quiet sleeper_state" "me sleeper_state = None" "pstate (procs sleeper_state 2) = SLEEPING"
    "pchan (procs sleeper_state 2) = Some (Ch_sem 5)" "(2::nat) < NPROC"
    by (simp_all add: sleeper_state_def sem_state_def run_state_def quiet_def irq_ok_def irq_defs
        free_def me_def NPROC_def idle_proc_def procst.defs semst.defs upd_proc_def upd_sem_def)
  have f: "find (\<lambda>q. pid (procs sleeper_state q) = 9) [0..<NPROC] = Some 2"
    by (auto simp: find_upt_Some sleeper_state_def sem_state_def run_state_def irq_defs
        NPROC_def idle_proc_def procst.defs semst.defs upd_proc_def upd_sem_def)
  have v: "0 \<le> sint (1 :: u32)" by simp
  show ?thesis
    using closed_semaphore_decremented [OF q(1) i q(3-5) f, of True] v by blast
qed

end
