(* ===== verification/Sleeplock.thy ===== *)
theory Sleeplock
  imports Semaphore
begin

text \<open>
  Long-term locks, \<^verbatim>\<open>src/lab2/kernel/sleeplock.c\<close>: a holder may sleep, so a contender sleeps
  too instead of spinning.  As in \<open>Semaphore\<close> the loop is cut at \<^verbatim>\<open>sleep\<close>:
  \<open>acquiresleep_resume\<close> is what the contender runs when it is switched to again.
\<close>

record sleeplock =
  sl_locked :: u32
  sl_name :: string
  sl_pid :: u32

record slst = semst +
  slocks :: "slockid \<Rightarrow> sleeplock"

lemma slocks_frame [frame_simps]:
  "irq_ok (s\<lparr>slocks := x\<rparr>) \<longleftrightarrow> irq_ok s" "free l (s\<lparr>slocks := x\<rparr>) \<longleftrightarrow> free l s"
  "holding l (s\<lparr>slocks := x\<rparr>) \<longleftrightarrow> holding l s" "mycpu (s\<lparr>slocks := x\<rparr>) = mycpu s"
  "(grab l s)\<lparr>slocks := x\<rparr> = grab l (s\<lparr>slocks := x\<rparr>)" "slocks (grab l s) = slocks s"
  "slocks (kputs m s) = slocks s"
  by (simp_all add: irq_ok_def free_def holding_def grab_def kputs_def Let_def irq_defs)

lemma slocks_frame2 [frame_simps]:
  "proc_locks_free (s\<lparr>slocks := x\<rparr>) \<longleftrightarrow> proc_locks_free s" "me (s\<lparr>slocks := x\<rparr>) = me s"
  "(upd_proc p f s)\<lparr>slocks := x\<rparr> = upd_proc p f (s\<lparr>slocks := x\<rparr>)" "slocks (upd_proc p f s) = slocks s"
  by (simp_all add: proc_locks_free_def frame_simps me_def upd_proc_def)

definition upd_slock :: "slockid \<Rightarrow> (sleeplock \<Rightarrow> sleeplock) \<Rightarrow> 'a slst_scheme \<Rightarrow> 'a slst_scheme" where
  "upd_slock l f s = s\<lparr>slocks := (slocks s)(l := f (slocks s l))\<rparr>"

lemma upd_slock_frame [frame_simps]:
  "irq_ok (upd_slock i f s) \<longleftrightarrow> irq_ok s" "free l (upd_slock i f s) \<longleftrightarrow> free l s"
  "holding l (upd_slock i f s) \<longleftrightarrow> holding l s" "mycpu (upd_slock i f s) = mycpu s"
  "upd_slock i f (grab l s) = grab l (upd_slock i f s)" "procs (upd_slock i f s) = procs s"
  "me (upd_slock i f s) = me s" "proc_locks_free (upd_slock i f s) \<longleftrightarrow> proc_locks_free s"
  by (simp_all add: upd_slock_def frame_simps)

lemma slocks_upd_slock [simp]: "slocks (upd_slock l f s) = (slocks s)(l := f (slocks s l))"
  by (simp add: upd_slock_def)

definition initsleeplock :: "slockid \<Rightarrow> string \<Rightarrow> 'a slst_scheme \<Rightarrow> 'a slst_scheme" where
  "initsleeplock l nm s =
     upd_slock l (\<lambda>_. \<lparr>sl_locked = 0, sl_name = nm, sl_pid = 0\<rparr>) (initlock (L_slk l) ''sleep lock'' s)"

definition acquiresleep_loop :: "slockid \<Rightarrow> 'a slst_scheme \<Rightarrow> (unit, 'a slst_scheme) kr" where
  "acquiresleep_loop l s =
     (if sl_locked (slocks s l) \<noteq> 0 then
        kthen (sleep (Ch_slk l) (L_slk l) s) (\<lambda>s. Fault ''sleep returned without a switch'')
      else
        (let s = upd_slock l (\<lambda>k. k\<lparr>sl_locked := 1\<rparr>) s in
         kbind (myproc s) (\<lambda>me s.
           case me of
             None \<Rightarrow> Fault ''acquiresleep: no process''
           | Some p \<Rightarrow> release (L_slk l) (upd_slock l (\<lambda>k. k\<lparr>sl_pid := pid (procs s p)\<rparr>) s))))"

definition acquiresleep :: "slockid \<Rightarrow> 'a slst_scheme \<Rightarrow> (unit, 'a slst_scheme) kr" where
  "acquiresleep l s = kthen (acquire (L_slk l) s) (\<lambda>s. acquiresleep_loop l s)"

definition acquiresleep_resume :: "nat \<Rightarrow> slockid \<Rightarrow> bool \<Rightarrow> 'a slst_scheme \<Rightarrow> (unit, 'a slst_scheme) kr" where
  "acquiresleep_resume p l saved s =
     kthen (sleep_return p (L_slk l) saved s) (\<lambda>s. acquiresleep_loop l s)"

definition releasesleep :: "slockid \<Rightarrow> 'a slst_scheme \<Rightarrow> (unit, 'a slst_scheme) kr" where
  "releasesleep l s =
     kthen (acquire (L_slk l) s) (\<lambda>s.
     kthen (wakeup (Ch_slk l) (upd_slock l (\<lambda>k. k\<lparr>sl_locked := 0, sl_pid := 0\<rparr>) s)) (\<lambda>s.
       release (L_slk l) s))"

definition holdingsleep :: "slockid \<Rightarrow> 'a slst_scheme \<Rightarrow> (bool, 'a slst_scheme) kr" where
  "holdingsleep l s =
     kthen (acquire (L_slk l) s) (\<lambda>s.
     kbind (if sl_locked (slocks s l) \<noteq> 0 then
              kbind (myproc s) (\<lambda>me s.
                case me of
                  None \<Rightarrow> Fault ''holdingsleep: no process''
                | Some p \<Rightarrow> Ok (sl_pid (slocks s l) = pid (procs s p)) s)
            else Ok False s) (\<lambda>r s.
     kthen (release (L_slk l) s) (\<lambda>s. Ok r s)))"

section \<open>Facts about sleep locks\<close>

text \<open>The state in which process \<open>p\<close> holds the sleep lock.\<close>

definition slept :: "slockid \<Rightarrow> u32 \<Rightarrow> 'a slst_scheme \<Rightarrow> 'a slst_scheme" where
  "slept l i s = upd_slock l (\<lambda>k. k\<lparr>sl_locked := 1, sl_pid := i\<rparr>) s"

lemma acquiresleep_loop_eq:
  assumes "irq_ok s" and "free (L_slk l) s" and "free (L_proc p) s" and "me s = Some p"
    and "noff (mycpu s) = 0"
  shows "acquiresleep_loop l (grab (L_slk l) s) =
    (if sl_locked (slocks s l) \<noteq> 0 then Blocked (Swtch p)
       (grab (L_proc p) (upd_proc p (\<lambda>q. q\<lparr>pchan := Some (Ch_slk l), pstate := SLEEPING\<rparr>) s))
     else Ok () (slept l (pid (procs s p)) s))"
proof -
  have "upd_slock l (\<lambda>k. k\<lparr>sl_pid := i\<rparr>) (upd_slock l (\<lambda>k. k\<lparr>sl_locked := 1\<rparr>) t) = slept l i t" for i t
    by (simp add: slept_def upd_slock_def)
  then show ?thesis
    using assms by (auto simp: acquiresleep_loop_def kernel_simps frame_simps sleep_ok)
qed

lemma acquiresleep_eq:
  assumes "irq_ok s" and "free (L_slk l) s" and "free (L_proc p) s" and "me s = Some p"
    and "noff (mycpu s) = 0"
  shows "acquiresleep l s =
    (if sl_locked (slocks s l) \<noteq> 0 then Blocked (Swtch p)
       (grab (L_proc p) (upd_proc p (\<lambda>q. q\<lparr>pchan := Some (Ch_slk l), pstate := SLEEPING\<rparr>) s))
     else Ok () (slept l (pid (procs s p)) s))"
  using assms by (simp add: acquiresleep_def kernel_simps acquiresleep_loop_eq)

lemma holdingsleep_eq:
  assumes "irq_ok s" and "free (L_slk l) s" and "me s = Some p"
  shows "holdingsleep l s = Ok (sl_locked (slocks s l) \<noteq> 0 \<and> sl_pid (slocks s l) = pid (procs s p)) s"
  using assms by (simp add: holdingsleep_def kernel_simps frame_simps)

lemma releasesleep_eq:
  assumes "irq_ok s" and "free (L_slk l) s" and "proc_locks_free s"
  shows "releasesleep l s = Ok () (upd_slock l (\<lambda>k. k\<lparr>sl_locked := 0, sl_pid := 0\<rparr>)
     (s\<lparr>procs := woken (Ch_slk l) (me s) (procs s)\<rparr>))"
proof -
  have "(upd_slock l f s)\<lparr>procs := x\<rparr> = upd_slock l f (s\<lparr>procs := x\<rparr>)" for f x and s :: "'a slst_scheme"
    by (simp add: upd_slock_def)
  then show ?thesis
    using assms by (simp add: releasesleep_def kernel_simps frame_simps wakeup_ok)
qed

lemma slocks_back_in [frame_simps]: "slocks (back_in p b s) = slocks s"
  by (simp add: back_in_def set_irq_def upd_proc_def irq_defs)

lemma acquiresleep_resume_eq:
  assumes "irq_ok s" and "\<forall>l. free l s" and "noff (mycpu s) = 0"
    and "scheduler_turn p s = Ok True t"
  shows "acquiresleep_resume p l b t =
    (if sl_locked (slocks s l) \<noteq> 0 then Blocked (Swtch p)
       (grab (L_proc p) (upd_proc p (\<lambda>q. q\<lparr>pchan := Some (Ch_slk l), pstate := SLEEPING\<rparr>) (back_in p b s)))
     else Ok () (slept l (pid (procs s p)) (back_in p b s)))"
  using sleep_return_turn [OF assms, of "L_slk l" b] assms(1-3)
  by (simp add: acquiresleep_resume_def acquiresleep_loop_eq frame_simps)

section \<open>Properties\<close>

text \<open>C29: A sleep lock excludes and is handed over: a process that acquires a free sleep lock holds it; as
  long as it does, every process with another pid that asks is put to sleep on it and is told
  that it does not hold it; when the holder releases it, all those sleeping on it can run, and the first
  that runs while it is still free acquires it.\<close>

theorem sleeplock_handover:
  fixes s :: "'a slst_scheme"
  assumes "quiet s" and "me s = Some p" and "sl_locked (slocks s l) = 0"
  shows "\<exists>s1. acquiresleep l s = Ok () s1 \<and> holdingsleep l s1 = Ok True s1 \<and>
     (\<forall>(t :: 'a slst_scheme) q. quiet t \<and> me t = Some q \<and> pid (procs t q) \<noteq> pid (procs s p) \<and> slocks t = slocks s1 \<longrightarrow>
        holdingsleep l t = Ok False t \<and>
        (\<exists>t'. acquiresleep l t = Blocked (Swtch q) t' \<and> pstate (procs t' q) = SLEEPING \<and>
           pchan (procs t' q) = Some (Ch_slk l))) \<and>
     (\<exists>s2. releasesleep l s1 = Ok () s2 \<and> sl_locked (slocks s2 l) = 0 \<and>
        (\<forall>q < NPROC. q \<noteq> p \<and> pstate (procs s q) = SLEEPING \<and> pchan (procs s q) = Some (Ch_slk l) \<longrightarrow>
           pstate (procs s2 q) = RUNNABLE)) \<and>
     (\<forall>(t :: 'a slst_scheme) q b t1. quiet t \<and> sl_locked (slocks t l) = 0 \<and> scheduler_turn q t = Ok True t1 \<longrightarrow>
        (\<exists>t2. acquiresleep_resume q l b t1 = Ok () t2 \<and> sl_locked (slocks t2 l) = 1 \<and>
           sl_pid (slocks t2 l) = pid (procs t q)))"
proof -
  have q: "irq_ok t" "\<forall>l. free l t" "proc_locks_free t" "noff (mycpu t) = 0"
    if "quiet t" for t :: "'a slst_scheme"
    using that quiet_procs by (auto simp: quiet_def)
  let ?s1 = "slept l (pid (procs s p)) s"
  have s1: "irq_ok ?s1" "\<forall>l. free l ?s1" "proc_locks_free ?s1" "me ?s1 = Some p" "procs ?s1 = procs s"
    "sl_locked (slocks ?s1 l) = 1" "sl_pid (slocks ?s1 l) = pid (procs s p)"
    using q [OF assms(1)] assms(2) by (simp_all add: slept_def frame_simps)
  have a: "acquiresleep l s = Ok () ?s1"
    using acquiresleep_eq [of s l p] q [OF assms(1)] assms by simp
  have h: "holdingsleep l ?s1 = Ok True ?s1"
    using holdingsleep_eq [OF s1(1) _ s1(4), of l] s1 by simp
  have other: "holdingsleep l t = Ok False t \<and>
        (\<exists>t'. acquiresleep l t = Blocked (Swtch q) t' \<and> pstate (procs t' q) = SLEEPING \<and>
           pchan (procs t' q) = Some (Ch_slk l))"
    if "quiet t \<and> me t = Some q \<and> pid (procs t q) \<noteq> pid (procs s p) \<and> slocks t = slocks ?s1"
    for t :: "'a slst_scheme" and q
    using that q [of t] holdingsleep_eq [of t l q] acquiresleep_eq [of t l q] s1(6,7)
    by (auto simp: frame_simps)
  let ?s2 = "upd_slock l (\<lambda>k. k\<lparr>sl_locked := 0, sl_pid := 0\<rparr>)
     (?s1\<lparr>procs := woken (Ch_slk l) (me ?s1) (procs ?s1)\<rparr>)"
  have rel: "releasesleep l ?s1 = Ok () ?s2"
    using releasesleep_eq [OF s1(1) _ s1(3), of l] s1(2) by simp
  have s2: "sl_locked (slocks ?s2 l) = 0"
    "\<forall>q < NPROC. q \<noteq> p \<and> pstate (procs s q) = SLEEPING \<and> pchan (procs s q) = Some (Ch_slk l) \<longrightarrow>
           pstate (procs ?s2 q) = RUNNABLE"
    using s1 by (auto simp: frame_simps woken_def)
  have res: "\<exists>t2. acquiresleep_resume q l b t1 = Ok () t2 \<and> sl_locked (slocks t2 l) = 1 \<and>
           sl_pid (slocks t2 l) = pid (procs t q)"
    if "quiet t \<and> sl_locked (slocks t l) = 0 \<and> scheduler_turn q t = Ok True t1"
    for t t1 :: "'a slst_scheme" and q b
    using that q [of t] acquiresleep_resume_eq [of t q t1 l b] by (auto simp: slept_def frame_simps)
  show ?thesis
    by (rule exI [of _ ?s1]) (use a h other rel s2 res in blast)
qed

text \<open>\<open>run_state\<close> extended with closed semaphores and free sleep locks.\<close>

definition sl_state :: slst where
  "sl_state = semst.extend sem_state (slst.fields (\<lambda>_. \<lparr>sl_locked = 0, sl_name = [], sl_pid = 0\<rparr>))"

lemma sl_state_ok: "quiet sl_state" "me sl_state = Some 1" "sl_locked (slocks sl_state l) = 0"
  by (simp_all add: sl_state_def sem_state_def run_state_def quiet_def irq_ok_def irq_defs
      free_def me_def NPROC_def idle_proc_def procst.defs semst.defs slst.defs)

theorem sleeplock_handover_witness:
  "\<exists>s1. acquiresleep (SL_inode 4) sl_state = Ok () s1 \<and> holdingsleep (SL_inode 4) s1 = Ok True s1"
  using sleeplock_handover [OF sl_state_ok] by blast

end
