(* ===== verification/Kalloc.thy ===== *)
theory Kalloc
  imports Sleeplock
begin

text \<open>
  Physical memory and its page allocator, \<^verbatim>\<open>src/lab2/kernel/kalloc.c\<close>.  RAM is a function from
  addresses to bytes; the free list lives in it, each free page beginning with the address of
  the next, 0 at the end.  \<open>kend\<close>, \<open>ketext\<close> and \<open>ktramp\<close> are the addresses \<^verbatim>\<open>end\<close>, \<^verbatim>\<open>etext\<close> and
  \<^verbatim>\<open>trampoline\<close> that the linker provides.
\<close>

section \<open>Memory\<close>

record memst = slst +
  pmem :: bytes
  freelist :: u64
  kernel_pagetable :: u64
  kend :: u64
  ketext :: u64
  ktramp :: u64

lemma pmem_frame [frame_simps]:
  "irq_ok (s\<lparr>pmem := x\<rparr>) \<longleftrightarrow> irq_ok s" "free l (s\<lparr>pmem := x\<rparr>) \<longleftrightarrow> free l s"
  "holding l (s\<lparr>pmem := x\<rparr>) \<longleftrightarrow> holding l s" "mycpu (s\<lparr>pmem := x\<rparr>) = mycpu s"
  "(grab l s)\<lparr>pmem := x\<rparr> = grab l (s\<lparr>pmem := x\<rparr>)" "pmem (grab l s) = pmem s"
  "pmem (kputs m s) = pmem s"
  by (simp_all add: irq_ok_def free_def holding_def grab_def kputs_def Let_def irq_defs)

lemma freelist_frame [frame_simps]:
  "irq_ok (s\<lparr>freelist := x\<rparr>) \<longleftrightarrow> irq_ok s" "free l (s\<lparr>freelist := x\<rparr>) \<longleftrightarrow> free l s"
  "holding l (s\<lparr>freelist := x\<rparr>) \<longleftrightarrow> holding l s" "mycpu (s\<lparr>freelist := x\<rparr>) = mycpu s"
  "(grab l s)\<lparr>freelist := x\<rparr> = grab l (s\<lparr>freelist := x\<rparr>)" "freelist (grab l s) = freelist s"
  "freelist (kputs m s) = freelist s"
  by (simp_all add: irq_ok_def free_def holding_def grab_def kputs_def Let_def irq_defs)

lemma kernel_pagetable_frame [frame_simps]:
  "irq_ok (s\<lparr>kernel_pagetable := x\<rparr>) \<longleftrightarrow> irq_ok s" "free l (s\<lparr>kernel_pagetable := x\<rparr>) \<longleftrightarrow> free l s"
  "holding l (s\<lparr>kernel_pagetable := x\<rparr>) \<longleftrightarrow> holding l s" "mycpu (s\<lparr>kernel_pagetable := x\<rparr>) = mycpu s"
  "(grab l s)\<lparr>kernel_pagetable := x\<rparr> = grab l (s\<lparr>kernel_pagetable := x\<rparr>)" "kernel_pagetable (grab l s) = kernel_pagetable s"
  "kernel_pagetable (kputs m s) = kernel_pagetable s"
  by (simp_all add: irq_ok_def free_def holding_def grab_def kputs_def Let_def irq_defs)

lemma pmem_frame2 [frame_simps]:
  "pmem (upd_proc p f s) = pmem s" "pmem (upd_slock l g s) = pmem s" "pmem (upd_sem i v s) = pmem s"
  "freelist (upd_proc p f s) = freelist s" "freelist (upd_slock l g s) = freelist s"
  "kend (grab l' s) = kend s" "kend (upd_proc p f s) = kend s" "kend (s\<lparr>pmem := m\<rparr>) = kend s"
  "kend (s\<lparr>freelist := a\<rparr>) = kend s"
  by (simp_all add: upd_proc_def upd_slock_def upd_sem_def grab_def Let_def irq_defs)

definition PGSIZE :: u64 where "PGSIZE = 4096"
definition KERNBASE :: u64 where "KERNBASE = 0x80000000"
definition PHYSTOP :: u64 where "PHYSTOP = KERNBASE + 128 * 1024 * 1024"
definition PGROUNDUP :: "u64 \<Rightarrow> u64" where "PGROUNDUP n = (n + PGSIZE - 1) AND NOT (PGSIZE - 1)"
definition PGROUNDDOWN :: "u64 \<Rightarrow> u64" where "PGROUNDDOWN a = a AND NOT (PGSIZE - 1)"

text \<open>Loads and stores of 64-bit values, and \<^verbatim>\<open>memset\<close> of a page, through a pointer.\<close>

definition rd64 :: "u64 \<Rightarrow> 'a memst_scheme \<Rightarrow> u64" where
  "rd64 a s = ld64 (pmem s) (unat a)"

definition wr64 :: "u64 \<Rightarrow> u64 \<Rightarrow> 'a memst_scheme \<Rightarrow> 'a memst_scheme" where
  "wr64 a v s = s\<lparr>pmem := st64 (pmem s) (unat a) v\<rparr>"

definition fill_page :: "u64 \<Rightarrow> u8 \<Rightarrow> 'a memst_scheme \<Rightarrow> 'a memst_scheme" where
  "fill_page a c s = s\<lparr>pmem := memset (unat a) c (unat PGSIZE) (pmem s)\<rparr>"

section \<open>kalloc.c\<close>

definition kfree :: "u64 \<Rightarrow> 'a memst_scheme \<Rightarrow> (unit, 'a memst_scheme) kr" where
  "kfree pa s =
     (if pa mod PGSIZE \<noteq> 0 \<or> pa < kend s \<or> pa \<ge> PHYSTOP then Panic ''kfree''
      else
        kthen (acquire L_kmem (fill_page pa 1 s)) (\<lambda>s.
          release L_kmem ((wr64 pa (freelist s) s)\<lparr>freelist := pa\<rparr>)))"

definition kalloc :: "'a memst_scheme \<Rightarrow> (u64, 'a memst_scheme) kr" where
  "kalloc s =
     kthen (acquire L_kmem s) (\<lambda>s.
       let r = freelist s; s = (if r \<noteq> 0 then s\<lparr>freelist := rd64 r s\<rparr> else s) in
       kthen (release L_kmem s) (\<lambda>s. Ok r (if r \<noteq> 0 then fill_page r 5 s else s)))"

text \<open>
  The loop of \<^verbatim>\<open>freerange\<close>: \<^verbatim>\<open>p + PGSIZE <= pa_end\<close> on pointers.  It ends because \<^verbatim>\<open>p\<close> grows and
  \<^verbatim>\<open>kfree\<close> panics at \<^verbatim>\<open>PHYSTOP\<close>.
\<close>

function freerange_loop :: "u64 \<Rightarrow> u64 \<Rightarrow> 'a memst_scheme \<Rightarrow> (unit, 'a memst_scheme) kr" where
  "freerange_loop p pa_end s =
     (if p + PGSIZE \<le> pa_end then kthen (kfree p s) (\<lambda>s. freerange_loop (p + PGSIZE) pa_end s)
      else Ok () s)"
  by pat_completeness auto

lemma PHYSTOP_val: "PHYSTOP = 0x88000000" by (simp add: PHYSTOP_def KERNBASE_def)

lemma kfree_Ok_bound: "kfree p s = Ok u t \<Longrightarrow> p < 0x88000000"
  by (auto simp: kfree_def PHYSTOP_val split: if_splits)

lemma page_step: "p < 0x88000000 \<Longrightarrow> unat (p + PGSIZE) = unat p + 4096" for p :: u64
proof -
  assume "p < 0x88000000"
  then have "unat p < 0x88000000" by (simp add: word_less_nat_alt)
  then show ?thesis by (simp add: PGSIZE_def unat_word_ariths)
qed

termination freerange_loop
proof (relation "measure (\<lambda>(p, e, s). 0x90000000 - unat p)")
  fix p pa_end :: u64 and s :: "'a memst_scheme" and u s'
  assume "p + PGSIZE \<le> pa_end" and "kfree p s = Ok u s'"
  then have "p < 0x88000000" by (simp add: kfree_Ok_bound)
  moreover from this have "unat p < 0x88000000" by (simp add: word_less_nat_alt)
  ultimately show "((p + PGSIZE, pa_end, s'), p, pa_end, s) \<in> measure (\<lambda>(p, e, s). 0x90000000 - unat p)"
    by (simp add: page_step)
qed simp

declare freerange_loop.simps [simp del]

definition freerange :: "u64 \<Rightarrow> u64 \<Rightarrow> 'a memst_scheme \<Rightarrow> (unit, 'a memst_scheme) kr" where
  "freerange pa_start pa_end s = freerange_loop (PGROUNDUP pa_start) pa_end s"

definition kinit :: "'a memst_scheme \<Rightarrow> (unit, 'a memst_scheme) kr" where
  "kinit s = (let s = initlock L_kmem ''kmem'' s in freerange (kend s) PHYSTOP s)"

section \<open>Rounding to pages\<close>

lemma PGROUNDDOWN_bits: "PGROUNDDOWN a = push_bit 12 (drop_bit 12 a)"
proof -
  have "PGSIZE - 1 = mask 12" by (simp add: PGSIZE_def mask_eq_decr_exp)
  then show ?thesis
    unfolding PGROUNDDOWN_def by (auto intro!: bit_word_eqI simp: bit_simps)
qed

lemma unat_PGROUNDDOWN: "unat (PGROUNDDOWN a) = unat a div 4096 * 4096"
proof -
  have "unat a div 4096 * 4096 < 2 ^ 64"
    using unsigned_less [of a, where ?'a = nat] by (simp add: le_less_trans [OF div_times_less_eq_dividend])
  then show ?thesis
    by (simp add: PGROUNDDOWN_bits drop_bit_eq_div push_bit_eq_mult unat_word_ariths unat_div)
qed

lemma PGROUNDUP_DOWN: "PGROUNDUP a = PGROUNDDOWN (a + 4095)"
  by (simp add: PGROUNDUP_def PGROUNDDOWN_def PGSIZE_def add.commute)

lemma unat_PGROUNDUP: "unat a < 2 ^ 64 - 4096 \<Longrightarrow> unat (PGROUNDUP a) = (unat a + 4095) div 4096 * 4096"
  by (simp add: PGROUNDUP_DOWN unat_PGROUNDDOWN unat_word_ariths)

lemma le_round_up: "k \<le> (k + 4095) div 4096 * 4096" for k :: nat
  using div_mult_mod_eq [of "k + 4095" 4096] mod_less_divisor [of 4096 "k + 4095"] by linarith

lemma PGROUNDDOWN_aligned: "PGROUNDDOWN a mod PGSIZE = 0"
proof -
  have "unat (PGROUNDDOWN a) mod 4096 = 0" by (simp add: unat_PGROUNDDOWN)
  then show ?thesis by (simp add: PGSIZE_def word_unat_eq_iff unat_mod)
qed

lemma PGROUNDUP_aligned: "PGROUNDUP a mod PGSIZE = 0"
  by (simp add: PGROUNDUP_DOWN PGROUNDDOWN_aligned)

section \<open>The free list\<close>

primrec chain :: "bytes \<Rightarrow> u64 \<Rightarrow> u64 list \<Rightarrow> bool" where
  "chain m a [] \<longleftrightarrow> a = 0"
| "chain m a (p # ps) \<longleftrightarrow> a = p \<and> p \<noteq> 0 \<and> chain m (ld64 m (unat p)) ps"

definition page_ok :: "'a memst_scheme \<Rightarrow> u64 \<Rightarrow> bool" where
  "page_ok s p \<longleftrightarrow> p mod PGSIZE = 0 \<and> kend s \<le> p \<and> p < PHYSTOP \<and> p \<noteq> 0"

definition in_page :: "u64 \<Rightarrow> nat \<Rightarrow> bool" where
  "in_page p a \<longleftrightarrow> unat p \<le> a \<and> a < unat p + 4096"

definition free_list :: "'a memst_scheme \<Rightarrow> u64 list \<Rightarrow> bool" where
  "free_list s ps \<longleftrightarrow> chain (pmem s) (freelist s) ps \<and> distinct ps \<and> (\<forall>p \<in> set ps. page_ok s p)"

lemma ld64_cong: "(\<And>i. i < 8 \<Longrightarrow> m (k + i) = m' (k + i)) \<Longrightarrow> ld64 m k = ld64 m' k"
proof -
  assume a: "\<And>i. i < 8 \<Longrightarrow> m (k + i) = m' (k + i)"
  have "m k = m' k" "m (k + 1) = m' (k + 1)" "m (k + 2) = m' (k + 2)" "m (k + 3) = m' (k + 3)"
    "m (k + 4) = m' (k + 4)" "m (k + 5) = m' (k + 5)" "m (k + 6) = m' (k + 6)" "m (k + 7) = m' (k + 7)"
    using a [of 0] a [of 1] a [of 2] a [of 3] a [of 4] a [of 5] a [of 6] a [of 7] by simp_all
  moreover from this have "m (5 + k) = m' (5 + k)" "m (6 + k) = m' (6 + k)" by (simp_all add: add.commute)
  ultimately show ?thesis by (simp add: ld64_def ld32_def add.assoc)
qed

lemma chain_cong:
  "(\<And>p i. p \<in> set ps \<Longrightarrow> i < 8 \<Longrightarrow> m (unat p + i) = m' (unat p + i)) \<Longrightarrow> chain m a ps \<longleftrightarrow> chain m' a ps"
proof (induction ps arbitrary: a)
  case (Cons p ps)
  have "ld64 m (unat p) = ld64 m' (unat p)" by (rule ld64_cong) (use Cons.prems in auto)
  then show ?case using Cons by auto
qed simp

lemma page_unat: "page_ok s p \<Longrightarrow> unat p mod 4096 = 0 \<and> unat p < 0x88000000"
proof -
  assume "page_ok s p"
  then have "p mod 4096 = 0" "p < 0x88000000" by (simp_all add: page_ok_def PGSIZE_def PHYSTOP_val)
  then have "unat (p mod 4096) = 0" "unat p < 0x88000000" by (simp_all add: word_less_nat_alt)
  then show ?thesis by (simp add: unat_mod)
qed

lemma pages_disjoint:
  assumes "page_ok s p" and "page_ok s q" and "p \<noteq> q" and "in_page p a"
  shows "\<not> in_page q a"
proof
  assume "in_page q a"
  obtain j k where "unat p = 4096 * j" "unat q = 4096 * k"
    using page_unat [OF assms(1)] page_unat [OF assms(2)] by (metis mod_0_imp_dvd dvdE)
  moreover from this \<open>in_page q a\<close> assms(4) have "j = k" unfolding in_page_def by linarith
  ultimately show False using assms(3) by (metis word_unat_eq_iff)
qed

lemma first_bytes: "page_ok s p \<Longrightarrow> i < 8 \<Longrightarrow> in_page p (unat p + i)"
  by (simp add: in_page_def)

lemma fill_page_apply: "pmem (fill_page p c s) a = (if in_page p a then c else pmem s a)"
  by (auto simp: fill_page_def memset_apply in_page_def PGSIZE_def)

lemma st64_outside: "a < k \<or> k + 8 \<le> a \<Longrightarrow> st64 m k v a = m a"
  by (auto simp: st64_def st32_def)

lemma kfree_ok:
  assumes "irq_ok s" and "free L_kmem s" and "page_ok s pa" and "free_list s ps" and "pa \<notin> set ps"
  shows "\<exists>m. kfree pa s = Ok () (s\<lparr>pmem := m, freelist := pa\<rparr>) \<and>
     free_list (s\<lparr>pmem := m, freelist := pa\<rparr>) (pa # ps) \<and> (\<forall>a. \<not> in_page pa a \<longrightarrow> m a = pmem s a)"
proof -
  let ?m = "st64 (pmem (fill_page pa 1 s)) (unat pa) (freelist s)"
  have "kfree pa s = Ok () (s\<lparr>pmem := ?m, freelist := pa\<rparr>)"
    using assms(1-3) by (simp add: kfree_def page_ok_def not_le not_less kernel_simps frame_simps fill_page_def wr64_def)
  moreover have m: "?m a = pmem s a" if "\<not> in_page pa a" for a
    using that by (subst st64_outside) (auto simp: in_page_def fill_page_apply)
  moreover have "chain ?m (freelist s) ps \<longleftrightarrow> chain (pmem s) (freelist s) ps"
  proof (rule chain_cong)
    fix p i assume p: "p \<in> set ps" "i < (8::nat)"
    then have "page_ok s p" "p \<noteq> pa" using assms(4,5) by (auto simp: free_list_def)
    then have "\<not> in_page pa (unat p + i)"
      using first_bytes [OF _ p(2)] pages_disjoint [of s p pa "unat p + i"] assms(3) by blast
    then show "?m (unat p + i) = pmem s (unat p + i)" by (rule m)
  qed
  ultimately show ?thesis
    using assms(3-5) by (intro exI [of _ ?m]) (simp add: free_list_def page_ok_def)
qed

lemma kalloc_empty:
  "irq_ok s \<Longrightarrow> free L_kmem s \<Longrightarrow> free_list s [] \<Longrightarrow> kalloc s = Ok 0 s"
  by (simp add: kalloc_def free_list_def kernel_simps frame_simps Let_def)

lemma kalloc_ok:
  assumes "irq_ok s" and "free L_kmem s" and "free_list s (p # ps)"
  shows "\<exists>m f. kalloc s = Ok p (s\<lparr>pmem := m, freelist := f\<rparr>) \<and> page_ok s p \<and>
     free_list (s\<lparr>pmem := m, freelist := f\<rparr>) ps \<and>
     m = (\<lambda>a. if in_page p a then 5 else pmem s a)"
proof -
  let ?f = "ld64 (pmem s) (unat p)"
  let ?m = "\<lambda>a. if in_page p a then 5 else pmem s a"
  have p: "freelist s = p" "p \<noteq> 0" "chain (pmem s) ?f ps" "page_ok s p" "p \<notin> set ps"
    using assms(3) by (auto simp: free_list_def)
  have "fill_page p 5 (s\<lparr>freelist := ?f\<rparr>) = s\<lparr>pmem := ?m, freelist := ?f\<rparr>"
    using fill_page_apply [of p 5 "s\<lparr>freelist := ?f\<rparr>"] by (simp add: fill_page_def fun_eq_iff)
  then have k: "kalloc s = Ok p (s\<lparr>pmem := ?m, freelist := ?f\<rparr>)"
    using assms(1,2) p by (simp add: kalloc_def rd64_def kernel_simps frame_simps Let_def)
  have "chain ?m ?f ps \<longleftrightarrow> chain (pmem s) ?f ps"
  proof (rule chain_cong)
    fix q i assume q: "q \<in> set ps" "i < (8::nat)"
    then have "page_ok s q" "q \<noteq> p" using assms(3) by (auto simp: free_list_def)
    then have "\<not> in_page p (unat q + i)"
      using first_bytes [OF _ q(2)] pages_disjoint [of s q p "unat q + i"] p(4) by blast
    then show "?m (unat q + i) = pmem s (unat q + i)" by simp
  qed
  with k p assms(3) show ?thesis
    by (intro exI [of _ ?m] exI [of _ ?f]) (simp add: free_list_def page_ok_def)
qed

section \<open>Any use of the allocator\<close>

text \<open>
  \<open>kmem_run s0 s out\<close>: from \<open>s0\<close>, with nothing handed out, the pages \<open>out\<close> are in use in \<open>s\<close>.
  Their owners write to them what they like.
\<close>

inductive kmem_run :: "'a memst_scheme \<Rightarrow> 'a memst_scheme \<Rightarrow> u64 set \<Rightarrow> bool" for s0 where
  start: "kmem_run s0 s0 {}"
| alloc: "kmem_run s0 s out \<Longrightarrow> kalloc s = Ok p s' \<Longrightarrow>
     kmem_run s0 s' (if p = 0 then out else insert p out)"
| release: "kmem_run s0 s out \<Longrightarrow> p \<in> out \<Longrightarrow> kfree p s = Ok () s' \<Longrightarrow> kmem_run s0 s' (out - {p})"
| use: "kmem_run s0 s out \<Longrightarrow> (\<forall>a. (\<forall>p \<in> out. \<not> in_page p a) \<longrightarrow> m a = pmem s a) \<Longrightarrow>
     kmem_run s0 (s\<lparr>pmem := m\<rparr>) out"

lemma page_ok_frame: "page_ok (s\<lparr>pmem := m\<rparr>) p \<longleftrightarrow> page_ok s p"
  "page_ok (s\<lparr>pmem := m, freelist := f\<rparr>) p \<longleftrightarrow> page_ok s p"
  by (simp_all add: page_ok_def)

lemma free_list_use:
  assumes "free_list s ps" and "\<And>p. p \<in> out \<Longrightarrow> page_ok s p" and "set ps \<inter> out = {}"
    and "\<forall>a. (\<forall>p \<in> out. \<not> in_page p a) \<longrightarrow> m a = pmem s a"
  shows "free_list (s\<lparr>pmem := m\<rparr>) ps"
proof -
  have "chain m (freelist s) ps \<longleftrightarrow> chain (pmem s) (freelist s) ps"
  proof (rule chain_cong)
    fix q i assume q: "q \<in> set ps" "i < (8::nat)"
    then have q': "page_ok s q" using assms(1) by (simp add: free_list_def)
    have "\<not> in_page p (unat q + i)" if "p \<in> out" for p
      using first_bytes [OF q' q(2)] pages_disjoint [OF q' assms(2) [OF that]] q(1) that assms(3) by blast
    then show "m (unat q + i) = pmem s (unat q + i)" using assms(4) by blast
  qed
  then show ?thesis using assms(1) by (simp add: free_list_def page_ok_frame)
qed

lemma kmem_run_inv:
  assumes "kmem_run s0 s out" and "irq_ok s0" and "free L_kmem s0" and "free_list s0 ps0"
  shows "irq_ok s \<and> free L_kmem s \<and> kend s = kend s0 \<and>
     (\<exists>ps. free_list s ps \<and> set ps \<inter> out = {} \<and> set ps \<union> out = set ps0)"
  using assms
proof (induction rule: kmem_run.induct)
  case start
  then show ?case by auto
next
  case (alloc s out p s')
  then obtain ps where ps: "free_list s ps" "set ps \<inter> out = {}" "set ps \<union> out = set ps0"
    and s: "irq_ok s" "free L_kmem s" "kend s = kend s0" by auto
  show ?case
  proof (cases ps)
    case Nil
    then have "p = 0" "s' = s" using kalloc_empty [OF s(1,2)] ps(1) alloc.hyps(2) by auto
    then show ?thesis using ps s by auto
  next
    case (Cons q qs)
    obtain m f where m: "kalloc s = Ok q (s\<lparr>pmem := m, freelist := f\<rparr>)" "page_ok s q"
      "free_list (s\<lparr>pmem := m, freelist := f\<rparr>) qs"
      using kalloc_ok [OF s(1,2)] ps(1) Cons by blast
    then have eq: "p = q" "s' = s\<lparr>pmem := m, freelist := f\<rparr>" using alloc.hyps(2) by auto
    have "q \<noteq> 0" "q \<notin> set qs" using m(2) ps(1) Cons by (auto simp: page_ok_def free_list_def)
    then show ?thesis
      using ps m(3) s Cons by (auto simp: eq frame_simps intro!: exI [of _ qs])
  qed
next
  case (release s out p s')
  then obtain ps where ps: "free_list s ps" "set ps \<inter> out = {}" "set ps \<union> out = set ps0"
    and s: "irq_ok s" "free L_kmem s" "kend s = kend s0" by auto
  have "p \<in> set ps0" using release.hyps(2) ps(3) by blast
  then have "page_ok s p" using release.prems(3) s(3) by (auto simp: free_list_def page_ok_def)
  moreover have "p \<notin> set ps" using release.hyps(2) ps(2) by blast
  ultimately obtain m where m: "kfree p s = Ok () (s\<lparr>pmem := m, freelist := p\<rparr>)"
    "free_list (s\<lparr>pmem := m, freelist := p\<rparr>) (p # ps)"
    using kfree_ok [OF s(1,2) _ ps(1)] by blast
  then have "s' = s\<lparr>pmem := m, freelist := p\<rparr>" using release.hyps(3) by simp
  then show ?case
    using m(2) ps s release.hyps(2) by (auto simp: frame_simps intro!: exI [of _ "p # ps"])
next
  case (use s out m)
  then obtain ps where ps: "free_list s ps" "set ps \<inter> out = {}" "set ps \<union> out = set ps0"
    and s: "irq_ok s" "free L_kmem s" "kend s = kend s0" by auto
  have "page_ok s p" if "p \<in> out" for p
    using that ps(3) use.prems(3) s(3) by (auto simp: free_list_def page_ok_def)
  then have "free_list (s\<lparr>pmem := m\<rparr>) ps" using free_list_use [OF ps(1) _ ps(2) use.hyps(2)] by blast
  then show ?case using ps s by (auto simp: frame_simps)
qed

section \<open>Booting\<close>

text \<open>\<^verbatim>\<open>freerange\<close> over \<open>n\<close> whole pages puts all of them on the list, the last one first.\<close>

definition page_run :: "u64 \<Rightarrow> nat \<Rightarrow> u64 list" where
  "page_run p n = rev (map (\<lambda>i. p + of_nat i * PGSIZE) [0..<n])"

lemma freerange_loop_ok:
  assumes "irq_ok s" and "free L_kmem s" and "free_list s ps"
    and "unat p + 4096 * n \<le> unat e" and "unat e < unat p + 4096 * n + 4096" and "e \<le> PHYSTOP"
    and "p mod PGSIZE = 0" and "kend s \<le> p" and "p \<noteq> 0" and "\<forall>q \<in> set ps. q < p"
  shows "\<exists>m f. freerange_loop p e s = Ok () (s\<lparr>pmem := m, freelist := f\<rparr>) \<and>
     free_list (s\<lparr>pmem := m, freelist := f\<rparr>) (page_run p n @ ps)"
  using assms
proof (induction n arbitrary: p s ps)
  case 0
  have "unat e \<le> 0x88000000" using 0(6) by (simp add: PHYSTOP_val word_le_nat_alt)
  then have "unat (p + PGSIZE) = unat p + 4096"
    using 0(4) by (simp add: PGSIZE_def unat_word_ariths)
  then have "\<not> p + PGSIZE \<le> e" using 0(5) by (simp add: word_le_nat_alt)
  then have "freerange_loop p e s = Ok () s" by (simp add: freerange_loop.simps)
  then show ?case using 0(3) by (intro exI [of _ "pmem s"] exI [of _ "freelist s"]) (simp add: page_run_def)
next
  case (Suc n)
  have e: "unat e \<le> 0x88000000" using Suc.prems(6) by (simp add: PHYSTOP_val word_le_nat_alt)
  have step: "unat (p + PGSIZE) = unat p + 4096"
    using e Suc.prems(4) by (simp add: PGSIZE_def unat_word_ariths)
  have le: "p + PGSIZE \<le> e" using Suc.prems(4) step by (simp add: word_le_nat_alt)
  have lt: "p < p + PGSIZE" using step by (simp add: word_less_nat_alt)
  have p: "page_ok s p"
    using Suc.prems e step by (simp add: page_ok_def PHYSTOP_val word_less_nat_alt)
  have "p \<notin> set ps" using Suc.prems(10) by auto
  then obtain m where m: "kfree p s = Ok () (s\<lparr>pmem := m, freelist := p\<rparr>)"
    "free_list (s\<lparr>pmem := m, freelist := p\<rparr>) (p # ps)"
    using kfree_ok [OF Suc.prems(1,2) p Suc.prems(3)] by blast
  let ?s = "s\<lparr>pmem := m, freelist := p\<rparr>"
  have al: "(p + PGSIZE) mod PGSIZE = 0"
  proof -
    have "unat (p + PGSIZE) mod 4096 = 0" using page_unat [OF p] step by simp
    then show ?thesis by (simp add: PGSIZE_def word_unat_eq_iff unat_mod)
  qed
  have "\<exists>m f. freerange_loop (p + PGSIZE) e ?s = Ok () (?s\<lparr>pmem := m, freelist := f\<rparr>) \<and>
     free_list (?s\<lparr>pmem := m, freelist := f\<rparr>) (page_run (p + PGSIZE) n @ p # ps)"
  proof (rule Suc.IH)
    show "irq_ok ?s" "free L_kmem ?s" using Suc.prems(1,2) by (simp_all add: frame_simps)
    show "free_list ?s (p # ps)" by (rule m(2))
    show "kend ?s \<le> p + PGSIZE" using Suc.prems(8) lt by simp
    show "p + PGSIZE \<noteq> 0" using step by auto
    show "\<forall>q \<in> set (p # ps). q < p + PGSIZE" using Suc.prems(10) lt by auto
  qed (use Suc.prems(4-6) step al in simp_all)
  moreover have "freerange_loop p e s = freerange_loop (p + PGSIZE) e ?s"
    using le m(1) by (simp add: freerange_loop.simps [of p])
  moreover have "page_run p (Suc n) = page_run (p + PGSIZE) n @ [p]"
    by (simp add: page_run_def upt_conv_Cons map_Suc_upt [symmetric] comp_def algebra_simps del: upt_Suc)
  ultimately show ?case by auto
qed

section \<open>Properties\<close>

text \<open>C25: Whatever sequence of \<^verbatim>\<open>kalloc\<close>s and \<^verbatim>\<open>kfree\<close>s of handed-out pages is executed, and whatever the
  owners write to their pages, \<^verbatim>\<open>kalloc\<close> returns, never hands out a page that is in use, hands
  out only pages of the initial list, and returns 0 exactly when all of them are in use.\<close>

theorem kalloc_never_doubles:
  assumes "kmem_run s0 s out" and "irq_ok s0" and "free L_kmem s0" and "free_list s0 ps0"
  shows "\<exists>p s'. kalloc s = Ok p s' \<and> (p = 0 \<longleftrightarrow> out = set ps0) \<and>
     (p \<noteq> 0 \<longrightarrow> p \<notin> out \<and> p \<in> set ps0 \<and> (\<forall>a. in_page p a \<longrightarrow> pmem s' a = 5) \<and>
        (\<forall>a. \<not> in_page p a \<longrightarrow> pmem s' a = pmem s a))"
proof -
  obtain ps where s: "irq_ok s" "free L_kmem s" and ps: "free_list s ps" "set ps \<inter> out = {}"
    "set ps \<union> out = set ps0"
    using kmem_run_inv [OF assms] by blast
  show ?thesis
  proof (cases ps)
    case Nil
    then show ?thesis using kalloc_empty [OF s] ps by auto
  next
    case (Cons q qs)
    obtain m f where m: "kalloc s = Ok q (s\<lparr>pmem := m, freelist := f\<rparr>)" "page_ok s q"
      "m = (\<lambda>a. if in_page q a then 5 else pmem s a)"
      using kalloc_ok [OF s] ps(1) Cons by blast
    then show ?thesis using ps Cons by (auto simp: page_ok_def)
  qed
qed

text \<open>A machine with two free pages and a kernel that ends at \<^verbatim>\<open>0x87ffe000\<close>.\<close>

definition small_mem :: memst where
  "small_mem = slst.extend sl_state
     (memst.fields (\<lambda>_. 0) 0 0 0x87ffe000 0x80008000 0x80007000)"

lemma small_mem_ok: "irq_ok small_mem" "free l small_mem" "free_list small_mem []" "kend small_mem = 0x87ffe000"
  "pmem small_mem = (\<lambda>_. 0)" "freelist small_mem = 0"
  by (simp_all add: small_mem_def sl_state_def sem_state_def run_state_def irq_ok_def irq_defs
      free_def procst.defs semst.defs slst.defs memst.defs free_list_def)

lemma small_mem_booted:
  "\<exists>s. kinit small_mem = Ok () s \<and> irq_ok s \<and> free L_kmem s \<and> free_list s [0x87fff000, 0x87ffe000]"
proof -
  let ?s = "initlock L_kmem ''kmem'' small_mem"
  have i: "irq_ok ?s" "free L_kmem ?s" "free_list ?s []" "kend ?s = 0x87ffe000"
    using small_mem_ok by (simp_all add: frame_simps free_list_def) (simp_all add: initlock_def)
  have r: "PGROUNDUP 0x87ffe000 = 0x87ffe000"
    by (simp add: PGROUNDUP_def PGSIZE_def)
  have "\<exists>m f. freerange_loop 0x87ffe000 PHYSTOP ?s = Ok () (?s\<lparr>pmem := m, freelist := f\<rparr>) \<and>
     free_list (?s\<lparr>pmem := m, freelist := f\<rparr>) (page_run 0x87ffe000 2 @ [])"
    by (rule freerange_loop_ok) (simp_all add: i PHYSTOP_val PGSIZE_def)
  moreover have "page_run 0x87ffe000 2 = [0x87fff000, 0x87ffe000]"
    by (simp add: page_run_def PGSIZE_def numeral_2_eq_2)
  ultimately show ?thesis
    using i by (auto simp: kinit_def freerange_def r frame_simps Let_def)
qed

theorem kalloc_never_doubles_witness:
  "\<exists>(s :: memst) p s'. kinit small_mem = Ok () s \<and> kalloc s = Ok p s' \<and> p \<in> {0x87fff000, 0x87ffe000}"
proof -
  obtain s where s: "irq_ok s" "free L_kmem s" "free_list s [0x87fff000, 0x87ffe000]"
    and b: "kinit small_mem = Ok () s"
    using small_mem_booted by blast
  show ?thesis
    using kalloc_never_doubles [OF kmem_run.start s] b by auto
qed

lemma kinit_ok:
  assumes "irq_ok s" and "freelist s = 0" and "kend s \<noteq> 0" and "unat (PGROUNDUP (kend s)) + 4096 * n = unat PHYSTOP"
    and "kend s \<le> PHYSTOP"
  shows "\<exists>s'. kinit s = Ok () s' \<and> free_list s' (page_run (PGROUNDUP (kend s)) n) \<and> irq_ok s' \<and> free L_kmem s'"
proof -
  let ?s = "initlock L_kmem ''kmem'' s" and ?p = "PGROUNDUP (kend s)"
  have i: "irq_ok ?s" "free L_kmem ?s" "free_list ?s []" "kend ?s = kend s"
    using assms(1,2) by (simp_all add: frame_simps free_list_def) (simp_all add: initlock_def)
  have e: "unat (kend s) \<le> 0x88000000" using assms(5) by (simp add: PHYSTOP_val word_le_nat_alt)
  then have up: "unat ?p = (unat (kend s) + 4095) div 4096 * 4096" by (simp add: unat_PGROUNDUP)
  have "0 < unat (kend s)" using assms(3) by (simp add: unat_gt_0)
  moreover have "unat (kend s) \<le> unat ?p" unfolding up by (rule le_round_up)
  ultimately have p: "kend s \<le> ?p" "?p \<noteq> 0" by (auto simp: word_le_nat_alt)
  have "\<exists>m f. freerange_loop ?p PHYSTOP ?s = Ok () (?s\<lparr>pmem := m, freelist := f\<rparr>) \<and>
     free_list (?s\<lparr>pmem := m, freelist := f\<rparr>) (page_run ?p n @ [])"
    by (rule freerange_loop_ok) (use i p assms(4) PGROUNDUP_aligned in simp_all)
  then show ?thesis using i by (auto simp: kinit_def freerange_def Let_def frame_simps)
qed

text \<open>C30: Booting gives the allocator every whole page between the end of the kernel and the end of
  RAM, each once, the highest first.\<close>

theorem kinit_frees_all:
  assumes "irq_ok s" and "freelist s = 0" and "kend s \<noteq> 0" and "unat (PGROUNDUP (kend s)) + 4096 * n = unat PHYSTOP"
    and "kend s \<le> PHYSTOP"
  shows "\<exists>s'. kinit s = Ok () s' \<and> free_list s' (page_run (PGROUNDUP (kend s)) n)"
  using kinit_ok [OF assms] by blast

theorem kinit_frees_all_witness:
  "\<exists>s'. kinit small_mem = Ok () s' \<and> free_list s' (page_run (PGROUNDUP 0x87ffe000) 2)"
  using kinit_frees_all [of small_mem 2] small_mem_ok
  by (simp add: PGROUNDUP_def PGSIZE_def PHYSTOP_val)

end
