(* ===== verification/Vm.thy ===== *)
theory Vm
  imports Kalloc
begin

text \<open>
  Sv39 page tables, \<^verbatim>\<open>src/lab2/kernel/vm.c\<close>.  A page table is 512 64-bit entries in physical
  memory and a pointer to one is its address, 0 being null.  The buffers of the kernel side of
  \<^verbatim>\<open>copyin\<close>, \<^verbatim>\<open>copyout\<close> and \<^verbatim>\<open>copyinstr\<close> are byte functions of their own, passed and returned by value.
\<close>

section \<open>riscv.h\<close>

definition PTE_V :: u64 where "PTE_V = 1"
definition PTE_R :: u64 where "PTE_R = 2"
definition PTE_W :: u64 where "PTE_W = 4"
definition PTE_X :: u64 where "PTE_X = 8"
definition PTE_U :: u64 where "PTE_U = 16"
definition PA2PTE :: "u64 \<Rightarrow> u64" where "PA2PTE pa = push_bit 10 (drop_bit 12 pa)"
definition PTE2PA :: "u64 \<Rightarrow> u64" where "PTE2PA pte = push_bit 12 (drop_bit 10 pte)"
definition PTE_FLAGS :: "u64 \<Rightarrow> u64" where "PTE_FLAGS pte = pte AND 0x3FF"
definition PX :: "nat \<Rightarrow> u64 \<Rightarrow> u64" where "PX level va = drop_bit (12 + 9 * level) va AND 0x1FF"
definition MAXVA :: u64 where "MAXVA = push_bit 38 1"
definition UART0 :: u64 where "UART0 = 0x10000000"
definition VIRTIO0 :: u64 where "VIRTIO0 = 0x10001000"
definition PLIC :: u64 where "PLIC = 0x0c000000"
definition TRAPFRAME :: u64 where "TRAPFRAME = TRAMPOLINE - PGSIZE"

definition pte_at :: "u64 \<Rightarrow> nat \<Rightarrow> u64 \<Rightarrow> u64" where
  "pte_at pt level va = pt + 8 * PX level va"

definition zero_page :: "u64 \<Rightarrow> 'a memst_scheme \<Rightarrow> (unit, 'a memst_scheme) kr" where
  "zero_page a s = (if a = 0 then Fault ''memset: null pointer'' else Ok () (fill_page a 0 s))"

section \<open>Walking and mapping\<close>

text \<open>The loop of \<^verbatim>\<open>walk\<close> from a level down to 0.\<close>

primrec walk_loop :: "nat \<Rightarrow> u64 \<Rightarrow> u64 \<Rightarrow> bool \<Rightarrow> 'a memst_scheme \<Rightarrow> (u64, 'a memst_scheme) kr" where
  "walk_loop 0 pt va alloc s = Ok (pte_at pt 0 va) s"
| "walk_loop (Suc k) pt va alloc s =
     (let a = pte_at pt (Suc k) va; pte = rd64 a s in
      if pte AND PTE_V \<noteq> 0 then walk_loop k (PTE2PA pte) va alloc s
      else if \<not> alloc then Ok 0 s
      else
        kbind (kalloc s) (\<lambda>new s.
          if new = 0 then Ok 0 s
          else walk_loop k new va alloc (wr64 a (PA2PTE new OR PTE_V) (fill_page new 0 s))))"

definition walk :: "u64 \<Rightarrow> u64 \<Rightarrow> bool \<Rightarrow> 'a memst_scheme \<Rightarrow> (u64, 'a memst_scheme) kr" where
  "walk pt va alloc s =
     (if va \<ge> MAXVA then Panic ''walk'' else walk_loop 2 pt va alloc s)"

definition walkaddr :: "u64 \<Rightarrow> u64 \<Rightarrow> 'a memst_scheme \<Rightarrow> (u64, 'a memst_scheme) kr" where
  "walkaddr pt va s =
     (if va \<ge> MAXVA then Ok 0 s
      else
        kbind (walk pt va False s) (\<lambda>a s.
          if a = 0 then Ok 0 s
          else if rd64 a s AND PTE_V = 0 then Ok 0 s
          else if rd64 a s AND PTE_U = 0 then Ok 0 s
          else Ok (PTE2PA (rd64 a s)) s))"

text \<open>
  The loop of \<^verbatim>\<open>mappages\<close> ends even when \<open>lst\<close> lies below \<open>a\<close>, because \<^verbatim>\<open>walk\<close> panics at \<^verbatim>\<open>MAXVA\<close>.
\<close>

lemma walk_bound: "walk pt va al s = Ok r t \<Longrightarrow> unat va < 0x4000000000"
  by (auto simp: walk_def MAXVA_def word_le_nat_alt split: if_splits)

lemma va_step: "unat va < 0x4000001000 \<Longrightarrow> unat (va + PGSIZE) = unat va + 4096"
  by (simp add: PGSIZE_def unat_word_ariths)

function mappages_loop ::
  "u64 \<Rightarrow> u64 \<Rightarrow> u64 \<Rightarrow> u64 \<Rightarrow> u64 \<Rightarrow> 'a memst_scheme \<Rightarrow> (u32, 'a memst_scheme) kr" where
  "mappages_loop pt a lst pa perm s =
     kbind (walk pt a True s) (\<lambda>p s.
       if p = 0 then Ok (- 1) s
       else if rd64 p s AND PTE_V \<noteq> 0 then Panic ''mappages: remap''
       else
         (let s = wr64 p (PA2PTE pa OR perm OR PTE_V) s in
          if a = lst then Ok 0 s
          else mappages_loop pt (a + PGSIZE) lst (pa + PGSIZE) perm s))"
  by pat_completeness auto
termination
  by (relation "measure (\<lambda>(p, a, rest). 0x4000001000 - unat a)")
    (auto dest!: walk_bound simp: va_step)

declare mappages_loop.simps [simp del]

definition mappages ::
  "u64 \<Rightarrow> u64 \<Rightarrow> u64 \<Rightarrow> u64 \<Rightarrow> u64 \<Rightarrow> 'a memst_scheme \<Rightarrow> (u32, 'a memst_scheme) kr" where
  "mappages pt va n pa perm s =
     (if n = 0 then Panic ''mappages: size''
      else mappages_loop pt (PGROUNDDOWN va) (PGROUNDDOWN (va + n - 1)) pa perm s)"

definition kvmmap :: "u64 \<Rightarrow> u64 \<Rightarrow> u64 \<Rightarrow> u64 \<Rightarrow> u64 \<Rightarrow> 'a memst_scheme \<Rightarrow> (unit, 'a memst_scheme) kr" where
  "kvmmap kpgtbl va pa n perm s =
     kbind (mappages kpgtbl va n pa perm s) (\<lambda>r s. if r \<noteq> 0 then Panic ''kvmmap'' else Ok () s)"

definition proc_mapstacks :: "u64 \<Rightarrow> 'a memst_scheme \<Rightarrow> (unit, 'a memst_scheme) kr" where
  "proc_mapstacks kpgtbl s =
     kfor (\<lambda>p s. kbind (kalloc s) (\<lambda>pa s.
       if pa = 0 then Panic ''kalloc'' else kvmmap kpgtbl (KSTACK p) pa PGSIZE (PTE_R OR PTE_W) s)) [0..<NPROC] s"

definition kvmmake :: "'a memst_scheme \<Rightarrow> (u64, 'a memst_scheme) kr" where
  "kvmmake s =
     kbind (kalloc s) (\<lambda>kpgtbl s.
     kthen (zero_page kpgtbl s) (\<lambda>s.
     kthen (kvmmap kpgtbl UART0 UART0 PGSIZE (PTE_R OR PTE_W) s) (\<lambda>s.
     kthen (kvmmap kpgtbl VIRTIO0 VIRTIO0 PGSIZE (PTE_R OR PTE_W) s) (\<lambda>s.
     kthen (kvmmap kpgtbl PLIC PLIC 0x400000 (PTE_R OR PTE_W) s) (\<lambda>s.
     kthen (kvmmap kpgtbl KERNBASE KERNBASE (ketext s - KERNBASE) (PTE_R OR PTE_X) s) (\<lambda>s.
     kthen (kvmmap kpgtbl (ketext s) (ketext s) (PHYSTOP - ketext s) (PTE_R OR PTE_W) s) (\<lambda>s.
     kthen (kvmmap kpgtbl TRAMPOLINE (ktramp s) PGSIZE (PTE_R OR PTE_X) s) (\<lambda>s.
     kthen (proc_mapstacks kpgtbl s) (\<lambda>s. Ok kpgtbl s)))))))))"

definition kvminit :: "'a memst_scheme \<Rightarrow> (unit, 'a memst_scheme) kr" where
  "kvminit s = kbind (kvmmake s) (\<lambda>pt s. Ok () (s\<lparr>kernel_pagetable := pt\<rparr>))"

section \<open>User memory\<close>

function uvmunmap_loop :: "u64 \<Rightarrow> u64 \<Rightarrow> u64 \<Rightarrow> bool \<Rightarrow> 'a memst_scheme \<Rightarrow> (unit, 'a memst_scheme) kr" where
  "uvmunmap_loop pt a e do_free s =
     (if a < e then
        kbind (walk pt a False s) (\<lambda>p s.
          if p = 0 then Panic ''uvmunmap: walk''
          else if rd64 p s AND PTE_V = 0 then Panic ''uvmunmap: not mapped''
          else if PTE_FLAGS (rd64 p s) = PTE_V then Panic ''uvmunmap: not a leaf''
          else
            kthen (if do_free then kfree (PTE2PA (rd64 p s)) s else Ok () s) (\<lambda>s.
              uvmunmap_loop pt (a + PGSIZE) e do_free (wr64 p 0 s)))
      else Ok () s)"
  by pat_completeness auto
termination
  by (relation "measure (\<lambda>(p, a, rest). 0x4000001000 - unat a)")
    (auto dest!: walk_bound simp: va_step)

declare uvmunmap_loop.simps [simp del]

definition uvmunmap :: "u64 \<Rightarrow> u64 \<Rightarrow> u64 \<Rightarrow> bool \<Rightarrow> 'a memst_scheme \<Rightarrow> (unit, 'a memst_scheme) kr" where
  "uvmunmap pt va npages do_free s =
     (if va mod PGSIZE \<noteq> 0 then Panic ''uvmunmap: not aligned''
      else uvmunmap_loop pt va (va + npages * PGSIZE) do_free s)"

definition uvmcreate :: "'a memst_scheme \<Rightarrow> (u64, 'a memst_scheme) kr" where
  "uvmcreate s = kbind (kalloc s) (\<lambda>pt s. if pt = 0 then Ok 0 s else Ok pt (fill_page pt 0 s))"

text \<open>A kernel buffer copied to a physical address and back.\<close>

definition store_bytes :: "u64 \<Rightarrow> bytes \<Rightarrow> nat \<Rightarrow> 'a memst_scheme \<Rightarrow> 'a memst_scheme" where
  "store_bytes a src n s = s\<lparr>pmem := splice (pmem s) (unat a) n src\<rparr>"

definition load_bytes :: "u64 \<Rightarrow> 'a memst_scheme \<Rightarrow> bytes" where
  "load_bytes a s = (\<lambda>i. pmem s (unat a + i))"

definition uvmfirst :: "u64 \<Rightarrow> bytes \<Rightarrow> u32 \<Rightarrow> 'a memst_scheme \<Rightarrow> (unit, 'a memst_scheme) kr" where
  "uvmfirst pt src n s =
     (if unat n \<ge> 4096 then Panic ''uvmfirst: more than a page''
      else
        kbind (kalloc s) (\<lambda>mem s.
        kthen (zero_page mem s) (\<lambda>s.
        kbind (mappages pt 0 PGSIZE mem (PTE_W OR PTE_R OR PTE_X OR PTE_U) s) (\<lambda>_ s.
          Ok () (store_bytes mem src (unat n) s)))))"

definition uvmdealloc :: "u64 \<Rightarrow> u64 \<Rightarrow> u64 \<Rightarrow> 'a memst_scheme \<Rightarrow> (u64, 'a memst_scheme) kr" where
  "uvmdealloc pt oldsz newsz s =
     (if newsz \<ge> oldsz then Ok oldsz s
      else
        kthen (if PGROUNDUP newsz < PGROUNDUP oldsz
               then uvmunmap pt (PGROUNDUP newsz) (scast (ucast ((PGROUNDUP oldsz - PGROUNDUP newsz) div PGSIZE) :: u32)) True s
               else Ok () s) (\<lambda>s. Ok newsz s))"

lemma PGROUNDDOWN_le: "unat a < unat (PGROUNDDOWN a) + 4096"
  using div_mult_mod_eq [of "unat a" 4096] mod_less_divisor [of 4096 "unat a"]
  by (simp add: unat_PGROUNDDOWN)

lemma mappages_bound: "mappages pt a n pa perm s = Ok r t \<Longrightarrow> unat a < 0x4000001000"
  using PGROUNDDOWN_le [of a]
  by (auto simp: mappages_def mappages_loop.simps [of pt "PGROUNDDOWN a"] kbind_eq_Ok
      dest!: walk_bound split: if_splits)

function uvmalloc_loop :: "u64 \<Rightarrow> u64 \<Rightarrow> u64 \<Rightarrow> u64 \<Rightarrow> u64 \<Rightarrow> 'a memst_scheme \<Rightarrow> (u64, 'a memst_scheme) kr" where
  "uvmalloc_loop pt a oldsz newsz xperm s =
     (if a < newsz then
        kbind (kalloc s) (\<lambda>mem s.
          if mem = 0 then kbind (uvmdealloc pt a oldsz s) (\<lambda>_ s. Ok 0 s)
          else
            kbind (mappages pt a PGSIZE mem (PTE_R OR PTE_U OR xperm) (fill_page mem 0 s)) (\<lambda>r s.
              if r \<noteq> 0 then
                kthen (kfree mem s) (\<lambda>s. kbind (uvmdealloc pt a oldsz s) (\<lambda>_ s. Ok 0 s))
              else uvmalloc_loop pt (a + PGSIZE) oldsz newsz xperm s))
      else Ok newsz s)"
  by pat_completeness auto
termination
  by (relation "measure (\<lambda>(p, a, rest). 0x4000003000 - unat a)")
    (auto dest!: mappages_bound simp: va_step)

declare uvmalloc_loop.simps [simp del]

definition uvmalloc :: "u64 \<Rightarrow> u64 \<Rightarrow> u64 \<Rightarrow> u64 \<Rightarrow> 'a memst_scheme \<Rightarrow> (u64, 'a memst_scheme) kr" where
  "uvmalloc pt oldsz newsz xperm s =
     (if newsz < oldsz then Ok oldsz s
      else uvmalloc_loop pt (PGROUNDUP oldsz) (PGROUNDUP oldsz) newsz xperm s)"

text \<open>
  \<^verbatim>\<open>freewalk\<close> recurs into the tables below; the first argument bounds the depth, three levels for
  a Sv39 table, and exceeding it is running out of stack.
\<close>

primrec freewalk :: "nat \<Rightarrow> u64 \<Rightarrow> 'a memst_scheme \<Rightarrow> (unit, 'a memst_scheme) kr" where
  "freewalk 0 pt s = Fault ''freewalk: stack overflow''"
| "freewalk (Suc depth) pt s =
     kthen (kfor (\<lambda>i s.
         let a = pt + 8 * of_nat i; pte = rd64 a s in
         if pte AND PTE_V \<noteq> 0 \<and> pte AND (PTE_R OR PTE_W OR PTE_X) = 0 then
           kthen (freewalk depth (PTE2PA pte) s) (\<lambda>s. Ok () (wr64 a 0 s))
         else if pte AND PTE_V \<noteq> 0 then Panic ''freewalk: leaf''
         else Ok () s) [0..<512] s)
       (\<lambda>s. kfree pt s)"

definition uvmfree :: "u64 \<Rightarrow> u64 \<Rightarrow> 'a memst_scheme \<Rightarrow> (unit, 'a memst_scheme) kr" where
  "uvmfree pt n s =
     kthen (if n > 0 then uvmunmap pt 0 (PGROUNDUP n div PGSIZE) True s else Ok () s) (\<lambda>s.
       freewalk 3 pt s)"

function uvmcopy_loop :: "u64 \<Rightarrow> u64 \<Rightarrow> u64 \<Rightarrow> u64 \<Rightarrow> 'a memst_scheme \<Rightarrow> (u32, 'a memst_scheme) kr" where
  "uvmcopy_loop old new n i s =
     (if i < n then
        kbind (walk old i False s) (\<lambda>p s.
          if p = 0 then Panic ''uvmcopy: pte should exist''
          else if rd64 p s AND PTE_V = 0 then Panic ''uvmcopy: page not present''
          else
            (let pa = PTE2PA (rd64 p s); flags = PTE_FLAGS (rd64 p s) in
             kbind (kalloc s) (\<lambda>mem s.
               if mem = 0 then kthen (uvmunmap new 0 (i div PGSIZE) True s) (\<lambda>s. Ok (- 1) s)
               else
                 kbind (mappages new i PGSIZE mem flags
                     (s\<lparr>pmem := memmove (unat mem) (unat pa) 4096 (pmem s)\<rparr>)) (\<lambda>r s.
                   if r \<noteq> 0 then
                     kthen (kfree mem s) (\<lambda>s.
                     kthen (uvmunmap new 0 (i div PGSIZE) True s) (\<lambda>s. Ok (- 1) s))
                   else uvmcopy_loop old new n (i + PGSIZE) s))))
      else Ok 0 s)"
  by pat_completeness auto
termination
  by (relation "measure (\<lambda>(o', p, n, i, rest). 0x4000003000 - unat i)")
    (auto dest!: mappages_bound simp: va_step)

declare uvmcopy_loop.simps [simp del]

definition uvmcopy :: "u64 \<Rightarrow> u64 \<Rightarrow> u64 \<Rightarrow> 'a memst_scheme \<Rightarrow> (u32, 'a memst_scheme) kr" where
  "uvmcopy old new n s = uvmcopy_loop old new n 0 s"

definition uvmclear :: "u64 \<Rightarrow> u64 \<Rightarrow> 'a memst_scheme \<Rightarrow> (unit, 'a memst_scheme) kr" where
  "uvmclear pt va s =
     kbind (walk pt va False s) (\<lambda>p s.
       if p = 0 then Panic ''uvmclear'' else Ok () (wr64 p (rd64 p s AND NOT PTE_U) s))"

section \<open>Copying between user and kernel\<close>

text \<open>\<open>n\<close> bytes up to the end of the page of \<open>va\<close>, at most \<open>len\<close>.\<close>

definition page_part :: "u64 \<Rightarrow> u64 \<Rightarrow> u64" where
  "page_part va len =
     (let n = PGSIZE - (va - PGROUNDDOWN va) in if n > len then len else n)"

lemma page_part_bounds:
  assumes "len > 0"
  shows "0 < unat (page_part va len)" "unat (page_part va len) \<le> unat len"
proof -
  let ?o = "va - PGROUNDDOWN va"
  have le: "unat (PGROUNDDOWN va) \<le> unat va" by (simp add: unat_PGROUNDDOWN)
  then have "unat ?o = unat va - unat (PGROUNDDOWN va)" by (simp add: unat_sub word_le_nat_alt)
  then have o: "unat ?o < 4096" using PGROUNDDOWN_le [of va] le by linarith
  then have "unat (PGSIZE - ?o) = 4096 - unat ?o"
    by (subst unat_sub) (simp_all add: PGSIZE_def word_le_nat_alt)
  with o have n: "0 < unat (PGSIZE - ?o)" by simp
  show "0 < unat (page_part va len)" "unat (page_part va len) \<le> unat len"
    using n assms by (auto simp: page_part_def Let_def word_less_nat_alt not_less)
qed

lemma page_part_less: "len > 0 \<Longrightarrow> unat (len - page_part va len) < unat len"
  using page_part_bounds [of len va] by (simp add: unat_sub word_le_nat_alt)

function copyout :: "u64 \<Rightarrow> u64 \<Rightarrow> bytes \<Rightarrow> u64 \<Rightarrow> 'a memst_scheme \<Rightarrow> (u32, 'a memst_scheme) kr" where
  "copyout pt dstva src len s =
     (if len > 0 then
        (let va0 = PGROUNDDOWN dstva in
         kbind (walkaddr pt va0 s) (\<lambda>pa0 s.
           if pa0 = 0 then Ok (- 1) s
           else
             (let n = page_part dstva len;
                  s = store_bytes (pa0 + (dstva - va0)) src (unat n) s
              in copyout pt (va0 + PGSIZE) (\<lambda>i. src (unat n + i)) (len - n) s)))
      else Ok 0 s)"
  by pat_completeness auto
termination
  by (relation "measure (\<lambda>(p, d, src, len, s). unat len)") (auto simp: page_part_less)

declare copyout.simps [simp del]

text \<open>\<open>dst\<close> is the kernel buffer and \<open>d\<close> the offset in it.\<close>

function copyin_loop :: "u64 \<Rightarrow> bytes \<Rightarrow> nat \<Rightarrow> u64 \<Rightarrow> u64 \<Rightarrow> 'a memst_scheme \<Rightarrow> (u32 \<times> bytes, 'a memst_scheme) kr" where
  "copyin_loop pt dst d srcva len s =
     (if len > 0 then
        (let va0 = PGROUNDDOWN srcva in
         kbind (walkaddr pt va0 s) (\<lambda>pa0 s.
           if pa0 = 0 then Ok (- 1, dst) s
           else
             (let n = page_part srcva len
              in copyin_loop pt (splice dst d (unat n) (load_bytes (pa0 + (srcva - va0)) s)) (d + unat n)
                   (va0 + PGSIZE) (len - n) s)))
      else Ok (0, dst) s)"
  by pat_completeness auto
termination
  by (relation "measure (\<lambda>(p, b, d, va, len, s). unat len)") (auto simp: page_part_less)

declare copyin_loop.simps [simp del]

definition copyin :: "u64 \<Rightarrow> bytes \<Rightarrow> u64 \<Rightarrow> u64 \<Rightarrow> 'a memst_scheme \<Rightarrow> (u32 \<times> bytes, 'a memst_scheme) kr" where
  "copyin pt dst srcva len s = copyin_loop pt dst 0 srcva len s"

text \<open>The inner loop of \<^verbatim>\<open>copyinstr\<close>: whether it met the NUL, and the buffer.\<close>

primrec instr_page :: "nat \<Rightarrow> nat \<Rightarrow> bytes \<Rightarrow> nat \<Rightarrow> bytes \<Rightarrow> bool \<times> bytes" where
  "instr_page 0 p m d dst = (False, dst)"
| "instr_page (Suc n) p m d dst =
     (if m p = 0 then (True, dst(d := 0)) else instr_page n (p + 1) m (d + 1) (dst(d := m p)))"

function copyinstr_loop :: "u64 \<Rightarrow> bytes \<Rightarrow> nat \<Rightarrow> u64 \<Rightarrow> u64 \<Rightarrow> 'a memst_scheme \<Rightarrow> (u32 \<times> bytes, 'a memst_scheme) kr" where
  "copyinstr_loop pt dst d srcva len s =
     (if len > 0 then
        (let va0 = PGROUNDDOWN srcva in
         kbind (walkaddr pt va0 s) (\<lambda>pa0 s.
           if pa0 = 0 then Ok (- 1, dst) s
           else
             (let n = page_part srcva len in
              case instr_page (unat n) (unat (pa0 + (srcva - va0))) (pmem s) d dst of
                (got_null, dst) \<Rightarrow>
                  if got_null then Ok (0, dst) s
                  else copyinstr_loop pt dst (d + unat n) (va0 + PGSIZE) (len - n) s)))
      else Ok (- 1, dst) s)"
  by pat_completeness auto
termination
  by (relation "measure (\<lambda>(p, b, d, va, len, s). unat len)") (auto simp: page_part_less)

declare copyinstr_loop.simps [simp del]

definition copyinstr :: "u64 \<Rightarrow> bytes \<Rightarrow> u64 \<Rightarrow> u64 \<Rightarrow> 'a memst_scheme \<Rightarrow> (u32 \<times> bytes, 'a memst_scheme) kr" where
  "copyinstr pt dst srcva len s = copyinstr_loop pt dst 0 srcva len s"

end
