(* ===== verification/Bio.thy ===== *)
theory Bio
  imports Vm
begin

text \<open>
  The buffer cache, \<^verbatim>\<open>src/lab2/kernel/bio.c\<close>.  A pointer to a buffer is \<open>Head\<close>, the list's sentinel,
  or \<open>Buf i\<close>, the \<open>i\<close>-th element of the array; \<open>bnext\<close> and \<open>bprev\<close> are the link fields of all of
  them.  A buffer's sleep lock is \<open>SL_buf i\<close>.  The disk is a function from device and block
  number to contents, and \<^verbatim>\<open>virtio_disk_rw\<close>, which hands the request to the device and sleeps
  until it is done, is the transfer it achieves; \<open>disk_done\<close> is the list of the writes done so far.  The walks along the list are bounded by
  fuel, one step per buffer; running out of it is \<open>Fault\<close>.
\<close>

section \<open>State\<close>

definition BSIZE :: nat where "BSIZE = 1024"
definition MAXOPBLOCKS :: nat where "MAXOPBLOCKS = 10"
definition NBUF :: nat where "NBUF = MAXOPBLOCKS * 3"

record buf =
  b_valid :: bool
  b_dev :: u32
  b_blockno :: u32
  b_refcnt :: u32
  b_data :: bytes

datatype bufptr = Head | Buf nat

record bufst = memst +
  bufs :: "nat \<Rightarrow> buf"
  bnext :: "bufptr \<Rightarrow> bufptr"
  bprev :: "bufptr \<Rightarrow> bufptr"
  disk :: "u32 \<Rightarrow> u32 \<Rightarrow> bytes"
  disk_done :: "(u32 \<times> u32 \<times> bytes) list"

lemma bufs_frame [frame_simps]:
  "irq_ok (s\<lparr>bufs := x\<rparr>) \<longleftrightarrow> irq_ok s" "free l (s\<lparr>bufs := x\<rparr>) \<longleftrightarrow> free l s"
  "holding l (s\<lparr>bufs := x\<rparr>) \<longleftrightarrow> holding l s" "mycpu (s\<lparr>bufs := x\<rparr>) = mycpu s"
  "(grab l s)\<lparr>bufs := x\<rparr> = grab l (s\<lparr>bufs := x\<rparr>)" "bufs (grab l s) = bufs s"
  "bufs (kputs m s) = bufs s"
  by (simp_all add: irq_ok_def free_def holding_def grab_def kputs_def Let_def irq_defs)

lemma bnext_frame [frame_simps]:
  "irq_ok (s\<lparr>bnext := x\<rparr>) \<longleftrightarrow> irq_ok s" "free l (s\<lparr>bnext := x\<rparr>) \<longleftrightarrow> free l s"
  "holding l (s\<lparr>bnext := x\<rparr>) \<longleftrightarrow> holding l s" "mycpu (s\<lparr>bnext := x\<rparr>) = mycpu s"
  "(grab l s)\<lparr>bnext := x\<rparr> = grab l (s\<lparr>bnext := x\<rparr>)" "bnext (grab l s) = bnext s"
  "bnext (kputs m s) = bnext s"
  by (simp_all add: irq_ok_def free_def holding_def grab_def kputs_def Let_def irq_defs)

lemma bprev_frame [frame_simps]:
  "irq_ok (s\<lparr>bprev := x\<rparr>) \<longleftrightarrow> irq_ok s" "free l (s\<lparr>bprev := x\<rparr>) \<longleftrightarrow> free l s"
  "holding l (s\<lparr>bprev := x\<rparr>) \<longleftrightarrow> holding l s" "mycpu (s\<lparr>bprev := x\<rparr>) = mycpu s"
  "(grab l s)\<lparr>bprev := x\<rparr> = grab l (s\<lparr>bprev := x\<rparr>)" "bprev (grab l s) = bprev s"
  "bprev (kputs m s) = bprev s"
  by (simp_all add: irq_ok_def free_def holding_def grab_def kputs_def Let_def irq_defs)

lemma disk_frame [frame_simps]:
  "irq_ok (s\<lparr>disk := x\<rparr>) \<longleftrightarrow> irq_ok s" "free l (s\<lparr>disk := x\<rparr>) \<longleftrightarrow> free l s"
  "holding l (s\<lparr>disk := x\<rparr>) \<longleftrightarrow> holding l s" "mycpu (s\<lparr>disk := x\<rparr>) = mycpu s"
  "(grab l s)\<lparr>disk := x\<rparr> = grab l (s\<lparr>disk := x\<rparr>)" "disk (grab l s) = disk s"
  "disk (kputs m s) = disk s"
  by (simp_all add: irq_ok_def free_def holding_def grab_def kputs_def Let_def irq_defs)

lemma disk_done_frame [frame_simps]:
  "irq_ok (s\<lparr>disk_done := x\<rparr>) \<longleftrightarrow> irq_ok s" "free l (s\<lparr>disk_done := x\<rparr>) \<longleftrightarrow> free l s"
  "holding l (s\<lparr>disk_done := x\<rparr>) \<longleftrightarrow> holding l s" "mycpu (s\<lparr>disk_done := x\<rparr>) = mycpu s"
  "(grab l s)\<lparr>disk_done := x\<rparr> = grab l (s\<lparr>disk_done := x\<rparr>)" "disk_done (grab l s) = disk_done s"
  "disk_done (kputs m s) = disk_done s"
  by (simp_all add: irq_ok_def free_def holding_def grab_def kputs_def Let_def irq_defs)

definition upd_buf :: "nat \<Rightarrow> (buf \<Rightarrow> buf) \<Rightarrow> 'a bufst_scheme \<Rightarrow> 'a bufst_scheme" where
  "upd_buf i f s = s\<lparr>bufs := (bufs s)(i := f (bufs s i))\<rparr>"

definition set_next :: "bufptr \<Rightarrow> bufptr \<Rightarrow> 'a bufst_scheme \<Rightarrow> 'a bufst_scheme" where
  "set_next p q s = s\<lparr>bnext := (bnext s)(p := q)\<rparr>"

definition set_prev :: "bufptr \<Rightarrow> bufptr \<Rightarrow> 'a bufst_scheme \<Rightarrow> 'a bufst_scheme" where
  "set_prev p q s = s\<lparr>bprev := (bprev s)(p := q)\<rparr>"

text \<open>The transfer of a block from or to the disk.\<close>

definition disk_put :: "u32 \<times> u32 \<times> bytes \<Rightarrow> (u32 \<Rightarrow> u32 \<Rightarrow> bytes) \<Rightarrow> u32 \<Rightarrow> u32 \<Rightarrow> bytes" where
  "disk_put w D = (case w of (dev, blockno, d) \<Rightarrow> D(dev := (D dev)(blockno := splice (D dev blockno) 0 BSIZE d)))"

definition virtio_disk_rw :: "nat \<Rightarrow> bool \<Rightarrow> 'a bufst_scheme \<Rightarrow> 'a bufst_scheme" where
  "virtio_disk_rw i write s =
     (let b = bufs s i; w = (b_dev b, b_blockno b, b_data b) in
      if write then s\<lparr>disk := disk_put w (disk s), disk_done := disk_done s @ [w]\<rparr>
      else upd_buf i (\<lambda>b. b\<lparr>b_data := splice (b_data b) 0 BSIZE (disk s (b_dev b) (b_blockno b))\<rparr>) s)"

section \<open>bio.c\<close>

text \<open>Insertion of \<open>b\<close> right after the sentinel, in \<^verbatim>\<open>binit\<close> and \<^verbatim>\<open>brelse\<close>.\<close>

definition insert_head :: "bufptr \<Rightarrow> 'a bufst_scheme \<Rightarrow> 'a bufst_scheme" where
  "insert_head b s =
     (let s = set_next b (bnext s Head) s;
          s = set_prev b Head s;
          s = set_prev (bnext s Head) b s
      in set_next Head b s)"

definition binit :: "'a bufst_scheme \<Rightarrow> 'a bufst_scheme" where
  "binit s =
     (let s = initlock L_bcache ''bcache'' s;
          s = set_prev Head Head s;
          s = set_next Head Head s
      in fold (\<lambda>i s.
           let s = set_next (Buf i) (bnext s Head) s;
               s = set_prev (Buf i) Head s;
               s = initsleeplock (SL_buf i) ''buffer'' s;
               s = set_prev (bnext s Head) (Buf i) s
           in set_next Head (Buf i) s) [0..<NBUF] s)"

text \<open>The first buffer from \<open>p\<close> on, along \<open>link\<close>, that satisfies a test.\<close>

datatype found = Found nat | Missing | Lost

primrec find_buf :: "nat \<Rightarrow> (bufptr \<Rightarrow> bufptr) \<Rightarrow> (nat \<Rightarrow> bool) \<Rightarrow> bufptr \<Rightarrow> found" where
  "find_buf 0 link P p = (case p of Head \<Rightarrow> Missing | Buf i \<Rightarrow> Lost)"
| "find_buf (Suc fuel) link P p =
     (case p of Head \<Rightarrow> Missing | Buf i \<Rightarrow> if P i then Found i else find_buf fuel link P (link p))"

definition bget :: "u32 \<Rightarrow> u32 \<Rightarrow> 'a bufst_scheme \<Rightarrow> (nat, 'a bufst_scheme) kr" where
  "bget dev blockno s =
     kthen (acquire L_bcache s) (\<lambda>s.
       case find_buf NBUF (bnext s) (\<lambda>i. b_dev (bufs s i) = dev \<and> b_blockno (bufs s i) = blockno) (bnext s Head) of
         Lost \<Rightarrow> Fault ''bcache: broken list''
       | Found i \<Rightarrow>
           (let s = upd_buf i (\<lambda>b. b\<lparr>b_refcnt := b_refcnt b + 1\<rparr>) s in
            kthen (release L_bcache s) (\<lambda>s. kthen (acquiresleep (SL_buf i) s) (\<lambda>s. Ok i s)))
       | Missing \<Rightarrow>
           (case find_buf NBUF (bprev s) (\<lambda>i. b_refcnt (bufs s i) = 0) (bprev s Head) of
              Lost \<Rightarrow> Fault ''bcache: broken list''
            | Missing \<Rightarrow> Panic ''bget: no buffers''
            | Found i \<Rightarrow>
                (let s = upd_buf i (\<lambda>b. b\<lparr>b_dev := dev, b_blockno := blockno, b_valid := False, b_refcnt := 1\<rparr>) s in
                 kthen (release L_bcache s) (\<lambda>s. kthen (acquiresleep (SL_buf i) s) (\<lambda>s. Ok i s)))))"

definition bread :: "u32 \<Rightarrow> u32 \<Rightarrow> 'a bufst_scheme \<Rightarrow> (nat, 'a bufst_scheme) kr" where
  "bread dev blockno s =
     kbind (bget dev blockno s) (\<lambda>i s.
       if \<not> b_valid (bufs s i)
       then Ok i (upd_buf i (\<lambda>b. b\<lparr>b_valid := True\<rparr>) (virtio_disk_rw i False s))
       else Ok i s)"

definition bwrite :: "nat \<Rightarrow> 'a bufst_scheme \<Rightarrow> (unit, 'a bufst_scheme) kr" where
  "bwrite i s =
     kbind (holdingsleep (SL_buf i) s) (\<lambda>h s.
       if \<not> h then Panic ''bwrite'' else Ok () (virtio_disk_rw i True s))"

definition brelse :: "nat \<Rightarrow> 'a bufst_scheme \<Rightarrow> (unit, 'a bufst_scheme) kr" where
  "brelse i s =
     kbind (holdingsleep (SL_buf i) s) (\<lambda>h s.
       if \<not> h then Panic ''brelse''
       else
         kthen (releasesleep (SL_buf i) s) (\<lambda>s.
         kthen (acquire L_bcache s) (\<lambda>s.
           let s = upd_buf i (\<lambda>b. b\<lparr>b_refcnt := b_refcnt b - 1\<rparr>) s;
               s = (if b_refcnt (bufs s i) = 0 then
                      (let s = set_prev (bnext s (Buf i)) (bprev s (Buf i)) s;
                           s = set_next (bprev s (Buf i)) (bnext s (Buf i)) s
                       in insert_head (Buf i) s)
                    else s)
           in release L_bcache s)))"

definition bpin :: "nat \<Rightarrow> 'a bufst_scheme \<Rightarrow> (unit, 'a bufst_scheme) kr" where
  "bpin i s =
     kthen (acquire L_bcache s) (\<lambda>s.
       release L_bcache (upd_buf i (\<lambda>b. b\<lparr>b_refcnt := b_refcnt b + 1\<rparr>) s))"

definition bunpin :: "nat \<Rightarrow> 'a bufst_scheme \<Rightarrow> (unit, 'a bufst_scheme) kr" where
  "bunpin i s =
     kthen (acquire L_bcache s) (\<lambda>s.
       release L_bcache (upd_buf i (\<lambda>b. b\<lparr>b_refcnt := b_refcnt b - 1\<rparr>) s))"

end
