(* ===== verification/Log.thy ===== *)
theory Log
  imports Bio
begin

text \<open>
  The file system's redo log, \<^verbatim>\<open>src/lab2/kernel/log.c\<close>.  The header block holds the number of
  logged blocks, a 32-bit integer at offset 0, and their home block numbers from offset 4 on.
  The counters are C \<^verbatim>\<open>int\<close>s, read as integers; the index \<open>LOGSIZE\<close> of \<^verbatim>\<open>block\<close> and any
  above is outside the array.  \<^verbatim>\<open>begin_op\<close> is cut at \<^verbatim>\<open>sleep\<close> like the other waiting loops.
\<close>

section \<open>State\<close>

definition LOGSIZE :: nat where "LOGSIZE = MAXOPBLOCKS * 3"

record log_t =
  log_start :: u32
  log_size :: int
  outstanding :: int
  committing :: bool
  log_dev :: u32
  lh_n :: int
  lh_block :: "nat \<Rightarrow> u32"

record logst = bufst +
  log :: log_t

lemma log_frame [frame_simps]:
  "irq_ok (s\<lparr>log := x\<rparr>) \<longleftrightarrow> irq_ok s" "free l (s\<lparr>log := x\<rparr>) \<longleftrightarrow> free l s"
  "holding l (s\<lparr>log := x\<rparr>) \<longleftrightarrow> holding l s" "mycpu (s\<lparr>log := x\<rparr>) = mycpu s"
  "(grab l s)\<lparr>log := x\<rparr> = grab l (s\<lparr>log := x\<rparr>)" "log (grab l s) = log s"
  "log (kputs m s) = log s"
  by (simp_all add: irq_ok_def free_def holding_def grab_def kputs_def Let_def irq_defs)

definition upd_log :: "(log_t \<Rightarrow> log_t) \<Rightarrow> 'a logst_scheme \<Rightarrow> 'a logst_scheme" where
  "upd_log f s = s\<lparr>log := f (log s)\<rparr>"

text \<open>\<^verbatim>\<open>log.lh.block[i]\<close>, inside the array.\<close>

definition logged :: "nat \<Rightarrow> 'a logst_scheme \<Rightarrow> (u32, 'a logst_scheme) kr" where
  "logged i s = (if i < LOGSIZE then Ok (lh_block (log s) i) s else Fault ''log.lh.block: index out of bounds'')"

section \<open>log.c\<close>

definition copy_block :: "nat \<Rightarrow> nat \<Rightarrow> 'a bufst_scheme \<Rightarrow> 'a bufst_scheme" where
  "copy_block dst src s =
     upd_buf dst (\<lambda>b. b\<lparr>b_data := splice (b_data b) 0 BSIZE (b_data (bufs s src))\<rparr>) s"

definition install_trans :: "bool \<Rightarrow> 'a logst_scheme \<Rightarrow> (unit, 'a logst_scheme) kr" where
  "install_trans recovering s =
     kfor (\<lambda>tail s.
       kbind (bread (log_dev (log s)) (log_start (log s) + of_nat tail + 1) s) (\<lambda>lbuf s.
       kbind (logged tail s) (\<lambda>home s.
       kbind (bread (log_dev (log s)) home s) (\<lambda>dbuf s.
       kthen (bwrite dbuf (copy_block dbuf lbuf s)) (\<lambda>s.
       kthen (if \<not> recovering then bunpin dbuf s else Ok () s) (\<lambda>s.
       kthen (brelse lbuf s) (\<lambda>s.
       brelse dbuf s))))))) [0..<nat (lh_n (log s))] s"

text \<open>The in-memory header read from a block, entry by entry.\<close>

definition head_entry :: "bytes \<Rightarrow> nat \<Rightarrow> u32" where
  "head_entry d i = ld32 d (4 + 4 * i)"

definition read_head :: "'a logst_scheme \<Rightarrow> (unit, 'a logst_scheme) kr" where
  "read_head s =
     kbind (bread (log_dev (log s)) (log_start (log s)) s) (\<lambda>buf s.
       let d = b_data (bufs s buf); s = upd_log (\<lambda>l. l\<lparr>lh_n := sint (ld32 d 0)\<rparr>) s in
       kthen (kfor (\<lambda>i s.
           if i < LOGSIZE then Ok () (upd_log (\<lambda>l. l\<lparr>lh_block := (lh_block l)(i := head_entry d i)\<rparr>) s)
           else Fault ''log.lh.block: index out of bounds'') [0..<nat (lh_n (log s))] s) (\<lambda>s.
         brelse buf s))"

definition put_header :: "int \<Rightarrow> (nat \<Rightarrow> u32) \<Rightarrow> nat \<Rightarrow> bytes \<Rightarrow> bytes" where
  "put_header n blocks k d = fold (\<lambda>i d. st32 d (4 + 4 * i) (blocks i)) [0..<k] (st32 d 0 (of_int n))"

definition write_head :: "'a logst_scheme \<Rightarrow> (unit, 'a logst_scheme) kr" where
  "write_head s =
     kbind (bread (log_dev (log s)) (log_start (log s)) s) (\<lambda>buf s.
       let n = lh_n (log s) in
       if nat n > LOGSIZE then Fault ''log.lh.block: index out of bounds''
       else
         kthen (bwrite buf (upd_buf buf (\<lambda>b. b\<lparr>b_data := put_header n (lh_block (log s)) (nat n) (b_data b)\<rparr>) s)) (\<lambda>s.
           brelse buf s))"

definition recover_from_log :: "'a logst_scheme \<Rightarrow> (unit, 'a logst_scheme) kr" where
  "recover_from_log s =
     kthen (read_head s) (\<lambda>s.
     kthen (install_trans True s) (\<lambda>s.
     write_head (upd_log (\<lambda>l. l\<lparr>lh_n := 0\<rparr>) s)))"

text \<open>The fields of the superblock that the log reads are arguments.\<close>

definition initlog :: "u32 \<Rightarrow> u32 \<Rightarrow> u32 \<Rightarrow> 'a logst_scheme \<Rightarrow> (unit, 'a logst_scheme) kr" where
  "initlog dev logstart nlog s =
     (if 4 + 4 * LOGSIZE \<ge> BSIZE then Panic ''initlog: too big logheader''
      else
        (let s = initlock L_log ''log'' s;
             s = upd_log (\<lambda>l. l\<lparr>log_start := logstart, log_size := sint nlog, log_dev := dev\<rparr>) s
         in recover_from_log s))"

definition begin_op_loop :: "'a logst_scheme \<Rightarrow> (unit, 'a logst_scheme) kr" where
  "begin_op_loop s =
     (if committing (log s) then
        kthen (sleep Ch_log L_log s) (\<lambda>s. Fault ''sleep returned without a switch'')
      else if lh_n (log s) + (outstanding (log s) + 1) * int MAXOPBLOCKS > int LOGSIZE then
        kthen (sleep Ch_log L_log s) (\<lambda>s. Fault ''sleep returned without a switch'')
      else release L_log (upd_log (\<lambda>l. l\<lparr>outstanding := outstanding l + 1\<rparr>) s))"

definition begin_op :: "'a logst_scheme \<Rightarrow> (unit, 'a logst_scheme) kr" where
  "begin_op s = kthen (acquire L_log s) (\<lambda>s. begin_op_loop s)"

definition begin_op_resume :: "nat \<Rightarrow> bool \<Rightarrow> 'a logst_scheme \<Rightarrow> (unit, 'a logst_scheme) kr" where
  "begin_op_resume p saved s = kthen (sleep_return p L_log saved s) (\<lambda>s. begin_op_loop s)"

definition write_log :: "'a logst_scheme \<Rightarrow> (unit, 'a logst_scheme) kr" where
  "write_log s =
     kfor (\<lambda>tail s.
       kbind (bread (log_dev (log s)) (log_start (log s) + of_nat tail + 1) s) (\<lambda>to s.
       kbind (logged tail s) (\<lambda>home s.
       kbind (bread (log_dev (log s)) home s) (\<lambda>from s.
       kthen (bwrite to (copy_block to from s)) (\<lambda>s.
       kthen (brelse from s) (\<lambda>s.
       brelse to s)))))) [0..<nat (lh_n (log s))] s"

definition commit :: "'a logst_scheme \<Rightarrow> (unit, 'a logst_scheme) kr" where
  "commit s =
     (if lh_n (log s) > 0 then
        kthen (write_log s) (\<lambda>s.
        kthen (write_head s) (\<lambda>s.
        kthen (install_trans False s) (\<lambda>s.
        write_head (upd_log (\<lambda>l. l\<lparr>lh_n := 0\<rparr>) s))))
      else Ok () s)"

definition end_op :: "'a logst_scheme \<Rightarrow> (unit, 'a logst_scheme) kr" where
  "end_op s =
     kthen (acquire L_log s) (\<lambda>s.
       let s = upd_log (\<lambda>l. l\<lparr>outstanding := outstanding l - 1\<rparr>) s in
       if committing (log s) then Panic ''log.committing''
       else
         (let do_commit = (outstanding (log s) = 0) in
          kthen (if do_commit then Ok () (upd_log (\<lambda>l. l\<lparr>committing := True\<rparr>) s) else wakeup Ch_log s) (\<lambda>s.
          kthen (release L_log s) (\<lambda>s.
          if do_commit then
            kthen (commit s) (\<lambda>s.
            kthen (acquire L_log s) (\<lambda>s.
            kthen (wakeup Ch_log (upd_log (\<lambda>l. l\<lparr>committing := False\<rparr>) s)) (\<lambda>s.
            release L_log s)))
          else Ok () s))))"

text \<open>The place of a block in the header, or the end.\<close>

definition log_index :: "u32 \<Rightarrow> log_t \<Rightarrow> nat" where
  "log_index blockno l =
     (case find (\<lambda>i. lh_block l i = blockno) [0..<nat (lh_n l)] of None \<Rightarrow> nat (lh_n l) | Some i \<Rightarrow> i)"

definition log_write :: "nat \<Rightarrow> 'a logst_scheme \<Rightarrow> (unit, 'a logst_scheme) kr" where
  "log_write b s =
     kthen (acquire L_log s) (\<lambda>s.
       let l = log s in
       if lh_n l \<ge> int LOGSIZE \<or> lh_n l \<ge> log_size l - 1 then Panic ''too big a transaction''
       else if outstanding l < 1 then Panic ''log_write outside of trans''
       else
         (let blockno = b_blockno (bufs s b); i = log_index blockno l;
              s = upd_log (\<lambda>l. l\<lparr>lh_block := (lh_block l)(i := blockno)\<rparr>) s in
          kthen (if i = nat (lh_n l)
                 then kthen (bpin b s) (\<lambda>s. Ok () (upd_log (\<lambda>l. l\<lparr>lh_n := lh_n l + 1\<rparr>) s))
                 else Ok () s) (\<lambda>s.
          release L_log s)))"

end
