(* ===== verification/Fs.thy ===== *)
theory Fs
  imports Log
begin

text \<open>
  The file system, \<^verbatim>\<open>src/lab2/kernel/fs.c\<close>: blocks, inodes, directories and paths.  On-disk
  structures are read and written in place in a block's bytes: an inode is 64 bytes, a
  directory entry 16.  A pointer into the inode table is its index.  The kernel-side buffers
  that \<^verbatim>\<open>readi\<close> and \<^verbatim>\<open>writei\<close> may be given instead of a user address (a directory entry on the
  stack, say) are a byte function \<open>kb\<close> that is passed along and returned; \<open>addr\<close> says where the
  bytes go.  A path is the list of its characters before the NUL, and a pointer into it a
  suffix of that list.
\<close>

section \<open>State\<close>

definition NINODE :: nat where "NINODE = 50"
definition ROOTINO :: u32 where "ROOTINO = 1"
definition ROOTDEV :: u32 where "ROOTDEV = 1"
definition FSMAGIC :: u32 where "FSMAGIC = 0x10203040"
definition NDIRECT :: nat where "NDIRECT = 12"
definition NINDIRECT :: nat where "NINDIRECT = BSIZE div 4"
definition MAXFILE :: nat where "MAXFILE = NDIRECT + NINDIRECT"
definition IPB :: nat where "IPB = BSIZE div 64"
definition BPB :: nat where "BPB = BSIZE * 8"
definition DIRSIZ :: nat where "DIRSIZ = 14"
definition T_DIR :: u16 where "T_DIR = 1"
definition T_FILE :: u16 where "T_FILE = 2"
definition T_DEVICE :: u16 where "T_DEVICE = 3"

record superblock =
  sb_magic :: u32
  sb_size :: u32
  sb_nblocks :: u32
  sb_ninodes :: u32
  sb_nlog :: u32
  sb_logstart :: u32
  sb_inodestart :: u32
  sb_bmapstart :: u32

record inode =
  i_dev :: u32
  i_inum :: u32
  i_ref :: int
  i_valid :: bool
  i_type :: u16
  i_major :: u16
  i_minor :: u16
  i_nlink :: u16
  i_size :: u32
  i_addrs :: "nat \<Rightarrow> u32"

record fsst = logst +
  sb :: superblock
  inodes :: "nat \<Rightarrow> inode"

lemma sb_frame [frame_simps]:
  "irq_ok (s\<lparr>sb := x\<rparr>) \<longleftrightarrow> irq_ok s" "free l (s\<lparr>sb := x\<rparr>) \<longleftrightarrow> free l s"
  "holding l (s\<lparr>sb := x\<rparr>) \<longleftrightarrow> holding l s" "mycpu (s\<lparr>sb := x\<rparr>) = mycpu s"
  "(grab l s)\<lparr>sb := x\<rparr> = grab l (s\<lparr>sb := x\<rparr>)" "sb (grab l s) = sb s"
  "sb (kputs m s) = sb s"
  by (simp_all add: irq_ok_def free_def holding_def grab_def kputs_def Let_def irq_defs)

lemma inodes_frame [frame_simps]:
  "irq_ok (s\<lparr>inodes := x\<rparr>) \<longleftrightarrow> irq_ok s" "free l (s\<lparr>inodes := x\<rparr>) \<longleftrightarrow> free l s"
  "holding l (s\<lparr>inodes := x\<rparr>) \<longleftrightarrow> holding l s" "mycpu (s\<lparr>inodes := x\<rparr>) = mycpu s"
  "(grab l s)\<lparr>inodes := x\<rparr> = grab l (s\<lparr>inodes := x\<rparr>)" "inodes (grab l s) = inodes s"
  "inodes (kputs m s) = inodes s"
  by (simp_all add: irq_ok_def free_def holding_def grab_def kputs_def Let_def irq_defs)

definition upd_inode :: "nat \<Rightarrow> (inode \<Rightarrow> inode) \<Rightarrow> 'a fsst_scheme \<Rightarrow> 'a fsst_scheme" where
  "upd_inode i f s = s\<lparr>inodes := (inodes s)(i := f (inodes s i))\<rparr>"

definition IBLOCK :: "u32 \<Rightarrow> 'a fsst_scheme \<Rightarrow> u32" where
  "IBLOCK i s = i div of_nat IPB + sb_inodestart (sb s)"

definition BBLOCK :: "u32 \<Rightarrow> 'a fsst_scheme \<Rightarrow> u32" where
  "BBLOCK b s = b div of_nat BPB + sb_bmapstart (sb s)"

text \<open>A change to the contents of a locked buffer.\<close>

definition upd_data :: "nat \<Rightarrow> (bytes \<Rightarrow> bytes) \<Rightarrow> 'a bufst_scheme \<Rightarrow> 'a bufst_scheme" where
  "upd_data i f s = upd_buf i (\<lambda>b. b\<lparr>b_data := f (b_data b)\<rparr>) s"

section \<open>Superblock and blocks\<close>

definition readsb :: "u32 \<Rightarrow> 'a fsst_scheme \<Rightarrow> (unit, 'a fsst_scheme) kr" where
  "readsb dev s =
     kbind (bread dev 1 s) (\<lambda>bp s.
       let d = b_data (bufs s bp) in
       brelse bp (s\<lparr>sb := \<lparr>sb_magic = ld32 d 0, sb_size = ld32 d 4, sb_nblocks = ld32 d 8,
         sb_ninodes = ld32 d 12, sb_nlog = ld32 d 16, sb_logstart = ld32 d 20,
         sb_inodestart = ld32 d 24, sb_bmapstart = ld32 d 28\<rparr>\<rparr>))"

definition fsinit :: "u32 \<Rightarrow> 'a fsst_scheme \<Rightarrow> (unit, 'a fsst_scheme) kr" where
  "fsinit dev s =
     kthen (readsb dev s) (\<lambda>s.
       if sb_magic (sb s) \<noteq> FSMAGIC then Panic ''invalid file system''
       else initlog dev (sb_logstart (sb s)) (sb_nlog (sb s)) s)"

definition bzero :: "u32 \<Rightarrow> u32 \<Rightarrow> 'a fsst_scheme \<Rightarrow> (unit, 'a fsst_scheme) kr" where
  "bzero dev bno s =
     kbind (bread dev bno s) (\<lambda>bp s.
     kthen (log_write bp (upd_data bp (memset 0 0 BSIZE) s)) (\<lambda>s.
     brelse bp s))"

definition map_bit :: "nat \<Rightarrow> u8" where "map_bit bi = push_bit (bi mod 8) 1"

definition balloc :: "u32 \<Rightarrow> 'a fsst_scheme \<Rightarrow> (u32, 'a fsst_scheme) kr" where
  "balloc dev s =
     (let size = unat (sb_size (sb s)) in
      kbind (kscan (\<lambda>b s.
          kbind (bread dev (BBLOCK (of_nat b) s) s) (\<lambda>bp s.
            case find (\<lambda>bi. b_data (bufs s bp) (bi div 8) AND map_bit bi = 0) [0..<min BPB (size - b)] of
              Some bi \<Rightarrow>
                kthen (log_write bp (upd_data bp (\<lambda>d. d(bi div 8 := d (bi div 8) OR map_bit bi)) s)) (\<lambda>s.
                kthen (brelse bp s) (\<lambda>s.
                kthen (bzero dev (of_nat (b + bi)) s) (\<lambda>s. Ok (Some (of_nat (b + bi))) s)))
            | None \<Rightarrow> kthen (brelse bp s) (\<lambda>s. Ok None s)))
          (map (\<lambda>k. k * BPB) [0..<(size + BPB - 1) div BPB]) s)
        (\<lambda>r s. case r of
           Some addr \<Rightarrow> Ok addr s
         | None \<Rightarrow> kthen (printf (Some (''balloc: out of blocks'' @ [newline])) [] s) (\<lambda>s. Ok 0 s)))"

definition bfree :: "u32 \<Rightarrow> u32 \<Rightarrow> 'a fsst_scheme \<Rightarrow> (unit, 'a fsst_scheme) kr" where
  "bfree dev b s =
     kbind (bread dev (BBLOCK b s) s) (\<lambda>bp s.
       let bi = unat b mod BPB; m = map_bit bi in
       if b_data (bufs s bp) (bi div 8) AND m = 0 then Panic ''freeing free block''
       else
         kthen (log_write bp (upd_data bp (\<lambda>d. d(bi div 8 := d (bi div 8) AND NOT m)) s)) (\<lambda>s.
         brelse bp s))"

section \<open>Inodes\<close>

definition iinit :: "'a fsst_scheme \<Rightarrow> 'a fsst_scheme" where
  "iinit s = fold (\<lambda>i s. initsleeplock (SL_inode i) ''inode'' s) [0..<NINODE] (initlock L_itable ''itable'' s)"

definition iget :: "u32 \<Rightarrow> u32 \<Rightarrow> 'a fsst_scheme \<Rightarrow> (nat, 'a fsst_scheme) kr" where
  "iget dev inum s =
     kthen (acquire L_itable s) (\<lambda>s.
       case find (\<lambda>i. i_ref (inodes s i) > 0 \<and> i_dev (inodes s i) = dev \<and> i_inum (inodes s i) = inum) [0..<NINODE] of
         Some i \<Rightarrow>
           kthen (release L_itable (upd_inode i (\<lambda>p. p\<lparr>i_ref := i_ref p + 1\<rparr>) s)) (\<lambda>s. Ok i s)
       | None \<Rightarrow>
           (case find (\<lambda>i. i_ref (inodes s i) = 0) [0..<NINODE] of
              None \<Rightarrow> Panic ''iget: no inodes''
            | Some i \<Rightarrow>
                kthen (release L_itable
                    (upd_inode i (\<lambda>p. p\<lparr>i_dev := dev, i_inum := inum, i_ref := 1, i_valid := False\<rparr>) s))
                  (\<lambda>s. Ok i s)))"

definition idup :: "nat \<Rightarrow> 'a fsst_scheme \<Rightarrow> (nat, 'a fsst_scheme) kr" where
  "idup ip s =
     kthen (acquire L_itable s) (\<lambda>s.
     kthen (release L_itable (upd_inode ip (\<lambda>p. p\<lparr>i_ref := i_ref p + 1\<rparr>) s)) (\<lambda>s. Ok ip s))"

text \<open>The offset of an inode in its block.\<close>

definition dinode_off :: "u32 \<Rightarrow> nat" where "dinode_off inum = unat inum mod IPB * 64"

definition ialloc :: "u32 \<Rightarrow> u16 \<Rightarrow> 'a fsst_scheme \<Rightarrow> (nat option, 'a fsst_scheme) kr" where
  "ialloc dev type s =
     kbind (kscan (\<lambda>inum s.
         kbind (bread dev (IBLOCK (of_nat inum) s) s) (\<lambda>bp s.
           let k = dinode_off (of_nat inum) in
           if ld16 (b_data (bufs s bp)) k = 0 then
             kthen (log_write bp (upd_data bp (\<lambda>d. st16 (memset k 0 64 d) k type) s)) (\<lambda>s.
             kthen (brelse bp s) (\<lambda>s.
             kbind (iget dev (of_nat inum) s) (\<lambda>ip s. Ok (Some ip) s)))
           else kthen (brelse bp s) (\<lambda>s. Ok None s)))
         [1..<unat (sb_ninodes (sb s))] s)
       (\<lambda>r s. case r of
          Some ip \<Rightarrow> Ok (Some ip) s
        | None \<Rightarrow> kthen (printf (Some (''ialloc: no inodes'' @ [newline])) [] s) (\<lambda>s. Ok None s))"

definition put_dinode :: "inode \<Rightarrow> nat \<Rightarrow> bytes \<Rightarrow> bytes" where
  "put_dinode p k d =
     (let d = st16 d k (i_type p);
          d = st16 d (k + 2) (i_major p);
          d = st16 d (k + 4) (i_minor p);
          d = st16 d (k + 6) (i_nlink p);
          d = st32 d (k + 8) (i_size p)
      in fold (\<lambda>i d. st32 d (k + 12 + 4 * i) (i_addrs p i)) [0..<NDIRECT + 1] d)"

definition get_dinode :: "bytes \<Rightarrow> nat \<Rightarrow> inode \<Rightarrow> inode" where
  "get_dinode d k p = p\<lparr>i_type := ld16 d k, i_major := ld16 d (k + 2), i_minor := ld16 d (k + 4),
     i_nlink := ld16 d (k + 6), i_size := ld32 d (k + 8),
     i_addrs := (\<lambda>i. if i < NDIRECT + 1 then ld32 d (k + 12 + 4 * i) else i_addrs p i)\<rparr>"

definition iupdate :: "nat \<Rightarrow> 'a fsst_scheme \<Rightarrow> (unit, 'a fsst_scheme) kr" where
  "iupdate ip s =
     kbind (bread (i_dev (inodes s ip)) (IBLOCK (i_inum (inodes s ip)) s) s) (\<lambda>bp s.
     kthen (log_write bp (upd_data bp (put_dinode (inodes s ip) (dinode_off (i_inum (inodes s ip)))) s)) (\<lambda>s.
     brelse bp s))"

definition ilock :: "nat \<Rightarrow> 'a fsst_scheme \<Rightarrow> (unit, 'a fsst_scheme) kr" where
  "ilock ip s =
     (if i_ref (inodes s ip) < 1 then Panic ''ilock''
      else
        kthen (acquiresleep (SL_inode ip) s) (\<lambda>s.
          if \<not> i_valid (inodes s ip) then
            kbind (bread (i_dev (inodes s ip)) (IBLOCK (i_inum (inodes s ip)) s) s) (\<lambda>bp s.
              let s = upd_inode ip (get_dinode (b_data (bufs s bp)) (dinode_off (i_inum (inodes s ip)))) s in
              kthen (brelse bp s) (\<lambda>s.
                let s = upd_inode ip (\<lambda>p. p\<lparr>i_valid := True\<rparr>) s in
                if i_type (inodes s ip) = 0 then Panic ''ilock: no type'' else Ok () s))
          else Ok () s))"

definition iunlock :: "nat \<Rightarrow> 'a fsst_scheme \<Rightarrow> (unit, 'a fsst_scheme) kr" where
  "iunlock ip s =
     kbind (holdingsleep (SL_inode ip) s) (\<lambda>h s.
       if \<not> h \<or> i_ref (inodes s ip) < 1 then Panic ''iunlock'' else releasesleep (SL_inode ip) s)"

definition bmap :: "nat \<Rightarrow> nat \<Rightarrow> 'a fsst_scheme \<Rightarrow> (u32, 'a fsst_scheme) kr" where
  "bmap ip bn s =
     (if bn < NDIRECT then
        (let addr = i_addrs (inodes s ip) bn in
         if addr = 0 then
           kbind (balloc (i_dev (inodes s ip)) s) (\<lambda>addr s.
             if addr = 0 then Ok 0 s
             else Ok addr (upd_inode ip (\<lambda>p. p\<lparr>i_addrs := (i_addrs p)(bn := addr)\<rparr>) s))
         else Ok addr s)
      else if bn - NDIRECT < NINDIRECT then
        (let bn = bn - NDIRECT; addr = i_addrs (inodes s ip) NDIRECT in
         kbind (if addr = 0 then
                  kbind (balloc (i_dev (inodes s ip)) s) (\<lambda>addr s.
                    if addr = 0 then Ok 0 s
                    else Ok addr (upd_inode ip (\<lambda>p. p\<lparr>i_addrs := (i_addrs p)(NDIRECT := addr)\<rparr>) s))
                else Ok addr s) (\<lambda>addr s.
           if addr = 0 then Ok 0 s
           else
             kbind (bread (i_dev (inodes s ip)) addr s) (\<lambda>bp s.
               let addr = ld32 (b_data (bufs s bp)) (4 * bn) in
               kbind (if addr = 0 then
                        kbind (balloc (i_dev (inodes s ip)) s) (\<lambda>addr s.
                          if addr \<noteq> 0 then
                            kthen (log_write bp (upd_data bp (\<lambda>d. st32 d (4 * bn) addr) s)) (\<lambda>s. Ok addr s)
                          else Ok addr s)
                      else Ok addr s) (\<lambda>addr s.
                 kthen (brelse bp s) (\<lambda>s. Ok addr s)))))
      else Panic ''bmap: out of range'')"

definition itrunc :: "nat \<Rightarrow> 'a fsst_scheme \<Rightarrow> (unit, 'a fsst_scheme) kr" where
  "itrunc ip s =
     kthen (kfor (\<lambda>i s.
         if i_addrs (inodes s ip) i \<noteq> 0 then
           kthen (bfree (i_dev (inodes s ip)) (i_addrs (inodes s ip) i) s) (\<lambda>s.
             Ok () (upd_inode ip (\<lambda>p. p\<lparr>i_addrs := (i_addrs p)(i := 0)\<rparr>) s))
         else Ok () s) [0..<NDIRECT] s) (\<lambda>s.
     kthen (if i_addrs (inodes s ip) NDIRECT \<noteq> 0 then
         kbind (bread (i_dev (inodes s ip)) (i_addrs (inodes s ip) NDIRECT) s) (\<lambda>bp s.
         kthen (kfor (\<lambda>j s.
             if ld32 (b_data (bufs s bp)) (4 * j) \<noteq> 0
             then bfree (i_dev (inodes s ip)) (ld32 (b_data (bufs s bp)) (4 * j)) s
             else Ok () s) [0..<NINDIRECT] s) (\<lambda>s.
         kthen (brelse bp s) (\<lambda>s.
         kthen (bfree (i_dev (inodes s ip)) (i_addrs (inodes s ip) NDIRECT) s) (\<lambda>s.
           Ok () (upd_inode ip (\<lambda>p. p\<lparr>i_addrs := (i_addrs p)(NDIRECT := 0)\<rparr>) s)))))
       else Ok () s) (\<lambda>s.
     iupdate ip (upd_inode ip (\<lambda>p. p\<lparr>i_size := 0\<rparr>) s)))"

definition iput :: "nat \<Rightarrow> 'a fsst_scheme \<Rightarrow> (unit, 'a fsst_scheme) kr" where
  "iput ip s =
     kthen (acquire L_itable s) (\<lambda>s.
     kthen (if i_ref (inodes s ip) = 1 \<and> i_valid (inodes s ip) \<and> i_nlink (inodes s ip) = 0 then
         kthen (acquiresleep (SL_inode ip) s) (\<lambda>s.
         kthen (release L_itable s) (\<lambda>s.
         kthen (itrunc ip s) (\<lambda>s.
         kthen (iupdate ip (upd_inode ip (\<lambda>p. p\<lparr>i_type := 0\<rparr>) s)) (\<lambda>s.
         kthen (releasesleep (SL_inode ip) (upd_inode ip (\<lambda>p. p\<lparr>i_valid := False\<rparr>) s)) (\<lambda>s.
         acquire L_itable s)))))
       else Ok () s) (\<lambda>s.
     release L_itable (upd_inode ip (\<lambda>p. p\<lparr>i_ref := i_ref p - 1\<rparr>) s)))"

definition iunlockput :: "nat \<Rightarrow> 'a fsst_scheme \<Rightarrow> (unit, 'a fsst_scheme) kr" where
  "iunlockput ip s = kthen (iunlock ip s) (\<lambda>s. iput ip s)"

section \<open>Inode content\<close>

text \<open>\<^verbatim>\<open>struct stat\<close>.\<close>

record stat =
  st_dev :: u32
  st_ino :: u32
  st_type :: u16
  st_nlink :: u16
  st_size :: u64

definition stati :: "nat \<Rightarrow> 'a fsst_scheme \<Rightarrow> stat" where
  "stati ip s = \<lparr>st_dev = i_dev (inodes s ip), st_ino = i_inum (inodes s ip),
     st_type = i_type (inodes s ip), st_nlink = i_nlink (inodes s ip), st_size = ucast (i_size (inodes s ip))\<rparr>"

text \<open>
  Where the bytes of a transfer are: at a user virtual address of the current process, at a
  physical (kernel) address, or at an offset of the caller's buffer.
\<close>

datatype addr = UserVA u64 | KernPA u64 | KBuf nat

primrec addr_add :: "addr \<Rightarrow> nat \<Rightarrow> addr" where
  "addr_add (UserVA a) m = UserVA (a + of_nat m)"
| "addr_add (KernPA a) m = KernPA (a + of_nat m)"
| "addr_add (KBuf k) m = KBuf (k + m)"

definition either_copyout :: "addr \<Rightarrow> bytes \<Rightarrow> nat \<Rightarrow> bytes \<Rightarrow> 'a memst_scheme \<Rightarrow> (u32 \<times> bytes, 'a memst_scheme) kr" where
  "either_copyout dst src len kb s =
     kbind (myproc s) (\<lambda>me s.
       case dst of
         UserVA a \<Rightarrow>
           (case me of
              None \<Rightarrow> Fault ''either_copyout: no process''
            | Some p \<Rightarrow> kbind (copyout (pagetable (procs s p)) a src (of_nat len) s) (\<lambda>r s. Ok (r, kb) s))
       | KernPA a \<Rightarrow> Ok (0, kb) (store_bytes a src len s)
       | KBuf k \<Rightarrow> Ok (0, splice kb k len src) s)"

text \<open>\<open>dst\<close> is a kernel buffer and \<open>d\<close> an offset in it.\<close>

definition either_copyin :: "bytes \<Rightarrow> nat \<Rightarrow> addr \<Rightarrow> nat \<Rightarrow> bytes \<Rightarrow> 'a memst_scheme \<Rightarrow> (u32 \<times> bytes, 'a memst_scheme) kr" where
  "either_copyin dst d src len kb s =
     kbind (myproc s) (\<lambda>me s.
       case src of
         UserVA a \<Rightarrow>
           (case me of
              None \<Rightarrow> Fault ''either_copyin: no process''
            | Some p \<Rightarrow> copyin_loop (pagetable (procs s p)) dst d a (of_nat len) s)
       | KernPA a \<Rightarrow> Ok (0, splice dst d len (load_bytes a s)) s
       | KBuf k \<Rightarrow> Ok (0, splice dst d len (\<lambda>i. kb (k + i))) s)"

text \<open>\<^verbatim>\<open>min(n - tot, BSIZE - off%BSIZE)\<close>\<close>

definition chunk :: "u32 \<Rightarrow> u32 \<Rightarrow> nat" where
  "chunk left off = min (unat left) (BSIZE - unat off mod BSIZE)"

lemma chunk_pos: "tot < n \<Longrightarrow> 0 < chunk (n - tot) off" for n tot off :: u32
proof -
  assume "tot < n"
  then have "0 < unat (n - tot)" by (simp add: unat_sub word_less_nat_alt word_le_nat_alt)
  then show ?thesis by (simp add: chunk_def BSIZE_def)
qed

lemma chunk_add:
  fixes n tot off :: u32
  assumes "tot < n"
  shows "unat (tot + of_nat (chunk (n - tot) off)) = unat tot + chunk (n - tot) off"
proof -
  have "unat (n - tot) = unat n - unat tot" using assms by (simp add: unat_sub word_less_nat_alt word_le_nat_alt)
  then have c: "unat tot + chunk (n - tot) off \<le> unat n"
    using assms by (simp add: chunk_def word_less_nat_alt)
  moreover have "unat n < 2 ^ 32" using unsigned_less [of n, where ?'a = nat] by simp
  ultimately show ?thesis by (simp add: unat_word_ariths unat_of_nat)
qed

lemma chunk_measure:
  "tot < n \<Longrightarrow> unat n - unat (tot + of_nat (chunk (n - tot) off)) < unat n - unat tot" for n tot off :: u32
  using chunk_pos [of tot n off] chunk_add [of tot n off] by (simp add: word_less_nat_alt)

function readi_loop ::
  "nat \<Rightarrow> addr \<Rightarrow> u32 \<Rightarrow> u32 \<Rightarrow> u32 \<Rightarrow> bytes \<Rightarrow> 'a fsst_scheme \<Rightarrow> (u32 \<times> bytes, 'a fsst_scheme) kr" where
  "readi_loop ip dst off n tot kb s =
     (if tot < n then
        kbind (bmap ip (unat off div BSIZE) s) (\<lambda>ad s.
          if ad = 0 then Ok (tot, kb) s
          else
            kbind (bread (i_dev (inodes s ip)) ad s) (\<lambda>bp s.
              let m = chunk (n - tot) off in
              kbind (either_copyout dst (\<lambda>i. b_data (bufs s bp) (unat off mod BSIZE + i)) m kb s) (\<lambda>(r, kb) s.
                if r = - 1 then kthen (brelse bp s) (\<lambda>s. Ok (- 1, kb) s)
                else
                  kthen (brelse bp s) (\<lambda>s.
                    readi_loop ip (addr_add dst m) (off + of_nat m) n (tot + of_nat m) kb s))))
      else Ok (tot, kb) s)"
  by pat_completeness auto
termination
  by (relation "measure (\<lambda>(ip, dst, off, n, tot, kb, s). unat n - unat tot)") (auto simp: chunk_measure)

declare readi_loop.simps [simp del]

definition readi ::
  "nat \<Rightarrow> addr \<Rightarrow> u32 \<Rightarrow> u32 \<Rightarrow> bytes \<Rightarrow> 'a fsst_scheme \<Rightarrow> (u32 \<times> bytes, 'a fsst_scheme) kr" where
  "readi ip dst off n kb s =
     (if off > i_size (inodes s ip) \<or> off + n < off then Ok (0, kb) s
      else
        (let n = (if off + n > i_size (inodes s ip) then i_size (inodes s ip) - off else n)
         in readi_loop ip dst off n 0 kb s))"

text \<open>The answer of \<open>writei_loop\<close> is the pair of \<^verbatim>\<open>tot\<close> and \<^verbatim>\<open>off\<close> when the loop ends.\<close>

function writei_loop ::
  "nat \<Rightarrow> addr \<Rightarrow> u32 \<Rightarrow> u32 \<Rightarrow> u32 \<Rightarrow> bytes \<Rightarrow> 'a fsst_scheme \<Rightarrow> (u32 \<times> u32, 'a fsst_scheme) kr" where
  "writei_loop ip src off n tot kb s =
     (if tot < n then
        kbind (bmap ip (unat off div BSIZE) s) (\<lambda>ad s.
          if ad = 0 then Ok (tot, off) s
          else
            kbind (bread (i_dev (inodes s ip)) ad s) (\<lambda>bp s.
              let m = chunk (n - tot) off in
              kbind (either_copyin (b_data (bufs s bp)) (unat off mod BSIZE) src m kb s) (\<lambda>(r, d) s.
                let s = upd_data bp (\<lambda>_. d) s in
                if r = - 1 then kthen (brelse bp s) (\<lambda>s. Ok (tot, off) s)
                else
                  kthen (log_write bp s) (\<lambda>s.
                  kthen (brelse bp s) (\<lambda>s.
                    writei_loop ip (addr_add src m) (off + of_nat m) n (tot + of_nat m) kb s)))))
      else Ok (tot, off) s)"
  by pat_completeness auto
termination
  by (relation "measure (\<lambda>(ip, dst, off, n, tot, kb, s). unat n - unat tot)") (auto simp: chunk_measure)

declare writei_loop.simps [simp del]

definition writei ::
  "nat \<Rightarrow> addr \<Rightarrow> u32 \<Rightarrow> u32 \<Rightarrow> bytes \<Rightarrow> 'a fsst_scheme \<Rightarrow> (u32, 'a fsst_scheme) kr" where
  "writei ip src off n kb s =
     (if off > i_size (inodes s ip) \<or> off + n < off then Ok (- 1) s
      else if unat (off + n) > MAXFILE * BSIZE then Ok (- 1) s
      else
        kbind (writei_loop ip src off n 0 kb s) (\<lambda>(tot, off) s.
          let s = (if off > i_size (inodes s ip) then upd_inode ip (\<lambda>p. p\<lparr>i_size := off\<rparr>) s else s) in
          kthen (iupdate ip s) (\<lambda>s. Ok tot s)))"

section \<open>Directories\<close>

text \<open>
  A directory entry in a buffer: the inode number at its start, the name from offset 2.
  A name that is compared with it or copied into it stands in the same memory, from \<open>NAME\<close>.
\<close>

definition NAME :: nat where "NAME = 100"

definition namecmp :: "nat \<Rightarrow> nat \<Rightarrow> bytes \<Rightarrow> int" where
  "namecmp s t m = strncmp DIRSIZ s t m"

definition with_name :: "bytes \<Rightarrow> bytes \<Rightarrow> bytes" where
  "with_name de name = splice de NAME DIRSIZ name"

lemma readi_16_off:
  "readi ip dst off 16 kb s = Ok (16, kb') s' \<Longrightarrow> unat (off + 16) = unat off + 16"
proof -
  assume "readi ip dst off 16 kb s = Ok (16, kb') s'"
  then have "\<not> off + 16 < off" by (auto simp: readi_def split: if_splits)
  then have le: "unat off \<le> unat (off + 16)" by (simp add: word_less_nat_alt)
  have "unat off < 2 ^ 32" using unsigned_less [of off, where ?'a = nat] by simp
  then have "unat (off + 16) = unat off + 16 \<or> unat (off + 16) + 2 ^ 32 = unat off + 16"
    by (auto simp: unat_word_ariths mod_if)
  with le show ?thesis by auto
qed

lemma u32_lt: "unat w < 8589934592" for w :: u32
  using unsigned_less [of w, where ?'a = nat] by simp

lemma readi_16_measure:
  "readi ip dst off 16 kb s = Ok (16, kb') s' \<Longrightarrow> 8589934592 - unat (off + 16) < 8589934592 - unat off"
  using readi_16_off [of ip dst off kb s kb' s'] u32_lt [of off] by linarith

function dirlookup_loop ::
  "nat \<Rightarrow> bytes \<Rightarrow> u32 \<Rightarrow> bytes \<Rightarrow> 'a fsst_scheme \<Rightarrow> ((nat \<times> u32) option, 'a fsst_scheme) kr" where
  "dirlookup_loop dp name off de s =
     (if off < i_size (inodes s dp) then
        kbind (readi dp (KBuf 0) off 16 de s) (\<lambda>(r, de) s.
          if r \<noteq> 16 then Panic ''dirlookup read''
          else if ld16 de 0 = 0 then dirlookup_loop dp name (off + 16) de s
          else if namecmp NAME 2 (with_name de name) = 0 then
            kbind (iget (i_dev (inodes s dp)) (ucast (ld16 de 0)) s) (\<lambda>ip s. Ok (Some (ip, off)) s)
          else dirlookup_loop dp name (off + 16) de s)
      else Ok None s)"
  by pat_completeness auto
termination
  by (relation "measure (\<lambda>(dp, name, off, de, s). 2 ^ 33 - unat off)")
    (auto dest: readi_16_measure)

declare dirlookup_loop.simps [simp del]

text \<open>The answer is the inode and the offset of its entry.\<close>

definition dirlookup :: "nat \<Rightarrow> bytes \<Rightarrow> 'a fsst_scheme \<Rightarrow> ((nat \<times> u32) option, 'a fsst_scheme) kr" where
  "dirlookup dp name s =
     (if i_type (inodes s dp) \<noteq> T_DIR then Panic ''dirlookup not DIR''
      else dirlookup_loop dp name 0 (\<lambda>_. 0) s)"

text \<open>
  \<^verbatim>\<open>dirlink\<close>'s search for an empty entry; the answer is the offset and the last entry read.
\<close>

function empty_entry :: "nat \<Rightarrow> u32 \<Rightarrow> bytes \<Rightarrow> 'a fsst_scheme \<Rightarrow> (u32 \<times> bytes, 'a fsst_scheme) kr" where
  "empty_entry dp off de s =
     (if off < i_size (inodes s dp) then
        kbind (readi dp (KBuf 0) off 16 de s) (\<lambda>(r, de) s.
          if r \<noteq> 16 then Panic ''dirlink read''
          else if ld16 de 0 = 0 then Ok (off, de) s
          else empty_entry dp (off + 16) de s)
      else Ok (off, de) s)"
  by pat_completeness auto
termination
  by (relation "measure (\<lambda>(dp, off, de, s). 2 ^ 33 - unat off)")
    (auto dest: readi_16_measure)

declare empty_entry.simps [simp del]

definition dirlink :: "nat \<Rightarrow> bytes \<Rightarrow> u32 \<Rightarrow> 'a fsst_scheme \<Rightarrow> (u32, 'a fsst_scheme) kr" where
  "dirlink dp name inum s =
     kbind (dirlookup dp name s) (\<lambda>r s.
       case r of
         Some (ip, _) \<Rightarrow> kthen (iput ip s) (\<lambda>s. Ok (- 1) s)
       | None \<Rightarrow>
           kbind (empty_entry dp 0 (\<lambda>_. 0) s) (\<lambda>(off, de) s.
             let de = strncpy DIRSIZ 2 NAME (with_name de name);
                 de = st16 de 0 (ucast inum)
             in kbind (writei dp (KBuf 0) off 16 de s) (\<lambda>r s.
                  if r \<noteq> 16 then Ok (- 1) s else Ok 0 s)))"

section \<open>Paths\<close>

definition slash :: u8 where "slash = 47"

text \<open>
  \<^verbatim>\<open>skipelem\<close>: the rest of the path, with no leading slash, and the buffer \<^verbatim>\<open>name\<close>, which is
  terminated by a NUL only if the element is shorter than it.
\<close>

definition skipelem :: "u8 list \<Rightarrow> bytes \<Rightarrow> (u8 list \<times> bytes) option" where
  "skipelem path name =
     (let path = dropWhile (\<lambda>c. c = slash) path in
      if path = [] then None
      else
        (let elem = takeWhile (\<lambda>c. c \<noteq> slash) path;
             path = dropWhile (\<lambda>c. c \<noteq> slash) path;
             len = length elem;
             name = (if len \<ge> DIRSIZ then splice name 0 DIRSIZ (\<lambda>i. elem ! i)
                     else (splice name 0 len (\<lambda>i. elem ! i))(len := 0))
         in Some (dropWhile (\<lambda>c. c = slash) path, name)))"

lemma length_dropWhile_Cons: "\<not> P x \<Longrightarrow> length (dropWhile P xs) < length (x # xs)"
  using length_dropWhile_le [of P xs] by simp

lemma skipelem_shorter: "skipelem path name = Some (rest, name') \<Longrightarrow> length rest < length path"
proof -
  assume a: "skipelem path name = Some (rest, name')"
  define p where "p = dropWhile (\<lambda>c. c = slash) path"
  have p: "p \<noteq> []" and r: "rest = dropWhile (\<lambda>c. c = slash) (dropWhile (\<lambda>c. c \<noteq> slash) p)"
    using a by (auto simp: skipelem_def p_def Let_def split: if_splits)
  obtain x xs where x: "p = x # xs" using p by (cases p) auto
  then have "x \<noteq> slash" using hd_dropWhile [of "\<lambda>c. c = slash" path] p by (simp add: p_def)
  then have "dropWhile (\<lambda>c. c \<noteq> slash) p = dropWhile (\<lambda>c. c \<noteq> slash) xs" using x by simp
  then have "length rest \<le> length (dropWhile (\<lambda>c. c \<noteq> slash) xs)"
    unfolding r by (simp only: length_dropWhile_le)
  also have "\<dots> \<le> length xs" by (rule length_dropWhile_le)
  also have "\<dots> < length p" by (simp add: x)
  also have "\<dots> \<le> length path" by (simp add: p_def length_dropWhile_le)
  finally show ?thesis .
qed

function namex_loop ::
  "nat \<Rightarrow> u8 list \<Rightarrow> bool \<Rightarrow> bytes \<Rightarrow> 'a fsst_scheme \<Rightarrow> (nat option \<times> bytes, 'a fsst_scheme) kr" where
  "namex_loop ip path nameiparent name s =
     (case skipelem path name of
        None \<Rightarrow> if nameiparent then kthen (iput ip s) (\<lambda>s. Ok (None, name) s) else Ok (Some ip, name) s
      | Some (path', name') \<Rightarrow>
          kthen (ilock ip s) (\<lambda>s.
            if i_type (inodes s ip) \<noteq> T_DIR then kthen (iunlockput ip s) (\<lambda>s. Ok (None, name') s)
            else if nameiparent \<and> path' = [] then kthen (iunlock ip s) (\<lambda>s. Ok (Some ip, name') s)
            else
              kbind (dirlookup ip name' s) (\<lambda>r s.
                case r of
                  None \<Rightarrow> kthen (iunlockput ip s) (\<lambda>s. Ok (None, name') s)
                | Some (next_ip, _) \<Rightarrow>
                    kthen (iunlockput ip s) (\<lambda>s. namex_loop next_ip path' nameiparent name' s))))"
  by pat_completeness auto
termination
  by (relation "measure (\<lambda>(ip, path, rest). length path)") (auto simp: skipelem_shorter)

declare namex_loop.simps [simp del]

definition namex :: "u8 list \<Rightarrow> bool \<Rightarrow> bytes \<Rightarrow> 'a fsst_scheme \<Rightarrow> (nat option \<times> bytes, 'a fsst_scheme) kr" where
  "namex path nameiparent name s =
     kbind (if path \<noteq> [] \<and> hd path = slash then iget ROOTDEV ROOTINO s
            else
              kbind (myproc s) (\<lambda>me s.
                case me of
                  None \<Rightarrow> Fault ''namex: no process''
                | Some p \<Rightarrow>
                    (case cwd (procs s p) of
                       None \<Rightarrow> Fault ''namex: no current directory''
                     | Some ip \<Rightarrow> idup ip s)))
       (\<lambda>ip s. namex_loop ip path nameiparent name s)"

definition namei :: "u8 list \<Rightarrow> 'a fsst_scheme \<Rightarrow> (nat option, 'a fsst_scheme) kr" where
  "namei path s = kbind (namex path False (\<lambda>_. 0) s) (\<lambda>(ip, _) s. Ok ip s)"

definition nameiparent :: "u8 list \<Rightarrow> bytes \<Rightarrow> 'a fsst_scheme \<Rightarrow> (nat option \<times> bytes, 'a fsst_scheme) kr" where
  "nameiparent path name s = namex path True name s"

end
