(* ===== verification/File.thy ===== *)
theory File
  imports Fs
begin

text \<open>
  Open files and pipes, \<^verbatim>\<open>src/lab2/kernel/file.c\<close> and \<^verbatim>\<open>pipe.c\<close>.  A pointer to a \<^verbatim>\<open>struct file\<close> is its
  index in the file table; a pipe is found by the address of the page \<^verbatim>\<open>kalloc\<close> gave it.  The table
  \<^verbatim>\<open>devsw\<close> of device functions is an argument of the operations that call through it.
  \<^verbatim>\<open>pipewrite\<close> and \<^verbatim>\<open>piperead\<close> are cut at \<^verbatim>\<open>sleep\<close>; the loop variable that a sleeping writer keeps on
  its stack is an argument of the function that goes on.
\<close>

section \<open>State\<close>

definition NFILE :: nat where "NFILE = 100"
definition NDEV :: int where "NDEV = 10"
definition PIPESIZE :: nat where "PIPESIZE = 512"

datatype fdtype = FD_NONE | FD_PIPE | FD_INODE | FD_DEVICE

record file_t =
  f_type :: fdtype
  f_ref :: int
  f_readable :: bool
  f_writable :: bool
  f_pipe :: u64
  f_ip :: "nat option"
  f_off :: u32
  f_major :: u16

record pipe_t =
  p_data :: "nat \<Rightarrow> u8"
  p_nread :: u32
  p_nwrite :: u32
  p_readopen :: bool
  p_writeopen :: bool

record filest = fsst +
  ftable :: "nat \<Rightarrow> file_t"
  pipes :: "u64 \<Rightarrow> pipe_t"

definition upd_file :: "nat \<Rightarrow> (file_t \<Rightarrow> file_t) \<Rightarrow> 'a filest_scheme \<Rightarrow> 'a filest_scheme" where
  "upd_file f g s = s\<lparr>ftable := (ftable s)(f := g (ftable s f))\<rparr>"

definition upd_pipe :: "u64 \<Rightarrow> (pipe_t \<Rightarrow> pipe_t) \<Rightarrow> 'a filest_scheme \<Rightarrow> 'a filest_scheme" where
  "upd_pipe a g s = s\<lparr>pipes := (pipes s)(a := g (pipes s a))\<rparr>"

text \<open>One entry of \<^verbatim>\<open>devsw\<close>: the device's read and write functions, which may be null.\<close>

type_synonym 's devfun = "addr \<Rightarrow> u32 \<Rightarrow> 's \<Rightarrow> (u32, 's) kr"

section \<open>The file table\<close>

definition fileinit :: "'a filest_scheme \<Rightarrow> 'a filest_scheme" where
  "fileinit s = initlock L_ftable ''ftable'' s"

definition filealloc :: "'a filest_scheme \<Rightarrow> (nat option, 'a filest_scheme) kr" where
  "filealloc s =
     kthen (acquire L_ftable s) (\<lambda>s.
       case find (\<lambda>f. f_ref (ftable s f) = 0) [0..<NFILE] of
         Some f \<Rightarrow> kthen (release L_ftable (upd_file f (\<lambda>x. x\<lparr>f_ref := 1\<rparr>) s)) (\<lambda>s. Ok (Some f) s)
       | None \<Rightarrow> kthen (release L_ftable s) (\<lambda>s. Ok None s))"

definition filedup :: "nat \<Rightarrow> 'a filest_scheme \<Rightarrow> (nat, 'a filest_scheme) kr" where
  "filedup f s =
     kthen (acquire L_ftable s) (\<lambda>s.
       if f_ref (ftable s f) < 1 then Panic ''filedup''
       else kthen (release L_ftable (upd_file f (\<lambda>x. x\<lparr>f_ref := f_ref x + 1\<rparr>) s)) (\<lambda>s. Ok f s))"

section \<open>Pipes\<close>

definition pipeclose :: "u64 \<Rightarrow> bool \<Rightarrow> 'a filest_scheme \<Rightarrow> (unit, 'a filest_scheme) kr" where
  "pipeclose pi writable s =
     kthen (acquire (L_pipe pi) s) (\<lambda>s.
     kthen (if writable then wakeup (Ch_nread pi) (upd_pipe pi (\<lambda>x. x\<lparr>p_writeopen := False\<rparr>) s)
            else wakeup (Ch_nwrite pi) (upd_pipe pi (\<lambda>x. x\<lparr>p_readopen := False\<rparr>) s)) (\<lambda>s.
       if \<not> p_readopen (pipes s pi) \<and> \<not> p_writeopen (pipes s pi)
       then kthen (release (L_pipe pi) s) (\<lambda>s. kfree pi s)
       else release (L_pipe pi) s))"

definition fileclose :: "nat \<Rightarrow> 'a filest_scheme \<Rightarrow> (unit, 'a filest_scheme) kr" where
  "fileclose f s =
     kthen (acquire L_ftable s) (\<lambda>s.
       if f_ref (ftable s f) < 1 then Panic ''fileclose''
       else
         (let s = upd_file f (\<lambda>x. x\<lparr>f_ref := f_ref x - 1\<rparr>) s in
          if f_ref (ftable s f) > 0 then release L_ftable s
          else
            (let ff = ftable s f; s = upd_file f (\<lambda>x. x\<lparr>f_ref := 0, f_type := FD_NONE\<rparr>) s in
             kthen (release L_ftable s) (\<lambda>s.
               if f_type ff = FD_PIPE then pipeclose (f_pipe ff) (f_writable ff) s
               else if f_type ff = FD_INODE \<or> f_type ff = FD_DEVICE then
                 (case f_ip ff of
                    None \<Rightarrow> Fault ''fileclose: null inode''
                  | Some ip \<Rightarrow> kthen (begin_op s) (\<lambda>s. kthen (iput ip s) (\<lambda>s. end_op s)))
               else Ok () s))))"

text \<open>The results are the return value, \<^verbatim>\<open>*f0\<close> and \<^verbatim>\<open>*f1\<close>.  On the error path no page was obtained.\<close>

definition pipealloc :: "'a filest_scheme \<Rightarrow> (u32 \<times> nat option \<times> nat option, 'a filest_scheme) kr" where
  "pipealloc s =
     (let bad = (\<lambda>f0 f1 s.
        kthen (case f0 of None \<Rightarrow> Ok () s | Some f \<Rightarrow> fileclose f s) (\<lambda>s.
        kthen (case f1 of None \<Rightarrow> Ok () s | Some f \<Rightarrow> fileclose f s) (\<lambda>s. Ok (- 1, f0, f1) s)))
      in
        kbind (filealloc s) (\<lambda>f0 s.
          case f0 of
            None \<Rightarrow> bad None None s
          | Some a \<Rightarrow>
              kbind (filealloc s) (\<lambda>f1 s.
                case f1 of
                  None \<Rightarrow> bad f0 None s
                | Some b \<Rightarrow>
                    kbind (kalloc s) (\<lambda>pi s.
                      if pi = 0 then bad f0 f1 s
                      else
                        (let s = upd_pipe pi (\<lambda>x. x\<lparr>p_readopen := True, p_writeopen := True,
                                                     p_nwrite := 0, p_nread := 0\<rparr>) s;
                             s = initlock (L_pipe pi) ''pipe'' s;
                             s = upd_file a (\<lambda>x. x\<lparr>f_type := FD_PIPE, f_readable := True,
                                                     f_writable := False, f_pipe := pi\<rparr>) s;
                             s = upd_file b (\<lambda>x. x\<lparr>f_type := FD_PIPE, f_readable := False,
                                                     f_writable := True, f_pipe := pi\<rparr>) s
                         in Ok (0, f0, f1) s)))))"

text \<open>\<^verbatim>\<open>pi->data[pi->nwrite++ % PIPESIZE] = ch\<close> and \<^verbatim>\<open>pi->data[pi->nread++ % PIPESIZE]\<close>.\<close>

definition pipe_put :: "u8 \<Rightarrow> pipe_t \<Rightarrow> pipe_t" where
  "pipe_put ch x = x\<lparr>p_data := (p_data x)(unat (p_nwrite x) mod PIPESIZE := ch), p_nwrite := p_nwrite x + 1\<rparr>"

definition pipe_get :: "pipe_t \<Rightarrow> u8 \<times> pipe_t" where
  "pipe_get x = (p_data x (unat (p_nread x) mod PIPESIZE), x\<lparr>p_nread := p_nread x + 1\<rparr>)"

function pipewrite_loop :: "nat \<Rightarrow> u64 \<Rightarrow> u64 \<Rightarrow> int \<Rightarrow> int \<Rightarrow> 'a filest_scheme \<Rightarrow> (u32, 'a filest_scheme) kr" where
  "pipewrite_loop pr pi addr n i s =
     (let fin = (\<lambda>s. kthen (wakeup (Ch_nread pi) s) (\<lambda>s.
                     kthen (release (L_pipe pi) s) (\<lambda>s. Ok (of_int i) s))) in
      if i < n then
        kbind (if p_readopen (pipes s pi) then killed pr s else Ok 1 s) (\<lambda>k s.
          if k \<noteq> 0 then kthen (release (L_pipe pi) s) (\<lambda>s. Ok (- 1) s)
          else if p_nwrite (pipes s pi) = p_nread (pipes s pi) + of_nat PIPESIZE then
            kthen (wakeup (Ch_nread pi) s) (\<lambda>s.
            kthen (sleep (Ch_nwrite pi) (L_pipe pi) s) (\<lambda>s. Fault ''sleep returned without a switch''))
          else
            kbind (copyin (pagetable (procs s pr)) (\<lambda>_. 0) (addr + of_int i) 1 s) (\<lambda>(r, ch) s.
              if r = - 1 then fin s
              else pipewrite_loop pr pi addr n (i + 1) (upd_pipe pi (pipe_put (ch 0)) s)))
      else fin s)"
  by pat_completeness auto
termination
  by (relation "measure (\<lambda>(pr, pi, addr, n, i, s). nat (n - i))") auto

declare pipewrite_loop.simps [simp del]

definition pipewrite :: "u64 \<Rightarrow> u64 \<Rightarrow> int \<Rightarrow> 'a filest_scheme \<Rightarrow> (u32, 'a filest_scheme) kr" where
  "pipewrite pi addr n s =
     kbind (myproc s) (\<lambda>me s.
       case me of
         None \<Rightarrow> Fault ''pipewrite: no process''
       | Some pr \<Rightarrow> kthen (acquire (L_pipe pi) s) (\<lambda>s. pipewrite_loop pr pi addr n 0 s))"

definition pipewrite_resume ::
  "nat \<Rightarrow> bool \<Rightarrow> u64 \<Rightarrow> u64 \<Rightarrow> int \<Rightarrow> int \<Rightarrow> 'a filest_scheme \<Rightarrow> (u32, 'a filest_scheme) kr" where
  "pipewrite_resume p saved pi addr n i s =
     kthen (sleep_return p (L_pipe pi) saved s) (\<lambda>s. pipewrite_loop p pi addr n i s)"

function piperead_copy :: "nat \<Rightarrow> u64 \<Rightarrow> u64 \<Rightarrow> int \<Rightarrow> int \<Rightarrow> 'a filest_scheme \<Rightarrow> (u32, 'a filest_scheme) kr" where
  "piperead_copy pr pi addr n i s =
     (let fin = (\<lambda>s. kthen (wakeup (Ch_nwrite pi) s) (\<lambda>s.
                     kthen (release (L_pipe pi) s) (\<lambda>s. Ok (of_int i) s))) in
      if i < n then
        if p_nread (pipes s pi) = p_nwrite (pipes s pi) then fin s
        else
          (case pipe_get (pipes s pi) of
             (ch, x) \<Rightarrow>
               kbind (copyout (pagetable (procs s pr)) (addr + of_int i) (\<lambda>_. ch) 1 (upd_pipe pi (\<lambda>_. x) s)) (\<lambda>r s.
                 if r = - 1 then fin s else piperead_copy pr pi addr n (i + 1) s))
      else fin s)"
  by pat_completeness auto
termination
  by (relation "measure (\<lambda>(pr, pi, addr, n, i, s). nat (n - i))") auto

declare piperead_copy.simps [simp del]

definition piperead_loop :: "nat \<Rightarrow> u64 \<Rightarrow> u64 \<Rightarrow> int \<Rightarrow> 'a filest_scheme \<Rightarrow> (u32, 'a filest_scheme) kr" where
  "piperead_loop pr pi addr n s =
     (if p_nread (pipes s pi) = p_nwrite (pipes s pi) \<and> p_writeopen (pipes s pi) then
        kbind (killed pr s) (\<lambda>k s.
          if k \<noteq> 0 then kthen (release (L_pipe pi) s) (\<lambda>s. Ok (- 1) s)
          else kthen (sleep (Ch_nread pi) (L_pipe pi) s) (\<lambda>s. Fault ''sleep returned without a switch''))
      else piperead_copy pr pi addr n 0 s)"

definition piperead :: "u64 \<Rightarrow> u64 \<Rightarrow> int \<Rightarrow> 'a filest_scheme \<Rightarrow> (u32, 'a filest_scheme) kr" where
  "piperead pi addr n s =
     kbind (myproc s) (\<lambda>me s.
       case me of
         None \<Rightarrow> Fault ''piperead: no process''
       | Some pr \<Rightarrow> kthen (acquire (L_pipe pi) s) (\<lambda>s. piperead_loop pr pi addr n s))"

definition piperead_resume ::
  "nat \<Rightarrow> bool \<Rightarrow> u64 \<Rightarrow> u64 \<Rightarrow> int \<Rightarrow> 'a filest_scheme \<Rightarrow> (u32, 'a filest_scheme) kr" where
  "piperead_resume p saved pi addr n s =
     kthen (sleep_return p (L_pipe pi) saved s) (\<lambda>s. piperead_loop p pi addr n s)"

section \<open>Operations on files\<close>

text \<open>\<^verbatim>\<open>struct stat\<close> as it lies on the stack, whose old contents \<open>old\<close> remain in the padding.\<close>

definition stat_bytes :: "stat \<Rightarrow> bytes \<Rightarrow> bytes" where
  "stat_bytes st old =
     st64 (st16 (st16 (st32 (st32 old 0 (st_dev st)) 4 (st_ino st)) 8 (st_type st)) 10 (st_nlink st)) 16 (st_size st)"

definition filestat :: "nat \<Rightarrow> u64 \<Rightarrow> bytes \<Rightarrow> 'a filest_scheme \<Rightarrow> (u32, 'a filest_scheme) kr" where
  "filestat f addr old s =
     kbind (myproc s) (\<lambda>me s.
       if f_type (ftable s f) = FD_INODE \<or> f_type (ftable s f) = FD_DEVICE then
         (case (f_ip (ftable s f), me) of
            (Some ip, Some p) \<Rightarrow>
              kthen (ilock ip s) (\<lambda>s.
                let st = stati ip s in
                kthen (iunlock ip s) (\<lambda>s.
                kbind (copyout (pagetable (procs s p)) addr (stat_bytes st old) 24 s) (\<lambda>r s.
                  if sint r < 0 then Ok (- 1) s else Ok 0 s)))
          | _ \<Rightarrow> Fault ''filestat: null pointer'')
       else Ok (- 1) s)"

definition device :: "(nat \<Rightarrow> 's devfun option) \<Rightarrow> u16 \<Rightarrow> 's devfun option" where
  "device devsw major = (if sint major < 0 \<or> sint major \<ge> NDEV then None else devsw (unat major))"

definition fileread ::
  "(nat \<Rightarrow> 'a filest_scheme devfun option) \<Rightarrow> nat \<Rightarrow> u64 \<Rightarrow> u32 \<Rightarrow> 'a filest_scheme \<Rightarrow> (u32, 'a filest_scheme) kr" where
  "fileread devread f addr n s =
     (if \<not> f_readable (ftable s f) then Ok (- 1) s
      else
        (case f_type (ftable s f) of
           FD_PIPE \<Rightarrow> piperead (f_pipe (ftable s f)) addr (sint n) s
         | FD_DEVICE \<Rightarrow>
             (case device devread (f_major (ftable s f)) of
                None \<Rightarrow> Ok (- 1) s
              | Some rd \<Rightarrow> rd (UserVA addr) n s)
         | FD_INODE \<Rightarrow>
             (case f_ip (ftable s f) of
                None \<Rightarrow> Fault ''fileread: null inode''
              | Some ip \<Rightarrow>
                  kthen (ilock ip s) (\<lambda>s.
                  kbind (readi ip (UserVA addr) (f_off (ftable s f)) n (\<lambda>_. 0) s) (\<lambda>(r, _) s.
                    let s = (if sint r > 0 then upd_file f (\<lambda>x. x\<lparr>f_off := f_off x + r\<rparr>) s else s) in
                    kthen (iunlock ip s) (\<lambda>s. Ok r s))))
         | FD_NONE \<Rightarrow> Panic ''fileread''))"

text \<open>The loop of \<^verbatim>\<open>filewrite\<close>; its answer is the value of \<open>i\<close> when it ends.\<close>

definition write_max :: int where
  "write_max = int (((MAXOPBLOCKS - 1 - 1 - 2) div 2) * BSIZE)"

function filewrite_loop :: "nat \<Rightarrow> nat \<Rightarrow> u64 \<Rightarrow> int \<Rightarrow> int \<Rightarrow> 'a filest_scheme \<Rightarrow> (int, 'a filest_scheme) kr" where
  "filewrite_loop f ip addr n i s =
     (if i < n then
        (let n1 = min (n - i) write_max in
         kthen (begin_op s) (\<lambda>s.
         kthen (ilock ip s) (\<lambda>s.
         kbind (writei ip (UserVA (addr + of_int i)) (f_off (ftable s f)) (of_int n1) (\<lambda>_. 0) s) (\<lambda>r s.
           let s = (if sint r > 0 then upd_file f (\<lambda>x. x\<lparr>f_off := f_off x + r\<rparr>) s else s) in
           kthen (iunlock ip s) (\<lambda>s.
           kthen (end_op s) (\<lambda>s.
             if sint r \<noteq> n1 then Ok i s
             else filewrite_loop f ip addr n (i + n1) s))))))
      else Ok i s)"
  by pat_completeness auto
termination
  by (relation "measure (\<lambda>(f, ip, addr, n, i, s). nat (n - i))")
    (auto simp: write_max_def MAXOPBLOCKS_def BSIZE_def)

declare filewrite_loop.simps [simp del]

definition filewrite ::
  "(nat \<Rightarrow> 'a filest_scheme devfun option) \<Rightarrow> nat \<Rightarrow> u64 \<Rightarrow> u32 \<Rightarrow> 'a filest_scheme \<Rightarrow> (u32, 'a filest_scheme) kr" where
  "filewrite devwrite f addr n s =
     (if \<not> f_writable (ftable s f) then Ok (- 1) s
      else
        (case f_type (ftable s f) of
           FD_PIPE \<Rightarrow> pipewrite (f_pipe (ftable s f)) addr (sint n) s
         | FD_DEVICE \<Rightarrow>
             (case device devwrite (f_major (ftable s f)) of
                None \<Rightarrow> Ok (- 1) s
              | Some wr \<Rightarrow> wr (UserVA addr) n s)
         | FD_INODE \<Rightarrow>
             (case f_ip (ftable s f) of
                None \<Rightarrow> Fault ''filewrite: null inode''
              | Some ip \<Rightarrow>
                  kbind (filewrite_loop f ip addr (sint n) 0 s) (\<lambda>i s.
                    Ok (if i = sint n then n else - 1) s))
         | FD_NONE \<Rightarrow> Panic ''filewrite''))"

end
