(* ===== verification/Process.thy ===== *)
theory Process
  imports File
begin

text \<open>
  The life of a process, the part of \<^verbatim>\<open>src/lab2/kernel/proc.c\<close> that allocates memory and files:
  \<^verbatim>\<open>allocproc\<close>, \<^verbatim>\<open>freeproc\<close>, page tables of processes, \<^verbatim>\<open>userinit\<close>, \<^verbatim>\<open>growproc\<close>, \<^verbatim>\<open>fork\<close>, \<^verbatim>\<open>exit\<close> and
  \<^verbatim>\<open>wait\<close>.  A trap frame is 288 bytes at the address the process holds, its registers at the offsets
  of \<^verbatim>\<open>proc.h\<close>.  The saved kernel context, which only the assembly of \<^verbatim>\<open>swtch\<close> reads, is not part of
  the process record.  A process name is the string in its buffer of 16 characters.
\<close>

section \<open>Trap frames\<close>

definition TF_epc :: u64 where "TF_epc = 24"
definition TF_sp :: u64 where "TF_sp = 48"
definition TF_a0 :: u64 where "TF_a0 = 112"
definition TF_a1 :: u64 where "TF_a1 = 120"
definition TF_SIZE :: nat where "TF_SIZE = 288"

text \<open>\<^verbatim>\<open>safestrcpy(dst, name, 16)\<close> on names.\<close>

definition name_buf :: "string \<Rightarrow> string" where "name_buf nm = take 15 nm"

section \<open>Page tables of processes\<close>

definition proc_pagetable :: "nat \<Rightarrow> 'a memst_scheme \<Rightarrow> (u64, 'a memst_scheme) kr" where
  "proc_pagetable p s =
     kbind (uvmcreate s) (\<lambda>pt s.
       if pt = 0 then Ok 0 s
       else
         kbind (mappages pt TRAMPOLINE PGSIZE (ktramp s) (PTE_R OR PTE_X) s) (\<lambda>r s.
           if sint r < 0 then kthen (uvmfree pt 0 s) (\<lambda>s. Ok 0 s)
           else
             kbind (mappages pt TRAPFRAME PGSIZE (trapframe (procs s p)) (PTE_R OR PTE_W) s) (\<lambda>r s.
               if sint r < 0 then
                 kthen (uvmunmap pt TRAMPOLINE 1 False s) (\<lambda>s.
                 kthen (uvmfree pt 0 s) (\<lambda>s. Ok 0 s))
               else Ok pt s)))"

definition proc_freepagetable :: "u64 \<Rightarrow> u64 \<Rightarrow> 'a memst_scheme \<Rightarrow> (unit, 'a memst_scheme) kr" where
  "proc_freepagetable pt n s =
     kthen (uvmunmap pt TRAMPOLINE 1 False s) (\<lambda>s.
     kthen (uvmunmap pt TRAPFRAME 1 False s) (\<lambda>s.
     uvmfree pt n s))"

section \<open>Allocation\<close>

definition freeproc :: "nat \<Rightarrow> 'a memst_scheme \<Rightarrow> (unit, 'a memst_scheme) kr" where
  "freeproc p s =
     kthen (if trapframe (procs s p) \<noteq> 0 then kfree (trapframe (procs s p)) s else Ok () s) (\<lambda>s.
       let s = upd_proc p (\<lambda>q. q\<lparr>trapframe := 0\<rparr>) s in
       kthen (if pagetable (procs s p) \<noteq> 0
              then proc_freepagetable (pagetable (procs s p)) (sz (procs s p)) s else Ok () s) (\<lambda>s.
         Ok () (upd_proc p (\<lambda>q. q\<lparr>pagetable := 0, sz := 0, pid := 0, parent := None, pname := '''',
           pchan := None, pkilled := 0, xstate := 0, pstate := UNUSED\<rparr>) s)))"

text \<open>The search of \<^verbatim>\<open>allocproc\<close> ends with the lock of the process it found.\<close>

definition find_unused :: "'a memst_scheme \<Rightarrow> (nat option, 'a memst_scheme) kr" where
  "find_unused s =
     kscan (\<lambda>p s.
       kthen (acquire (L_proc p) s) (\<lambda>s.
         if pstate (procs s p) = UNUSED then Ok (Some p) s
         else kthen (release (L_proc p) s) (\<lambda>s. Ok None s))) [0..<NPROC] s"

definition allocproc :: "'a memst_scheme \<Rightarrow> (nat option, 'a memst_scheme) kr" where
  "allocproc s =
     kbind (find_unused s) (\<lambda>r s.
       case r of
         None \<Rightarrow> Ok None s
       | Some p \<Rightarrow>
           kbind (allocpid s) (\<lambda>n s.
           kbind (kalloc (upd_proc p (\<lambda>q. q\<lparr>pid := n, pstate := USED\<rparr>) s)) (\<lambda>tf s.
             let s = upd_proc p (\<lambda>q. q\<lparr>trapframe := tf\<rparr>) s in
             if tf = 0 then
               kthen (freeproc p s) (\<lambda>s. kthen (release (L_proc p) s) (\<lambda>s. Ok None s))
             else
               kbind (proc_pagetable p s) (\<lambda>pt s.
                 let s = upd_proc p (\<lambda>q. q\<lparr>pagetable := pt\<rparr>) s in
                 if pt = 0 then
                   kthen (freeproc p s) (\<lambda>s. kthen (release (L_proc p) s) (\<lambda>s. Ok None s))
                 else Ok (Some p) s))))"

definition initcode :: "u8 list" where
  "initcode =
    [0x17, 0x05, 0x00, 0x00, 0x13, 0x05, 0x45, 0x02,
     0x97, 0x05, 0x00, 0x00, 0x93, 0x85, 0x35, 0x02,
     0x93, 0x08, 0x70, 0x00, 0x73, 0x00, 0x00, 0x00,
     0x93, 0x08, 0x20, 0x00, 0x73, 0x00, 0x00, 0x00,
     0xef, 0xf0, 0x9f, 0xff, 0x2f, 0x69, 0x6e, 0x69,
     0x74, 0x00, 0x00, 0x24, 0x00, 0x00, 0x00, 0x00,
     0x00, 0x00, 0x00, 0x00]"

definition userinit :: "'a fsst_scheme \<Rightarrow> (unit, 'a fsst_scheme) kr" where
  "userinit s =
     kbind (allocproc s) (\<lambda>r s.
       let s = s\<lparr>initproc := r\<rparr> in
       case r of
         None \<Rightarrow> Fault ''userinit: no process''
       | Some p \<Rightarrow>
           kthen (uvmfirst (pagetable (procs s p)) (\<lambda>i. initcode ! i) (of_nat (length initcode)) s) (\<lambda>s.
             let s = upd_proc p (\<lambda>q. q\<lparr>sz := PGSIZE\<rparr>) s;
                 s = wr64 (trapframe (procs s p) + TF_epc) 0 s;
                 s = wr64 (trapframe (procs s p) + TF_sp) PGSIZE s;
                 s = upd_proc p (\<lambda>q. q\<lparr>pname := name_buf ''initcode''\<rparr>) s in
             kbind (namei [slash] s) (\<lambda>ip s.
               release (L_proc p) (upd_proc p (\<lambda>q. q\<lparr>cwd := ip, pstate := RUNNABLE\<rparr>) s))))"

definition growproc :: "u32 \<Rightarrow> 'a memst_scheme \<Rightarrow> (u32, 'a memst_scheme) kr" where
  "growproc n s =
     kbind (myproc s) (\<lambda>me s.
       case me of
         None \<Rightarrow> Fault ''growproc: no process''
       | Some p \<Rightarrow>
           (let q = procs s p in
            if sint n > 0 then
              kbind (uvmalloc (pagetable q) (sz q) (sz q + scast n) PTE_W s) (\<lambda>m s.
                if m = 0 then Ok (- 1) s else Ok 0 (upd_proc p (\<lambda>q. q\<lparr>sz := m\<rparr>) s))
            else if sint n < 0 then
              kbind (uvmdealloc (pagetable q) (sz q) (sz q + scast n) s) (\<lambda>m s.
                Ok 0 (upd_proc p (\<lambda>q. q\<lparr>sz := m\<rparr>) s))
            else Ok 0 s))"

section \<open>fork\<close>

text \<open>The loop that shares the open files.\<close>

definition dup_files :: "nat \<Rightarrow> nat \<Rightarrow> 'a filest_scheme \<Rightarrow> (unit, 'a filest_scheme) kr" where
  "dup_files p np s =
     kfor (\<lambda>i s.
       case ofile (procs s p) i of
         None \<Rightarrow> Ok () s
       | Some f \<Rightarrow>
           kbind (filedup f s) (\<lambda>f s. Ok () (upd_proc np (\<lambda>q. q\<lparr>ofile := (ofile q)(i := Some f)\<rparr>) s)))
       [0..<NOFILE] s"

definition fork :: "'a filest_scheme \<Rightarrow> (u32, 'a filest_scheme) kr" where
  "fork s =
     kbind (myproc s) (\<lambda>me s.
       case me of
         None \<Rightarrow> Fault ''fork: no process''
       | Some p \<Rightarrow>
           kbind (allocproc s) (\<lambda>r s.
             case r of
               None \<Rightarrow> Ok (- 1) s
             | Some np \<Rightarrow>
                 kbind (uvmcopy (pagetable (procs s p)) (pagetable (procs s np)) (sz (procs s p)) s) (\<lambda>r s.
                   if sint r < 0 then
                     kthen (freeproc np s) (\<lambda>s. kthen (release (L_proc np) s) (\<lambda>s. Ok (- 1) s))
                   else
                     (let s = upd_proc np (\<lambda>q. q\<lparr>sz := sz (procs s p)\<rparr>) s;
                          s = store_bytes (trapframe (procs s np)) (load_bytes (trapframe (procs s p)) s) TF_SIZE s;
                          s = wr64 (trapframe (procs s np) + TF_a0) 0 s in
                      kthen (dup_files p np s) (\<lambda>s.
                        case cwd (procs s p) of
                          None \<Rightarrow> Fault ''fork: no current directory''
                        | Some d \<Rightarrow>
                            kbind (idup d s) (\<lambda>d s.
                              let s = upd_proc np (\<lambda>q. q\<lparr>cwd := Some d, pname := name_buf (pname (procs s p))\<rparr>) s;
                                  n = pid (procs s np) in
                              kthen (release (L_proc np) s) (\<lambda>s.
                              kthen (acquire L_wait s) (\<lambda>s.
                              kthen (release L_wait (upd_proc np (\<lambda>q. q\<lparr>parent := Some p\<rparr>) s)) (\<lambda>s.
                              kthen (acquire (L_proc np) s) (\<lambda>s.
                              kthen (release (L_proc np) (upd_proc np (\<lambda>q. q\<lparr>pstate := RUNNABLE\<rparr>) s)) (\<lambda>s.
                                Ok n s)))))))))))"

section \<open>exit\<close>

text \<open>\<^verbatim>\<open>wakeup\<close> on a process pointer; nobody sleeps on the null pointer.\<close>

definition wakeup_proc :: "nat option \<Rightarrow> 'a procst_scheme \<Rightarrow> (unit, 'a procst_scheme) kr" where
  "wakeup_proc r s = (case r of None \<Rightarrow> Ok () s | Some q \<Rightarrow> wakeup (Ch_proc q) s)"

definition reparent :: "nat \<Rightarrow> 'a procst_scheme \<Rightarrow> (unit, 'a procst_scheme) kr" where
  "reparent p s =
     kfor (\<lambda>pp s.
       if parent (procs s pp) = Some p
       then wakeup_proc (initproc s) (upd_proc pp (\<lambda>q. q\<lparr>parent := initproc s\<rparr>) s)
       else Ok () s) [0..<NPROC] s"

definition close_files :: "nat \<Rightarrow> 'a filest_scheme \<Rightarrow> (unit, 'a filest_scheme) kr" where
  "close_files p s =
     kfor (\<lambda>fd s.
       case ofile (procs s p) fd of
         None \<Rightarrow> Ok () s
       | Some f \<Rightarrow>
           kthen (fileclose f s) (\<lambda>s. Ok () (upd_proc p (\<lambda>q. q\<lparr>ofile := (ofile q)(fd := None)\<rparr>) s)))
       [0..<NOFILE] s"

text \<open>The part of \<^verbatim>\<open>exit\<close> after the files are closed.\<close>

definition exit_zombie :: "nat \<Rightarrow> u32 \<Rightarrow> 'a procst_scheme \<Rightarrow> (unit, 'a procst_scheme) kr" where
  "exit_zombie p status s =
     kthen (acquire L_wait s) (\<lambda>s.
     kthen (reparent p s) (\<lambda>s.
     kthen (wakeup_proc (parent (procs s p)) s) (\<lambda>s.
     kthen (acquire (L_proc p) s) (\<lambda>s.
     kthen (release L_wait (upd_proc p (\<lambda>q. q\<lparr>xstate := status, pstate := ZOMBIE\<rparr>) s)) (\<lambda>s.
     kthen (sched s) (\<lambda>s. Panic ''zombie exit''))))))"

definition exit_proc :: "u32 \<Rightarrow> 'a filest_scheme \<Rightarrow> (unit, 'a filest_scheme) kr" where
  "exit_proc status s =
     kbind (myproc s) (\<lambda>me s.
       case me of
         None \<Rightarrow> Fault ''exit: no process''
       | Some p \<Rightarrow>
           if initproc s = Some p then Panic ''init exiting''
           else
             kthen (close_files p s) (\<lambda>s.
             kthen (begin_op s) (\<lambda>s.
               case cwd (procs s p) of
                 None \<Rightarrow> Fault ''exit: no current directory''
               | Some d \<Rightarrow>
                   kthen (iput d s) (\<lambda>s.
                   kthen (end_op s) (\<lambda>s.
                     exit_zombie p status (upd_proc p (\<lambda>q. q\<lparr>cwd := None\<rparr>) s))))))"

section \<open>wait\<close>

text \<open>
  The scan for a child that has exited: the value to return, both locks released, or whether
  there are children at all.
\<close>

primrec wait_scan ::
  "nat \<Rightarrow> u64 \<Rightarrow> nat list \<Rightarrow> bool \<Rightarrow> 'a memst_scheme \<Rightarrow> (bool + u32, 'a memst_scheme) kr" where
  "wait_scan p addr [] havekids s = Ok (Inl havekids) s"
| "wait_scan p addr (pp # pps) havekids s =
     (if parent (procs s pp) = Some p then
        kthen (acquire (L_proc pp) s) (\<lambda>s.
          if pstate (procs s pp) = ZOMBIE then
            (let n = pid (procs s pp) in
             kbind (if addr \<noteq> 0
                    then copyout (pagetable (procs s p)) addr (st32 (\<lambda>_. 0) 0 (xstate (procs s pp))) 4 s
                    else Ok 0 s) (\<lambda>r s.
               if sint r < 0 then
                 kthen (release (L_proc pp) s) (\<lambda>s. kthen (release L_wait s) (\<lambda>s. Ok (Inr (- 1)) s))
               else
                 kthen (freeproc pp s) (\<lambda>s.
                 kthen (release (L_proc pp) s) (\<lambda>s.
                 kthen (release L_wait s) (\<lambda>s. Ok (Inr n) s)))))
          else kthen (release (L_proc pp) s) (\<lambda>s. wait_scan p addr pps True s))
      else wait_scan p addr pps havekids s)"

definition wait_loop :: "nat \<Rightarrow> u64 \<Rightarrow> 'a memst_scheme \<Rightarrow> (u32, 'a memst_scheme) kr" where
  "wait_loop p addr s =
     kbind (wait_scan p addr [0..<NPROC] False s) (\<lambda>r s.
       case r of
         Inr n \<Rightarrow> Ok n s
       | Inl havekids \<Rightarrow>
           kbind (if havekids then killed p s else Ok 1 s) (\<lambda>k s.
             if k \<noteq> 0 then kthen (release L_wait s) (\<lambda>s. Ok (- 1) s)
             else kthen (sleep (Ch_proc p) L_wait s) (\<lambda>s. Fault ''sleep returned without a switch'')))"

definition wait_proc :: "u64 \<Rightarrow> 'a memst_scheme \<Rightarrow> (u32, 'a memst_scheme) kr" where
  "wait_proc addr s =
     kbind (myproc s) (\<lambda>me s.
       case me of
         None \<Rightarrow> Fault ''wait: no process''
       | Some p \<Rightarrow> kthen (acquire L_wait s) (\<lambda>s. wait_loop p addr s))"

definition wait_resume :: "nat \<Rightarrow> bool \<Rightarrow> u64 \<Rightarrow> 'a memst_scheme \<Rightarrow> (u32, 'a memst_scheme) kr" where
  "wait_resume p saved addr s = kthen (sleep_return p L_wait saved s) (\<lambda>s. wait_loop p addr s)"

end
