(* ===== verification/Bcache.thy ===== *)
theory Bcache
  imports Bio
begin

text \<open>
  What the buffer cache promises, over the model of \<^verbatim>\<open>bio.c\<close> in \<open>Bio\<close>: the links form a ring through
  all buffers in the order of their last release; a block has at most one buffer; and seen from a caller,
  a read returns the newest contents, whatever buffers are recycled meanwhile.
\<close>

section \<open>The list of buffers\<close>

text \<open>\<open>links nx pv ys\<close>: consecutive elements of \<open>ys\<close> point at each other.\<close>

fun links :: "(bufptr \<Rightarrow> bufptr) \<Rightarrow> (bufptr \<Rightarrow> bufptr) \<Rightarrow> bufptr list \<Rightarrow> bool" where
  "links nx pv (a # b # ys) \<longleftrightarrow> nx a = b \<and> pv b = a \<and> links nx pv (b # ys)"
| "links nx pv ys \<longleftrightarrow> True"

definition ring :: "(bufptr \<Rightarrow> bufptr) \<Rightarrow> (bufptr \<Rightarrow> bufptr) \<Rightarrow> nat list \<Rightarrow> bool" where
  "ring nx pv xs \<longleftrightarrow> distinct xs \<and> set xs = {..<NBUF} \<and> links nx pv (Head # map Buf xs @ [Head])"

lemma links_append: "links nx pv (xs @ a # ys) \<longleftrightarrow> links nx pv (xs @ [a]) \<and> links nx pv (a # ys)"
  by (induction xs rule: induct_list012) auto

lemma links_cong:
  "(\<And>a. a \<in> set (butlast ys) \<Longrightarrow> nx' a = nx a) \<Longrightarrow> (\<And>a. a \<in> set (tl ys) \<Longrightarrow> pv' a = pv a) \<Longrightarrow>
   links nx' pv' ys = links nx pv ys"
  by (induction nx pv ys rule: links.induct) auto

text \<open>A walk along \<^verbatim>\<open>next\<close> from the sentinel visits the buffers in order, one along \<^verbatim>\<open>prev\<close> in reverse.\<close>

lemma find_buf_next:
  "links nx pv (map Buf xs @ [Head]) \<Longrightarrow> length xs \<le> fuel \<Longrightarrow>
   find_buf fuel nx P (hd (map Buf xs @ [Head])) = (case find P xs of Some i \<Rightarrow> Found i | None \<Rightarrow> Missing)"
proof (induction xs arbitrary: fuel)
  case Nil
  then show ?case by (cases fuel) auto
next
  case (Cons x xs)
  from Cons.prems(2) obtain f where f: "fuel = Suc f" "length xs \<le> f" by (cases fuel) auto
  have nx: "nx (Buf x) = hd (map Buf xs @ [Head])" using Cons.prems(1) by (cases xs) auto
  moreover have "links nx pv (map Buf xs @ [Head])" using Cons.prems(1) by (cases xs) auto
  ultimately show ?case using Cons.IH [of f] f by auto
qed

lemma links_rev: "links nx pv (rev ys) = links pv nx ys"
proof (induction pv nx ys rule: links.induct)
  case (1 pv nx a b ys)
  have "links nx pv (rev (a # b # ys)) \<longleftrightarrow> links nx pv (rev ys @ [b]) \<and> links nx pv [b, a]"
    using links_append [of nx pv "rev ys" b "[a]"] by simp
  then show ?case using 1 by auto
qed auto

lemma find_buf_prev:
  assumes "links nx pv (Head # map Buf xs)" and "length xs \<le> fuel"
  shows "find_buf fuel pv P (hd (map Buf (rev xs) @ [Head])) =
     (case find P (rev xs) of Some i \<Rightarrow> Found i | None \<Rightarrow> Missing)"
proof -
  have "links pv nx (map Buf (rev xs) @ [Head])"
    using assms(1) links_rev [of pv nx "Head # map Buf xs"] by (simp add: rev_map)
  then show ?thesis using find_buf_next [of pv nx "rev xs" fuel P] assms(2) by simp
qed

lemma ring_length: "ring nx pv xs \<Longrightarrow> length xs = NBUF"
  by (metis card_lessThan distinct_card ring_def)

lemma ring_hd: "ring nx pv xs \<Longrightarrow> nx Head = hd (map Buf xs @ [Head]) \<and> pv Head = hd (map Buf (rev xs) @ [Head])"
proof -
  assume r: "ring nx pv xs"
  have "nx Head = hd (map Buf xs @ [Head])" using r by (cases xs) (auto simp: ring_def)
  moreover have "links pv nx (rev (Head # map Buf xs @ [Head]))"
    using r by (simp only: links_rev ring_def)
  then have "pv Head = hd (map Buf (rev xs) @ [Head])" by (cases "rev xs") (auto simp: rev_map)
  ultimately show ?thesis by simp
qed

lemma ring_find:
  assumes "ring nx pv xs"
  shows "find_buf NBUF nx P (nx Head) = (case find P xs of Some i \<Rightarrow> Found i | None \<Rightarrow> Missing)"
    and "find_buf NBUF pv P (pv Head) = (case find P (rev xs) of Some i \<Rightarrow> Found i | None \<Rightarrow> Missing)"
proof -
  have l: "links nx pv (map Buf xs @ [Head])" using assms by (cases xs) (auto simp: ring_def)
  have "links nx pv ((Head # map Buf xs) @ [Head])" using assms by (simp add: ring_def)
  then have l2: "links nx pv (Head # map Buf xs)"
  proof (cases xs rule: rev_cases)
    case Nil
    then show ?thesis by simp
  next
    case (snoc ys y)
    then show ?thesis
      using \<open>links nx pv ((Head # map Buf xs) @ [Head])\<close> links_append [of nx pv "Head # map Buf ys" "Buf y" "[Head]"]
      by simp
  qed
  show "find_buf NBUF nx P (nx Head) = (case find P xs of Some i \<Rightarrow> Found i | None \<Rightarrow> Missing)"
    using find_buf_next [OF l] ring_hd [OF assms] ring_length [OF assms] by simp
  show "find_buf NBUF pv P (pv Head) = (case find P (rev xs) of Some i \<Rightarrow> Found i | None \<Rightarrow> Missing)"
    using find_buf_prev [OF l2] ring_hd [OF assms] ring_length [OF assms] by simp
qed

text \<open>The unlinking of \<^verbatim>\<open>brelse\<close> and its insertion at the front.\<close>

definition to_front :: "nat \<Rightarrow> 'a bufst_scheme \<Rightarrow> 'a bufst_scheme" where
  "to_front i s =
     (let s = set_prev (bnext s (Buf i)) (bprev s (Buf i)) s;
          s = set_next (bprev s (Buf i)) (bnext s (Buf i)) s
      in insert_head (Buf i) s)"

lemma ring_split:
  assumes "ring nx pv (us @ i # vs)"
  shows "links nx pv (Head # map Buf us @ [Buf i])" and "links nx pv (Buf i # map Buf vs @ [Head])"
  using assms links_append [of nx pv "Head # map Buf us" "Buf i" "map Buf vs @ [Head]"]
  by (simp_all add: ring_def)

lemma links_join:
  assumes "links nx pv (ps @ [a])" and "links nx pv (c # qs)"
    and "a \<notin> set ps" and "c \<notin> set qs" and "c \<notin> set (tl (ps @ [a]))" and "a \<notin> set (butlast (c # qs))"
  shows "links (nx(a := c)) (pv(c := a)) (ps @ a # c # qs)"
proof -
  have "links (nx(a := c)) (pv(c := a)) (ps @ [a])"
    using assms(1,3,5) by (subst links_cong) auto
  moreover have "links (nx(a := c)) (pv(c := a)) (c # qs)"
    using assms(2,4,6) by (subst links_cong) (auto split: if_splits)
  ultimately show ?thesis
    using links_append [of "nx(a := c)" "pv(c := a)" ps a "c # qs"] by simp
qed

lemma links_insert:
  assumes "links nx pv (Head # ys)" and "ys \<noteq> []" and "b \<noteq> Head" and "b \<notin> set ys"
    and "distinct ys" and "Head \<notin> set (butlast ys)"
  shows "links (nx(b := nx Head, Head := b)) (pv(b := Head, nx Head := b)) (Head # b # ys)"
proof -
  obtain y zs where ys: "ys = y # zs" using assms(2) by (cases ys) auto
  have y: "nx Head = y" using assms(1) ys by simp
  have "b \<notin> set (butlast ys)" using assms(4) by (meson in_set_butlastD)
  have "links (nx(b := nx Head, Head := b)) (pv(b := Head, nx Head := b)) ys = links nx pv ys"
  proof (rule links_cong)
    show "(nx(b := nx Head, Head := b)) a = nx a" if "a \<in> set (butlast ys)" for a
      using that assms(6) \<open>b \<notin> set (butlast ys)\<close> by auto
    show "(pv(b := Head, nx Head := b)) a = pv a" if "a \<in> set (tl ys)" for a
      using that assms(4,5) ys y by auto
  qed
  then show ?thesis using assms ys y by auto
qed

lemma to_front_ring:
  assumes "ring (bnext s) (bprev s) (us @ i # vs)"
  shows "ring (bnext (to_front i s)) (bprev (to_front i s)) (i # us @ vs)"
proof -
  obtain ps a where pa: "Head # map Buf us = ps @ [a]" by (metis append_butlast_last_id list.discI)
  obtain c qs where cq: "map Buf vs @ [Head] = c # qs" by (cases "map Buf vs @ [Head]") auto
  note sp = ring_split [OF assms]
  have d: "distinct (us @ i # vs)" using assms by (simp add: ring_def)
  have "Head # map Buf us @ [Buf i] = (Head # map Buf us) @ [Buf i]" by simp
  also have "\<dots> = ps @ a # [Buf i]" unfolding pa by simp
  finally have "links (bnext s) (bprev s) (ps @ a # [Buf i])" using sp(1) by (simp only:)
  then have a: "bprev s (Buf i) = a" "links (bnext s) (bprev s) (ps @ [a])"
    using links_append [of "bnext s" "bprev s" ps a "[Buf i]"] by simp_all
  have c: "bnext s (Buf i) = c" "links (bnext s) (bprev s) (c # qs)"
    using sp(2) cq by simp_all
  have P: "distinct (ps @ [a])" "set (ps @ [a]) = insert Head (Buf ` set us)" "tl (ps @ [a]) = map Buf us"
    using d unfolding pa [symmetric] by (auto simp: distinct_map inj_on_def)
  have Q: "distinct (c # qs)" "set (c # qs) = insert Head (Buf ` set vs)" "butlast (c # qs) = map Buf vs"
    using d unfolding cq [symmetric] by (auto simp: distinct_map inj_on_def butlast_append)
  have ai: "a \<noteq> Buf i" "c \<noteq> Buf i" using P(2) Q(2) d by auto
  have cP: "c \<notin> set (tl (ps @ [a]))" unfolding P(3) using Q(2) d by auto
  have aQ: "a \<notin> set (butlast (c # qs))" unfolding Q(3) using P(2) d by auto
  let ?nx = "(bnext s)(a := c)" and ?pv = "(bprev s)(c := a)"
  have "links ?nx ?pv (ps @ a # c # qs)"
    by (rule links_join [OF a(2) c(2)]) (use P(1) Q(1) cP aQ in auto)
  moreover have "ps @ a # c # qs = Head # map Buf (us @ vs) @ [Head]"
    using arg_cong2 [OF pa cq, of append] by simp
  ultimately have l: "links ?nx ?pv (Head # map Buf (us @ vs) @ [Head])" by simp
  have "links (?nx(Buf i := ?nx Head, Head := Buf i)) (?pv(Buf i := Head, ?nx Head := Buf i))
     (Head # Buf i # map Buf (us @ vs) @ [Head])"
    by (rule links_insert [OF l]) (use d in \<open>auto simp: distinct_map inj_on_def butlast_append\<close>)
  moreover have "to_front i s = s\<lparr>bnext := ?nx(Buf i := ?nx Head, Head := Buf i),
      bprev := ?pv(Buf i := Head, ?nx Head := Buf i)\<rparr>"
  proof -
    have nh: "((bnext s)(a := c)) Head = (if a = Head then c else bnext s Head)" by simp
    have x: "((bprev s)(c := a)) (Buf i) = a" "((bnext s)(a := c)) (Buf i) = c" using a(1) c(1) ai by auto
    have "?nx Head \<noteq> Buf i"
    proof -
      have "i \<notin> set (us @ vs)" using d by auto
      then show ?thesis using l by (cases "us @ vs") auto
    qed
    then show ?thesis
      using a(1) c(1) ai by (cases s) (auto simp: to_front_def insert_head_def set_next_def set_prev_def Let_def fun_eq_iff)
  qed
  ultimately show ?thesis using assms by (simp add: ring_def)
qed

text \<open>\<^verbatim>\<open>binit\<close> builds the ring, the last buffer in front.\<close>

lemma insert_head_links:
  assumes "links (bnext s) (bprev s) (Head # map Buf xs @ [Head])" and "distinct xs" and "i \<notin> set xs"
    and "bnext t = (bnext s)(Buf i := bnext s Head, Head := Buf i)"
    and "bprev t = (bprev s)(Buf i := Head, bnext s Head := Buf i)"
  shows "links (bnext t) (bprev t) (Head # map Buf (i # xs) @ [Head])"
proof -
  have "Buf i \<notin> set (map Buf xs @ [Head])" "distinct (map Buf xs @ [Head])"
    "Head \<notin> set (butlast (map Buf xs @ [Head]))"
    using assms(2,3) by (auto simp: distinct_map inj_on_def butlast_append)
  then show ?thesis
    using links_insert [OF assms(1) _ _, of "Buf i"] unfolding assms(4,5) by simp
qed

lemma binit_ring: "ring (bnext (binit s)) (bprev (binit s)) (rev [0..<NBUF])"
proof -
  define f where "f = (\<lambda>i (s :: 'a bufst_scheme). let s = set_next (Buf i) (bnext s Head) s;
               s = set_prev (Buf i) Head s;
               s = initsleeplock (SL_buf i) ''buffer'' s;
               s = set_prev (bnext s Head) (Buf i) s
           in set_next Head (Buf i) s)"
  have step: "bnext (f i t) = (bnext t)(Buf i := bnext t Head, Head := Buf i)"
    "bprev (f i t) = (bprev t)(Buf i := Head, bnext t Head := Buf i)" for i t
    by (simp_all add: f_def Let_def set_next_def set_prev_def initsleeplock_def initlock_def upd_slock_def)
  have l: "links (bnext (fold f [0..<n] t)) (bprev (fold f [0..<n] t)) (Head # map Buf (rev [0..<n]) @ [Head])"
    if "bnext t Head = Head" "bprev t Head = Head" for n t
  proof (induction n)
    case 0
    then show ?case using that by simp
  next
    case (Suc n)
    have "links (bnext (f n (fold f [0..<n] t))) (bprev (f n (fold f [0..<n] t)))
       (Head # map Buf (n # rev [0..<n]) @ [Head])"
      by (rule insert_head_links [OF Suc _ _ step]) auto
    then show ?case by (simp add: rev_append)
  qed
  let ?t = "set_next Head Head (set_prev Head Head (initlock L_bcache ''bcache'' s))"
  have "binit s = fold f [0..<NBUF] ?t" by (simp add: binit_def f_def Let_def)
  moreover have "bnext ?t Head = Head" "bprev ?t Head = Head"
    by (simp_all add: set_next_def set_prev_def)
  ultimately show ?thesis using l [of ?t NBUF] by (simp add: ring_def lessThan_atLeast0)
qed

section \<open>The cache as its callers see it\<close>

definition block :: "bytes \<Rightarrow> bytes" where
  "block d = (\<lambda>j. if j < BSIZE then d j else 0)"

definition key :: "'a bufst_scheme \<Rightarrow> nat \<Rightarrow> u32 \<times> u32" where
  "key s i = (b_dev (bufs s i), b_blockno (bufs s i))"

definition slot :: "'a bufst_scheme \<Rightarrow> u32 \<times> u32 \<Rightarrow> nat option" where
  "slot s x = find (\<lambda>i. key s i = x) [0..<NBUF]"

text \<open>
  The contents of a block on disk, the contents a reader gets, the references to its buffer, the
  number of buffers that may be recycled, and the block of each locked buffer.
\<close>

definition dsk :: "'a bufst_scheme \<Rightarrow> u32 \<times> u32 \<Rightarrow> bytes" where
  "dsk s x = block (disk s (fst x) (snd x))"

definition seen :: "'a bufst_scheme \<Rightarrow> u32 \<times> u32 \<Rightarrow> bytes" where
  "seen s x = (case slot s x of
     Some i \<Rightarrow> if b_valid (bufs s i) then block (b_data (bufs s i)) else dsk s x | None \<Rightarrow> dsk s x)"

definition refs :: "'a bufst_scheme \<Rightarrow> u32 \<times> u32 \<Rightarrow> nat" where
  "refs s x = (case slot s x of Some i \<Rightarrow> unat (b_refcnt (bufs s i)) | None \<Rightarrow> 0)"

definition nfree :: "'a bufst_scheme \<Rightarrow> nat" where
  "nfree s = card {i. i < NBUF \<and> b_refcnt (bufs s i) = 0}"

definition held :: "'a bufst_scheme \<Rightarrow> nat \<Rightarrow> (u32 \<times> u32) option" where
  "held s i = (if i < NBUF \<and> sl_locked (slocks s (SL_buf i)) \<noteq> 0 then Some (key s i) else None)"

text \<open>
  Device 0 stands for a buffer that was never used.  The last clause is about a quiet machine, on which
  no process waits for a buffer.
\<close>

definition keys_ok :: "'a bufst_scheme \<Rightarrow> bool" where
  "keys_ok s \<longleftrightarrow>
     (\<forall>i < NBUF. b_dev (bufs s i) = 0 \<longrightarrow> \<not> b_valid (bufs s i) \<and> b_refcnt (bufs s i) = 0) \<and>
     (\<forall>i < NBUF. \<forall>j < NBUF. b_dev (bufs s i) \<noteq> 0 \<and> key s i = key s j \<longrightarrow> i = j)"

definition bufs_ok :: "nat \<Rightarrow> 'a bufst_scheme \<Rightarrow> bool" where
  "bufs_ok p s \<longleftrightarrow> keys_ok s \<and>
     (\<forall>i < NBUF. b_refcnt (bufs s i) = 0 \<longrightarrow> held s i = None \<and>
        (b_valid (bufs s i) \<longrightarrow> block (b_data (bufs s i)) = dsk s (key s i))) \<and>
     (\<forall>i < NBUF. held s i \<noteq> None \<longrightarrow> b_valid (bufs s i) \<and> sl_pid (slocks s (SL_buf i)) = pid (procs s p))"

definition cache_inv :: "nat \<Rightarrow> 'a bufst_scheme \<Rightarrow> bool" where
  "cache_inv p s \<longleftrightarrow> quiet s \<and> me s = Some p \<and> (\<exists>xs. ring (bnext s) (bprev s) xs) \<and> bufs_ok p s \<and>
     (\<forall>q i. pstate (procs s q) = SLEEPING \<longrightarrow> pchan (procs s q) \<noteq> Some (Ch_slk (SL_buf i)))"

lemma slot_Some: "keys_ok s \<Longrightarrow> j < NBUF \<Longrightarrow> b_dev (bufs s j) \<noteq> 0 \<Longrightarrow> slot s (key s j) = Some j"
proof -
  assume a: "keys_ok s" "j < NBUF" "b_dev (bufs s j) \<noteq> 0"
  have "key s k \<noteq> key s j" if "k < j" for k
  proof
    assume k: "key s k = key s j"
    then have "b_dev (bufs s k) \<noteq> 0" using a(3) by (simp add: key_def)
    then have "k = j" using a(1,2) k that unfolding keys_ok_def by (meson less_trans)
    then show False using that by simp
  qed
  then show ?thesis unfolding slot_def find_upt_Some using a(2) by simp
qed

lemma slot_None: "(\<forall>j < NBUF. key s j \<noteq> x) \<Longrightarrow> slot s x = None"
  by (simp add: slot_def find_upt_None)

lemma slot_SomeD: "slot s x = Some i \<Longrightarrow> i < NBUF \<and> key s i = x"
  unfolding slot_def find_upt_Some by simp

lemma slot_dev0:
  assumes "keys_ok s" and "fst x = 0"
  shows "seen s x = dsk s x" and "refs s x = 0"
proof -
  have "\<not> b_valid (bufs s i) \<and> b_refcnt (bufs s i) = 0" if "slot s x = Some i" for i
    using slot_SomeD [OF that] assms by (auto simp: keys_ok_def key_def)
  then show "seen s x = dsk s x" "refs s x = 0" by (auto simp: seen_def refs_def split: option.splits)
qed

lemma seen_at:
  assumes "keys_ok s" and "j < NBUF" and "fst (key s j) \<noteq> 0"
  shows "seen s (key s j) = (if b_valid (bufs s j) then block (b_data (bufs s j)) else dsk s (key s j))"
    and "refs s (key s j) = unat (b_refcnt (bufs s j))"
  using slot_Some [of s j] assms by (simp_all add: seen_def refs_def key_def)

lemma seen_none:
  assumes "\<forall>j < NBUF. key s j \<noteq> x"
  shows "seen s x = dsk s x" and "refs s x = 0"
  using slot_None [OF assms] by (simp_all add: seen_def refs_def)

section \<open>Changes to one buffer\<close>

text \<open>Buffer \<open>i\<close> replaced by \<open>b\<close> and locked by process \<open>p\<close>.\<close>

definition take_buf :: "nat \<Rightarrow> nat \<Rightarrow> buf \<Rightarrow> 'a bufst_scheme \<Rightarrow> 'a bufst_scheme" where
  "take_buf p i b s = slept (SL_buf i) (pid (procs s p)) (upd_buf i (\<lambda>_. b) s)"

lemma upd_buf_frame [frame_simps]:
  "irq_ok (upd_buf i f s) \<longleftrightarrow> irq_ok s" "free l (upd_buf i f s) \<longleftrightarrow> free l s"
  "mycpu (upd_buf i f s) = mycpu s" "upd_buf i f (grab l s) = grab l (upd_buf i f s)"
  "procs (upd_buf i f s) = procs s" "me (upd_buf i f s) = me s" "slocks (upd_buf i f s) = slocks s"
  "proc_locks_free (upd_buf i f s) \<longleftrightarrow> proc_locks_free s" "quiet (upd_buf i f s) \<longleftrightarrow> quiet s"
  "disk (upd_buf i f s) = disk s" "disk_done (upd_buf i f s) = disk_done s"
  "bnext (upd_buf i f s) = bnext s" "bprev (upd_buf i f s) = bprev s"
  "bufs (upd_buf i f s) = (bufs s)(i := f (bufs s i))"
  by (simp_all add: upd_buf_def frame_simps me_def proc_locks_free_def quiet_def)

lemma bufs_frame2 [frame_simps]:
  "bufs (upd_slock l g s) = bufs s" "disk (upd_slock l g s) = disk s" "disk_done (upd_slock l g s) = disk_done s"
  "bnext (upd_slock l g s) = bnext s" "bprev (upd_slock l g s) = bprev s" "quiet (upd_slock l g s) \<longleftrightarrow> quiet s"
  by (simp_all add: upd_slock_def frame_simps me_def quiet_def)

lemma take_buf_simps [frame_simps]:
  "bufs (take_buf p i b s) = (bufs s)(i := b)" "procs (take_buf p i b s) = procs s"
  "slocks (take_buf p i b s) = (slocks s)(SL_buf i := (slocks s (SL_buf i))\<lparr>sl_locked := 1, sl_pid := pid (procs s p)\<rparr>)"
  "quiet (take_buf p i b s) \<longleftrightarrow> quiet s" "me (take_buf p i b s) = me s"
  "disk (take_buf p i b s) = disk s" "disk_done (take_buf p i b s) = disk_done s"
  "bnext (take_buf p i b s) = bnext s" "bprev (take_buf p i b s) = bprev s"
  by (simp_all add: take_buf_def slept_def frame_simps)

lemma dsk_take [simp]: "dsk (take_buf p i b s) = dsk s"
  by (auto simp: dsk_def frame_simps)

lemma key_take: "key (take_buf p i b s) j = (if j = i then (b_dev b, b_blockno b) else key s j)"
  by (simp add: key_def frame_simps)

lemma held_take:
  "i < NBUF \<Longrightarrow> held (take_buf p i b s) = (held s)(i \<mapsto> (b_dev b, b_blockno b))"
  by (auto simp: held_def key_def frame_simps fun_eq_iff)

lemma card_zero_upd:
  assumes "i < NBUF"
  shows "card {j. j < NBUF \<and> (B(i := b)) j = (0 :: u32)} =
    card {j. j < NBUF \<and> B j = 0} - (if B i = 0 then 1 else 0) + (if b = 0 then 1 else 0)"
proof -
  let ?A = "{j. j < NBUF \<and> B j = 0}"
  have eq: "{j. j < NBUF \<and> (B(i := b)) j = 0} = (if b = 0 then insert i (?A - {i}) else ?A - {i})"
    using assms by auto
  have "finite ?A" by simp
  moreover have "B i = 0 \<Longrightarrow> 0 < card ?A" using assms \<open>finite ?A\<close> by (auto simp: card_gt_0_iff)
  ultimately show ?thesis unfolding eq using assms by (auto simp: card_insert_if card_Diff_singleton_if)
qed

lemma nfree_upd:
  assumes "i < NBUF" and "\<And>j. j \<noteq> i \<Longrightarrow> b_refcnt (bufs t j) = b_refcnt (bufs s j)"
  shows "nfree t = nfree s - (if b_refcnt (bufs s i) = 0 then 1 else 0) +
    (if b_refcnt (bufs t i) = 0 then 1 else 0)"
proof -
  have "(\<lambda>j. b_refcnt (bufs t j)) = (\<lambda>j. b_refcnt (bufs s j))(i := b_refcnt (bufs t i))"
    using assms(2) by auto
  then have "nfree t = card {j. j < NBUF \<and> ((\<lambda>j. b_refcnt (bufs s j))(i := b_refcnt (bufs t i))) j = 0}"
    unfolding nfree_def by metis
  then show ?thesis unfolding card_zero_upd [OF assms(1)] nfree_def by simp
qed

text \<open>
  \<open>target s x i\<close>: buffer \<open>i\<close> is the one that \<^verbatim>\<open>bget\<close> may give for block \<open>x\<close>, its own or one to recycle.
\<close>

definition target :: "'a bufst_scheme \<Rightarrow> u32 \<times> u32 \<Rightarrow> nat \<Rightarrow> bool" where
  "target s x i \<longleftrightarrow> i < NBUF \<and> fst x \<noteq> 0 \<and>
     (slot s x = Some i \<or> slot s x = None \<and> b_refcnt (bufs s i) = 0)"

lemma slot_NoneD: "slot s x = None \<Longrightarrow> j < NBUF \<Longrightarrow> key s j \<noteq> x"
  by (simp add: slot_def find_upt_None)

lemma target_unique:
  assumes "keys_ok s" and "target s x i" and "j < NBUF" and "j \<noteq> i"
  shows "key s j \<noteq> x"
proof
  assume "key s j = x"
  then have "b_dev (bufs s j) \<noteq> 0" using assms(2) by (auto simp: target_def key_def)
  then have "slot s x = Some j" using slot_Some [OF assms(1,3)] \<open>key s j = x\<close> by simp
  then show False using assms(2,4) by (simp add: target_def)
qed

lemma keys_ok_upd:
  assumes "keys_ok s" and "target s x i" and "(b_dev b, b_blockno b) = x" and "bufs t = (bufs s)(i := b)"
  shows "keys_ok t"
proof -
  have kt: "key t j = (if j = i then x else key s j)" for j using assms(3,4) by (simp add: key_def)
  have u: "j = k" if "j < NBUF" "k < NBUF" "b_dev (bufs t j) \<noteq> 0" "key t j = key t k" for j k
  proof (rule ccontr)
    assume ne: "j \<noteq> k"
    have n: "key s m \<noteq> x" if "m < NBUF" "m \<noteq> i" for m using target_unique [OF assms(1,2) that] .
    have "j \<noteq> i" using n [of k] that ne kt by auto
    moreover have "k \<noteq> i" using n [of j] that ne kt by auto
    ultimately have "b_dev (bufs s j) \<noteq> 0" "key s j = key s k" using that kt assms(4) by simp_all
    then show False using assms(1) that(1,2) ne unfolding keys_ok_def by blast
  qed
  have "fst x \<noteq> 0" using assms(2) by (simp add: target_def)
  then have "b_dev b \<noteq> 0" using assms(3) by auto
  then have "\<not> b_valid (bufs t j) \<and> b_refcnt (bufs t j) = 0" if "j < NBUF" "b_dev (bufs t j) = 0" for j
    using that assms(1,4) by (cases "j = i") (simp_all add: keys_ok_def)
  then show ?thesis using u unfolding keys_ok_def by blast
qed

text \<open>Replacing the target's buffer by one with the right contents changes no contents.\<close>

lemma target_views:
  assumes ok: "keys_ok s" and tg: "target s x i" and b: "(b_dev b, b_blockno b) = x"
    and t: "bufs t = (bufs s)(i := b)" and d: "dsk t = dsk s"
    and v: "b_valid b" "block (b_data b) = c"
    and clean: "b_refcnt (bufs s i) = 0 \<and> b_valid (bufs s i) \<Longrightarrow> block (b_data (bufs s i)) = dsk s (key s i)"
  shows "seen t = (seen s)(x := c)" and "refs t = (refs s)(x := unat (b_refcnt b))"
proof -
  have kt: "key t j = (if j = i then x else key s j)" for j using b t by (simp add: key_def)
  have i: "i < NBUF" "fst x \<noteq> 0" using tg by (simp_all add: target_def)
  have okt: "keys_ok t" by (rule keys_ok_upd [OF ok tg b t])
  have at: "seen t x = c" "refs t x = unat (b_refcnt b)"
    using seen_at [OF okt i(1)] i(2) kt v t by simp_all
  have other: "seen t y = seen s y \<and> refs t y = refs s y" if y: "y \<noteq> x" for y
  proof (cases "fst y = 0")
    case True
    then show ?thesis using slot_dev0 ok okt d by metis
  next
    case False
    show ?thesis
    proof (cases "\<exists>j < NBUF. j \<noteq> i \<and> key s j = y")
      case True
      then obtain j where j: "j < NBUF" "j \<noteq> i" "key s j = y" by blast
      then have "key t j = y" using kt by simp
      then show ?thesis
        using seen_at [OF okt j(1)] seen_at [OF ok j(1)] False j t d by auto
    next
      case none: False
      then have "\<forall>j < NBUF. key t j \<noteq> y" using kt y by auto
      then have t0: "seen t y = dsk s y" "refs t y = 0" using seen_none d by metis+
      show ?thesis
      proof (cases "key s i = y")
        case True
        then have "slot s x \<noteq> Some i" using slot_SomeD y by blast
        then have r0: "b_refcnt (bufs s i) = 0" using tg by (simp add: target_def)
        then show ?thesis using seen_at [OF ok i(1)] False True clean t0 by auto
      next
        case False
        then have "\<forall>j < NBUF. key s j \<noteq> y" using none by auto
        then show ?thesis using seen_none t0 by metis
      qed
    qed
  qed
  show "seen t = (seen s)(x := c)" "refs t = (refs s)(x := unat (b_refcnt b))"
    using at other by (auto simp: fun_eq_iff)
qed

section \<open>Reading a block\<close>

lemma find_SomeD: "find P xs = Some i \<Longrightarrow> i \<in> set xs \<and> P i"
  by (induction xs) (auto split: if_splits)

lemma find_unique:
  assumes "i \<in> set xs" and "P i" and "\<And>j. j \<in> set xs \<Longrightarrow> P j \<Longrightarrow> j = i"
  shows "find P xs = Some i"
proof (cases "find P xs")
  case None
  then show ?thesis using assms(1,2) by (simp add: find_None_iff)
next
  case (Some j)
  then have "j = i" using find_SomeD [OF Some] assms(3) by simp
  then show ?thesis using Some by simp
qed

text \<open>Everything a buffer operation may change.\<close>

definition bio_frame :: "'a bufst_scheme \<Rightarrow> 'a bufst_scheme \<Rightarrow> bool" where
  "bio_frame s t \<longleftrightarrow> (\<exists>B N P D T K. t = s\<lparr>slocks := K, bufs := B, bnext := N, bprev := P, disk := D, disk_done := T\<rparr>)"

lemma bio_frame_refl: "bio_frame s s"
proof -
  have "s = s\<lparr>slocks := slocks s, bufs := bufs s, bnext := bnext s, bprev := bprev s, disk := disk s,
      disk_done := disk_done s\<rparr>" by simp
  then show ?thesis unfolding bio_frame_def by blast
qed

lemma bio_frame_trans:
  assumes "bio_frame s t" and "bio_frame t u"
  shows "bio_frame s u"
proof -
  obtain B N P D T K where t: "t = s\<lparr>slocks := K, bufs := B, bnext := N, bprev := P, disk := D, disk_done := T\<rparr>"
    using assms(1) unfolding bio_frame_def by blast
  obtain B' N' P' D' T' K' where
    u: "u = t\<lparr>slocks := K', bufs := B', bnext := N', bprev := P', disk := D', disk_done := T'\<rparr>"
    using assms(2) unfolding bio_frame_def by blast
  have "u = s\<lparr>slocks := K', bufs := B', bnext := N', bprev := P', disk := D', disk_done := T'\<rparr>"
    unfolding u t by (cases s) simp
  then show ?thesis unfolding bio_frame_def by blast
qed

lemma bio_frame_take: "bio_frame s (take_buf p i b s)"
proof -
  have "take_buf p i b s = s\<lparr>slocks := slocks (take_buf p i b s), bufs := bufs (take_buf p i b s), bnext := bnext s,
      bprev := bprev s, disk := disk s, disk_done := disk_done s\<rparr>"
    by (cases s) (simp add: take_buf_def slept_def upd_slock_def upd_buf_def)
  then show ?thesis unfolding bio_frame_def by blast
qed

lemma cache_inv_simps:
  assumes "cache_inv p s"
  shows "quiet s" "irq_ok s" "free l s" "noff (mycpu s) = 0" "proc_locks_free s" "me s = Some p" "p < NPROC"
    "bufs_ok p s" "keys_ok s"
  using assms quiet_procs [of s] quiet_me [of s p]
  by (auto simp: cache_inv_def quiet_def bufs_ok_def)

lemma take_inv:
  assumes inv: "cache_inv p s" and tg: "target s x i" and b: "(b_dev b, b_blockno b) = x"
    and v: "b_valid b" "b_refcnt b \<noteq> 0"
  shows "cache_inv p (take_buf p i b s)"
proof -
  note c = cache_inv_simps [OF inv]
  have i: "i < NBUF" using tg by (simp add: target_def)
  have "keys_ok (take_buf p i b s)" by (rule keys_ok_upd [OF c(9) tg b]) (simp add: frame_simps)
  moreover have "held (take_buf p i b s) j = None \<and>
      (b_valid (bufs (take_buf p i b s) j) \<longrightarrow>
        block (b_data (bufs (take_buf p i b s) j)) = dsk (take_buf p i b s) (key (take_buf p i b s) j))"
    if "j < NBUF" "b_refcnt (bufs (take_buf p i b s) j) = 0" for j
    using that c(8) v by (cases "j = i") (auto simp: bufs_ok_def held_take [OF i] key_take frame_simps)
  moreover have "b_valid (bufs (take_buf p i b s) j) \<and>
      sl_pid (slocks (take_buf p i b s) (SL_buf j)) = pid (procs (take_buf p i b s) p)"
    if "j < NBUF" "held (take_buf p i b s) j \<noteq> None" for j
    using that c(8) v by (cases "j = i") (auto simp: bufs_ok_def held_take [OF i] frame_simps)
  ultimately show ?thesis
    using inv by (auto simp: cache_inv_def bufs_ok_def frame_simps)
qed

text \<open>The buffer that \<^verbatim>\<open>bget\<close> leaves for block \<open>x\<close> in slot \<open>i\<close>.\<close>

definition got_buf :: "'a bufst_scheme \<Rightarrow> u32 \<times> u32 \<Rightarrow> nat \<Rightarrow> buf" where
  "got_buf s x i =
     (if slot s x = Some i then (bufs s i)\<lparr>b_refcnt := b_refcnt (bufs s i) + 1\<rparr>
      else (bufs s i)\<lparr>b_dev := fst x, b_blockno := snd x, b_valid := False, b_refcnt := 1\<rparr>)"

lemma get_and_lock:
  assumes inv: "cache_inv p s" and i: "held s i = None" "i < NBUF"
  shows "kthen (release L_bcache (upd_buf i f (grab L_bcache s))) (\<lambda>s. kthen (acquiresleep (SL_buf i) s) (\<lambda>s. Ok i s)) =
    Ok i (take_buf p i (f (bufs s i)) s)"
proof -
  note c = cache_inv_simps [OF inv]
  have "sl_locked (slocks s (SL_buf i)) = 0" using i by (auto simp: held_def split: if_splits)
  moreover have "free (L_proc p) (upd_buf i f s)" "free (L_slk (SL_buf i)) (upd_buf i f s)"
    using c(3) by (simp_all add: frame_simps)
  moreover have "upd_buf i (\<lambda>_. f (bufs s i)) s = upd_buf i f s" by (simp add: upd_buf_def)
  ultimately show ?thesis
    using c acquiresleep_eq [of "upd_buf i f s" "SL_buf i" p]
    by (simp add: frame_simps kernel_simps take_buf_def)
qed

lemma bget_ok:
  assumes inv: "cache_inv p s" and x: "fst x \<noteq> 0" "\<forall>i. held s i \<noteq> Some x"
    and room: "refs s x \<noteq> 0 \<or> 0 < nfree s"
  shows "\<exists>i. target s x i \<and> held s i = None \<and>
     bget (fst x) (snd x) s = Ok i (take_buf p i (got_buf s x i) s)"
proof -
  note c = cache_inv_simps [OF inv]
  obtain xs where ring: "ring (bnext s) (bprev s) xs" using inv by (auto simp: cache_inv_def)
  then have set: "set xs = {..<NBUF}" by (simp add: ring_def)
  let ?g = "grab L_bcache s"
  have g: "bufs ?g = bufs s" "bnext ?g = bnext s" "bprev ?g = bprev s" by (simp_all add: frame_simps)
  let ?P = "\<lambda>i. b_dev (bufs s i) = fst x \<and> b_blockno (bufs s i) = snd x"
  have P: "?P i \<longleftrightarrow> key s i = x" for i by (auto simp: key_def prod_eq_iff)
  show ?thesis
  proof (cases "slot s x")
    case (Some i)
    then have i: "i < NBUF" "key s i = x" using slot_SomeD [of s x i] by simp_all
    have tg: "target s x i" using Some i x(1) by (simp add: target_def)
    have h: "held s i = None" using x(2) i by (auto simp: held_def split: if_splits)
    have "find ?P xs = Some i"
      by (rule find_unique) (use i set P target_unique [OF c(9) tg] in auto)
    then have "bget (fst x) (snd x) s = Ok i (take_buf p i (got_buf s x i) s)"
      using get_and_lock [OF inv h i(1)] ring_find(1) [OF ring, of ?P] Some c(3)
      by (simp add: bget_def kernel_simps g got_buf_def)
    then show ?thesis using tg h by blast
  next
    case None
    have "find ?P xs = None"
      using slot_NoneD [OF None] set P unfolding find_None_iff by auto
    then have miss: "find_buf NBUF (bnext s) ?P (bnext s Head) = Missing"
      using ring_find(1) [OF ring, of ?P] by simp
    let ?Q = "\<lambda>i. b_refcnt (bufs s i) = 0"
    have "0 < nfree s" using room None by (simp add: refs_def)
    then have "{i. i < NBUF \<and> ?Q i} \<noteq> {}" unfolding nfree_def using card_gt_0_iff by blast
    then have "find ?Q (rev xs) \<noteq> None" unfolding find_None_iff using set by auto
    then obtain i where f: "find ?Q (rev xs) = Some i" by auto
    then have i: "i < NBUF" "?Q i" using set find_SomeD [OF f] by simp_all
    have h: "held s i = None" using c(8) i by (simp add: bufs_ok_def)
    have "bget (fst x) (snd x) s = Ok i (take_buf p i (got_buf s x i) s)"
      using get_and_lock [OF inv h i(1)] ring_find(2) [OF ring, of ?Q] f miss None c(3)
      by (simp add: bget_def kernel_simps g got_buf_def)
    moreover have "target s x i" using i x(1) None by (simp add: target_def)
    ultimately show ?thesis using h by blast
  qed
qed

text \<open>
  What \<^verbatim>\<open>bread\<close> of block \<open>x\<close> does in state \<open>s\<close>: buffer \<open>i\<close> is locked and holds the contents, one more
  reference is counted, and nobody sees any other change.
\<close>

definition reads :: "nat \<Rightarrow> 'a bufst_scheme \<Rightarrow> u32 \<times> u32 \<Rightarrow> nat \<Rightarrow> 'a bufst_scheme \<Rightarrow> bool" where
  "reads p s x i t \<longleftrightarrow> cache_inv p t \<and> bio_frame s t \<and> i < NBUF \<and> held s i = None \<and> held t = (held s)(i \<mapsto> x) \<and>
     seen t = seen s \<and> disk t = disk s \<and> disk_done t = disk_done s \<and>
     refs t = (refs s)(x := refs s x + 1) \<and> nfree t = nfree s - (if refs s x = 0 then 1 else 0) \<and>
     block (b_data (bufs t i)) = seen s x \<and> (\<forall>j. j \<noteq> i \<longrightarrow> bufs t j = bufs s j)"

lemma dsk_cong: "disk t = disk s \<Longrightarrow> dsk t = dsk s"
  by (rule ext) (simp add: dsk_def)

lemma block_splice [simp]: "block (splice d 0 BSIZE e) = block e"
  by (auto simp: block_def splice_def)

lemma block_block [simp]: "block (block d) = block d"
  by (auto simp: block_def)

lemma take_reads:
  assumes inv: "cache_inv p s" and tg: "target s x i" and h: "held s i = None"
    and b: "(b_dev b, b_blockno b) = x" "b_valid b" "unat (b_refcnt b) = refs s x + 1"
      "block (b_data b) = seen s x"
  shows "reads p s x i (take_buf p i b s)"
proof -
  let ?t = "take_buf p i b s"
  note c = cache_inv_simps [OF inv]
  have i: "i < NBUF" "fst x \<noteq> 0" using tg by (simp_all add: target_def)
  have r: "b_refcnt b \<noteq> 0" using b(3) by auto
  have clean: "b_refcnt (bufs s i) = 0 \<and> b_valid (bufs s i) \<Longrightarrow> block (b_data (bufs s i)) = dsk s (key s i)"
    using c(8) i(1) by (simp add: bufs_ok_def)
  have bt: "bufs ?t = (bufs s)(i := b)" by (simp add: frame_simps)
  note views = target_views [OF c(9) tg b(1) bt dsk_take b(2,4) clean]
  have "refs s x = 0 \<longleftrightarrow> b_refcnt (bufs s i) = 0"
    using tg by (auto simp: target_def refs_def unsigned_eq_0_iff)
  moreover have "nfree ?t = nfree s - (if b_refcnt (bufs s i) = 0 then 1 else 0) + (if b_refcnt b = 0 then 1 else 0)"
    using nfree_upd [OF i(1), of ?t s] bt by simp
  moreover have "cache_inv p ?t" by (rule take_inv [OF inv tg b(1,2) r])
  ultimately show ?thesis
    using views b h i r held_take [OF i(1), of p b s] bio_frame_take
    by (auto simp: reads_def frame_simps)
qed

lemma bread_ok:
  assumes inv: "cache_inv p s" and x: "fst x \<noteq> 0" "\<forall>i. held s i \<noteq> Some x"
    and room: "refs s x \<noteq> 0 \<or> 0 < nfree s" and bound: "refs s x + 1 < 2 ^ 32"
  shows "\<exists>i t. bread (fst x) (snd x) s = Ok i t \<and> reads p s x i t"
proof -
  note c = cache_inv_simps [OF inv]
  obtain i where tg: "target s x i" and h: "held s i = None"
    and get: "bget (fst x) (snd x) s = Ok i (take_buf p i (got_buf s x i) s)"
    using bget_ok [OF inv x room] by blast
  let ?g = "got_buf s x i" and ?t = "take_buf p i (got_buf s x i) s"
  have i: "i < NBUF" using tg by (simp add: target_def)
  have kg: "(b_dev ?g, b_blockno ?g) = x"
    using tg slot_SomeD [of s x i] by (auto simp: got_buf_def target_def key_def)
  have "unat (b_refcnt (bufs s i) + 1) = unat (b_refcnt (bufs s i)) + 1" if "slot s x = Some i"
    using bound that by (simp add: refs_def unat_word_ariths)
  then have rg: "unat (b_refcnt ?g) = refs s x + 1"
    using tg by (auto simp: got_buf_def target_def refs_def)
  show ?thesis
  proof (cases "b_valid ?g")
    case True
    then have sl: "slot s x = Some i" using tg by (auto simp: target_def got_buf_def)
    then have "block (b_data ?g) = seen s x" using True by (simp add: seen_def got_buf_def)
    then have "reads p s x i ?t" by (rule take_reads [OF inv tg h kg True rg])
    then show ?thesis using get True by (auto simp: bread_def frame_simps)
  next
    case False
    let ?b = "?g\<lparr>b_data := splice (b_data ?g) 0 BSIZE (disk s (b_dev ?g) (b_blockno ?g)), b_valid := True\<rparr>"
    have "\<not> b_valid (bufs s i)" if "slot s x = Some i" using that False by (simp add: got_buf_def)
    then have "seen s x = dsk s x"
      using tg by (auto simp: seen_def target_def)
    moreover have "b_dev ?g = fst x" "b_blockno ?g = snd x"
      using arg_cong [OF kg, of fst] arg_cong [OF kg, of snd] by simp_all
    ultimately have "block (b_data ?b) = seen s x" by (simp add: dsk_def)
    then have "reads p s x i (take_buf p i ?b s)"
      by (intro take_reads [OF inv tg h]) (use kg rg in auto)
    moreover have "upd_buf i (\<lambda>b. b\<lparr>b_valid := True\<rparr>) (virtio_disk_rw i False ?t) = take_buf p i ?b s"
      by (cases s) (simp add: virtio_disk_rw_def take_buf_def slept_def upd_buf_def upd_slock_def Let_def)
    ultimately show ?thesis using get False by (auto simp: bread_def frame_simps)
  qed
qed

section \<open>Writing, releasing and pinning\<close>

lemma cached_facts:
  assumes "cache_inv p s" and "slot s x = Some i" and "fst x \<noteq> 0"
  shows "i < NBUF" "key s i = x" "b_dev (bufs s i) = fst x" "b_blockno (bufs s i) = snd x" "target s x i"
    "refs s x = unat (b_refcnt (bufs s i))"
    "j < NBUF \<Longrightarrow> key s j = x \<longleftrightarrow> j = i"
proof -
  note c = cache_inv_simps [OF assms(1)]
  show 1: "i < NBUF" "key s i = x" using slot_SomeD [OF assms(2)] by simp_all
  then show "b_dev (bufs s i) = fst x" "b_blockno (bufs s i) = snd x" by (auto simp: key_def)
  show tg: "target s x i" using assms 1 by (simp add: target_def)
  show "refs s x = unat (b_refcnt (bufs s i))" using assms(2) by (simp add: refs_def)
  show "j < NBUF \<Longrightarrow> key s j = x \<longleftrightarrow> j = i" using target_unique [OF c(9) tg, of j] 1 by auto
qed

lemma held_facts:
  assumes "cache_inv p s" and "held s i = Some x"
  shows "slot s x = Some i" "fst x \<noteq> 0" "b_valid (bufs s i)" "b_refcnt (bufs s i) \<noteq> 0" "0 < refs s x"
    "seen s x = block (b_data (bufs s i))" "holdingsleep (SL_buf i) s = Ok True s"
proof -
  note c = cache_inv_simps [OF assms(1)]
  have i: "i < NBUF" "key s i = x" "sl_locked (slocks s (SL_buf i)) \<noteq> 0"
    using assms(2) by (auto simp: held_def split: if_splits)
  show r: "b_refcnt (bufs s i) \<noteq> 0" using c(8) i assms(2) by (auto simp: bufs_ok_def)
  have v: "b_valid (bufs s i)" "sl_pid (slocks s (SL_buf i)) = pid (procs s p)"
    using c(8) i assms(2) by (auto simp: bufs_ok_def)
  then show "b_valid (bufs s i)" by simp
  show d: "fst x \<noteq> 0" using c(9) i(1) r i(2) by (auto simp: keys_ok_def key_def)
  then show sl: "slot s x = Some i" using slot_Some [OF c(9) i(1)] i(2) by (auto simp: key_def)
  show "seen s x = block (b_data (bufs s i))" using sl v by (simp add: seen_def)
  show "0 < refs s x" using sl r unat_gt_0 by (auto simp: refs_def)
  show "holdingsleep (SL_buf i) s = Ok True s"
    using holdingsleep_eq [of s "SL_buf i" p] c i v by simp
qed

text \<open>A change of the buffer of block \<open>x\<close> that keeps its block number, and perhaps its lock.\<close>

lemma buf_change:
  assumes inv: "cache_inv p s" and sl: "slot s x = Some i" and d: "fst x \<noteq> 0"
    and t: "bufs t = (bufs s)(i := b)" "disk t = disk s"
    and b: "(b_dev b, b_blockno b) = x" "b_valid b" "block (b_data b) = c"
    and q: "quiet t" "me t = me s" "procs t = procs s"
    and rg: "\<exists>xs. ring (bnext t) (bprev t) xs"
    and clean: "b_refcnt b = 0 \<Longrightarrow> c = dsk s x \<and> held t i = None"
    and lk: "\<And>j. j \<noteq> i \<Longrightarrow> slocks t (SL_buf j) = slocks s (SL_buf j)"
    and own: "held t i \<noteq> None \<Longrightarrow> slocks t (SL_buf i) = slocks s (SL_buf i)"
  shows "cache_inv p t" "seen t = (seen s)(x := c)" "refs t = (refs s)(x := unat (b_refcnt b))"
    "nfree t = nfree s - (if b_refcnt (bufs s i) = 0 then 1 else 0) + (if b_refcnt b = 0 then 1 else 0)"
    "held t = (held s)(i := held t i)"
proof -
  note c = cache_inv_simps [OF inv]
  note f = cached_facts [OF inv sl d]
  have dt: "dsk t = dsk s" using t(2) by (rule dsk_cong)
  have kt: "key t j = key s j" for j using t(1) b(1) f(2) by (cases "j = i") (simp_all add: key_def)
  have cl: "b_refcnt (bufs s i) = 0 \<and> b_valid (bufs s i) \<Longrightarrow> block (b_data (bufs s i)) = dsk s (key s i)"
    using c(8) f(1) by (simp add: bufs_ok_def)
  show "seen t = (seen s)(x := c)" "refs t = (refs s)(x := unat (b_refcnt b))"
    using target_views [OF c(9) f(5) b(1) t(1) dt b(2,3) cl] by auto
  show "nfree t = nfree s - (if b_refcnt (bufs s i) = 0 then 1 else 0) + (if b_refcnt b = 0 then 1 else 0)"
    using nfree_upd [OF f(1), of t s] t(1) by simp
  have ho: "held t j = held s j" if "j \<noteq> i" for j
    using lk [OF that] kt by (simp add: held_def)
  then show "held t = (held s)(i := held t i)" by (auto simp: fun_eq_iff)
  have ok: "keys_ok t" by (rule keys_ok_upd [OF c(9) f(5) b(1) t(1)])
  have A: "held t j = None \<and> (b_valid (bufs t j) \<longrightarrow> block (b_data (bufs t j)) = dsk t (key t j))"
    if "j < NBUF" "b_refcnt (bufs t j) = 0" for j
    using that c(8) ho t(1) clean b f(2) kt dt
    by (cases "j = i") (simp_all add: bufs_ok_def)
  have B: "b_valid (bufs t j) \<and> sl_pid (slocks t (SL_buf j)) = pid (procs t p)"
    if "j < NBUF" "held t j \<noteq> None" for j
  proof (cases "j = i")
    case True
    have "held t i \<noteq> None" using that(2) True by simp
    note l = own [OF this]
    have "held s i \<noteq> None" using \<open>held t i \<noteq> None\<close> l by (simp add: held_def split: if_splits)
    then have "sl_pid (slocks s (SL_buf i)) = pid (procs s p)"
      using c(8) f(1) unfolding bufs_ok_def by blast
    then show ?thesis unfolding True t(1) q(3) l using b(2) by simp
  next
    case False
    then have "held s j \<noteq> None" using that(2) ho by simp
    then have "b_valid (bufs s j) \<and> sl_pid (slocks s (SL_buf j)) = pid (procs s p)"
      using c(8) that(1) unfolding bufs_ok_def by blast
    then show ?thesis unfolding t(1) q(3) using lk [OF False] False by simp
  qed
  have "bufs_ok p t" unfolding bufs_ok_def using ok A B by blast
  moreover have "\<forall>q i. pstate (procs t q) = SLEEPING \<longrightarrow> pchan (procs t q) \<noteq> Some (Ch_slk (SL_buf i))"
    using inv unfolding q(3) cache_inv_def by blast
  ultimately show "cache_inv p t" unfolding cache_inv_def using q(1,2) c(6) rg by simp
qed

lemma dsk_put: "dsk (s\<lparr>disk := disk_put (d, n, e) D, disk_done := T\<rparr>) x =
  (if x = (d, n) then block e else dsk (s\<lparr>disk := D\<rparr>) x)"
  by (cases x) (auto simp: dsk_def disk_put_def)

text \<open>A store into a locked buffer.\<close>

lemma modify_ok:
  fixes g :: "bytes \<Rightarrow> bytes"
  assumes inv: "cache_inv p s" and h: "held s i = Some x"
  defines "t \<equiv> upd_buf i (\<lambda>b. b\<lparr>b_data := g (b_data b)\<rparr>) s"
  shows "cache_inv p t" "bio_frame s t" "held t = held s" "seen t = (seen s)(x := block (g (b_data (bufs s i))))"
    "refs t = refs s" "nfree t = nfree s"
proof -
  note hf = held_facts [OF inv h] and c = cache_inv_simps [OF inv]
  note cf = cached_facts [OF inv hf(1,2)]
  let ?b = "(bufs s i)\<lparr>b_data := g (b_data (bufs s i))\<rparr>"
  have ht: "held t i = held s i" by (simp add: held_def key_def t_def frame_simps)
  have rg: "\<exists>xs. ring (bnext t) (bprev t) xs" using inv by (simp add: cache_inv_def t_def frame_simps)
  note bc = buf_change [where t = t and b = ?b and c = "block (g (b_data (bufs s i)))", OF inv hf(1,2) _ _ _ _ _ _ _ _ rg]
  show "cache_inv p t" "seen t = (seen s)(x := block (g (b_data (bufs s i))))"
    by (rule bc; use hf cf c in \<open>simp add: t_def frame_simps\<close>)+
  have "refs t = (refs s)(x := unat (b_refcnt ?b))"
    by (rule bc; use hf cf c in \<open>simp add: t_def frame_simps\<close>)
  then show "refs t = refs s" using cf(6) by auto
  have "nfree t = nfree s - (if b_refcnt (bufs s i) = 0 then 1 else 0) + (if b_refcnt ?b = 0 then 1 else 0)"
    by (rule bc; use hf cf c in \<open>simp add: t_def frame_simps\<close>)
  then show "nfree t = nfree s" using hf(4) by simp
  have "held t = (held s)(i := held t i)"
    by (rule bc; use hf cf c in \<open>simp add: t_def frame_simps\<close>)
  then show "held t = held s" using ht by auto
  have "t = s\<lparr>slocks := slocks s, bufs := bufs t, bnext := bnext s, bprev := bprev s, disk := disk s,
      disk_done := disk_done s\<rparr>"
    by (simp add: t_def upd_buf_def)
  then show "bio_frame s t" unfolding bio_frame_def by blast
qed

lemma bwrite_ok:
  assumes inv: "cache_inv p s" and h: "held s i = Some x"
  defines "w \<equiv> (fst x, snd x, b_data (bufs s i))"
  defines "t \<equiv> s\<lparr>disk := disk_put w (disk s), disk_done := disk_done s @ [w]\<rparr>"
  shows "bwrite i s = Ok () t" "cache_inv p t" "bio_frame s t" "held t = held s" "seen t = seen s"
    "refs t = refs s" "nfree t = nfree s" "bufs t = bufs s" "dsk t = (dsk s)(x := seen s x)"
proof -
  note hf = held_facts [OF inv h] and c = cache_inv_simps [OF inv]
  note cf = cached_facts [OF inv hf(1,2)]
  show "bwrite i s = Ok () t"
    using hf(7) cf(3,4) by (simp add: bwrite_def virtio_disk_rw_def t_def w_def Let_def)
  show b: "bufs t = bufs s" by (simp add: t_def)
  show d: "dsk t = (dsk s)(x := seen s x)"
    using hf(6) by (auto simp: t_def w_def dsk_put fun_eq_iff)
  have k: "key t j = key s j" "slot t = slot s" for j
    by (simp_all add: key_def slot_def b fun_eq_iff)
  have l: "slocks t = slocks s" by (simp add: t_def)
  show "held t = held s" by (rule ext) (simp add: held_def k l)
  show "refs t = refs s" by (rule ext) (simp add: refs_def k b split: option.split)
  show "nfree t = nfree s" by (simp add: nfree_def b)
  show "seen t = seen s"
  proof
    fix y
    show "seen t y = seen s y"
      using hf(1,3,6) d by (cases "y = x") (simp_all add: seen_def k b split: option.split)
  qed
  have "t = s\<lparr>slocks := slocks s, bufs := bufs s, bnext := bnext s, bprev := bprev s, disk := disk t,
      disk_done := disk_done t\<rparr>"
    by (simp add: t_def)
  then show "bio_frame s t" unfolding bio_frame_def by blast
  have "held t j = None \<and> (b_valid (bufs t j) \<longrightarrow> block (b_data (bufs t j)) = dsk t (key t j))"
    if "j < NBUF" "b_refcnt (bufs t j) = 0" for j
  proof -
    have "j \<noteq> i" using that hf(4) b by auto
    then have "key s j \<noteq> x" using cf(7) [OF that(1)] by simp
    then have "dsk t (key t j) = dsk s (key s j)" by (simp add: d k)
    then show ?thesis using that c(8) unfolding bufs_ok_def \<open>held t = held s\<close> b by simp
  qed
  moreover have "keys_ok t" using c(9) by (simp add: keys_ok_def k b)
  ultimately have "bufs_ok p t"
    using c(8) unfolding bufs_ok_def \<open>held t = held s\<close> b by (simp add: t_def)
  moreover have "quiet t" "me t = me s" "procs t = procs s"
    using c(1) by (simp_all add: t_def quiet_def me_def frame_simps)
  ultimately show "cache_inv p t" using inv by (simp add: cache_inv_def t_def)
qed

lemma set_link_frame [frame_simps]:
  "set_next q r (grab l s) = grab l (set_next q r s)" "set_prev q r (grab l s) = grab l (set_prev q r s)"
  "irq_ok (set_next q r s) \<longleftrightarrow> irq_ok s" "irq_ok (set_prev q r s) \<longleftrightarrow> irq_ok s"
  "free l (set_next q r s) \<longleftrightarrow> free l s" "free l (set_prev q r s) \<longleftrightarrow> free l s"
  by (simp_all add: set_next_def set_prev_def frame_simps)

lemma insert_head_frame [frame_simps]:
  "insert_head b (grab l s) = grab l (insert_head b s)" "irq_ok (insert_head b s) \<longleftrightarrow> irq_ok s"
  "free l (insert_head b s) \<longleftrightarrow> free l s"
  by (simp_all add: insert_head_def Let_def frame_simps)

lemma to_front_grab: "to_front i (grab l s) = grab l (to_front i s)"
  by (simp add: to_front_def insert_head_def Let_def frame_simps)

lemma to_front_simps:
  "bufs (to_front i s) = bufs s" "slocks (to_front i s) = slocks s" "disk (to_front i s) = disk s"
  "disk_done (to_front i s) = disk_done s" "quiet (to_front i s) \<longleftrightarrow> quiet s" "me (to_front i s) = me s"
  "procs (to_front i s) = procs s" "irq_ok (to_front i s) \<longleftrightarrow> irq_ok s" "free l (to_front i s) \<longleftrightarrow> free l s"
  by (simp_all add: to_front_def insert_head_def set_next_def set_prev_def Let_def frame_simps quiet_def me_def)

lemma to_front_frame: "to_front i s = s\<lparr>bnext := bnext (to_front i s), bprev := bprev (to_front i s)\<rparr>"
  by (cases s) (simp add: to_front_def insert_head_def set_next_def set_prev_def Let_def)

lemma to_front_ring_ex:
  assumes "\<exists>xs. ring (bnext s) (bprev s) xs" and "i < NBUF"
  shows "\<exists>xs. ring (bnext (to_front i s)) (bprev (to_front i s)) xs"
proof -
  obtain xs where r: "ring (bnext s) (bprev s) xs" using assms(1) by blast
  then have "i \<in> set xs" using assms(2) by (simp add: ring_def)
  then obtain us vs where "xs = us @ i # vs" by (meson split_list)
  then show ?thesis using to_front_ring [of s us i vs] r by blast
qed

text \<open>The state \<^verbatim>\<open>brelse\<close> leaves: the lock free, one reference less, and the buffer in front when that was the last.\<close>

definition released :: "nat \<Rightarrow> 'a bufst_scheme \<Rightarrow> 'a bufst_scheme" where
  "released i s =
     (let v = upd_buf i (\<lambda>b. b\<lparr>b_refcnt := b_refcnt b - 1\<rparr>)
        (upd_slock (SL_buf i) (\<lambda>k. k\<lparr>sl_locked := 0, sl_pid := 0\<rparr>) s)
      in if b_refcnt (bufs s i) = 1 then to_front i v else v)"

lemma woken_none_buf:
  assumes "cache_inv p s"
  shows "woken (Ch_slk (SL_buf i)) m (procs s) = procs s"
  using assms unfolding cache_inv_def woken_def by auto



lemma brelse_released:
  assumes inv: "cache_inv p s" and h: "held s i = Some x"
  shows "brelse i s = Ok () (released i s)"
proof -
  note hf = held_facts [OF inv h] and c = cache_inv_simps [OF inv]
  let ?u = "upd_slock (SL_buf i) (\<lambda>k. k\<lparr>sl_locked := 0, sl_pid := 0\<rparr>) s"
  have "s\<lparr>procs := woken (Ch_slk (SL_buf i)) (me s) (procs s)\<rparr> = s" using woken_none_buf [OF inv] by simp
  then have rel: "releasesleep (SL_buf i) s = Ok () ?u"
    using releasesleep_eq [of s "SL_buf i"] c by simp
  have "irq_ok ?u" "free L_bcache ?u" using c(2,3) by (simp_all add: frame_simps)
  then show ?thesis
    unfolding brelse_def hf(7)
    using rel by (simp add: kernel_simps frame_simps released_def to_front_def Let_def)
qed

lemma brelse_ok:
  assumes inv: "cache_inv p s" and h: "held s i = Some x"
    and clean: "refs s x = 1 \<Longrightarrow> seen s x = dsk s x"
  defines "t \<equiv> released i s"
  shows "brelse i s = Ok () t" "cache_inv p t" "bio_frame s t" "held t = (held s)(i := None)" "seen t = seen s"
    "disk t = disk s" "disk_done t = disk_done s" "refs t = (refs s)(x := refs s x - 1)"
    "nfree t = nfree s + (if refs s x = 1 then 1 else 0)"
    "j \<noteq> i \<Longrightarrow> bufs t j = bufs s j"
proof -
  note hf = held_facts [OF inv h] and c = cache_inv_simps [OF inv]
  note cf = cached_facts [OF inv hf(1,2)]
  let ?b = "(bufs s i)\<lparr>b_refcnt := b_refcnt (bufs s i) - 1\<rparr>"
  show "brelse i s = Ok () t" unfolding t_def by (rule brelse_released [OF inv h])
  have "b_refcnt (bufs s i) = 1 \<longleftrightarrow> unat (b_refcnt (bufs s i)) = unat (1 :: u32)"
    by (simp only: word_unat_eq_iff)
  then have r1: "b_refcnt (bufs s i) = 1 \<longleftrightarrow> refs s x = 1" using cf(6) by simp
  have "unat (b_refcnt (bufs s i)) > 0" using hf(4) unat_gt_0 by blast
  then have r: "unat (b_refcnt ?b) = refs s x - 1" using cf(6) by (simp add: unat_minus_one hf(4))
  have b: "bufs t = (bufs s)(i := ?b)" by (simp add: t_def released_def Let_def to_front_simps frame_simps)
  then show "j \<noteq> i \<Longrightarrow> bufs t j = bufs s j" by simp
  have sl: "slocks t = (slocks s)(SL_buf i := (slocks s (SL_buf i))\<lparr>sl_locked := 0, sl_pid := 0\<rparr>)"
    by (simp add: t_def released_def Let_def to_front_simps frame_simps)
  then have hi: "held t i = None" by (simp add: held_def)
  show d: "disk t = disk s" "disk_done t = disk_done s"
    by (simp_all add: t_def released_def Let_def to_front_simps frame_simps)
  have q: "quiet t" "me t = me s" "procs t = procs s"
    using c(1) by (simp_all add: t_def released_def Let_def to_front_simps frame_simps)
  have "\<exists>xs. ring (bnext s) (bprev s) xs" using inv by (simp add: cache_inv_def)
  then have rg: "\<exists>xs. ring (bnext t) (bprev t) xs"
    by (auto simp: t_def released_def Let_def frame_simps cf(1) intro!: to_front_ring_ex)
  have cl: "b_refcnt ?b = 0 \<Longrightarrow> seen s x = dsk s x \<and> held t i = None"
    using clean r1 hi by simp
  note bc = buf_change [where t = t and b = ?b and c = "seen s x", OF inv hf(1,2) b d(1) _ _ _ q rg cl]
  have kb: "(b_dev ?b, b_blockno ?b) = x" "b_valid ?b" "block (b_data ?b) = seen s x"
    using cf(3,4) hf(3,6) by auto
  note bc = bc [OF kb]
  show "cache_inv p t" by (rule bc) (use hi sl in auto)
  have "seen t = (seen s)(x := seen s x)" by (rule bc) (use hi sl in auto)
  then show "seen t = seen s" by simp
  have "refs t = (refs s)(x := unat (b_refcnt ?b))" by (rule bc) (use hi sl in auto)
  then show "refs t = (refs s)(x := refs s x - 1)" unfolding r .
  have "nfree t = nfree s - (if b_refcnt (bufs s i) = 0 then 1 else 0) + (if b_refcnt ?b = 0 then 1 else 0)"
    by (rule bc) (use hi sl in auto)
  then show "nfree t = nfree s + (if refs s x = 1 then 1 else 0)" using hf(4) r1 by simp
  have "held t = (held s)(i := held t i)" by (rule bc) (use hi sl in auto)
  then show "held t = (held s)(i := None)" unfolding hi .
  have "t = s\<lparr>slocks := slocks t, bufs := bufs t, bnext := bnext t, bprev := bprev t, disk := disk s,
      disk_done := disk_done s\<rparr>"
    unfolding t_def released_def Let_def
    by (cases s) (simp add: to_front_def insert_head_def set_next_def set_prev_def upd_buf_def upd_slock_def Let_def)
  then show "bio_frame s t" unfolding bio_frame_def by blast
qed

text \<open>Pinning and unpinning a buffer that somebody refers to.\<close>

lemma pin_change:
  assumes inv: "cache_inv p s" and r: "0 < refs s x" and sl: "slot s x = Some i"
    and v: "b_valid (bufs s i)" and m: "m \<noteq> 0 \<or> held s i = None \<and> seen s x = dsk s x"
  defines "t \<equiv> upd_buf i (\<lambda>b. b\<lparr>b_refcnt := m\<rparr>) s"
  shows "cache_inv p t" "bio_frame s t" "held t = held s" "seen t = seen s" "disk t = disk s"
    "disk_done t = disk_done s" "refs t = (refs s)(x := unat m)"
    "nfree t = nfree s + (if m = 0 then 1 else 0)" "slot t = slot s"
proof -
  note c = cache_inv_simps [OF inv]
  have "fst x \<noteq> 0" using r slot_dev0(2) [OF c(9), of x] by auto
  note cf = cached_facts [OF inv sl this] and d = this
  let ?b = "(bufs s i)\<lparr>b_refcnt := m\<rparr>"
  have ht: "held t i = held s i" by (simp add: held_def key_def t_def frame_simps)
  have se: "seen s x = block (b_data (bufs s i))" using sl v by (simp add: seen_def)
  have b: "bufs t = (bufs s)(i := ?b)" "disk t = disk s" by (simp_all add: t_def frame_simps)
  have q: "quiet t" "me t = me s" "procs t = procs s" using c(1) by (simp_all add: t_def frame_simps)
  have rg: "\<exists>xs. ring (bnext t) (bprev t) xs" using inv by (simp add: cache_inv_def t_def frame_simps)
  have kb: "(b_dev ?b, b_blockno ?b) = x" "b_valid ?b" "block (b_data ?b) = seen s x"
    using cf(3,4) v se by auto
  have cl: "b_refcnt ?b = 0 \<Longrightarrow> seen s x = dsk s x \<and> held t i = None" using m ht by auto
  have lk: "slocks t = slocks s" by (simp add: t_def frame_simps)
  note bc = buf_change [OF inv sl d b kb q rg cl]
  show "cache_inv p t" by (rule bc) (simp_all add: lk)
  have "seen t = (seen s)(x := seen s x)" by (rule bc) (simp_all add: lk)
  then show "seen t = seen s" by simp
  have "refs t = (refs s)(x := unat (b_refcnt ?b))" by (rule bc) (simp_all add: lk)
  then show "refs t = (refs s)(x := unat m)" by simp
  have "nfree t = nfree s - (if b_refcnt (bufs s i) = 0 then 1 else 0) + (if b_refcnt ?b = 0 then 1 else 0)"
    by (rule bc) (simp_all add: lk)
  then show "nfree t = nfree s + (if m = 0 then 1 else 0)" using r cf(6) by auto
  have "held t = (held s)(i := held t i)" by (rule bc) (simp_all add: lk)
  then show "held t = held s" using ht by auto
  show "disk t = disk s" "disk_done t = disk_done s" by (simp_all add: t_def frame_simps)
  have "t = s\<lparr>slocks := slocks s, bufs := bufs t, bnext := bnext s, bprev := bprev s, disk := disk s,
      disk_done := disk_done s\<rparr>"
    by (simp add: t_def upd_buf_def)
  then show "bio_frame s t" unfolding bio_frame_def by blast
  have "key t = key s" using cf(3,4) by (auto simp: key_def b fun_eq_iff)
  then show "slot t = slot s" by (simp add: slot_def fun_eq_iff)
qed

lemma bunpin_ok:
  assumes inv: "cache_inv p s" and h: "held s i = Some x" and r: "1 < refs s x"
  defines "t \<equiv> upd_buf i (\<lambda>b. b\<lparr>b_refcnt := b_refcnt b - 1\<rparr>) s"
  shows "bunpin i s = Ok () t" "cache_inv p t" "bio_frame s t" "held t = held s" "seen t = seen s"
    "disk t = disk s" "disk_done t = disk_done s" "refs t = (refs s)(x := refs s x - 1)" "nfree t = nfree s"
proof -
  note hf = held_facts [OF inv h] and c = cache_inv_simps [OF inv]
  note cf = cached_facts [OF inv hf(1,2)]
  let ?m = "b_refcnt (bufs s i) - 1"
  have m: "unat ?m = refs s x - 1" using cf(6) hf(4) by (simp add: unat_minus_one)
  then have m0: "?m \<noteq> 0" using r by (metis diff_is_0_eq not_less unat_0)
  have t: "t = upd_buf i (\<lambda>b. b\<lparr>b_refcnt := ?m\<rparr>) s" by (simp add: t_def upd_buf_def)
  note pc = pin_change [OF inv hf(5,1,3), of ?m]
  show "cache_inv p t" "bio_frame s t" "held t = held s" "seen t = seen s" "disk t = disk s"
    "disk_done t = disk_done s"
    unfolding t using pc m0 by blast+
  show "refs t = (refs s)(x := refs s x - 1)" unfolding t m [symmetric] using pc(7) m0 by blast
  show "nfree t = nfree s" using pc(8) m0 unfolding t by simp
  show "bunpin i s = Ok () t"
    using c(2,3) by (simp add: bunpin_def t_def kernel_simps frame_simps)
qed

section \<open>A fresh cache\<close>

lemma initsleeplock_frame [frame_simps]:
  "quiet s \<Longrightarrow> quiet (initsleeplock l nm s)" "me (initsleeplock l nm s) = me s"
  "procs (initsleeplock l nm s) = procs s" "bufs (initsleeplock l nm s) = bufs s"
  "disk (initsleeplock l nm s) = disk s" "disk_done (initsleeplock l nm s) = disk_done s"
  "slocks (initsleeplock l nm s) = (slocks s)(l := \<lparr>sl_locked = 0, sl_name = nm, sl_pid = 0\<rparr>)"
  by (auto simp: initsleeplock_def initlock_def upd_slock_def quiet_def irq_ok_def free_def me_def irq_defs)

lemma binit_fields:
  fixes s :: "'a bufst_scheme"
  assumes "quiet s"
  shows "quiet (binit s)" "me (binit s) = me s" "procs (binit s) = procs s" "bufs (binit s) = bufs s"
    "disk (binit s) = disk s" "disk_done (binit s) = disk_done s"
    "i < NBUF \<Longrightarrow> sl_locked (slocks (binit s) (SL_buf i)) = 0"
proof -
  define f where "f = (\<lambda>i (s :: 'a bufst_scheme). let s = set_next (Buf i) (bnext s Head) s;
               s = set_prev (Buf i) Head s;
               s = initsleeplock (SL_buf i) ''buffer'' s;
               s = set_prev (bnext s Head) (Buf i) s
           in set_next Head (Buf i) s)"
  let ?t = "set_next Head Head (set_prev Head Head (initlock L_bcache ''bcache'' s))"
  let ?P = "\<lambda>n t. quiet t \<and> me t = me s \<and> procs t = procs s \<and> bufs t = bufs s \<and> disk t = disk s \<and>
     disk_done t = disk_done s \<and> (\<forall>i < n. sl_locked (slocks t (SL_buf i)) = 0)"
  have q: "quiet (set_next a b u) = quiet u" "quiet (set_prev a b u) = quiet u" "me (set_next a b u) = me u"
    "me (set_prev a b u) = me u" for a b and u :: "'a bufst_scheme"
    by (simp_all add: set_next_def set_prev_def quiet_def frame_simps me_def)
  have step: "?P n u \<Longrightarrow> ?P (Suc n) (f n u)" for n u
    by (auto simp: f_def Let_def q frame_simps less_Suc_eq) (simp_all add: set_next_def set_prev_def frame_simps)
  have "quiet (initlock L_bcache ''bcache'' s)"
    using assms by (auto simp: quiet_def initlock_def irq_ok_def free_def me_def irq_defs)
  then have "?P 0 ?t"
    by (simp add: q) (simp add: set_next_def set_prev_def initlock_def me_def irq_defs)
  then have "?P n (fold f [0..<n] ?t)" for n
    by (induction n) (use step in auto)
  moreover have "binit s = fold f [0..<NBUF] ?t" by (simp add: binit_def f_def Let_def)
  ultimately have "?P NBUF (binit s)" by simp
  then show "quiet (binit s)" "me (binit s) = me s" "procs (binit s) = procs s" "bufs (binit s) = bufs s"
    "disk (binit s) = disk s" "disk_done (binit s) = disk_done s"
    "i < NBUF \<Longrightarrow> sl_locked (slocks (binit s) (SL_buf i)) = 0"
    by blast+
qed

text \<open>Before \<^verbatim>\<open>binit\<close> the buffers are zero, as the loader leaves the kernel's data.\<close>

definition zero_bufs :: "'a bufst_scheme \<Rightarrow> bool" where
  "zero_bufs s \<longleftrightarrow> (\<forall>i < NBUF. b_dev (bufs s i) = 0 \<and> \<not> b_valid (bufs s i) \<and> b_refcnt (bufs s i) = 0)"

definition no_sleeper :: "'a procst_scheme \<Rightarrow> bool" where
  "no_sleeper s \<longleftrightarrow> (\<forall>q i. pstate (procs s q) = SLEEPING \<longrightarrow> pchan (procs s q) \<noteq> Some (Ch_slk (SL_buf i)))"

lemma binit_inv:
  assumes "quiet s" and "me s = Some p" and "zero_bufs s" and "no_sleeper s"
  shows "cache_inv p (binit s)" "held (binit s) = (\<lambda>_. None)" "nfree (binit s) = NBUF"
    "refs (binit s) x = 0" "fst x \<noteq> 0 \<Longrightarrow> seen (binit s) x = dsk (binit s) x" "disk (binit s) = disk s"
    "disk_done (binit s) = disk_done s"
proof -
  note b = binit_fields [OF assms(1)]
  have z: "b_dev (bufs (binit s) i) = 0" "\<not> b_valid (bufs (binit s) i)" "b_refcnt (bufs (binit s) i) = 0"
    if "i < NBUF" for i
    using assms(3) that by (simp_all add: zero_bufs_def b(4))
  show h: "held (binit s) = (\<lambda>_. None)" by (rule ext) (use b(7) in \<open>simp add: held_def\<close>)
  have "keys_ok (binit s)" using z by (auto simp: keys_ok_def)
  then have "bufs_ok p (binit s)" using z h by (auto simp: bufs_ok_def)
  moreover have "\<exists>xs. ring (bnext (binit s)) (bprev (binit s)) xs" using binit_ring by blast
  ultimately show "cache_inv p (binit s)"
    using b(1,2) assms(2,4) unfolding cache_inv_def no_sleeper_def b(3) by simp
  have "{i. i < NBUF \<and> b_refcnt (bufs (binit s) i) = 0} = {..<NBUF}" using z by auto
  then show "nfree (binit s) = NBUF" by (simp add: nfree_def)
  have "refs (binit s) x = 0 \<and> (fst x \<noteq> 0 \<longrightarrow> seen (binit s) x = dsk (binit s) x)"
  proof (cases "slot (binit s) x")
    case None
    then show ?thesis by (simp add: refs_def seen_def)
  next
    case (Some i)
    then show ?thesis using slot_SomeD [OF Some] z by (auto simp: refs_def seen_def key_def)
  qed
  then show "refs (binit s) x = 0" "fst x \<noteq> 0 \<Longrightarrow> seen (binit s) x = dsk (binit s) x" by auto
  show "disk (binit s) = disk s" "disk_done (binit s) = disk_done s" by (rule b)+
qed

section \<open>The cache is transparent\<close>

text \<open>
  A user of the cache that handles one block at a time: reading it, or reading it, storing \<open>n\<close> bytes at
  offset \<open>k\<close> and writing it back.  \<open>store_ops\<close> is the same on the bare disk, a map from block numbers to
  contents.
\<close>

datatype bio_op = Read_block "u32 \<times> u32" | Write_block "u32 \<times> u32" nat nat bytes

fun op_block :: "bio_op \<Rightarrow> u32 \<times> u32" where
  "op_block (Read_block x) = x"
| "op_block (Write_block x k n d) = x"

fun op_fits :: "bio_op \<Rightarrow> bool" where
  "op_fits (Read_block x) = (fst x \<noteq> 0)"
| "op_fits (Write_block x k n d) = (fst x \<noteq> 0 \<and> k + n \<le> BSIZE)"

fun bio_step :: "bio_op \<Rightarrow> 'a bufst_scheme \<Rightarrow> (bytes, 'a bufst_scheme) kr" where
  "bio_step (Read_block x) s =
     kbind (bread (fst x) (snd x) s) (\<lambda>i s.
       let d = b_data (bufs s i) in kthen (brelse i s) (\<lambda>s. Ok (block d) s))"
| "bio_step (Write_block x k n d) s =
     kbind (bread (fst x) (snd x) s) (\<lambda>i s.
       let old = b_data (bufs s i) in
       kthen (bwrite i (upd_buf i (\<lambda>b. b\<lparr>b_data := splice (b_data b) k n d\<rparr>) s)) (\<lambda>s.
       kthen (brelse i s) (\<lambda>s. Ok (block old) s)))"

fun bio_steps :: "bio_op list \<Rightarrow> 'a bufst_scheme \<Rightarrow> (bytes list, 'a bufst_scheme) kr" where
  "bio_steps [] s = Ok [] s"
| "bio_steps (a # as) s = kbind (bio_step a s) (\<lambda>d s. kbind (bio_steps as s) (\<lambda>ds s. Ok (d # ds) s))"

fun store_op :: "bio_op \<Rightarrow> (u32 \<times> u32 \<Rightarrow> bytes) \<Rightarrow> u32 \<times> u32 \<Rightarrow> bytes" where
  "store_op (Read_block x) C = C"
| "store_op (Write_block x k n d) C = C(x := splice (C x) k n d)"

fun store_ops :: "bio_op list \<Rightarrow> (u32 \<times> u32 \<Rightarrow> bytes) \<Rightarrow> bytes list \<times> (u32 \<times> u32 \<Rightarrow> bytes)" where
  "store_ops [] C = ([], C)"
| "store_ops (a # as) C = (case store_ops as (store_op a C) of (ds, C') \<Rightarrow> (C (op_block a) # ds, C'))"

lemma block_splice_part: "k + n \<le> BSIZE \<Longrightarrow> block (splice d k n e) = splice (block d) k n e"
  by (auto simp: block_def splice_def fun_eq_iff)

text \<open>Reading, changing, writing back and releasing one block.\<close>

lemma read_release:
  assumes inv: "cache_inv p s" and x: "fst x \<noteq> 0" "\<forall>i. held s i \<noteq> Some x"
    and room: "refs s x \<noteq> 0 \<or> 0 < nfree s" and bound: "refs s x + 1 < 2 ^ 32"
    and clean: "refs s x = 0 \<Longrightarrow> seen s x = dsk s x"
  shows "\<exists>t. bio_step (Read_block x) s = Ok (seen s x) t \<and> cache_inv p t \<and> bio_frame s t \<and> held t = held s \<and>
     seen t = seen s \<and> disk t = disk s \<and> disk_done t = disk_done s \<and> refs t = refs s \<and> nfree t = nfree s"
proof -
  obtain i t where r: "bread (fst x) (snd x) s = Ok i t" "reads p s x i t"
    using bread_ok [OF inv x room bound] by blast
  then have t: "cache_inv p t" "held t i = Some x" "refs t x = refs s x + 1" "dsk t = dsk s" "held s i = None"
    by (auto simp: reads_def intro: dsk_cong)
  have "seen t x = dsk t x" if "refs t x = 1" using that t r(2) clean by (simp add: reads_def)
  note b = brelse_ok [OF t(1,2) this]
  let ?u = "released i t"
  have "nfree ?u = nfree s"
    using b(9) r(2) room by (auto simp: reads_def)
  moreover have "refs ?u = refs s" using b(8) r(2) by (auto simp: reads_def)
  moreover have "held ?u = held s" using b(4) r(2) t(5) by (auto simp: reads_def)
  ultimately show ?thesis
    using r b(1-3,5-7) bio_frame_trans by (fastforce simp: reads_def)
qed

lemma read_write_release:
  assumes inv: "cache_inv p s" and x: "fst x \<noteq> 0" "\<forall>i. held s i \<noteq> Some x"
    and room: "refs s x \<noteq> 0 \<or> 0 < nfree s" and bound: "refs s x + 1 < 2 ^ 32" and fits: "k + n \<le> BSIZE"
  shows "\<exists>t. bio_step (Write_block x k n d) s = Ok (seen s x) t \<and> cache_inv p t \<and> bio_frame s t \<and> held t = held s \<and>
     seen t = (seen s)(x := splice (seen s x) k n d) \<and> dsk t = (dsk s)(x := splice (seen s x) k n d) \<and>
     refs t = refs s \<and> nfree t = nfree s"
proof -
  obtain i t where r: "bread (fst x) (snd x) s = Ok i t" "reads p s x i t"
    using bread_ok [OF inv x room bound] by blast
  then have t: "cache_inv p t" "held t i = Some x" "refs t x = refs s x + 1" "dsk t = dsk s" "held s i = None"
    "bio_frame s t" "seen t = seen s"
    by (auto simp: reads_def intro: dsk_cong)
  let ?g = "\<lambda>d0. splice d0 k n d"
  let ?m = "upd_buf i (\<lambda>b. b\<lparr>b_data := ?g (b_data b)\<rparr>) t"
  note m = modify_ok [OF t(1,2), of ?g]
  have dm: "dsk ?m = dsk s" using t(4) by (simp add: dsk_def frame_simps fun_eq_iff)
  have bl: "block (?g (b_data (bufs t i))) = splice (seen s x) k n d"
    using r(2) fits by (simp add: block_splice_part reads_def)
  have hm: "held ?m i = Some x" using m(3) t(2) by simp
  note w = bwrite_ok [OF m(1) hm]
  let ?w = "(fst x, snd x, b_data (bufs ?m i))"
  let ?v = "?m\<lparr>disk := disk_put ?w (disk ?m), disk_done := disk_done ?m @ [?w]\<rparr>"
  have hv: "held ?v i = Some x" using w(4) hm by simp
  have sv: "seen ?v = (seen s)(x := splice (seen s x) k n d)" using w(5) m(4) bl t(7) by simp
  have dv: "dsk ?v = (dsk s)(x := splice (seen s x) k n d)" using w(9) dm m(4) bl by simp
  have "seen ?v x = dsk ?v x" using sv dv by simp
  note b = brelse_ok [OF w(2) hv this]
  let ?u = "released i ?v"
  have "dsk ?u = dsk ?v" using b(6) by (rule dsk_cong)
  moreover have "nfree ?u = nfree s" using b(9) w(6,7) m(5,6) r(2) room by (auto simp: reads_def)
  moreover have "refs ?u = refs s" using b(8) w(6) m(5) r(2) by (auto simp: reads_def)
  moreover have "held ?u = held s" using b(4) w(4) m(3) r(2) t(5) by (auto simp: reads_def)
  moreover have "bio_frame s ?u"
    using t(6) m(2) w(3) b(3) bio_frame_trans by blast
  moreover have "bio_step (Write_block x k n d) s = Ok (seen s x) ?u"
    using r w(1) b(1) by (simp add: reads_def)
  ultimately show ?thesis using b(2,5) sv dv by auto
qed

lemma bio_steps_store:
  assumes "cache_inv p s" and "held s = (\<lambda>_. None)" and "0 < nfree s" and "refs s = (\<lambda>_. 0)" and "seen s = dsk s"
    and "\<forall>a \<in> set ops. op_fits a"
  shows "\<exists>t. bio_steps ops s = Ok (fst (store_ops ops (dsk s))) t \<and> cache_inv p t \<and> bio_frame s t \<and>
     held t = (\<lambda>_. None) \<and> dsk t = snd (store_ops ops (dsk s)) \<and> seen t = dsk t \<and> refs t = (\<lambda>_. 0) \<and> nfree t = nfree s"
  using assms
proof (induction ops arbitrary: s)
  case Nil
  then show ?case using bio_frame_refl by auto
next
  case (Cons a as)
  have "\<exists>t. bio_step a s = Ok (seen s (op_block a)) t \<and> cache_inv p t \<and> bio_frame s t \<and> held t = held s \<and>
     dsk t = store_op a (dsk s) \<and> seen t = dsk t \<and> refs t = refs s \<and> nfree t = nfree s"
  proof (cases a)
    case (Read_block x)
    obtain t where t: "bio_step (Read_block x) s = Ok (seen s x) t" "cache_inv p t" "bio_frame s t" "held t = held s"
      "seen t = seen s" "disk t = disk s" "refs t = refs s" "nfree t = nfree s"
      using read_release [of p s x] Cons.prems Read_block by (auto simp del: bio_step.simps)
    have "dsk t = dsk s" by (rule dsk_cong [OF t(6)])
    then show ?thesis using t Cons.prems(5) Read_block by (auto simp del: bio_step.simps)
  next
    case (Write_block x k n d)
    then show ?thesis
      using read_write_release [of p s x k n d] Cons.prems by (auto simp del: bio_step.simps)
  qed
  then obtain t where t: "bio_step a s = Ok (seen s (op_block a)) t" "cache_inv p t" "bio_frame s t" "held t = held s"
    "dsk t = store_op a (dsk s)" "seen t = dsk t" "refs t = refs s" "nfree t = nfree s"
    by blast
  obtain u where u: "bio_steps as t = Ok (fst (store_ops as (dsk t))) u" "cache_inv p u" "bio_frame t u"
    "held u = (\<lambda>_. None)" "dsk u = snd (store_ops as (dsk t))" "seen u = dsk u" "refs u = (\<lambda>_. 0)" "nfree u = nfree t"
    using Cons.IH [of t] t Cons.prems by auto
  show ?case
    using t(1) u Cons.prems(5) t(5,8) bio_frame_trans [OF t(3) u(3)] by (auto split: prod.split)
qed

section \<open>Properties\<close>

text \<open>C2: The buffer cache is transparent.  After \<^verbatim>\<open>binit\<close>, any sequence of block reads and of partial writes
  through \<^verbatim>\<open>bread\<close>, \<^verbatim>\<open>bwrite\<close> and \<^verbatim>\<open>brelse\<close>, of any number of blocks of any devices, returns exactly
  what the bare disk would and leaves it as it would, whatever buffers are recycled on the way; no call
  panics, blocks or faults, and afterwards no buffer is locked or referenced.\<close>

theorem cache_transparent:
  fixes s :: "'a bufst_scheme"
  assumes "quiet s" and "me s = Some p" and "zero_bufs s" and "no_sleeper s"
    and "\<forall>a \<in> set ops. op_fits a"
  shows "\<exists>t. bio_steps ops (binit s) = Ok (fst (store_ops ops (dsk s))) t \<and>
     dsk t = snd (store_ops ops (dsk s)) \<and> held t = (\<lambda>_. None) \<and> refs t = (\<lambda>_. 0) \<and> cache_inv p t"
proof -
  note b = binit_inv [OF assms(1-4)]
  have d: "dsk (binit s) = dsk s" by (rule dsk_cong [OF b(6)])
  have "seen (binit s) = dsk (binit s)"
  proof
    fix x
    show "seen (binit s) x = dsk (binit s) x"
      using b(5) [of x] slot_dev0(1) [OF cache_inv_simps(9) [OF b(1)], of x] by blast
  qed
  moreover have "refs (binit s) = (\<lambda>_. 0)" using b(4) by auto
  moreover have "0 < nfree (binit s)" unfolding b(3) by (simp add: NBUF_def MAXOPBLOCKS_def)
  ultimately show ?thesis
    using bio_steps_store [OF b(1,2) _ _ _ assms(5)] d by auto
qed

text \<open>A machine with one running process before \<^verbatim>\<open>binit\<close>, its disk all zero.\<close>

definition bio_state :: bufst where
  "bio_state = memst.extend small_mem
     (bufst.fields (\<lambda>_. \<lparr>b_valid = False, b_dev = 0, b_blockno = 0, b_refcnt = 0, b_data = (\<lambda>_. 0)\<rparr>)
        (\<lambda>_. Head) (\<lambda>_. Head) (\<lambda>_ _ _. 0) [])"

lemma bio_state_ok: "quiet bio_state" "me bio_state = Some 1" "zero_bufs bio_state" "no_sleeper bio_state"
  "dsk bio_state = (\<lambda>_ _. 0)"
  by (auto simp: bio_state_def small_mem_def sl_state_def sem_state_def run_state_def quiet_def irq_ok_def irq_defs
      free_def me_def NPROC_def idle_proc_def zero_bufs_def no_sleeper_def dsk_def block_def fun_eq_iff
      procst.defs semst.defs slst.defs memst.defs bufst.defs)

theorem cache_transparent_witness:
  "\<exists>ds t. bio_steps [Write_block (1, 7) 3 1 (\<lambda>_. 65), Read_block (1, 9), Read_block (1, 7)] (binit bio_state) = Ok ds t \<and>
     (ds ! 2) 3 = 65 \<and> (ds ! 2) 4 = 0 \<and> dsk t (1, 7) 3 = 65 \<and> refs t = (\<lambda>_. 0)"
proof -
  let ?ops = "[Write_block (1, 7) 3 1 (\<lambda>_. 65), Read_block (1, 9), Read_block (1, 7)]"
  have "\<forall>a \<in> set ?ops. op_fits a" by (simp add: BSIZE_def)
  then obtain t where "bio_steps ?ops (binit bio_state) = Ok (fst (store_ops ?ops (dsk bio_state))) t"
    "dsk t = snd (store_ops ?ops (dsk bio_state))" "refs t = (\<lambda>_. 0)"
    using cache_transparent [OF bio_state_ok(1-4)] by blast
  then show ?thesis by (auto simp: bio_state_ok(5) splice_def simp del: bio_steps.simps)
qed

end
