(* ===== verification/Commit.thy ===== *)
theory Commit
  imports Log Bcache
begin

text \<open>
  What the log writes to the disk: the order of the writes of \<^verbatim>\<open>commit\<close> (copies, header, home blocks,
  empty header) and of \<^verbatim>\<open>recover_from_log\<close>, each as a list of updates of a map from blocks to
  contents, and what the buffer cache holds afterwards.
\<close>

section \<open>Writes as updates of a map\<close>

text \<open>A write as its users see it: the block and its new contents.\<close>

type_synonym upd = "(u32 \<times> u32) \<times> bytes"

definition apply_upds :: "upd list \<Rightarrow> (u32 \<times> u32 \<Rightarrow> bytes) \<Rightarrow> u32 \<times> u32 \<Rightarrow> bytes" where
  "apply_upds us C = fold (\<lambda>(x, c) C. C(x := c)) us C"

definition dsk_of :: "(u32 \<Rightarrow> u32 \<Rightarrow> bytes) \<Rightarrow> u32 \<times> u32 \<Rightarrow> bytes" where
  "dsk_of D x = block (D (fst x) (snd x))"

definition absw :: "u32 \<times> u32 \<times> bytes \<Rightarrow> upd" where
  "absw w = (case w of (d, b, e) \<Rightarrow> ((d, b), block e))"

text \<open>Between \<open>s\<close> and \<open>t\<close> exactly the writes \<open>us\<close> were done, in this order.\<close>

definition wrote :: "'a bufst_scheme \<Rightarrow> 'a bufst_scheme \<Rightarrow> upd list \<Rightarrow> bool" where
  "wrote s t us \<longleftrightarrow> (\<exists>ws. disk_done t = disk_done s @ ws \<and> disk t = fold disk_put ws (disk s) \<and> map absw ws = us)"

lemma apply_upds_simps [simp]:
  "apply_upds [] C = C" "apply_upds ((x, c) # us) C = apply_upds us (C(x := c))"
  "apply_upds (us @ vs) C = apply_upds vs (apply_upds us C)"
  by (simp_all add: apply_upds_def)

lemma apply_upds_notin: "x \<notin> fst ` set us \<Longrightarrow> apply_upds us C x = C x"
  by (induction us arbitrary: C) auto

lemma apply_upds_map:
  assumes "\<And>i j. i < n \<Longrightarrow> j < n \<Longrightarrow> f i = f j \<Longrightarrow> i = j" and "i < n"
  shows "apply_upds (map (\<lambda>i. (f i, g i)) [0..<n]) C (f i) = g i"
  using assms
proof (induction n)
  case (Suc n)
  show ?case
  proof (cases "i = n")
    case False
    then have "f n \<noteq> f i" using Suc.prems(1) [of n i] Suc.prems(2) by auto
    moreover have "apply_upds (map (\<lambda>i. (f i, g i)) [0..<n]) C (f i) = g i"
      using Suc False by auto
    ultimately show ?thesis by simp
  qed simp
qed simp

lemma dsk_of_disk: "dsk s = dsk_of (disk s)"
  by (rule ext) (simp add: dsk_def dsk_of_def)

lemma dsk_of_put: "dsk_of (disk_put w D) = (dsk_of D)(fst (absw w) := snd (absw w))"
  by (cases w) (auto simp: dsk_of_def disk_put_def absw_def fun_eq_iff)

lemma dsk_of_fold: "dsk_of (fold disk_put ws D) = apply_upds (map absw ws) (dsk_of D)"
  by (induction ws arbitrary: D) (simp_all add: dsk_of_put apply_upds_def split_beta)

lemma wrote_Nil: "disk t = disk s \<Longrightarrow> disk_done t = disk_done s \<Longrightarrow> wrote s t []"
  by (auto simp: wrote_def)

lemma wrote_append: "wrote s t us \<Longrightarrow> wrote t u vs \<Longrightarrow> wrote s u (us @ vs)"
  unfolding wrote_def by (elim exE conjE, rule_tac x = "ws @ wsa" in exI) simp

lemma wrote_dsk: "wrote s t us \<Longrightarrow> dsk t = apply_upds us (dsk s)"
  unfolding wrote_def by (auto simp: dsk_of_disk dsk_of_fold)

lemma wrote_same:
  assumes "wrote s t us" and "disk u = disk t" and "disk_done u = disk_done t"
  shows "wrote s u us"
  using wrote_append [OF assms(1) wrote_Nil [OF assms(2,3)]] by simp

section \<open>The steps of the copying loops\<close>

lemma log_frame_bio: "bio_frame s t \<Longrightarrow> log t = log s"
  by (auto simp: bio_frame_def)

text \<open>
  Two blocks read, one after the other: buffer \<open>a\<close> holds \<open>x\<close> and buffer \<open>b\<close> holds \<open>y\<close>.
\<close>

definition both :: "nat \<Rightarrow> 'a bufst_scheme \<Rightarrow> nat \<Rightarrow> u32 \<times> u32 \<Rightarrow> nat \<Rightarrow> u32 \<times> u32 \<Rightarrow> 'a bufst_scheme \<Rightarrow> bool" where
  "both p s a x b y t \<longleftrightarrow> cache_inv p t \<and> bio_frame s t \<and> a \<noteq> b \<and> held t = [a \<mapsto> x, b \<mapsto> y] \<and> seen t = seen s \<and>
     disk t = disk s \<and> disk_done t = disk_done s \<and> refs t = (refs s)(x := refs s x + 1, y := refs s y + 1) \<and>
     nfree t + (if refs s x = 0 then 1 else 0) + (if refs s y = 0 then 1 else 0) = nfree s"

lemma two_reads:
  assumes inv: "cache_inv p s" and h: "held s = (\<lambda>_. None)" and xy: "x \<noteq> y" "fst x \<noteq> 0" "fst y \<noteq> 0"
    and room: "(if refs s x = 0 then 1 else 0) + (if refs s y = 0 then 1 else 0) \<le> nfree s"
    and bound: "refs s x + 1 < 2 ^ 32" "refs s y + 1 < 2 ^ 32"
  shows "\<exists>a t1 b t. bread (fst x) (snd x) s = Ok a t1 \<and> bread (fst y) (snd y) t1 = Ok b t \<and>
     both p s a x b y t \<and> bio_frame s t1"
proof -
  obtain a t1 where a: "bread (fst x) (snd x) s = Ok a t1" "reads p s x a t1"
    using bread_ok [OF inv xy(2) _ _ bound(1)] h room by (auto split: if_splits)
  have h1: "held t1 = [a \<mapsto> x]" using a(2) h by (simp add: reads_def)
  have r1: "refs t1 y = refs s y" using a(2) xy(1) by (simp add: reads_def)
  have inv1: "cache_inv p t1" using a(2) by (simp add: reads_def)
  have room1: "refs t1 y \<noteq> 0 \<or> 0 < nfree t1"
    using room a(2) unfolding r1 by (auto simp: reads_def split: if_splits)
  have "\<forall>i. held t1 i \<noteq> Some y" using h1 xy(1) by auto
  then obtain b t where b: "bread (fst y) (snd y) t1 = Ok b t" "reads p t1 y b t"
    using bread_ok [OF inv1 xy(3) _ room1] bound(2) r1 by auto
  have ab: "a \<noteq> b" using b(2) h1 by (auto simp: reads_def)
  have "nfree t + (if refs s x = 0 then 1 else 0) + (if refs s y = 0 then 1 else 0) = nfree s"
    using a(2) b(2) room r1 by (auto simp: reads_def split: if_splits)
  moreover have "refs t = (refs s)(x := refs s x + 1, y := refs s y + 1)"
    using a(2) b(2) xy(1) by (auto simp: reads_def)
  moreover have "bio_frame s t" using a(2) b(2) bio_frame_trans by (auto simp: reads_def)
  ultimately have "both p s a x b y t"
    using a(2) b(2) h ab by (auto simp: both_def reads_def)
  then show ?thesis using a b(1) by (auto simp: reads_def)
qed

text \<open>The contents of one held buffer copied to another, which is then written.\<close>

lemma copy_and_write:
  fixes t :: "'a bufst_scheme"
  assumes inv: "cache_inv p t" and d: "held t dst = Some x" and s: "held t src = Some y" and ne: "dst \<noteq> src"
  shows "\<exists>u. bwrite dst (copy_block dst src t) = Ok () u \<and> cache_inv p u \<and> bio_frame t u \<and> held u = held t \<and>
     seen u = (seen t)(x := seen t y) \<and> refs u = refs t \<and> nfree u = nfree t \<and> wrote t u [(x, seen t y)]"
proof -
  let ?g = "\<lambda>d0. splice d0 0 BSIZE (b_data (bufs t src))"
  let ?m = "copy_block dst src t"
  have m: "?m = upd_buf dst (\<lambda>b. b\<lparr>b_data := ?g (b_data b)\<rparr>) t" by (simp add: copy_block_def)
  note mo = modify_ok [OF inv d, of ?g, folded m]
  have se: "seen ?m = (seen t)(x := seen t y)" using mo(4) held_facts(6) [OF inv s] by simp
  have hm: "held ?m dst = Some x" using mo(3) d by simp
  let ?w = "(fst x, snd x, b_data (bufs ?m dst))"
  let ?u = "?m\<lparr>disk := disk_put ?w (disk ?m), disk_done := disk_done ?m @ [?w]\<rparr>"
  note w = bwrite_ok [OF mo(1) hm]
  have "absw ?w = (x, seen t y)" using held_facts(6) [OF mo(1) hm] se by (simp add: absw_def)
  then have "wrote t ?u [(x, seen t y)]"
    by (auto simp: wrote_def m frame_simps intro!: exI [of _ "[?w]"])
  moreover have "seen ?u = (seen t)(x := seen t y)" using w(5) se by simp
  moreover have "bio_frame t ?u" using bio_frame_trans [OF mo(2) w(3)] .
  moreover have "held ?u = held t" "refs ?u = refs t" "nfree ?u = nfree t"
    using w(4,6,7) mo(3,5,6) by simp_all
  ultimately show ?thesis using w(1,2) by blast
qed

lemma release_two:
  fixes u :: "'a bufst_scheme"
  assumes inv: "cache_inv p u" and h: "held u = [a \<mapsto> x, b \<mapsto> y]" and ab: "a \<noteq> b" and xy: "x \<noteq> y"
    and clean: "refs u x = 1 \<Longrightarrow> seen u x = dsk u x" "refs u y = 1 \<Longrightarrow> seen u y = dsk u y"
  shows "\<exists>u1 v. brelse a u = Ok () u1 \<and> brelse b u1 = Ok () v \<and> cache_inv p v \<and> bio_frame u v \<and>
     held v = (\<lambda>_. None) \<and> seen v = seen u \<and> disk v = disk u \<and> disk_done v = disk_done u \<and>
     refs v = (refs u)(x := refs u x - 1, y := refs u y - 1) \<and>
     nfree v = nfree u + (if refs u x = 1 then 1 else 0) + (if refs u y = 1 then 1 else 0)"
proof -
  have ha: "held u a = Some x" using h ab by simp
  note r1 = brelse_ok [OF inv ha clean(1)]
  let ?u = "released a u"
  have hb: "held ?u b = Some y" using r1(4) h ab by simp
  have ry: "refs ?u y = refs u y" using r1(8) xy by simp
  have "seen ?u y = dsk ?u y" if "refs ?u y = 1"
    using clean(2) that ry r1(5) dsk_cong [OF r1(6)] by simp
  note r2 = brelse_ok [OF r1(2) hb this]
  have "held (released b ?u) = (\<lambda>_. None)" using r2(4) r1(4) h by auto
  moreover have "bio_frame u (released b ?u)" using bio_frame_trans [OF r1(3) r2(3)] .
  moreover have "refs (released b ?u) = (refs u)(x := refs u x - 1, y := refs u y - 1)"
    using r2(8) r1(8) xy by auto
  moreover have "nfree (released b ?u) = nfree u + (if refs u x = 1 then 1 else 0) + (if refs u y = 1 then 1 else 0)"
    using r2(9) r1(9) ry by simp
  ultimately show ?thesis using r1(1,5-7) r2(1,2,5-7) by auto
qed

text \<open>
  One turn of \<^verbatim>\<open>write_log\<close> and of \<^verbatim>\<open>install_trans\<close>: block \<open>x\<close> of the log and its home \<open>y\<close>.
\<close>

lemma write_log_turn:
  fixes s :: "'a logst_scheme"
  assumes inv: "cache_inv p s" and h: "held s = (\<lambda>_. None)" and xy: "x \<noteq> y" "fst x \<noteq> 0" "fst y \<noteq> 0"
    and room: "0 < nfree s" and pin: "0 < refs s y" and bound: "refs s x + 1 < 2 ^ 32" "refs s y + 1 < 2 ^ 32"
  shows "\<exists>a t1 b t u u1 v. bread (fst x) (snd x) s = Ok a t1 \<and> log t1 = log s \<and> bread (fst y) (snd y) t1 = Ok b t \<and>
     bwrite a (copy_block a b t) = Ok () u \<and> brelse b u = Ok () u1 \<and> brelse a u1 = Ok () v \<and>
     cache_inv p v \<and> bio_frame s v \<and> held v = (\<lambda>_. None) \<and> seen v = (seen s)(x := seen s y) \<and>
     wrote s v [(x, seen s y)] \<and> refs v = refs s \<and> nfree v = nfree s"
proof -
  have room2: "(if refs s x = 0 then 1 else 0) + (if refs s y = 0 then 1 else 0) \<le> nfree s"
    using room pin by auto
  obtain a t1 b t where r: "bread (fst x) (snd x) s = Ok a t1" "bread (fst y) (snd y) t1 = Ok b t"
    "both p s a x b y t" "bio_frame s t1"
    using two_reads [OF inv h xy room2 bound] by blast
  then have t: "cache_inv p t" "held t a = Some x" "held t b = Some y" "a \<noteq> b" by (auto simp: both_def)
  obtain u where u: "bwrite a (copy_block a b t) = Ok () u" "cache_inv p u" "bio_frame t u" "held u = held t"
    "seen u = (seen t)(x := seen t y)" "refs u = refs t" "nfree u = nfree t" "wrote t u [(x, seen t y)]"
    using copy_and_write [OF t] by blast
  have hu: "held u = [b \<mapsto> y, a \<mapsto> x]" using u(4) r(3) t(4) by (auto simp: both_def)
  have ry: "refs u y \<noteq> 1" using u(6) r(3) pin by (simp add: both_def)
  have "seen u x = dsk u x" using u(5) wrote_dsk [OF u(8)] by simp
  then obtain u1 v where v: "brelse b u = Ok () u1" "brelse a u1 = Ok () v" "cache_inv p v" "bio_frame u v"
    "held v = (\<lambda>_. None)" "seen v = seen u" "disk v = disk u" "disk_done v = disk_done u"
    "refs v = (refs u)(y := refs u y - 1, x := refs u x - 1)"
    "nfree v = nfree u + (if refs u y = 1 then 1 else 0) + (if refs u x = 1 then 1 else 0)"
    using release_two [OF u(2) hu] t(4) xy(1) ry by metis
  have "wrote s t []" using r(3) by (auto simp: both_def intro: wrote_Nil)
  from wrote_same [OF wrote_append [OF this u(8)] v(7,8)] have "wrote s v [(x, seen s y)]"
    using r(3) by (simp add: both_def)
  moreover have "refs v = refs s" using v(9) u(6) r(3) xy(1) by (auto simp: both_def)
  moreover have "nfree v = nfree s"
    using v(10) u(6,7) r(3) xy(1) pin by (auto simp: both_def split: if_splits)
  moreover have "bio_frame s v" using r(3) u(3) v(4) bio_frame_trans unfolding both_def by blast
  moreover have "seen v = (seen s)(x := seen s y)" using v(6) u(5) r(3) by (simp add: both_def)
  ultimately show ?thesis using r u(1) v(1-3,5) log_frame_bio [OF r(4)] by blast
qed

lemma install_turn:
  fixes s :: "'a logst_scheme"
  assumes inv: "cache_inv p s" and h: "held s = (\<lambda>_. None)" and xy: "x \<noteq> y" "fst x \<noteq> 0" "fst y \<noteq> 0"
    and room: "(if refs s x = 0 then 1 else 0) + (if refs s y = 0 then 1 else 0) \<le> nfree s"
    and pin: "unpin \<Longrightarrow> 0 < refs s y"
    and clean: "refs s x = 0 \<Longrightarrow> seen s x = dsk s x"
    and bound: "refs s x + 1 < 2 ^ 32" "refs s y + 1 < 2 ^ 32"
  shows "\<exists>a t1 b t u w u1 v. bread (fst x) (snd x) s = Ok a t1 \<and> log t1 = log s \<and> bread (fst y) (snd y) t1 = Ok b t \<and>
     bwrite b (copy_block b a t) = Ok () u \<and> (if unpin then bunpin b u else Ok () u) = Ok () w \<and>
     brelse a w = Ok () u1 \<and> brelse b u1 = Ok () v \<and>
     cache_inv p v \<and> bio_frame s v \<and> held v = (\<lambda>_. None) \<and> seen v = (seen s)(y := seen s x) \<and>
     wrote s v [(y, seen s x)] \<and> refs v = (if unpin then (refs s)(y := refs s y - 1) else refs s) \<and>
     nfree v = nfree s + (if unpin \<and> refs s y = 1 then 1 else 0)"
proof -
  obtain a t1 b t where r: "bread (fst x) (snd x) s = Ok a t1" "bread (fst y) (snd y) t1 = Ok b t"
    "both p s a x b y t" "bio_frame s t1"
    using two_reads [OF inv h xy room bound] by blast
  then have t: "cache_inv p t" "held t b = Some y" "held t a = Some x" "b \<noteq> a" by (auto simp: both_def)
  obtain u where u: "bwrite b (copy_block b a t) = Ok () u" "cache_inv p u" "bio_frame t u" "held u = held t"
    "seen u = (seen t)(y := seen t x)" "refs u = refs t" "nfree u = nfree t" "wrote t u [(y, seen t x)]"
    using copy_and_write [OF t] by blast
  have hub: "held u b = Some y" using u(4) t(2) by simp
  have "\<exists>w. (if unpin then bunpin b u else Ok () u) = Ok () w \<and> cache_inv p w \<and> bio_frame u w \<and> held w = held u \<and>
     seen w = seen u \<and> disk w = disk u \<and> disk_done w = disk_done u \<and> nfree w = nfree u \<and>
     refs w = (if unpin then (refs u)(y := refs u y - 1) else refs u)"
  proof (cases unpin)
    case True
    then have "1 < refs u y" using pin u(6) r(3) by (simp add: both_def)
    from bunpin_ok [OF u(2) hub this] show ?thesis using True by auto
  next
    case False
    then show ?thesis using u(2) bio_frame_refl by auto
  qed
  then obtain w where w: "(if unpin then bunpin b u else Ok () u) = Ok () w" "cache_inv p w" "bio_frame u w"
    "held w = held u" "seen w = seen u" "disk w = disk u" "disk_done w = disk_done u" "nfree w = nfree u"
    "refs w = (if unpin then (refs u)(y := refs u y - 1) else refs u)"
    by blast
  have hw: "held w = [a \<mapsto> x, b \<mapsto> y]" using w(4) u(4) r(3) by (simp add: both_def)
  have dw: "dsk w = (dsk s)(y := seen s x)"
    using dsk_cong [OF w(6)] wrote_dsk [OF u(8)] r(3) dsk_cong [of t s] by (simp add: both_def)
  have sw: "seen w = (seen s)(y := seen s x)" using w(5) u(5) r(3) by (simp add: both_def)
  have cx: "refs w x = 1 \<Longrightarrow> seen w x = dsk w x"
    using sw dw clean w(9) u(6) r(3) xy(1) by (auto simp: both_def split: if_splits)
  have cy: "refs w y = 1 \<Longrightarrow> seen w y = dsk w y" using sw dw by simp
  obtain u1 v where v: "brelse a w = Ok () u1" "brelse b u1 = Ok () v" "cache_inv p v" "bio_frame w v"
    "held v = (\<lambda>_. None)" "seen v = seen w" "disk v = disk w" "disk_done v = disk_done w"
    "refs v = (refs w)(x := refs w x - 1, y := refs w y - 1)"
    "nfree v = nfree w + (if refs w x = 1 then 1 else 0) + (if refs w y = 1 then 1 else 0)"
    using release_two [OF w(2) hw _ xy(1) cx cy] t(4) by metis
  have "wrote s t []" using r(3) by (auto simp: both_def intro: wrote_Nil)
  from wrote_same [OF wrote_append [OF this u(8)], of v] have "wrote s v [(y, seen s x)]"
    using r(3) v(7,8) w(6,7) by (simp add: both_def)
  moreover have "refs v = (if unpin then (refs s)(y := refs s y - 1) else refs s)"
    using v(9) w(9) u(6) r(3) xy(1) by (auto simp: both_def)
  moreover have "nfree v = nfree s + (if unpin \<and> refs s y = 1 then 1 else 0)"
    using v(10) w(8,9) u(6,7) r(3) xy(1) pin by (auto simp: both_def split: if_splits)
  moreover have "bio_frame s v"
    using r(3) u(3) w(3) v(4) bio_frame_trans unfolding both_def by blast
  ultimately show ?thesis using r u(1) w(1) v(1-3,5,6) sw log_frame_bio [OF r(4)] by auto
qed

section \<open>The header block\<close>

definition header :: "bytes \<Rightarrow> int \<Rightarrow> (nat \<Rightarrow> u32) \<Rightarrow> bool" where
  "header h n bl \<longleftrightarrow> sint (ld32 h 0) = n \<and> (\<forall>i < nat n. head_entry h i = bl i)"

lemma ld32_block [simp]: "k + 4 \<le> BSIZE \<Longrightarrow> ld32 (block d) k = ld32 d k"
  by (simp add: ld32_def block_def)

lemma put_header_read:
  "ld32 (put_header n bl k d) 0 = of_int n" "i < k \<Longrightarrow> head_entry (put_header n bl k d) i = bl i"
proof -
  show "ld32 (put_header n bl k d) 0 = of_int n"
    by (induction k) (simp_all add: put_header_def)
  show "i < k \<Longrightarrow> head_entry (put_header n bl k d) i = bl i"
  proof (induction k)
    case (Suc k)
    have "put_header n bl (Suc k) d = st32 (put_header n bl k d) (4 + 4 * k) (bl k)" by (simp add: put_header_def)
    then show ?case using Suc by (cases "i = k") (simp_all add: head_entry_def)
  qed simp
qed

lemma header_put:
  assumes "0 \<le> n" and "n \<le> int LOGSIZE"
  shows "header (block (put_header n bl (nat n) d)) n bl"
proof -
  have b: "LOGSIZE = 30" "BSIZE = 1024" by (simp_all add: LOGSIZE_def MAXOPBLOCKS_def BSIZE_def)
  have "sint (of_int n :: u32) = n"
    using assms b by (simp add: signed_of_int signed_take_bit_int_eq_self)
  then show ?thesis
    using assms b put_header_read(2) by (auto simp: header_def put_header_read(1) head_entry_def)
qed

definition head_of :: "log_t \<Rightarrow> u32 \<times> u32" where "head_of l = (log_dev l, log_start l)"
definition slot_of :: "log_t \<Rightarrow> nat \<Rightarrow> u32 \<times> u32" where "slot_of l i = (log_dev l, log_start l + of_nat i + 1)"
definition home_of :: "log_t \<Rightarrow> nat \<Rightarrow> u32 \<times> u32" where "home_of l i = (log_dev l, lh_block l i)"

lemma write_head_ok:
  fixes s :: "'a logst_scheme"
  assumes inv: "cache_inv p s" and h: "held s = (\<lambda>_. None)" and dev: "log_dev (log s) \<noteq> 0"
    and n: "0 \<le> lh_n (log s)" "lh_n (log s) \<le> int LOGSIZE" and room: "0 < nfree s"
    and bound: "refs s (head_of (log s)) + 1 < 2 ^ 32"
  shows "\<exists>c v. write_head s = Ok () v \<and> cache_inv p v \<and> bio_frame s v \<and> held v = (\<lambda>_. None) \<and>
     seen v = (seen s)(head_of (log s) := c) \<and> wrote s v [(head_of (log s), c)] \<and> refs v = refs s \<and> nfree v = nfree s \<and>
     header c (lh_n (log s)) (lh_block (log s))"
proof -
  let ?l = "log s" and ?x = "head_of (log s)"
  have x: "fst ?x \<noteq> 0" using dev by (simp add: head_of_def)
  obtain i t where r: "bread (fst ?x) (snd ?x) s = Ok i t" "reads p s ?x i t"
    using bread_ok [OF inv x _ _ bound] h room by auto
  then have t: "cache_inv p t" "held t i = Some ?x" "refs t ?x = refs s ?x + 1" "held t = [i \<mapsto> ?x]"
    "bio_frame s t" "seen t = seen s" "disk t = disk s" "disk_done t = disk_done s"
    using h by (auto simp: reads_def)
  have lt: "log t = ?l" by (rule log_frame_bio [OF t(5)])
  let ?g = "put_header (lh_n ?l) (lh_block ?l) (nat (lh_n ?l))"
  let ?m = "upd_buf i (\<lambda>b. b\<lparr>b_data := ?g (b_data b)\<rparr>) t"
  note m = modify_ok [OF t(1,2), of ?g]
  let ?c = "block (?g (b_data (bufs t i)))"
  have hm: "held ?m i = Some ?x" using m(3) t(2) by simp
  note w = bwrite_ok [OF m(1) hm]
  let ?w = "(fst ?x, snd ?x, b_data (bufs ?m i))"
  let ?v = "?m\<lparr>disk := disk_put ?w (disk ?m), disk_done := disk_done ?m @ [?w]\<rparr>"
  have hv: "held ?v i = Some ?x" using w(4) hm by simp
  have "absw ?w = (?x, ?c)" by (simp add: absw_def frame_simps)
  then have wr: "wrote s ?v [(?x, ?c)]"
    using t(7,8) by (auto simp: wrote_def frame_simps intro!: exI [of _ "[?w]"])
  have sv: "seen ?v = (seen s)(?x := ?c)" using w(5) m(4) t(6) by simp
  have "seen ?v ?x = dsk ?v ?x" using sv wrote_dsk [OF wr] by simp
  note b = brelse_ok [OF w(2) hv this]
  let ?u = "released i ?v"
  have "wrote s ?u [(?x, ?c)]" by (rule wrote_same [OF wr b(6,7)])
  moreover have "nfree ?u = nfree s" using b(9) w(6,7) m(5,6) r(2) room by (auto simp: reads_def)
  moreover have "refs ?u = refs s" using b(8) w(6) m(5) r(2) by (auto simp: reads_def)
  moreover have "held ?u = (\<lambda>_. None)" using b(4) w(4) m(3) t(4) by auto
  moreover have "bio_frame s ?u" using t(5) m(2) w(3) b(3) bio_frame_trans by blast
  moreover have "seen ?u = (seen s)(?x := ?c)" using b(5) sv by simp
  moreover have "header ?c (lh_n ?l) (lh_block ?l)" by (rule header_put [OF n])
  moreover have "write_head s = Ok () ?u"
  proof -
    have "bread (log_dev ?l) (log_start ?l) s = Ok i t" using r(1) by (simp add: head_of_def)
    moreover have "bwrite i ?m = Ok () ?v" by (rule w(1))
    ultimately show ?thesis using b(1) n lt by (simp add: write_head_def Let_def)
  qed
  ultimately show ?thesis using b(2) by blast
qed

section \<open>The loops\<close>

text \<open>
  Where the log lies: its blocks are on a real device, do not wrap around, and are nobody's home.
\<close>

definition log_area :: "log_t \<Rightarrow> (u32 \<times> u32) set" where
  "log_area l = {(log_dev l, log_start l + of_nat j) | j. j \<le> LOGSIZE}"

definition log_shape :: "log_t \<Rightarrow> bool" where
  "log_shape l \<longleftrightarrow> log_dev l \<noteq> 0 \<and> unat (log_start l) + LOGSIZE < 2 ^ 32 \<and>
     nat (lh_n l) \<le> LOGSIZE \<and> (\<forall>i < nat (lh_n l). home_of l i \<notin> log_area l)"

lemma log_place:
  assumes "unat (log_start l) + LOGSIZE < 2 ^ 32" and "j \<le> LOGSIZE"
  shows "unat (log_start l + of_nat j) = unat (log_start l) + j"
proof -
  have "j < 2 ^ 32" using assms(2) by (simp add: LOGSIZE_def MAXOPBLOCKS_def)
  then have "unat (of_nat j :: u32) = j" by (simp add: unat_of_nat)
  then show ?thesis using assms by (simp add: unat_word_ariths)
qed

lemma slot_facts:
  assumes "log_shape l" and "i < LOGSIZE"
  shows "slot_of l i \<in> log_area l" "head_of l \<in> log_area l" "slot_of l i \<noteq> head_of l"
    "j < LOGSIZE \<Longrightarrow> slot_of l i = slot_of l j \<longleftrightarrow> i = j" "fst (slot_of l i) \<noteq> 0"
proof -
  have s: "slot_of l k = (log_dev l, log_start l + of_nat (k + 1))" for k by (simp add: slot_of_def)
  have u: "unat (log_start l) + LOGSIZE < 2 ^ 32" using assms by (simp add: log_shape_def)
  note p = log_place [OF u]
  show "slot_of l i \<in> log_area l" unfolding s log_area_def using assms(2) by (auto intro!: exI [of _ "i + 1"])
  show "head_of l \<in> log_area l" unfolding head_of_def log_area_def by (auto intro!: exI [of _ 0])
  show "slot_of l i \<noteq> head_of l"
  proof
    assume "slot_of l i = head_of l"
    then have "unat (log_start l + of_nat (i + 1)) = unat (log_start l)" unfolding s head_of_def by simp
    then show False using p [of "i + 1"] assms(2) by simp
  qed
  show "slot_of l i = slot_of l j \<longleftrightarrow> i = j" if "j < LOGSIZE"
  proof
    assume "slot_of l i = slot_of l j"
    then have "unat (log_start l + of_nat (i + 1)) = unat (log_start l + of_nat (j + 1))" unfolding s by simp
    then show "i = j" using p [of "i + 1"] p [of "j + 1"] assms(2) that by simp
  qed simp
  show "fst (slot_of l i) \<noteq> 0" using assms by (simp add: slot_of_def log_shape_def)
qed

lemma home_facts:
  assumes "log_shape l" and "i < nat (lh_n l)"
  shows "home_of l i \<notin> log_area l" "fst (home_of l i) \<noteq> 0" "i < LOGSIZE"
    "j < LOGSIZE \<Longrightarrow> slot_of l j \<noteq> home_of l i" "home_of l i \<noteq> head_of l"
proof -
  show a: "home_of l i \<notin> log_area l" using assms by (simp add: log_shape_def)
  show "fst (home_of l i) \<noteq> 0" using assms by (simp add: log_shape_def home_of_def)
  show i: "i < LOGSIZE" using assms by (simp add: log_shape_def)
  show "j < LOGSIZE \<Longrightarrow> slot_of l j \<noteq> home_of l i" using a slot_facts(1) [OF assms(1), of j] by metis
  show "home_of l i \<noteq> head_of l" using a slot_facts(2) [OF assms(1) i] by metis
qed

definition log_upds :: "log_t \<Rightarrow> (u32 \<times> u32 \<Rightarrow> bytes) \<Rightarrow> nat \<Rightarrow> upd list" where
  "log_upds l C k = map (\<lambda>i. (slot_of l i, C (home_of l i))) [0..<k]"

definition home_upds :: "log_t \<Rightarrow> (u32 \<times> u32 \<Rightarrow> bytes) \<Rightarrow> nat \<Rightarrow> upd list" where
  "home_upds l C k = map (\<lambda>i. (home_of l i, C (slot_of l i))) [0..<k]"

lemma fst_upds: "fst ` set (log_upds l C k) = slot_of l ` {..<k}" "fst ` set (home_upds l C k) = home_of l ` {..<k}"
  by (simp_all add: log_upds_def home_upds_def image_image lessThan_atLeast0)

lemma upds_Suc: "log_upds l C (Suc k) = log_upds l C k @ [(slot_of l k, C (home_of l k))]"
  "home_upds l C (Suc k) = home_upds l C k @ [(home_of l k, C (slot_of l k))]"
  by (simp_all add: log_upds_def home_upds_def)

lemma write_log_loop:
  fixes s :: "'a logst_scheme"
  assumes inv: "cache_inv p s" and h: "held s = (\<lambda>_. None)" and sh: "log_shape (log s)" and room: "0 < nfree s"
    and pin: "\<And>i. i < nat (lh_n (log s)) \<Longrightarrow> 0 < refs s (home_of (log s) i)"
    and bound: "\<And>x. refs s x + 1 < 2 ^ 32" and k: "k \<le> nat (lh_n (log s))"
  shows "\<exists>v. kfor (\<lambda>tail s.
     kbind (bread (log_dev (log s)) (log_start (log s) + of_nat tail + 1) s) (\<lambda>to s.
     kbind (logged tail s) (\<lambda>home s.
     kbind (bread (log_dev (log s)) home s) (\<lambda>from s.
     kthen (bwrite to (copy_block to from s)) (\<lambda>s.
     kthen (brelse from s) (\<lambda>s.
     brelse to s)))))) [0..<k] s = Ok () v \<and> cache_inv p v \<and> bio_frame s v \<and> held v = (\<lambda>_. None) \<and>
     seen v = apply_upds (log_upds (log s) (seen s) k) (seen s) \<and> wrote s v (log_upds (log s) (seen s) k) \<and>
     refs v = refs s \<and> nfree v = nfree s"
  (is "\<exists>v. kfor ?body _ _ = _ \<and> _")
  using k
proof (induction k)
  case 0
  then show ?case using inv h bio_frame_refl wrote_Nil [of s s] by (auto simp: log_upds_def)
next
  case (Suc k)
  let ?l = "log s" and ?U = "log_upds (log s) (seen s) k"
  let ?x = "slot_of (log s) k" and ?y = "home_of (log s) k"
  obtain v where v: "kfor ?body [0..<k] s = Ok () v" "cache_inv p v" "bio_frame s v" "held v = (\<lambda>_. None)"
    "seen v = apply_upds ?U (seen s)" "wrote s v ?U" "refs v = refs s" "nfree v = nfree s"
    using Suc by auto
  have lv: "log v = ?l" by (rule log_frame_bio [OF v(3)])
  have kn: "k < nat (lh_n ?l)" using Suc.prems by simp
  note hf = home_facts [OF sh kn]
  have sf: "fst ?x \<noteq> 0" by (rule slot_facts(5) [OF sh hf(3)])
  have ne: "?x \<noteq> ?y" by (rule hf(4) [OF hf(3)])
  have "?y \<notin> fst ` set ?U" using hf(3,4) unfolding fst_upds by (auto dest!: sym [of ?y])
  then have sy: "seen v ?y = seen s ?y" unfolding v(5) by (rule apply_upds_notin)
  obtain a t1 b t u u1 w where w: "bread (fst ?x) (snd ?x) v = Ok a t1" "log t1 = log v"
    "bread (fst ?y) (snd ?y) t1 = Ok b t" "bwrite a (copy_block a b t) = Ok () u" "brelse b u = Ok () u1"
    "brelse a u1 = Ok () w" "cache_inv p w" "bio_frame v w" "held w = (\<lambda>_. None)"
    "seen w = (seen v)(?x := seen v ?y)" "wrote v w [(?x, seen v ?y)]" "refs w = refs v" "nfree w = nfree v"
    using write_log_turn [OF v(2,4) ne sf hf(2)] room pin [OF kn] bound unfolding v(7,8) by metis
  have "?body k v = Ok () w"
    using w(1-6) hf(3) lv by (simp add: slot_of_def home_of_def logged_def)
  then have "kfor ?body [0..<Suc k] s = Ok () w" using v(1) by (simp add: kfor_append)
  moreover have "seen w = apply_upds (log_upds ?l (seen s) (Suc k)) (seen s)"
    using w(10) sy v(5) by (simp add: upds_Suc)
  moreover have "wrote s w (log_upds ?l (seen s) (Suc k))"
    using wrote_append [OF v(6) w(11)] sy by (simp add: upds_Suc)
  moreover have "bio_frame s w" using bio_frame_trans [OF v(3) w(8)] .
  ultimately show ?case using w(7,9,12,13) v(7,8) by auto
qed

lemma install_loop:
  fixes s :: "'a logst_scheme"
  assumes inv: "cache_inv p s" and h: "held s = (\<lambda>_. None)" and sh: "log_shape (log s)"
    and pin: "\<And>i. i < nat (lh_n (log s)) \<Longrightarrow> refs s (home_of (log s) i) = (if recovering then 0 else 1)"
    and dis: "\<not> recovering \<Longrightarrow> inj_on (home_of (log s)) {..<nat (lh_n (log s))}"
    and room: "(if recovering then 1 else 0) < nfree s"
    and clean: "\<And>i. i < nat (lh_n (log s)) \<Longrightarrow> refs s (slot_of (log s) i) = 0 \<and> seen s (slot_of (log s) i) = dsk s (slot_of (log s) i)"
    and k: "k \<le> nat (lh_n (log s))"
  shows "\<exists>v. kfor (\<lambda>tail s.
     kbind (bread (log_dev (log s)) (log_start (log s) + of_nat tail + 1) s) (\<lambda>lbuf s.
     kbind (logged tail s) (\<lambda>home s.
     kbind (bread (log_dev (log s)) home s) (\<lambda>dbuf s.
     kthen (bwrite dbuf (copy_block dbuf lbuf s)) (\<lambda>s.
     kthen (if \<not> recovering then bunpin dbuf s else Ok () s) (\<lambda>s.
     kthen (brelse lbuf s) (\<lambda>s.
     brelse dbuf s))))))) [0..<k] s = Ok () v \<and> cache_inv p v \<and> bio_frame s v \<and> held v = (\<lambda>_. None) \<and>
     seen v = apply_upds (home_upds (log s) (seen s) k) (seen s) \<and> wrote s v (home_upds (log s) (seen s) k) \<and>
     refs v = (\<lambda>x. if \<not> recovering \<and> x \<in> home_of (log s) ` {..<k} then 0 else refs s x) \<and>
     nfree v = nfree s + (if recovering then 0 else k)"
  (is "\<exists>v. kfor ?body _ _ = _ \<and> _")
  using k
proof (induction k)
  case 0
  then show ?case using inv h bio_frame_refl wrote_Nil [of s s] by (auto simp: home_upds_def)
next
  case (Suc k)
  let ?l = "log s" and ?U = "home_upds (log s) (seen s) k"
  let ?x = "slot_of (log s) k" and ?y = "home_of (log s) k"
  obtain v where v: "kfor ?body [0..<k] s = Ok () v" "cache_inv p v" "bio_frame s v" "held v = (\<lambda>_. None)"
    "seen v = apply_upds ?U (seen s)" "wrote s v ?U"
    "refs v = (\<lambda>x. if \<not> recovering \<and> x \<in> home_of (log s) ` {..<k} then 0 else refs s x)"
    "nfree v = nfree s + (if recovering then 0 else k)"
    using Suc by auto
  have lv: "log v = ?l" by (rule log_frame_bio [OF v(3)])
  have kn: "k < nat (lh_n ?l)" using Suc.prems by simp
  note hf = home_facts [OF sh kn]
  have sf: "fst ?x \<noteq> 0" by (rule slot_facts(5) [OF sh hf(3)])
  have ne: "?x \<noteq> ?y" by (rule hf(4) [OF hf(3)])
  have xh: "?x \<noteq> home_of ?l i" if "i < k" for i using home_facts(4) [OF sh _ hf(3)] kn that by simp
  have "?x \<notin> fst ` set ?U" using xh unfolding fst_upds by auto
  then have sx: "seen v ?x = seen s ?x" "dsk v ?x = dsk s ?x"
    unfolding v(5) wrote_dsk [OF v(6)] by (rule apply_upds_notin)+
  have rx: "refs v ?x = 0" using v(7) xh clean [OF kn] by auto
  have ynew: "\<not> recovering \<Longrightarrow> ?y \<notin> home_of ?l ` {..<k}"
  proof
    assume "\<not> recovering" and "?y \<in> home_of ?l ` {..<k}"
    then obtain i where "i < k" "home_of ?l i = ?y" by auto
    then show False using inj_onD [OF dis [OF \<open>\<not> recovering\<close>], of i k] kn by simp
  qed
  have ry: "refs v ?y = (if recovering then 0 else 1)" using v(7) pin [OF kn] ynew by auto
  have room': "(if refs v ?x = 0 then 1 else 0) + (if refs v ?y = 0 then 1 else 0) \<le> nfree v"
    using rx ry room v(8) by auto
  have cl: "refs v ?x = 0 \<Longrightarrow> seen v ?x = dsk v ?x" using sx clean [OF kn] by simp
  have pin': "\<not> recovering \<Longrightarrow> 0 < refs v ?y" using ry by simp
  have bd: "refs v ?x + 1 < 2 ^ 32" "refs v ?y + 1 < 2 ^ 32" using rx ry by simp_all
  obtain a t1 b t u m u1 w where w: "bread (fst ?x) (snd ?x) v = Ok a t1" "log t1 = log v"
    "bread (fst ?y) (snd ?y) t1 = Ok b t" "bwrite b (copy_block b a t) = Ok () u"
    "(if \<not> recovering then bunpin b u else Ok () u) = Ok () m" "brelse a m = Ok () u1" "brelse b u1 = Ok () w"
    "cache_inv p w" "bio_frame v w" "held w = (\<lambda>_. None)" "seen w = (seen v)(?y := seen v ?x)"
    "wrote v w [(?y, seen v ?x)]" "refs w = (if \<not> recovering then (refs v)(?y := refs v ?y - 1) else refs v)"
    "nfree w = nfree v + (if \<not> recovering \<and> refs v ?y = 1 then 1 else 0)"
    using install_turn [OF v(2,4) ne sf hf(2) room' pin' cl bd] by blast
  have "?body k v = Ok () w"
    using w(1-7) hf(3) lv by (simp add: slot_of_def home_of_def logged_def)
  then have "kfor ?body [0..<Suc k] s = Ok () w" using v(1) by (simp add: kfor_append)
  moreover have "seen w = apply_upds (home_upds ?l (seen s) (Suc k)) (seen s)"
    using w(11) sx v(5) by (simp add: upds_Suc)
  moreover have "wrote s w (home_upds ?l (seen s) (Suc k))"
    using wrote_append [OF v(6) w(12)] sx by (simp add: upds_Suc)
  moreover have "bio_frame s w" using bio_frame_trans [OF v(3) w(9)] .
  moreover have "refs w = (\<lambda>x. if \<not> recovering \<and> x \<in> home_of ?l ` {..<Suc k} then 0 else refs s x)"
    using w(13) v(7) ry by (auto simp: fun_eq_iff lessThan_Suc)
  moreover have "nfree w = nfree s + (if recovering then 0 else Suc k)" using w(14) v(8) ry by auto
  ultimately show ?case using w(8,10) by auto
qed

section \<open>Commit\<close>

lemma cache_log [simp]:
  "cache_inv p (upd_log f s) \<longleftrightarrow> cache_inv p s" "held (upd_log f s) = held s" "seen (upd_log f s) = seen s"
  "refs (upd_log f s) = refs s" "nfree (upd_log f s) = nfree s" "dsk (upd_log f s) = dsk s"
  "disk (upd_log f s) = disk s" "disk_done (upd_log f s) = disk_done s" "log (upd_log f s) = f (log s)"
  "bufs (upd_log f s) = bufs s" "procs (upd_log f s) = procs s"
proof -
  let ?t = "upd_log f s"
  have k: "key ?t = key s" by (auto simp: key_def upd_log_def)
  then have sl: "slot ?t = slot s" by (auto simp: slot_def)
  show d: "dsk ?t = dsk s" by (rule dsk_cong) (simp add: upd_log_def)
  show h: "held ?t = held s" using k by (auto simp: held_def upd_log_def)
  have b: "bufs ?t = bufs s" by (simp add: upd_log_def)
  show "seen ?t = seen s" by (rule ext) (simp add: seen_def sl d b split: option.split)
  show "refs ?t = refs s" by (rule ext) (simp add: refs_def sl b split: option.split)
  show "nfree ?t = nfree s" by (simp add: nfree_def upd_log_def)
  have "quiet ?t = quiet s" "me ?t = me s" by (simp_all add: quiet_def me_def upd_log_def frame_simps)
  then show "cache_inv p ?t \<longleftrightarrow> cache_inv p s"
    using k d h by (simp add: cache_inv_def bufs_ok_def keys_ok_def) (simp add: upd_log_def)
  show "disk ?t = disk s" "disk_done ?t = disk_done s" "log ?t = f (log s)" "bufs ?t = bufs s" "procs ?t = procs s"
    by (simp_all add: upd_log_def)
qed

definition new_upds :: "log_t \<Rightarrow> (u32 \<times> u32 \<Rightarrow> bytes) \<Rightarrow> upd list" where
  "new_upds l C = map (\<lambda>i. (home_of l i, C (home_of l i))) [0..<nat (lh_n l)]"

text \<open>The writes of a commit, and the state in which it may start: the pinned blocks are those of the log.\<close>

definition commit_upds :: "log_t \<Rightarrow> (u32 \<times> u32 \<Rightarrow> bytes) \<Rightarrow> bytes \<Rightarrow> bytes \<Rightarrow> upd list" where
  "commit_upds l C c1 c0 =
     log_upds l C (nat (lh_n l)) @ [(head_of l, c1)] @ new_upds l C @ [(head_of l, c0)]"

definition homes :: "log_t \<Rightarrow> (u32 \<times> u32) set" where
  "homes l = home_of l ` {..<nat (lh_n l)}"

definition tx_state :: "nat \<Rightarrow> 'a logst_scheme \<Rightarrow> bool" where
  "tx_state p s \<longleftrightarrow> cache_inv p s \<and> held s = (\<lambda>_. None) \<and> log_shape (log s) \<and> 0 \<le> lh_n (log s) \<and>
     inj_on (home_of (log s)) {..<nat (lh_n (log s))} \<and>
     refs s = (\<lambda>x. if x \<in> homes (log s) then 1 else 0) \<and> (\<forall>x. x \<notin> homes (log s) \<longrightarrow> seen s x = dsk s x) \<and>
     nfree s + nat (lh_n (log s)) = NBUF"

lemma apply_upds_in: "x \<in> fst ` set us \<Longrightarrow> apply_upds us C x = apply_upds us D x"
proof (induction us arbitrary: C D)
  case (Cons u us)
  obtain y c where u: "u = (y, c)" by (cases u)
  show ?case
  proof (cases "x \<in> fst ` set us")
    case True
    show ?thesis unfolding u apply_upds_simps by (rule Cons.IH [OF True])
  next
    case False
    then show ?thesis using apply_upds_notin [OF False] Cons.prems u by simp
  qed
qed simp

lemma apply_upds_cong: "(\<And>x. x \<notin> fst ` set us \<Longrightarrow> C x = D x) \<Longrightarrow> apply_upds us C = apply_upds us D"
proof
  fix x
  assume "\<And>x. x \<notin> fst ` set us \<Longrightarrow> C x = D x"
  then show "apply_upds us C x = apply_upds us D x"
    using apply_upds_in [of x us C D] apply_upds_notin [of x us] by (cases "x \<in> fst ` set us") auto
qed

lemma wrote_log [simp]: "wrote (upd_log f s) t us \<longleftrightarrow> wrote s t us"
  by (simp add: wrote_def)

lemma commit_ok:
  fixes s :: "'a logst_scheme"
  assumes tx: "tx_state p s" and n: "0 < lh_n (log s)" "lh_n (log s) < int LOGSIZE"
  shows "\<exists>v c1 c0. commit s = Ok () v \<and> cache_inv p v \<and> log v = (log s)\<lparr>lh_n := 0\<rparr> \<and> held v = (\<lambda>_. None) \<and>
     wrote s v (commit_upds (log s) (seen s) c1 c0) \<and> header c1 (lh_n (log s)) (lh_block (log s)) \<and>
     header c0 0 (lh_block (log s)) \<and> refs v = (\<lambda>_. 0) \<and> nfree v = NBUF \<and> seen v = dsk v"
proof -
  let ?l = "log s" and ?n = "nat (lh_n (log s))"
  have t: "cache_inv p s" "held s = (\<lambda>_. None)" "log_shape ?l" "inj_on (home_of ?l) {..<?n}"
    "refs s = (\<lambda>x. if x \<in> homes ?l then 1 else 0)" "\<And>x. x \<notin> homes ?l \<Longrightarrow> seen s x = dsk s x"
    "nfree s + ?n = NBUF"
    using tx by (auto simp: tx_state_def)
  have room: "0 < nfree s" using t(7) n by (simp add: LOGSIZE_def NBUF_def)
  have hm: "x \<in> homes ?l \<longleftrightarrow> (\<exists>i < ?n. x = home_of ?l i)" for x by (auto simp: homes_def)
  have pin: "refs s (home_of ?l i) = 1" if "i < ?n" for i unfolding t(5) using that hm by auto
  have bound: "refs s x + 1 < 2 ^ 32" for x unfolding t(5) by simp
  have L: "?n < LOGSIZE" using n by simp
  note hd = slot_facts(2,3) [OF t(3)]
  have hd_home: "head_of ?l \<notin> homes ?l" using home_facts(5) [OF t(3)] hm by metis
  obtain v1 where v1: "write_log s = Ok () v1" "cache_inv p v1" "bio_frame s v1" "held v1 = (\<lambda>_. None)"
    "seen v1 = apply_upds (log_upds ?l (seen s) ?n) (seen s)" "wrote s v1 (log_upds ?l (seen s) ?n)"
    "refs v1 = refs s" "nfree v1 = nfree s"
    using write_log_loop [OF t(1-3) room _ bound order_refl] pin unfolding write_log_def by auto
  have l1: "log v1 = ?l" by (rule log_frame_bio [OF v1(3)])
  have dev: "log_dev ?l \<noteq> 0" using t(3) by (simp add: log_shape_def)
  have v1r: "refs v1 x + 1 < 2 ^ 32" "0 < nfree v1" for x using bound room v1(7,8) by simp_all
  obtain c1 v2 where v2: "write_head v1 = Ok () v2" "cache_inv p v2" "bio_frame v1 v2" "held v2 = (\<lambda>_. None)"
    "seen v2 = (seen v1)(head_of ?l := c1)" "wrote v1 v2 [(head_of ?l, c1)]" "refs v2 = refs v1" "nfree v2 = nfree v1"
    "header c1 (lh_n ?l) (lh_block ?l)"
    using write_head_ok [OF v1(2,4), unfolded l1, OF dev] n v1r by auto
  have l2: "log v2 = ?l" using log_frame_bio [OF v2(3)] l1 by simp
  have slot_new: "seen v2 (slot_of ?l i) = seen s (home_of ?l i)" if "i < ?n" for i
  proof -
    have "slot_of ?l i \<noteq> head_of ?l" using slot_facts(3) [OF t(3)] that L by simp
    then have "seen v2 (slot_of ?l i) = apply_upds (log_upds ?l (seen s) ?n) (seen s) (slot_of ?l i)"
      using v2(5) v1(5) by simp
    also have "\<dots> = seen s (home_of ?l i)"
      unfolding log_upds_def by (rule apply_upds_map) (use that L slot_facts(4) [OF t(3)] in auto)
    finally show ?thesis .
  qed
  have slot_home: "slot_of ?l i \<notin> homes ?l" if "i < ?n" for i
    using home_facts(4) [OF t(3), of _ i] that L unfolding hm by auto
  have w2: "wrote s v2 (log_upds ?l (seen s) ?n @ [(head_of ?l, c1)])" using wrote_append [OF v1(6) v2(6)] .
  have sd2: "seen v2 x = dsk v2 x" if "x \<notin> homes ?l" for x
    using that t(6) [OF that] apply_upds_in [of x "log_upds ?l (seen s) ?n" "seen s" "dsk s"]
      apply_upds_notin [of x "log_upds ?l (seen s) ?n"]
    unfolding wrote_dsk [OF w2] v2(5) v1(5) by (cases "x \<in> fst ` set (log_upds ?l (seen s) ?n)") auto
  have pin2: "refs v2 (home_of ?l i) = (if False then 0 else 1)" if "i < ?n" for i
    using pin [OF that] v1(7) v2(7) by simp
  have clean2: "refs v2 (slot_of ?l i) = 0 \<and> seen v2 (slot_of ?l i) = dsk v2 (slot_of ?l i)" if "i < ?n" for i
    using slot_home [OF that] sd2 v1(7) v2(7) t(5) by simp
  have room2: "(if False then 1 else 0) < nfree v2" using room v1(8) v2(8) by simp
  obtain v3 where v3: "install_trans False v2 = Ok () v3" "cache_inv p v3" "bio_frame v2 v3" "held v3 = (\<lambda>_. None)"
    "seen v3 = apply_upds (home_upds ?l (seen v2) ?n) (seen v2)" "wrote v2 v3 (home_upds ?l (seen v2) ?n)"
    "refs v3 = (\<lambda>x. if x \<in> home_of ?l ` {..<?n} then 0 else refs v2 x)" "nfree v3 = nfree v2 + ?n"
    using install_loop [OF v2(2,4), unfolded l2, OF t(3) pin2 t(4) room2 clean2 order_refl]
    unfolding install_trans_def l2 by auto
  have l3: "log v3 = ?l" using log_frame_bio [OF v3(3)] l2 by simp
  have hu: "home_upds ?l (seen v2) ?n = new_upds ?l (seen s)"
    using slot_new by (simp add: home_upds_def new_upds_def)
  have r3: "refs v3 = (\<lambda>_. 0)" using v3(7) v2(7) v1(7) t(5) by (auto simp: homes_def fun_eq_iff)
  have n3: "nfree v3 = NBUF" using v3(8) v2(8) v1(8) t(7) by simp
  let ?v3 = "upd_log (\<lambda>l. l\<lparr>lh_n := 0\<rparr>) v3"
  have NB: "0 < NBUF" by (simp add: NBUF_def MAXOPBLOCKS_def)
  obtain c0 v where v: "write_head ?v3 = Ok () v" "cache_inv p v" "bio_frame ?v3 v" "held v = (\<lambda>_. None)"
    "seen v = (seen v3)(head_of ?l := c0)" "wrote v3 v [(head_of ?l, c0)]" "refs v = refs v3" "nfree v = nfree v3"
    "header c0 0 (lh_block ?l)"
    using write_head_ok [of p ?v3] v3(2,4) dev l3 r3 n3 NB by (auto simp: head_of_def)
  have "wrote s v ((log_upds ?l (seen s) ?n @ [(head_of ?l, c1)]) @ new_upds ?l (seen s) @ [(head_of ?l, c0)])"
    using wrote_append [OF wrote_append [OF w2 v3(6)] v(6)] hu by simp
  then have w: "wrote s v (commit_upds ?l (seen s) c1 c0)" by (simp add: commit_upds_def)
  have "seen v = apply_upds (commit_upds ?l (seen s) c1 c0) (seen s)"
    using v(5) v3(5) v2(5) v1(5) hu by (simp add: commit_upds_def)
  also have "\<dots> = apply_upds (commit_upds ?l (seen s) c1 c0) (dsk s)"
  proof (rule apply_upds_cong)
    fix x assume "x \<notin> fst ` set (commit_upds ?l (seen s) c1 c0)"
    then have "x \<notin> homes ?l" unfolding hm by (force simp: commit_upds_def new_upds_def)
    then show "seen s x = dsk s x" by (rule t(6))
  qed
  also have "\<dots> = dsk v" using wrote_dsk [OF w] by simp
  finally have sv: "seen v = dsk v" .
  have lv: "log v = ?l\<lparr>lh_n := 0\<rparr>" using log_frame_bio [OF v(3)] l3 by simp
  have "commit s = Ok () v" using n(1) v1(1) v2(1) v3(1) v(1) by (simp add: commit_def)
  then show ?thesis using v(2,4) w v2(9) v(9) v(7,8) r3 n3 sv lv by auto
qed

section \<open>Recovery\<close>

lemma read_entries:
  "k \<le> LOGSIZE \<Longrightarrow>
   kfor (\<lambda>i s. if i < LOGSIZE then Ok () (upd_log (\<lambda>l. l\<lparr>lh_block := (lh_block l)(i := head_entry d i)\<rparr>) s)
           else Fault ''log.lh.block: index out of bounds'') [0..<k] s =
   (Ok () (upd_log (\<lambda>l. l\<lparr>lh_block := (\<lambda>i. if i < k then head_entry d i else lh_block l i)\<rparr>) s)
     :: (unit, 'a logst_scheme) kr)"
proof (induction k)
  case (Suc k)
  have "(\<lambda>i. if i < k then head_entry d i else b i)(k := head_entry d k) =
     (\<lambda>i. if i < Suc k then head_entry d i else b i)" for b
    by (auto simp: fun_eq_iff less_Suc_eq)
  then show ?case using Suc by (simp add: kfor_append upd_log_def)
qed (simp add: upd_log_def)

text \<open>\<^verbatim>\<open>read_head\<close> puts the header on disk in memory.\<close>

lemma read_head_ok:
  fixes s :: "'a logst_scheme"
  assumes inv: "cache_inv p s" and h: "held s = (\<lambda>_. None)" and dev: "log_dev (log s) \<noteq> 0" and room: "0 < nfree s"
    and r0: "refs s = (\<lambda>_. 0)" and sd: "seen s = dsk s"
    and hd: "header (dsk s (head_of (log s))) n bl" and n: "nat n \<le> LOGSIZE"
  shows "\<exists>v. read_head s = Ok () v \<and> cache_inv p v \<and> held v = (\<lambda>_. None) \<and> seen v = seen s \<and> disk v = disk s \<and>
     disk_done v = disk_done s \<and> refs v = refs s \<and> nfree v = nfree s \<and>
     (\<exists>bl'. log v = (log s)\<lparr>lh_n := n, lh_block := bl'\<rparr> \<and> (\<forall>i < nat n. bl' i = bl i))"
proof -
  let ?l = "log s" and ?x = "head_of (log s)"
  have x: "fst ?x \<noteq> 0" "refs s ?x + 1 < 2 ^ 32" using dev r0 by (simp_all add: head_of_def)
  obtain i t where r: "bread (fst ?x) (snd ?x) s = Ok i t" "reads p s ?x i t"
    using bread_ok [OF inv x(1) _ _ x(2)] h room by auto
  then have t: "cache_inv p t" "held t i = Some ?x" "held t = [i \<mapsto> ?x]" "bio_frame s t" "seen t = seen s"
    "disk t = disk s" "disk_done t = disk_done s"
    using h by (auto simp: reads_def)
  have lt: "log t = ?l" by (rule log_frame_bio [OF t(4)])
  let ?d = "b_data (bufs t i)"
  have "block ?d = dsk s ?x" using r(2) sd by (simp add: reads_def)
  then have hb: "header (block ?d) n bl" using hd by simp
  have sz: "LOGSIZE = 30" "BSIZE = 1024" by (simp_all add: LOGSIZE_def MAXOPBLOCKS_def BSIZE_def)
  have hn: "sint (ld32 ?d 0) = n" using hb sz by (simp add: header_def)
  have he: "head_entry ?d j = bl j" if "j < nat n" for j
    using hb that n sz by (simp add: header_def head_entry_def)
  let ?bl = "\<lambda>i. if i < nat n then head_entry ?d i else lh_block ?l i"
  let ?u = "upd_log (\<lambda>l. l\<lparr>lh_n := n, lh_block := ?bl\<rparr>) t"
  have u: "cache_inv p ?u" "held ?u i = Some ?x" "refs ?u ?x = 1 \<Longrightarrow> seen ?u ?x = dsk ?u ?x"
    using t sd dsk_cong [OF t(6)] by simp_all
  note b = brelse_ok [OF u]
  let ?v = "released i ?u"
  have "read_head s = Ok () ?v"
  proof -
    have "bread (log_dev ?l) (log_start ?l) s = Ok i t" using r(1) by (simp add: head_of_def)
    moreover have "upd_log (\<lambda>l. l\<lparr>lh_block := (\<lambda>i. if i < nat n then head_entry ?d i else lh_block l i)\<rparr>)
        (upd_log (\<lambda>l. l\<lparr>lh_n := n\<rparr>) t) = ?u"
      by (simp add: upd_log_def lt cong: if_cong)
    ultimately show ?thesis
      using b(1) read_entries [OF n, of ?d "upd_log (\<lambda>l. l\<lparr>lh_n := n\<rparr>) t"] hn
      by (simp add: read_head_def Let_def)
  qed
  moreover have "log ?v = ?l\<lparr>lh_n := n, lh_block := ?bl\<rparr>"
    using log_frame_bio [OF b(3)] lt by simp
  moreover have "refs ?v = refs s" using b(8) r(2) by (auto simp: reads_def)
  moreover have "nfree ?v = nfree s" using b(9) r(2) room r0 by (auto simp: reads_def)
  moreover have "held ?v = (\<lambda>_. None)" using b(4) t(3) by auto
  moreover have "seen ?v = seen s" "disk ?v = disk s" "disk_done ?v = disk_done s" using b(5-7) t(5-7) by simp_all
  ultimately show ?thesis using b(2) he by (intro exI [of _ ?v]) auto
qed

definition replay :: "log_t \<Rightarrow> int \<Rightarrow> (nat \<Rightarrow> u32) \<Rightarrow> (u32 \<times> u32 \<Rightarrow> bytes) \<Rightarrow> upd list" where
  "replay l n bl C = map (\<lambda>i. ((log_dev l, bl i), C (slot_of l i))) [0..<nat n]"

lemma recover_ok:
  fixes s :: "'a logst_scheme"
  assumes inv: "cache_inv p s" and h: "held s = (\<lambda>_. None)" and dev: "log_dev (log s) \<noteq> 0"
    and wrap: "unat (log_start (log s)) + LOGSIZE < 2 ^ 32" and room: "1 < nfree s"
    and r0: "refs s = (\<lambda>_. 0)" and sd: "seen s = dsk s"
    and hd: "header (dsk s (head_of (log s))) n bl" and n: "n \<le> int LOGSIZE"
    and away: "\<And>i. i < nat n \<Longrightarrow> (log_dev (log s), bl i) \<notin> log_area (log s)"
  shows "\<exists>v c. recover_from_log s = Ok () v \<and> cache_inv p v \<and> held v = (\<lambda>_. None) \<and> refs v = (\<lambda>_. 0) \<and>
     nfree v = nfree s \<and> seen v = dsk v \<and> header c 0 bl \<and>
     dsk v = (apply_upds (replay (log s) n bl (dsk s)) (dsk s))(head_of (log s) := c) \<and>
     log_dev (log v) = log_dev (log s) \<and> log_start (log v) = log_start (log s) \<and> lh_n (log v) = 0"
proof -
  let ?l = "log s"
  have n': "nat n \<le> LOGSIZE" using n by simp
  obtain v bl' where v: "read_head s = Ok () v" "cache_inv p v" "held v = (\<lambda>_. None)" "seen v = seen s" "disk v = disk s"
    "refs v = refs s" "nfree v = nfree s" "log v = ?l\<lparr>lh_n := n, lh_block := bl'\<rparr>" "\<And>i. i < nat n \<Longrightarrow> bl' i = bl i"
    using read_head_ok [OF inv h dev _ r0 sd hd n'] room by auto
  have area: "log_area (log v) = log_area ?l" by (simp add: log_area_def v(8))
  have eqs: "head_of (log v) = head_of ?l" "slot_of (log v) i = slot_of ?l i"
    "i < nat n \<Longrightarrow> home_of (log v) i = (log_dev ?l, bl i)" "lh_n (log v) = n" "log_dev (log v) \<noteq> 0" for i
    using v(8,9) dev by (simp_all add: head_of_def slot_of_def home_of_def)
  have sh: "log_shape (log v)"
    using n' wrap away eqs unfolding log_shape_def area by (simp add: v(8))
  have dv: "dsk v = dsk s" by (rule dsk_cong [OF v(5)])
  obtain w where w: "install_trans True v = Ok () w" "cache_inv p w" "bio_frame v w" "held w = (\<lambda>_. None)"
    "seen w = apply_upds (home_upds (log v) (seen v) (nat n)) (seen v)"
    "wrote v w (home_upds (log v) (seen v) (nat n))" "refs w = refs v" "nfree w = nfree v"
    using install_loop [OF v(2,3) sh, of True "nat n"] room v(4,6,7) r0 sd dv eqs(4)
    unfolding install_trans_def by auto
  have hu: "home_upds (log v) (seen v) (nat n) = replay ?l n bl (dsk s)"
    using eqs v(4) sd by (simp add: home_upds_def replay_def)
  let ?w = "upd_log (\<lambda>l. l\<lparr>lh_n := 0\<rparr>) w"
  have lw: "log w = log v" by (rule log_frame_bio [OF w(3)])
  obtain c u where u: "write_head ?w = Ok () u" "cache_inv p u" "bio_frame ?w u" "held u = (\<lambda>_. None)"
    "seen u = (seen w)(head_of ?l := c)" "wrote w u [(head_of ?l, c)]" "refs u = refs w" "nfree u = nfree w"
    "header c 0 bl"
    using write_head_ok [of p ?w] w(2,4,7,8) v(6,7) room r0 lw eqs(5) v(8) by (auto simp: head_of_def header_def)
  have du: "dsk u = (apply_upds (replay ?l n bl (dsk s)) (dsk s))(head_of ?l := c)"
    using wrote_dsk [OF u(6)] wrote_dsk [OF w(6)] dv hu by simp
  moreover have "seen u = dsk u" using u(5) w(5) hu v(4) sd du by simp
  moreover have "log u = (log v)\<lparr>lh_n := 0\<rparr>" using log_frame_bio [OF u(3)] lw by simp
  moreover have "recover_from_log s = Ok () u" using v(1) w(1) u(1) by (simp add: recover_from_log_def)
  ultimately show ?thesis using u w(7,8) v(6,7) r0 by (auto simp: v(8))
qed

end
