(* ===== verification/Recovery.thy ===== *)
theory Recovery
  imports Commit
begin

text \<open>
  Crash safety of the log.  A machine can stop between any two writes to the disk; what is on disk then is
  the old disk with a prefix of the writes done (\<open>disk_done\<close>).  The theorems say what
  \<^verbatim>\<open>recover_from_log\<close> makes of each such disk.
\<close>

section \<open>Transactions\<close>

lemma log_index_facts:
  assumes "0 \<le> lh_n l" and "fst x = log_dev l"
  shows "x \<in> homes l \<Longrightarrow> log_index (snd x) l < nat (lh_n l) \<and> lh_block l (log_index (snd x) l) = snd x"
    and "x \<notin> homes l \<Longrightarrow> log_index (snd x) l = nat (lh_n l)"
proof -
  have hm: "x \<in> homes l \<longleftrightarrow> (\<exists>i < nat (lh_n l). lh_block l i = snd x)"
    using assms(2) unfolding homes_def home_of_def image_iff by (cases x) auto
  show "x \<in> homes l \<Longrightarrow> log_index (snd x) l < nat (lh_n l) \<and> lh_block l (log_index (snd x) l) = snd x"
  proof -
    assume "x \<in> homes l"
    then have "find (\<lambda>i. lh_block l i = snd x) [0..<nat (lh_n l)] \<noteq> None"
      unfolding hm find_upt_None by auto
    then obtain i where i: "find (\<lambda>i. lh_block l i = snd x) [0..<nat (lh_n l)] = Some i" by auto
    then show ?thesis using find_SomeD [OF i] by (simp add: log_index_def)
  qed
  show "x \<notin> homes l \<Longrightarrow> log_index (snd x) l = nat (lh_n l)"
  proof -
    assume "x \<notin> homes l"
    then have "find (\<lambda>i. lh_block l i = snd x) [0..<nat (lh_n l)] = None"
      unfolding hm find_upt_None by auto
    then show ?thesis by (simp add: log_index_def)
  qed
qed

lemma bpin_ok:
  assumes "cache_inv p s"
  shows "bpin i (grab L_log s) = Ok () (grab L_log (upd_buf i (\<lambda>b. b\<lparr>b_refcnt := b_refcnt b + 1\<rparr>) s))"
proof -
  note c = cache_inv_simps [OF assms]
  have "upd_buf i f (grab L_bcache (grab L_log s)) = grab L_bcache (grab L_log (upd_buf i f s))" for f
    by (simp add: frame_simps)
  then show ?thesis
    using c(2,3) by (simp add: bpin_def kernel_simps frame_simps)
qed

lemma upd_log_grab [frame_simps]: "upd_log f (grab l s) = grab l (upd_log f s)" "log (grab l s) = log s"
  by (simp_all add: upd_log_def frame_simps)

lemma upd_log_locks [frame_simps]: "irq_ok (upd_log f s) \<longleftrightarrow> irq_ok s" "free l (upd_log f s) \<longleftrightarrow> free l s"
  "noff (mycpu (upd_log f s)) = noff (mycpu s)" "me (upd_log f s) = me s" "proc_locks_free (upd_log f s) \<longleftrightarrow> proc_locks_free s"
  by (simp_all add: upd_log_def frame_simps me_def proc_locks_free_def)

lemma log_write_ok:
  fixes s :: "'a logst_scheme"
  assumes inv: "cache_inv p s" and h: "held s i = Some x" and dev: "fst x = log_dev (log s)"
    and o: "1 \<le> outstanding (log s)" and n: "0 \<le> lh_n (log s)" "lh_n (log s) < int LOGSIZE"
      "lh_n (log s) < log_size (log s) - 1"
    and bound: "refs s x + 1 < 2 ^ 32"
  shows "\<exists>v. log_write i s = Ok () v \<and> cache_inv p v \<and> held v = held s \<and> seen v = seen s \<and> disk v = disk s \<and>
     disk_done v = disk_done s \<and> nfree v = nfree s \<and>
     (if x \<in> homes (log s) then log v = log s \<and> refs v = refs s
      else log v = (log s)\<lparr>lh_block := (lh_block (log s))(nat (lh_n (log s)) := snd x), lh_n := lh_n (log s) + 1\<rparr> \<and>
        refs v = (refs s)(x := refs s x + 1))"
proof -
  let ?l = "log s" and ?i = "log_index (snd x) (log s)"
  note c = cache_inv_simps [OF inv] and hf = held_facts [OF inv h]
  note cf = cached_facts [OF inv hf(1,2)]
  have ok: "\<not> (lh_n ?l \<ge> int LOGSIZE \<or> lh_n ?l \<ge> log_size ?l - 1)" "\<not> outstanding ?l < 1" using n o by auto
  have bl: "b_blockno (bufs s i) = snd x" by (rule cf(4))
  show ?thesis
  proof (cases "x \<in> homes ?l")
    case True
    note ix = log_index_facts(1) [OF n(1) dev True]
    then have "(lh_block ?l)(?i := snd x) = lh_block ?l" by (metis fun_upd_triv)
    then have "upd_log (\<lambda>l. l\<lparr>lh_block := (lh_block l)(?i := snd x)\<rparr>) s = s"
      by (simp add: upd_log_def)
    then have "log_write i s = Ok () s"
      using c(2,3) ok ix by (simp add: log_write_def kernel_simps frame_simps Let_def bl)
    then show ?thesis using True inv by auto
  next
    case False
    have ix: "?i = nat (lh_n ?l)" by (rule log_index_facts(2) [OF n(1) dev False])
    let ?s1 = "upd_log (\<lambda>l. l\<lparr>lh_block := (lh_block l)(?i := snd x)\<rparr>) s"
    let ?m = "b_refcnt (bufs s i) + 1"
    let ?s2 = "upd_buf i (\<lambda>b. b\<lparr>b_refcnt := ?m\<rparr>) ?s1"
    let ?v = "upd_log (\<lambda>l. l\<lparr>lh_n := lh_n l + 1\<rparr>) ?s2"
    have i1: "cache_inv p ?s1" "slot ?s1 x = Some i" "0 < refs ?s1 x" "b_valid (bufs ?s1 i)"
      using inv hf by (simp_all add: slot_def key_def)
    have "unat ?m = refs s x + 1" using bound cf(6) by (simp add: unat_word_ariths)
    moreover from this have m0: "?m \<noteq> 0" by (metis add_is_0 unat_0 zero_neq_one)
    ultimately have pc: "cache_inv p ?s2" "bio_frame ?s1 ?s2" "held ?s2 = held s" "seen ?s2 = seen s" "disk ?s2 = disk s"
      "disk_done ?s2 = disk_done s" "refs ?s2 = (refs s)(x := refs s x + 1)" "nfree ?s2 = nfree s"
      using pin_change [OF i1(1,3,2,4), of ?m] by simp_all
    have "upd_buf i (\<lambda>b. b\<lparr>b_refcnt := b_refcnt b + 1\<rparr>) ?s1 = ?s2" by (simp add: upd_buf_def)
    then have pin: "bpin i (grab L_log ?s1) = Ok () (grab L_log ?s2)" using bpin_ok [OF i1(1), of i] by simp
    have "irq_ok ?v" "free L_log ?v" using c(2,3) by (simp_all add: frame_simps)
    then have "log_write i s = Ok () ?v"
      using c(2,3) ok ix pin by (simp add: log_write_def kernel_simps frame_simps Let_def bl)
    moreover have "log ?s2 = log ?s1" by (rule log_frame_bio [OF pc(2)])
    ultimately show ?thesis using False pc ix by (intro exI [of _ ?v]) simp
  qed
qed

text \<open>
  What the file system does inside a transaction: reading blocks, and reading a block, changing it and
  handing it to \<^verbatim>\<open>log_write\<close>.
\<close>

fun tx_step :: "bio_op \<Rightarrow> 'a logst_scheme \<Rightarrow> (bytes, 'a logst_scheme) kr" where
  "tx_step (Read_block x) s = bio_step (Read_block x) s"
| "tx_step (Write_block x k n d) s =
     kbind (bread (fst x) (snd x) s) (\<lambda>i s.
       let old = b_data (bufs s i) in
       kthen (log_write i (upd_buf i (\<lambda>b. b\<lparr>b_data := splice (b_data b) k n d\<rparr>) s)) (\<lambda>s.
       kthen (brelse i s) (\<lambda>s. Ok (block old) s)))"

fun tx_steps :: "bio_op list \<Rightarrow> 'a logst_scheme \<Rightarrow> (bytes list, 'a logst_scheme) kr" where
  "tx_steps [] s = Ok [] s"
| "tx_steps (a # as) s = kbind (tx_step a s) (\<lambda>d s. kbind (tx_steps as s) (\<lambda>ds s. Ok (d # ds) s))"

definition transaction :: "bio_op list \<Rightarrow> 'a logst_scheme \<Rightarrow> (bytes list, 'a logst_scheme) kr" where
  "transaction ops s =
     kthen (begin_op s) (\<lambda>s. kbind (tx_steps ops s) (\<lambda>ds s. kthen (end_op s) (\<lambda>s. Ok ds s)))"

text \<open>The blocks a list of operations writes.\<close>

fun write_set :: "bio_op list \<Rightarrow> (u32 \<times> u32) set" where
  "write_set [] = {}"
| "write_set (Read_block x # as) = write_set as"
| "write_set (Write_block x k n d # as) = insert x (write_set as)"

definition same_log :: "log_t \<Rightarrow> log_t \<Rightarrow> bool" where
  "same_log l l' \<longleftrightarrow> log_dev l' = log_dev l \<and> log_start l' = log_start l \<and> log_size l' = log_size l \<and>
     outstanding l' = outstanding l \<and> committing l' = committing l"

lemma home_new:
  assumes "x \<notin> homes l" and "fst x = log_dev l" and "0 \<le> lh_n l"
  defines "l' \<equiv> l\<lparr>lh_block := (lh_block l)(nat (lh_n l) := snd x), lh_n := lh_n l + 1\<rparr>"
  shows "homes l' = insert x (homes l)" "inj_on (home_of l) {..<nat (lh_n l)} \<Longrightarrow> inj_on (home_of l') {..<nat (lh_n l')}"
    "log_shape l \<Longrightarrow> lh_n l < int LOGSIZE \<Longrightarrow> x \<notin> log_area l \<Longrightarrow> log_shape l'"
proof -
  let ?n = "nat (lh_n l)"
  have n': "nat (lh_n l') = Suc ?n" using assms(3) by (simp add: l'_def Suc_nat_eq_nat_zadd1)
  have h: "home_of l' i = home_of l i" if "i < ?n" for i using that by (simp add: home_of_def l'_def)
  have hn: "home_of l' ?n = x" using assms(2) by (simp add: home_of_def l'_def prod_eq_iff)
  have im: "home_of l' ` {..<?n} = homes l" unfolding homes_def by (rule image_cong) (use h in auto)
  then show "homes l' = insert x (homes l)" unfolding homes_def n' lessThan_Suc image_insert hn by simp
  show "inj_on (home_of l') {..<nat (lh_n l')}" if "inj_on (home_of l) {..<?n}"
  proof -
    have "inj_on (home_of l') {..<?n}" using that h by (simp add: inj_on_def)
    then show ?thesis unfolding n' lessThan_Suc inj_on_insert hn using im assms(1) by auto
  qed
  show "log_shape l'" if sh: "log_shape l" and "lh_n l < int LOGSIZE" and "x \<notin> log_area l"
  proof -
    have "log_area l' = log_area l" by (simp add: log_area_def l'_def)
    moreover have "home_of l' i \<notin> log_area l" if "i < Suc ?n" for i
      using that h hn \<open>x \<notin> log_area l\<close> home_facts(1) [OF sh] by (cases "i = ?n") auto
    moreover have "Suc ?n \<le> LOGSIZE" using \<open>lh_n l < int LOGSIZE\<close> assms(3) by linarith
    ultimately show ?thesis using sh unfolding log_shape_def n' by (simp add: l'_def)
  qed
qed

lemma tx_write:
  fixes s :: "'a logst_scheme"
  assumes tx: "tx_state p s" and dev: "fst x = log_dev (log s)" and x: "x \<notin> log_area (log s)" and fits: "k + n \<le> BSIZE"
    and o: "1 \<le> outstanding (log s)" and m: "lh_n (log s) < int LOGSIZE - 1" "lh_n (log s) < log_size (log s) - 1"
  shows "\<exists>v. tx_step (Write_block x k n d) s = Ok (seen s x) v \<and> tx_state p v \<and> same_log (log s) (log v) \<and>
     seen v = (seen s)(x := splice (seen s x) k n d) \<and> disk v = disk s \<and> disk_done v = disk_done s \<and>
     homes (log v) = insert x (homes (log s)) \<and>
     lh_n (log v) = lh_n (log s) + (if x \<in> homes (log s) then 0 else 1)"
proof -
  let ?l = "log s"
  have t: "cache_inv p s" "held s = (\<lambda>_. None)" "log_shape ?l" "0 \<le> lh_n ?l" "inj_on (home_of ?l) {..<nat (lh_n ?l)}"
    "refs s = (\<lambda>x. if x \<in> homes ?l then 1 else 0)" "\<forall>x. x \<notin> homes ?l \<longrightarrow> seen s x = dsk s x"
    "nfree s + nat (lh_n ?l) = NBUF"
    using tx by (simp_all add: tx_state_def)
  have x0: "fst x \<noteq> 0" using dev t(3) by (simp add: log_shape_def)
  have room: "1 < nfree s" using t(8) m(1) t(4) by (simp add: LOGSIZE_def NBUF_def)
  have bd: "refs s x + 1 < 2 ^ 32" unfolding t(6) by simp
  obtain i u where r: "bread (fst x) (snd x) s = Ok i u" "reads p s x i u"
    using bread_ok [OF t(1) x0 _ _ bd] t(2) room by auto
  then have u: "cache_inv p u" "held u i = Some x" "refs u = (refs s)(x := refs s x + 1)" "bio_frame s u" "seen u = seen s"
    "disk u = disk s" "disk_done u = disk_done s" "held u = [i \<mapsto> x]"
    using t(2) by (auto simp: reads_def)
  have lu: "log u = ?l" by (rule log_frame_bio [OF u(4)])
  let ?g = "\<lambda>d0. splice d0 k n d"
  let ?m = "upd_buf i (\<lambda>b. b\<lparr>b_data := ?g (b_data b)\<rparr>) u"
  note mo = modify_ok [OF u(1,2), of ?g]
  have bl: "block (?g (b_data (bufs u i))) = splice (seen s x) k n d"
    using r(2) fits by (simp add: block_splice_part reads_def)
  have lm: "log ?m = ?l" using log_frame_bio [OF mo(2)] lu by simp
  have hm: "held ?m i = Some x" using mo(3) u(2) by simp
  have bm: "refs ?m x + 1 < 2 ^ 32" using mo(5) u(3) t(6) by simp
  obtain w where w: "log_write i ?m = Ok () w" "cache_inv p w" "held w = held ?m" "seen w = seen ?m" "disk w = disk ?m"
    "disk_done w = disk_done ?m" "nfree w = nfree ?m"
    "if x \<in> homes ?l then log w = ?l \<and> refs w = refs ?m
      else log w = ?l\<lparr>lh_block := (lh_block ?l)(nat (lh_n ?l) := snd x), lh_n := lh_n ?l + 1\<rparr> \<and>
        refs w = (refs ?m)(x := refs ?m x + 1)"
    using log_write_ok [OF mo(1) hm, unfolded lm, OF dev o t(4) _ m(2) bm] m(1) by auto
  have hw: "held w i = Some x" using w(3) hm by simp
  have rw: "refs w x = 2" using w(8) mo(5) u(3) t(6) by (auto split: if_splits)
  then have "refs w x = 1 \<Longrightarrow> seen w x = dsk w x" by simp
  note b = brelse_ok [OF w(2) hw this]
  let ?v = "released i w"
  have lv: "log ?v = log w" by (rule log_frame_bio [OF b(3)])
  have sv: "seen ?v = (seen s)(x := splice (seen s x) k n d)" using b(5) w(4) mo(4) bl u(5) by simp
  have dv: "disk ?v = disk s" "disk_done ?v = disk_done s"
    using b(6,7) w(5,6) u(6,7) by (simp_all add: frame_simps)
  then have dd: "dsk ?v = dsk s" by (rule_tac dsk_cong)
  have hv: "held ?v = (\<lambda>_. None)" using b(4) w(3) mo(3) u(8) by auto
  have nv: "nfree ?v = (if x \<in> homes ?l then nfree s else nfree s - 1)"
    using b(9) rw w(7) mo(6) r(2) t(6) by (simp add: reads_def)
  have rv: "refs ?v = (\<lambda>y. if y = x \<or> y \<in> homes ?l then 1 else 0)"
    using b(8) rw w(8) mo(5) u(3) t(6) by (auto simp: fun_eq_iff split: if_splits)
  have step: "tx_step (Write_block x k n d) s = Ok (seen s x) ?v"
    using r w(1) b(1) by (simp add: reads_def)
  show ?thesis
  proof (cases "x \<in> homes ?l")
    case True
    then have "log ?v = ?l" using w(8) lv by simp
    moreover from this have "tx_state p ?v"
      using True t b(2) hv nv rv sv dd by (auto simp: tx_state_def)
    ultimately show ?thesis using True step sv dv by (intro exI [of _ ?v]) (auto simp: same_log_def)
  next
    case False
    let ?l' = "?l\<lparr>lh_block := (lh_block ?l)(nat (lh_n ?l) := snd x), lh_n := lh_n ?l + 1\<rparr>"
    have l': "log ?v = ?l'" using w(8) lv False by simp
    note hn = home_new [OF False dev t(4)]
    have "nat (lh_n ?l + 1) = nat (lh_n ?l) + 1" using t(4) by linarith
    moreover have "nfree ?v = nfree s - 1" unfolding nv using False by (simp only: if_False)
    ultimately have N: "nfree ?v + nat (lh_n ?l + 1) = NBUF" using t(8) room by linarith
    have R: "refs ?v = (\<lambda>y. if y \<in> insert x (homes ?l) then 1 else 0)" unfolding rv by (rule ext) simp
    have S: "\<forall>y. y \<notin> insert x (homes ?l) \<longrightarrow> seen ?v y = dsk ?v y" using sv dd t(7) by simp
    have "log_shape ?l'" by (rule hn(3) [OF t(3) _ x]) (use m(1) in simp)
    then have "tx_state p ?v"
      unfolding tx_state_def l' hn(1) using b(2) hv hn(2) [OF t(5)] t(4) R S N by simp
    then show ?thesis using False step sv dv l' hn(1) by (intro exI [of _ ?v]) (auto simp: same_log_def)
  qed
qed

fun op_ok :: "log_t \<Rightarrow> bio_op \<Rightarrow> bool" where
  "op_ok l (Read_block x) = (fst x \<noteq> 0)"
| "op_ok l (Write_block x k n d) = (fst x = log_dev l \<and> x \<notin> log_area l \<and> k + n \<le> BSIZE)"

lemma homes_card: "tx_state p s \<Longrightarrow> lh_n (log s) = int (card (homes (log s)))"
  by (simp add: tx_state_def homes_def card_image)

lemma finite_write_set [simp]: "finite (write_set ops)"
  by (induction ops rule: write_set.induct) auto

lemma op_ok_cong: "same_log l l' \<Longrightarrow> op_ok l' a = op_ok l a"
  by (cases a) (auto simp: same_log_def log_area_def)

lemma same_log_trans: "same_log l l' \<Longrightarrow> same_log l' l'' \<Longrightarrow> same_log l l''"
  by (simp add: same_log_def)

lemma tx_steps_ok:
  fixes s :: "'a logst_scheme"
  assumes "tx_state p s" and "1 \<le> outstanding (log s)" and "int MAXOPBLOCKS + 2 \<le> log_size (log s)"
    and "\<forall>a \<in> set ops. op_ok (log s) a" and "card (homes (log s) \<union> write_set ops) \<le> MAXOPBLOCKS"
  shows "\<exists>v. tx_steps ops s = Ok (fst (store_ops ops (seen s))) v \<and> tx_state p v \<and> same_log (log s) (log v) \<and>
     seen v = snd (store_ops ops (seen s)) \<and> disk v = disk s \<and> disk_done v = disk_done s \<and>
     homes (log v) = homes (log s) \<union> write_set ops"
  using assms
proof (induction ops arbitrary: s)
  case Nil
  then show ?case by (auto simp: same_log_def)
next
  case (Cons a as)
  let ?l = "log s"
  have fin: "finite (homes ?l)" by (simp add: homes_def)
  have "\<exists>v. tx_step a s = Ok (seen s (op_block a)) v \<and> tx_state p v \<and> same_log ?l (log v) \<and>
     seen v = store_op a (seen s) \<and> disk v = disk s \<and> disk_done v = disk_done s \<and>
     homes (log v) = homes ?l \<union> write_set [a]"
  proof (cases a)
    case (Read_block x)
    have t: "cache_inv p s" "\<forall>i. held s i \<noteq> Some x" "refs s x + 1 < 2 ^ 32"
      using Cons.prems(1) by (simp_all add: tx_state_def)
    have "refs s x = 0 \<longleftrightarrow> x \<notin> homes ?l" using Cons.prems(1) by (simp add: tx_state_def)
    then have t4: "refs s x = 0 \<Longrightarrow> seen s x = dsk s x" using Cons.prems(1) unfolding tx_state_def by blast
    have x: "fst x \<noteq> 0" using Cons.prems(4) Read_block by simp
    have le: "card (homes ?l) \<le> MAXOPBLOCKS"
      using Cons.prems(5) fin card_mono [of "homes ?l \<union> write_set (a # as)" "homes ?l"] by auto
    then have "0 < nfree s"
      using Cons.prems(1) homes_card [OF Cons.prems(1)] by (simp add: tx_state_def NBUF_def MAXOPBLOCKS_def)
    then obtain v where v: "bio_step (Read_block x) s = Ok (seen s x) v" "cache_inv p v" "bio_frame s v" "held v = held s"
      "seen v = seen s" "disk v = disk s" "disk_done v = disk_done s" "refs v = refs s" "nfree v = nfree s"
      using read_release [OF t(1) x t(2) _ t(3) t4] by auto
    have "tx_state p v" using Cons.prems(1) v log_frame_bio [OF v(3)] dsk_cong [OF v(6)] by (simp add: tx_state_def)
    then show ?thesis
      using v log_frame_bio [OF v(3)] Read_block by (auto simp: same_log_def simp del: bio_step.simps)
  next
    case (Write_block x k n d)
    have ok: "fst x = log_dev ?l" "x \<notin> log_area ?l" "k + n \<le> BSIZE" using Cons.prems(4) Write_block by auto
    have "homes ?l \<union> {x} \<subseteq> homes ?l \<union> write_set (a # as)" using Write_block by auto
    then have "card (homes ?l \<union> {x}) \<le> MAXOPBLOCKS"
      using Cons.prems(5) fin card_mono [of "homes ?l \<union> write_set (a # as)" "homes ?l \<union> {x}"] by simp
    then have "x \<notin> homes ?l \<Longrightarrow> lh_n ?l < int MAXOPBLOCKS" "lh_n ?l \<le> int MAXOPBLOCKS"
      using homes_card [OF Cons.prems(1)] fin by (auto simp: card_insert_if split: if_splits)
    then have "lh_n ?l < int LOGSIZE - 1" "lh_n ?l < log_size ?l - 1"
      using Cons.prems(3) by (simp_all add: LOGSIZE_def MAXOPBLOCKS_def)
    then show ?thesis
      using tx_write [OF Cons.prems(1) ok Cons.prems(2)] Write_block by fastforce
  qed
  then obtain v where v: "tx_step a s = Ok (seen s (op_block a)) v" "tx_state p v" "same_log ?l (log v)"
    "seen v = store_op a (seen s)" "disk v = disk s" "disk_done v = disk_done s" "homes (log v) = homes ?l \<union> write_set [a]"
    by blast
  have ws: "homes (log v) \<union> write_set as = homes ?l \<union> write_set (a # as)" using v(7) by (cases a) auto
  obtain w where w: "tx_steps as v = Ok (fst (store_ops as (seen v))) w" "tx_state p w" "same_log (log v) (log w)"
    "seen w = snd (store_ops as (seen v))" "disk w = disk v" "disk_done w = disk_done v"
    "homes (log w) = homes (log v) \<union> write_set as"
    using Cons.IH [OF v(2)] Cons.prems(2-5) v(3) op_ok_cong [OF v(3)] ws by (auto simp: same_log_def)
  show ?case
    using v(1,4,5,6) w ws same_log_trans [OF v(3) w(3)] by (auto split: prod.split)
qed

section \<open>Crashes\<close>

text \<open>
  The file system between transactions: nothing is locked, referenced, pending or waiting, and the header
  on disk says that the log is empty.
\<close>

definition idle :: "nat \<Rightarrow> 'a logst_scheme \<Rightarrow> bool" where
  "idle p s \<longleftrightarrow> cache_inv p s \<and> held s = (\<lambda>_. None) \<and> refs s = (\<lambda>_. 0) \<and> seen s = dsk s \<and> nfree s = NBUF \<and>
     lh_n (log s) = 0 \<and> outstanding (log s) = 0 \<and> \<not> committing (log s) \<and> log_dev (log s) \<noteq> 0 \<and>
     unat (log_start (log s)) + LOGSIZE < 2 ^ 32 \<and> int MAXOPBLOCKS + 2 \<le> log_size (log s) \<and>
     ld32 (dsk s (head_of (log s))) 0 = 0"

lemma begin_op_ok:
  assumes "idle p s"
  shows "begin_op s = Ok () (upd_log (\<lambda>l. l\<lparr>outstanding := 1\<rparr>) s)"
    and "tx_state p (upd_log (\<lambda>l. l\<lparr>outstanding := 1\<rparr>) s)"
proof -
  have i: "cache_inv p s" "lh_n (log s) = 0" "outstanding (log s) = 0" "\<not> committing (log s)"
    using assms by (simp_all add: idle_def)
  note c = cache_inv_simps [OF i(1)]
  have u: "upd_log (\<lambda>l. l\<lparr>outstanding := outstanding l + 1\<rparr>) s = upd_log (\<lambda>l. l\<lparr>outstanding := 1\<rparr>) s"
    using i(3) by (simp add: upd_log_def)
  show "begin_op s = Ok () (upd_log (\<lambda>l. l\<lparr>outstanding := 1\<rparr>) s)"
    using c(2,3) i u
    by (simp add: begin_op_def begin_op_loop_def kernel_simps frame_simps LOGSIZE_def MAXOPBLOCKS_def)
  show "tx_state p (upd_log (\<lambda>l. l\<lparr>outstanding := 1\<rparr>) s)"
    using assms by (auto simp: idle_def tx_state_def log_shape_def homes_def)
qed

text \<open>The last of the calls in a transaction commits.\<close>

lemma end_op_ok:
  fixes s :: "'a logst_scheme"
  assumes tx: "tx_state p s" and o: "outstanding (log s) = 1" and nc: "\<not> committing (log s)"
    and n: "lh_n (log s) < int LOGSIZE"
  shows "\<exists>v us. end_op s = Ok () v \<and> wrote s v us \<and>
     (if homes (log s) = {} then us = []
      else \<exists>c1 c0. us = commit_upds (log s) (seen s) c1 c0 \<and> header c1 (lh_n (log s)) (lh_block (log s)) \<and>
        header c0 0 (lh_block (log s)))"
proof -
  let ?s = "upd_log (\<lambda>l. l\<lparr>outstanding := 0, committing := True\<rparr>) s"
  have t: "cache_inv p s" "0 \<le> lh_n (log s)" using tx by (simp_all add: tx_state_def)
  note c = cache_inv_simps [OF t(1)]
  have e: "upd_log (\<lambda>l. l\<lparr>committing := True\<rparr>) (upd_log (\<lambda>l. l\<lparr>outstanding := outstanding l - 1\<rparr>) s) = ?s"
    using o by (simp add: upd_log_def)
  have fin: "\<exists>w. kthen (acquire L_log v) (\<lambda>s. kthen (wakeup Ch_log (upd_log (\<lambda>l. l\<lparr>committing := False\<rparr>) s))
      (\<lambda>s. release L_log s)) = Ok () w \<and> disk w = disk v \<and> disk_done w = disk_done v"
    if v: "cache_inv p v" for v :: "'a logst_scheme"
  proof -
    note cv = cache_inv_simps [OF v]
    let ?v = "upd_log (\<lambda>l. l\<lparr>committing := False\<rparr>) v"
    have "irq_ok (grab L_log ?v)" "proc_locks_free (grab L_log ?v)"
      using cv(2,3,5) by (simp_all add: kernel_simps frame_simps)
    from wakeup_ok [OF this, of Ch_log]
    show ?thesis using cv(2,3) by (simp add: kernel_simps frame_simps)
  qed
  have start: "end_op s = kthen (commit ?s) (\<lambda>s. kthen (acquire L_log s) (\<lambda>s.
      kthen (wakeup Ch_log (upd_log (\<lambda>l. l\<lparr>committing := False\<rparr>) s)) (\<lambda>s. release L_log s)))"
    using c(2,3) nc o e by (simp add: end_op_def kernel_simps frame_simps Let_def)
  have same: "homes (log ?s) = homes (log s)" "log_shape (log ?s) = log_shape (log s)" "home_of (log ?s) = home_of (log s)"
    "log_upds (log ?s) = log_upds (log s)" "new_upds (log ?s) = new_upds (log s)" "head_of (log ?s) = head_of (log s)"
    by (auto simp: homes_def home_of_def log_shape_def log_area_def log_upds_def slot_of_def new_upds_def head_of_def
        fun_eq_iff)
  have tx': "tx_state p ?s" using tx same by (simp add: tx_state_def)
  show ?thesis
  proof (cases "lh_n (log s) = 0")
    case True
    then have cm: "commit ?s = Ok () ?s" by (simp add: commit_def)
    have "cache_inv p ?s" using t(1) by simp
    from fin [OF this] obtain w where "end_op s = Ok () w" "disk w = disk s" "disk_done w = disk_done s"
      using start cm by auto
    moreover have "homes (log s) = {}" using True by (simp add: homes_def)
    ultimately show ?thesis using wrote_Nil [of w s] by auto
  next
    case False
    then have pos: "0 < lh_n (log ?s)" "lh_n (log ?s) < int LOGSIZE" using t(2) n by simp_all
    obtain v c1 c0 where v: "commit ?s = Ok () v" "cache_inv p v" "wrote s v (commit_upds (log ?s) (seen s) c1 c0)"
      "header c1 (lh_n (log s)) (lh_block (log s))" "header c0 0 (lh_block (log s))"
      using commit_ok [OF tx' pos] by auto
    from fin [OF v(2)] obtain w where w: "end_op s = Ok () w" "disk w = disk v" "disk_done w = disk_done v"
      using start v(1) by auto
    have "commit_upds (log ?s) (seen s) c1 c0 = commit_upds (log s) (seen s) c1 c0"
      unfolding commit_upds_def same by simp
    then have "wrote s w (commit_upds (log s) (seen s) c1 c0)" using wrote_same [OF v(3) w(2,3)] by simp
    moreover have "homes (log s) \<noteq> {}" using pos by (auto simp: homes_def lessThan_empty_iff)
    ultimately show ?thesis using w(1) v(4,5) by auto
  qed
qed

text \<open>Every disk a commit can leave is, after recovery, the old one or the new one.\<close>

lemma take_commit:
  fixes l :: log_t
  assumes "k \<le> length (commit_upds l C c1 c0)"
  defines "N \<equiv> nat (lh_n l)"
  shows "k \<le> N \<and> take k (commit_upds l C c1 c0) = log_upds l C k \<or>
     N < k \<and> k \<le> 2 * N + 1 \<and>
       take k (commit_upds l C c1 c0) = log_upds l C N @ [(head_of l, c1)] @ take (k - N - 1) (new_upds l C) \<or>
     k = 2 * N + 2 \<and> take k (commit_upds l C c1 c0) = commit_upds l C c1 c0"
proof -
  have len: "length (log_upds l C N) = N" "length (new_upds l C) = N" by (simp_all add: log_upds_def new_upds_def N_def)
  then have k: "k \<le> 2 * N + 2" using assms(1) by (simp add: commit_upds_def N_def)
  consider "k \<le> N" | "N < k" "k \<le> 2 * N + 1" | "k = 2 * N + 2" using k by linarith
  then show ?thesis
  proof cases
    case 1
    then have "take k (log_upds l C N) = log_upds l C k" by (simp add: log_upds_def take_map)
    then show ?thesis using 1 len by (simp add: commit_upds_def N_def)
  next
    case 2
    define j where "j = k - N - 1"
    then have "k = N + Suc j" "j \<le> N" using 2 by simp_all
    then show ?thesis using 2 len by (simp add: commit_upds_def N_def)
  next
    case 3
    then show ?thesis using len by (simp add: commit_upds_def N_def)
  qed
qed

definition recovered :: "log_t \<Rightarrow> (u32 \<times> u32 \<Rightarrow> bytes) \<Rightarrow> int \<Rightarrow> (nat \<Rightarrow> u32) \<Rightarrow> u32 \<times> u32 \<Rightarrow> bytes" where
  "recovered l C n bl = apply_upds (replay l n bl C) C"

lemma commit_crash:
  fixes l :: log_t
  assumes sh: "log_shape l" and n: "0 \<le> lh_n l" and inj: "inj_on (home_of l) {..<nat (lh_n l)}"
    and D0: "ld32 (D (head_of l)) 0 = 0" and CD: "\<And>x. x \<notin> homes l \<Longrightarrow> C x = D x"
    and c1: "header c1 (lh_n l) (lh_block l)" and c0: "header c0 0 (lh_block l)"
    and k: "k \<le> length (commit_upds l C c1 c0)"
  defines "E \<equiv> apply_upds (take k (commit_upds l C c1 c0)) D"
  shows "\<exists>m bl. header (E (head_of l)) m bl \<and> m \<le> int LOGSIZE \<and> (\<forall>i < nat m. (log_dev l, bl i) \<notin> log_area l) \<and>
     (\<forall>x. x \<notin> log_area l \<longrightarrow> recovered l E m bl x = (if k \<le> nat (lh_n l) then D x else C x))"
proof -
  let ?N = "nat (lh_n l)"
  have N: "?N \<le> LOGSIZE" using sh by (simp add: log_shape_def)
  have hd: "head_of l \<in> log_area l" by (auto simp: log_area_def head_of_def intro!: exI [of _ 0])
  have slots: "fst ` set (log_upds l C j) \<subseteq> log_area l - {head_of l}" if "j \<le> ?N" for j
  proof
    fix x assume "x \<in> fst ` set (log_upds l C j)"
    then obtain i where "i < j" "x = slot_of l i" unfolding fst_upds by auto
    then show "x \<in> log_area l - {head_of l}" using slot_facts(1,3) [OF sh, of i] that N by simp
  qed
  have hl: "head_of l \<notin> fst ` set (log_upds l C j)" if "j \<le> ?N" for j using slots [OF that] by auto
  have newf: "fst ` set (new_upds l C) = homes l" by (simp add: new_upds_def homes_def image_image lessThan_atLeast0)
  have hn: "head_of l \<notin> homes l" using home_facts(1) [OF sh] hd by (auto simp: homes_def)
  have tk: "fst ` set (take j (new_upds l C)) \<subseteq> homes l" for j using newf set_take_subset by fastforce
  have newC: "apply_upds (new_upds l C) B x = (if x \<in> homes l then C x else B x)" for B x
  proof (cases "x \<in> homes l")
    case True
    then obtain i where i: "i < ?N" "x = home_of l i" by (auto simp: homes_def)
    have "apply_upds (new_upds l C) B (home_of l i) = C (home_of l i)"
      unfolding new_upds_def by (rule apply_upds_map) (use i inj in \<open>auto simp: inj_on_def\<close>)
    then show ?thesis using i True by simp
  next
    case False
    then show ?thesis using apply_upds_notin [of x "new_upds l C" B] newf by simp
  qed
  consider (log) "k \<le> ?N" "take k (commit_upds l C c1 c0) = log_upds l C k"
    | (inst) "?N < k" "take k (commit_upds l C c1 c0) = log_upds l C ?N @ [(head_of l, c1)] @ take (k - ?N - 1) (new_upds l C)"
    | (all) "?N < k" "take k (commit_upds l C c1 c0) = commit_upds l C c1 c0"
    using take_commit [OF k] by force
  then show ?thesis
  proof cases
    case log
    then have E: "E = apply_upds (log_upds l C k) D" by (simp add: E_def)
    have "E (head_of l) = D (head_of l)" unfolding E by (rule apply_upds_notin [OF hl [OF log(1)]])
    then have "header (E (head_of l)) 0 (lh_block l)" using D0 by (simp add: header_def)
    moreover have "E x = D x" if "x \<notin> log_area l" for x
      unfolding E by (rule apply_upds_notin) (use slots [OF log(1)] that in auto)
    ultimately show ?thesis using log(1) by (intro exI [of _ 0] exI [of _ "lh_block l"]) (simp add: recovered_def replay_def)
  next
    case inst
    let ?T = "take (k - ?N - 1) (new_upds l C)"
    have E: "E = apply_upds ?T ((apply_upds (log_upds l C ?N) D)(head_of l := c1))" using inst(2) by (simp add: E_def)
    have "head_of l \<notin> fst ` set ?T" using tk hn by blast
    then have "E (head_of l) = c1" unfolding E by (simp add: apply_upds_notin)
    moreover have slot: "E (slot_of l i) = C (home_of l i)" if "i < ?N" for i
    proof -
      have i: "i < LOGSIZE" using that N by simp
      have "slot_of l i \<notin> homes l" using home_facts(1) [OF sh] slot_facts(1) [OF sh i] by (auto simp: homes_def)
      then have "slot_of l i \<notin> fst ` set ?T" using tk by blast
      then have "E (slot_of l i) = apply_upds (log_upds l C ?N) D (slot_of l i)"
        unfolding E using slot_facts(3) [OF sh i] by (simp add: apply_upds_notin)
      also have "\<dots> = C (home_of l i)"
        unfolding log_upds_def by (rule apply_upds_map) (use that N slot_facts(4) [OF sh] in auto)
      finally show ?thesis .
    qed
    have rp: "replay l (lh_n l) (lh_block l) E = new_upds l C"
      using slot by (simp add: replay_def new_upds_def home_of_def)
    have "recovered l E (lh_n l) (lh_block l) x = C x" if x: "x \<notin> log_area l" for x
    proof (cases "x \<in> homes l")
      case True
      then show ?thesis unfolding recovered_def rp by (simp add: newC)
    next
      case False
      have "x \<notin> fst ` set ?T" using tk False by blast
      moreover have "x \<notin> fst ` set (log_upds l C ?N)" "x \<noteq> head_of l" using slots [of ?N] x hd by auto
      ultimately have "E x = D x" unfolding E by (simp add: apply_upds_notin)
      then show ?thesis unfolding recovered_def rp using newC False CD by simp
    qed
    moreover have "lh_n l \<le> int LOGSIZE" "\<forall>i < nat (lh_n l). (log_dev l, lh_block l i) \<notin> log_area l"
      using N home_facts(1) [OF sh] by (auto simp: home_of_def)
    ultimately show ?thesis using inst(1) c1 by (intro exI [of _ "lh_n l"] exI [of _ "lh_block l"]) simp
  next
    case all
    have E: "E = (apply_upds (new_upds l C) ((apply_upds (log_upds l C ?N) D)(head_of l := c1)))(head_of l := c0)"
      using all(2) by (simp add: E_def commit_upds_def)
    have "E x = C x" if x: "x \<notin> log_area l" for x
    proof -
      have "x \<notin> fst ` set (log_upds l C ?N)" "x \<noteq> head_of l" using slots [of ?N] x hd by auto
      then show ?thesis unfolding E using newC CD by (simp add: apply_upds_notin)
    qed
    moreover have "header (E (head_of l)) 0 (lh_block l)" using c0 unfolding E by simp
    ultimately show ?thesis
      using all(1) by (intro exI [of _ 0] exI [of _ "lh_block l"]) (simp add: recovered_def replay_def)
  qed
qed

lemma cache_initlock:
  assumes "cache_inv p s"
  shows "cache_inv p (initlock l nm s)" "held (initlock l nm s) = held s" "seen (initlock l nm s) = seen s"
    "refs (initlock l nm s) = refs s" "nfree (initlock l nm s) = nfree s" "dsk (initlock l nm s) = dsk s"
proof -
  let ?t = "initlock l nm s"
  have b: "bufs ?t = bufs s" "slocks ?t = slocks s" "procs ?t = procs s" "bnext ?t = bnext s" "bprev ?t = bprev s"
    "disk ?t = disk s"
    by (simp_all add: initlock_def)
  have k: "key ?t = key s" by (auto simp: key_def b fun_eq_iff)
  then have sl: "slot ?t = slot s" by (auto simp: slot_def)
  show d: "dsk ?t = dsk s" by (rule dsk_cong [OF b(6)])
  show h: "held ?t = held s" by (rule ext) (simp add: held_def b k)
  show "seen ?t = seen s" by (rule ext) (simp add: seen_def sl d b split: option.split)
  show "refs ?t = refs s" by (rule ext) (simp add: refs_def sl b split: option.split)
  show "nfree ?t = nfree s" by (simp add: nfree_def b)
  have "quiet ?t" "me ?t = me s"
    using cache_inv_simps(1) [OF assms] by (auto simp: quiet_def me_def initlock_def irq_ok_def free_def irq_defs)
  then show "cache_inv p ?t"
    using assms unfolding cache_inv_def bufs_ok_def keys_ok_def b k d h by simp
qed

text \<open>A machine that has just been switched on with disk \<open>D\<close>.\<close>

definition restarted :: "(u32 \<Rightarrow> u32 \<Rightarrow> bytes) \<Rightarrow> nat \<Rightarrow> 'a bufst_scheme \<Rightarrow> bool" where
  "restarted D p r \<longleftrightarrow> quiet r \<and> me r = Some p \<and> zero_bufs r \<and> no_sleeper r \<and> disk r = D"

lemma initlog_ok:
  fixes r :: "'a logst_scheme"
  assumes r: "restarted D p r" and dev: "log_dev l \<noteq> 0" and wrap: "unat (log_start l) + LOGSIZE < 2 ^ 32"
    and hd: "header (dsk_of D (head_of l)) n bl" and n: "n \<le> int LOGSIZE"
    and away: "\<And>i. i < nat n \<Longrightarrow> (log_dev l, bl i) \<notin> log_area l"
  shows "\<exists>v c. initlog (log_dev l) (log_start l) nlog (binit r) = Ok () v \<and>
     dsk v = (recovered l (dsk_of D) n bl)(head_of l := c) \<and> header c 0 bl \<and> seen v = dsk v \<and> refs v = (\<lambda>_. 0)"
proof -
  note b = binit_inv [where s = r, of p]
  have pre: "quiet r" "me r = Some p" "zero_bufs r" "no_sleeper r" "disk r = D" using r by (simp_all add: restarted_def)
  note b = b [OF pre(1-4)]
  let ?i = "initlock L_log ''log'' (binit r)"
  let ?u = "upd_log (\<lambda>k. k\<lparr>log_start := log_start l, log_size := sint nlog, log_dev := log_dev l\<rparr>) ?i"
  note ci = cache_initlock [OF b(1), of L_log "''log''"]
  have lu: "log_dev (log ?u) = log_dev l" "log_start (log ?u) = log_start l" by simp_all
  then have eqs: "head_of (log ?u) = head_of l" "log_area (log ?u) = log_area l" "slot_of (log ?u) = slot_of l"
    by (auto simp: head_of_def log_area_def slot_of_def fun_eq_iff)
  have du: "dsk ?u = dsk_of D" using ci(6) b(6) pre(5) by (simp add: dsk_of_disk)
  have su: "seen ?u = dsk ?u"
  proof
    fix x
    show "seen ?u x = dsk ?u x"
      using b(5) [of x] slot_dev0(1) [OF cache_inv_simps(9) [OF b(1)], of x] ci(3,6) by auto
  qed
  have ru: "refs ?u = (\<lambda>_. 0)" using b(4) ci(4) by auto
  have pu: "cache_inv p ?u" "held ?u = (\<lambda>_. None)" "1 < nfree ?u"
    using ci b(2,3) by (simp_all add: NBUF_def MAXOPBLOCKS_def)
  obtain v c where v: "recover_from_log ?u = Ok () v" "refs v = (\<lambda>_. 0)" "seen v = dsk v" "header c 0 bl"
    "dsk v = (apply_upds (replay (log ?u) n bl (dsk ?u)) (dsk ?u))(head_of l := c)"
    using recover_ok [OF pu(1,2) _ _ pu(3) ru su, of n bl] lu dev wrap hd n away unfolding eqs du by auto
  have "replay (log ?u) n bl (dsk ?u) = replay l n bl (dsk ?u)" by (simp only: replay_def eqs(3) lu(1))
  then have "dsk v = (recovered l (dsk_of D) n bl)(head_of l := c)" using v(5) du by (simp add: recovered_def)
  moreover have "initlog (log_dev l) (log_start l) nlog (binit r) = Ok () v"
    using v(1) by (simp add: initlog_def Let_def LOGSIZE_def MAXOPBLOCKS_def BSIZE_def)
  ultimately show ?thesis using v(2-4) by blast
qed

text \<open>The writes \<open>us\<close> are those of a commit that turns the store \<open>D\<close> into \<open>C\<close>, for a log in the place of \<open>l0\<close>.\<close>

definition commits :: "log_t \<Rightarrow> (u32 \<times> u32 \<Rightarrow> bytes) \<Rightarrow> (u32 \<times> u32 \<Rightarrow> bytes) \<Rightarrow> upd list \<Rightarrow> bool" where
  "commits l0 D C us \<longleftrightarrow>
     (\<exists>l c1 c0. us = commit_upds l C c1 c0 \<and> log_shape l \<and> 0 \<le> lh_n l \<and> inj_on (home_of l) {..<nat (lh_n l)} \<and>
        (\<forall>x. x \<notin> homes l \<longrightarrow> C x = D x) \<and> header c1 (lh_n l) (lh_block l) \<and> header c0 0 (lh_block l) \<and>
        log_dev l = log_dev l0 \<and> log_start l = log_start l0)"

lemma crash_header:
  assumes D0: "ld32 (D (head_of l0)) 0 = 0" and us: "us = [] \<and> W = {} \<and> C = D \<or> commits l0 D C us" and k: "k \<le> length us"
  shows "\<exists>m bl B. header (apply_upds (take k us) D (head_of l0)) m bl \<and> m \<le> int LOGSIZE \<and>
    (\<forall>i < nat m. (log_dev l0, bl i) \<notin> log_area l0) \<and>
    (\<forall>x. x \<notin> log_area l0 \<longrightarrow> recovered l0 (apply_upds (take k us) D) m bl x = B x) \<and>
    (B = D \<and> k < length us \<or> B = C)"
  using us
proof
  assume u: "us = [] \<and> W = {} \<and> C = D"
  have "header (D (head_of l0)) 0 bl" for bl using D0 by (simp add: header_def)
  then show ?thesis using u by (intro exI [of _ 0] exI) (auto simp: recovered_def replay_def)
next
  assume "commits l0 D C us"
  then obtain l c1 c0 where l: "us = commit_upds l C c1 c0" "log_shape l" "0 \<le> lh_n l" "inj_on (home_of l) {..<nat (lh_n l)}"
    "\<And>x. x \<notin> homes l \<Longrightarrow> C x = D x" "header c1 (lh_n l) (lh_block l)" "header c0 0 (lh_block l)"
    "log_dev l = log_dev l0" "log_start l = log_start l0"
    unfolding commits_def by blast
  have eqs: "head_of l = head_of l0" "log_area l = log_area l0" "slot_of l = slot_of l0"
    using l(8,9) by (auto simp: head_of_def log_area_def slot_of_def fun_eq_iff)
  have rec: "recovered l = recovered l0"
    by (intro ext) (simp only: recovered_def replay_def eqs(3) l(8))
  have "length us = 2 * nat (lh_n l) + 2" unfolding l(1) by (simp add: commit_upds_def log_upds_def new_upds_def)
  moreover obtain m bl where "header (apply_upds (take k us) D (head_of l0)) m bl" "m \<le> int LOGSIZE"
    "\<forall>i < nat m. (log_dev l0, bl i) \<notin> log_area l0"
    "\<forall>x. x \<notin> log_area l0 \<longrightarrow> recovered l0 (apply_upds (take k us) D) m bl x = (if k \<le> nat (lh_n l) then D x else C x)"
    using commit_crash [where D = D and k = k, OF l(2,3,4) _ l(5,6,7)] D0 k unfolding l(1) [symmetric] eqs l(8) rec by blast
  ultimately show ?thesis
    by (intro exI [of _ m] exI [of _ bl] exI [of _ "if k \<le> nat (lh_n l) then D else C"]) auto
qed

lemma transaction_writes:
  fixes s :: "'a logst_scheme"
  assumes id: "idle p s" and ops: "\<forall>a \<in> set ops. op_ok (log s) a" and few: "card (write_set ops) \<le> MAXOPBLOCKS"
  shows "\<exists>v us. transaction ops s = Ok (fst (store_ops ops (dsk s))) v \<and> wrote s v us \<and>
     (us = [] \<and> write_set ops = {} \<and> snd (store_ops ops (dsk s)) = dsk s \<or>
      commits (log s) (dsk s) (snd (store_ops ops (dsk s))) us)"
proof -
  let ?s = "upd_log (\<lambda>l. l\<lparr>outstanding := 1\<rparr>) s"
  let ?C = "snd (store_ops ops (dsk s))"
  note b = begin_op_ok [OF id]
  have s: "lh_n (log s) = 0" "log_size (log s) \<ge> int MAXOPBLOCKS + 2" "seen s = dsk s" "\<not> committing (log s)"
    using id by (simp_all add: idle_def)
  have h0: "homes (log ?s) = {}" using s(1) by (simp add: homes_def)
  have ops': "\<forall>a \<in> set ops. op_ok (log ?s) a"
  proof
    fix a assume "a \<in> set ops"
    then have "op_ok (log s) a" using ops by blast
    then show "op_ok (log ?s) a" by (cases a) (auto simp: log_area_def)
  qed
  obtain v where v: "tx_steps ops ?s = Ok (fst (store_ops ops (dsk s))) v" "tx_state p v" "same_log (log ?s) (log v)"
    "seen v = ?C" "disk v = disk s" "disk_done v = disk_done s" "homes (log v) = write_set ops"
    using tx_steps_ok [OF b(2) _ _ ops'] few s h0 by auto
  have lv: "outstanding (log v) = 1" "\<not> committing (log v)" "log_dev (log v) = log_dev (log s)"
    "log_start (log v) = log_start (log s)"
    using v(3) s(4) by (simp_all add: same_log_def)
  have "lh_n (log v) < int LOGSIZE"
    using homes_card [OF v(2)] v(7) few by (simp add: LOGSIZE_def MAXOPBLOCKS_def)
  then obtain w us where w: "end_op v = Ok () w" "wrote v w us"
    "if homes (log v) = {} then us = []
      else \<exists>c1 c0. us = commit_upds (log v) (seen v) c1 c0 \<and> header c1 (lh_n (log v)) (lh_block (log v)) \<and>
        header c0 0 (lh_block (log v))"
    using end_op_ok [OF v(2) lv(1,2)] by blast
  have run: "transaction ops s = Ok (fst (store_ops ops (dsk s))) w"
    using b(1) v(1) w(1) by (simp add: transaction_def)
  have "wrote s v []" by (rule wrote_Nil [OF v(5,6)])
  from wrote_append [OF this w(2)] have wr: "wrote s w us" by simp
  have t: "log_shape (log v)" "0 \<le> lh_n (log v)" "inj_on (home_of (log v)) {..<nat (lh_n (log v))}"
    "\<And>x. x \<notin> homes (log v) \<Longrightarrow> ?C x = dsk s x"
    using v(2) v(4) dsk_cong [OF v(5)] by (auto simp: tx_state_def)
  show ?thesis
  proof (cases "homes (log v) = {}")
    case True
    then have "?C = dsk s" using t(4) by auto
    then show ?thesis using True w(3) run wr v(7) by auto
  next
    case False
    then obtain c1 c0 where c: "us = commit_upds (log v) ?C c1 c0" "header c1 (lh_n (log v)) (lh_block (log v))"
      "header c0 0 (lh_block (log v))"
      using w(3) v(4) by auto
    then have "commits (log s) (dsk s) ?C us" using t lv(3,4) unfolding commits_def by blast
    then show ?thesis using run wr by blast
  qed
qed

text \<open>C1: A transaction of the file system is atomic.  A process calls \<^verbatim>\<open>begin_op\<close>, reads and modifies blocks
  through the cache with \<^verbatim>\<open>log_write\<close> (at most \<open>MAXOPBLOCKS\<close> different ones) and calls \<^verbatim>\<open>end_op\<close>.  Its
  reads return what a plain block store returns.  If the machine stops after any number \<open>k\<close> of the disk
  writes that \<^verbatim>\<open>end_op\<close> makes and is switched on again, \<^verbatim>\<open>initlog\<close> leaves, outside the log's own blocks,
  either the disk of before the transaction or the disk with all its writes, never a mixture; and the
  second once the writes are all done.  The log is empty again.\<close>

theorem transaction_atomic:
  fixes s :: "'a logst_scheme"
  assumes "idle p s" and "\<forall>a \<in> set ops. op_ok (log s) a" and "card (write_set ops) \<le> MAXOPBLOCKS"
  shows "\<exists>v ws. transaction ops s = Ok (fst (store_ops ops (dsk s))) v \<and>
     disk_done v = disk_done s @ ws \<and> disk v = fold disk_put ws (disk s) \<and>
     (\<forall>k (r :: 'b logst_scheme). k \<le> length ws \<and> restarted (fold disk_put (take k ws) (disk s)) q r \<longrightarrow>
       (\<exists>r' C. initlog (log_dev (log s)) (log_start (log s)) nlog (binit r) = Ok () r' \<and>
          (C = dsk s \<and> k < length ws \<or> C = snd (store_ops ops (dsk s))) \<and>
          (\<forall>x. x \<notin> log_area (log s) \<longrightarrow> dsk r' x = C x) \<and>
          seen r' = dsk r' \<and> refs r' = (\<lambda>_. 0) \<and> ld32 (dsk r' (head_of (log s))) 0 = 0))"
proof -
  let ?C = "snd (store_ops ops (dsk s))"
  have i: "log_dev (log s) \<noteq> 0" "unat (log_start (log s)) + LOGSIZE < 2 ^ 32" "ld32 (dsk s (head_of (log s))) 0 = 0"
    using assms(1) by (simp_all add: idle_def)
  obtain v us where v: "transaction ops s = Ok (fst (store_ops ops (dsk s))) v" "wrote s v us" and
    us: "us = [] \<and> write_set ops = {} \<and> ?C = dsk s \<or> commits (log s) (dsk s) ?C us"
    using transaction_writes [OF assms] by blast
  obtain ws where ws: "disk_done v = disk_done s @ ws" "disk v = fold disk_put ws (disk s)" "map absw ws = us"
    using v(2) by (auto simp: wrote_def)
  have "\<exists>r' C. initlog (log_dev (log s)) (log_start (log s)) nlog (binit r) = Ok () r' \<and>
          (C = dsk s \<and> k < length ws \<or> C = ?C) \<and> (\<forall>x. x \<notin> log_area (log s) \<longrightarrow> dsk r' x = C x) \<and>
          seen r' = dsk r' \<and> refs r' = (\<lambda>_. 0) \<and> ld32 (dsk r' (head_of (log s))) 0 = 0"
    if k: "k \<le> length ws" "restarted (fold disk_put (take k ws) (disk s)) q r" for k and r :: "'b logst_scheme"
  proof -
    let ?D = "fold disk_put (take k ws) (disk s)"
    have D: "dsk_of ?D = apply_upds (take k us) (dsk s)"
      using ws(3) by (auto simp: dsk_of_fold take_map dsk_of_disk)
    have "length ws = length us" using ws(3) by auto
    then obtain m bl C where m: "header (dsk_of ?D (head_of (log s))) m bl" "m \<le> int LOGSIZE"
      "\<And>i. i < nat m \<Longrightarrow> (log_dev (log s), bl i) \<notin> log_area (log s)"
      "\<And>x. x \<notin> log_area (log s) \<Longrightarrow> recovered (log s) (dsk_of ?D) m bl x = C x"
      "C = dsk s \<and> k < length ws \<or> C = ?C"
      using crash_header [OF i(3) us, of k] k(1) unfolding D by metis
    obtain r' c where r: "initlog (log_dev (log s)) (log_start (log s)) nlog (binit r) = Ok () r'"
      "dsk r' = (recovered (log s) (dsk_of ?D) m bl)(head_of (log s) := c)" "header c 0 bl" "seen r' = dsk r'"
      "refs r' = (\<lambda>_. 0)"
      using initlog_ok [OF k(2) i(1,2) m(1,2,3)] by blast
    have "head_of (log s) \<in> log_area (log s)" by (auto simp: log_area_def head_of_def intro!: exI [of _ 0])
    then have "\<forall>x. x \<notin> log_area (log s) \<longrightarrow> dsk r' x = C x" using m(4) r(2) by auto
    moreover have "ld32 (dsk r' (head_of (log s))) 0 = 0" using r(2,3) by (simp add: header_def signed_eq_0_iff)
    ultimately show ?thesis using r(1,4,5) m(5) by blast
  qed
  then show ?thesis using v(1) ws(1,2) by blast
qed

text \<open>A machine that has started its cache, with the log at blocks 2 to 32 of device 1.\<close>

definition log_state :: logst where
  "log_state = bufst.extend bio_state
     (logst.fields \<lparr>log_start = 2, log_size = 30, outstanding = 0, committing = False, log_dev = 1, lh_n = 0,
        lh_block = (\<lambda>_. 0)\<rparr>)"

lemma log_state_ok: "quiet log_state" "me log_state = Some 1" "zero_bufs log_state" "no_sleeper log_state"
  "dsk log_state = (\<lambda>_ _. 0)"
  by (auto simp: log_state_def bio_state_def small_mem_def sl_state_def sem_state_def run_state_def quiet_def irq_ok_def
      irq_defs free_def me_def NPROC_def idle_proc_def zero_bufs_def no_sleeper_def dsk_def block_def fun_eq_iff
      procst.defs semst.defs slst.defs memst.defs bufst.defs logst.defs)

lemma log_binit: "log (binit s) = log s"
proof -
  have "log (fold f xs t) = log t" if "\<And>i u. log (f i u) = log u" for f :: "nat \<Rightarrow> 'a logst_scheme \<Rightarrow> _" and xs t
    using that by (induction xs arbitrary: t) simp_all
  then show ?thesis
    by (simp add: binit_def Let_def set_next_def set_prev_def initsleeplock_def initlock_def upd_slock_def)
qed

lemma log_state_idle: "idle 1 (binit log_state)"
proof -
  note b = binit_inv [OF log_state_ok(1-4)]
  have l: "log (binit log_state) = log log_state" by (rule log_binit)
  have "dsk (binit log_state) = (\<lambda>_ _. 0)" using dsk_cong [OF b(6)] log_state_ok(5) by simp
  moreover have "seen (binit log_state) = dsk (binit log_state)"
  proof
    fix x show "seen (binit log_state) x = dsk (binit log_state) x"
      using b(5) [of x] slot_dev0(1) [OF cache_inv_simps(9) [OF b(1)], of x] by auto
  qed
  moreover have "refs (binit log_state) = (\<lambda>_. 0)" using b(4) by auto
  moreover have "log log_state = \<lparr>log_start = 2, log_size = 30, outstanding = 0, committing = False, log_dev = 1,
      lh_n = 0, lh_block = (\<lambda>_. 0)\<rparr>"
    by (simp add: log_state_def logst.defs bufst.defs)
  ultimately show ?thesis
    using b(1-3) unfolding idle_def l by (simp add: LOGSIZE_def MAXOPBLOCKS_def ld32_def)
qed

text \<open>The machine switched on again with another disk.\<close>

definition rebooted :: "(u32 \<Rightarrow> u32 \<Rightarrow> bytes) \<Rightarrow> logst" where "rebooted D = log_state\<lparr>disk := D\<rparr>"

lemma rebooted_ok: "restarted D 1 (rebooted D)"
proof -
  have "bufs (log_state\<lparr>disk := D\<rparr>) = bufs log_state" "procs (log_state\<lparr>disk := D\<rparr>) = procs log_state"
    "me (log_state\<lparr>disk := D\<rparr>) = me log_state" "quiet (log_state\<lparr>disk := D\<rparr>) = quiet log_state"
    by (auto simp: me_def quiet_def irq_ok_def irq_defs free_def)
  then show ?thesis
    using log_state_ok unfolding restarted_def rebooted_def by (simp add: zero_bufs_def no_sleeper_def)
qed

theorem transaction_atomic_witness:
  "\<exists>v ws. transaction [Write_block (1, 40) 3 1 (\<lambda>_. 65)] (binit log_state) = Ok [\<lambda>_. 0] v \<and>
     (\<forall>k \<le> length ws. \<exists>r'. initlog 1 2 30 (binit (rebooted (fold disk_put (take k ws) (disk (binit log_state))))) = Ok () r' \<and>
        dsk r' (1, 40) 3 \<in> {0, 65} \<and> (k = length ws \<longrightarrow> dsk r' (1, 40) 3 = 65))"
proof -
  let ?ops = "[Write_block (1, 40) 3 1 (\<lambda>_. 65)]" let ?s = "binit log_state"
  have l: "log_dev (log ?s) = 1" "log_start (log ?s) = 2" by (simp_all add: log_binit log_state_def logst.defs bufst.defs)
  have out: "(1, 40) \<notin> log_area (log ?s)"
  proof
    assume "(1, 40) \<in> log_area (log ?s)"
    then obtain i where "i \<le> LOGSIZE" "(40 :: u32) = 2 + of_nat i" using l by (auto simp: log_area_def)
    then have "unat (2 + of_nat i :: u32) = 40" "i \<le> 30" by (auto simp: LOGSIZE_def MAXOPBLOCKS_def)
    then show False by (simp add: unat_word_ariths unat_of_nat)
  qed
  have ops: "\<forall>a \<in> set ?ops. op_ok (log ?s) a" using out l by (simp add: BSIZE_def)
  have d: "dsk ?s = (\<lambda>_ _. 0)" using log_state_idle binit_inv(6) [OF log_state_ok(1-4)] log_state_ok(5) dsk_cong by metis
  have few: "card (write_set ?ops) \<le> MAXOPBLOCKS" by (simp add: MAXOPBLOCKS_def)
  obtain v ws where v: "transaction ?ops ?s = Ok (fst (store_ops ?ops (dsk ?s))) v" and
    *: "\<forall>k (r :: logst). k \<le> length ws \<and> restarted (fold disk_put (take k ws) (disk ?s)) 1 r \<longrightarrow>
       (\<exists>r' C. initlog (log_dev (log ?s)) (log_start (log ?s)) 30 (binit r) = Ok () r' \<and>
          (C = dsk ?s \<and> k < length ws \<or> C = snd (store_ops ?ops (dsk ?s))) \<and>
          (\<forall>x. x \<notin> log_area (log ?s) \<longrightarrow> dsk r' x = C x) \<and>
          seen r' = dsk r' \<and> refs r' = (\<lambda>_. 0) \<and> ld32 (dsk r' (head_of (log ?s))) 0 = 0)"
    using transaction_atomic [OF log_state_idle ops few, of 1 30] by blast
  have "\<exists>r'. initlog 1 2 30 (binit (rebooted (fold disk_put (take k ws) (disk ?s)))) = Ok () r' \<and>
        dsk r' (1, 40) 3 \<in> {0, 65} \<and> (k = length ws \<longrightarrow> dsk r' (1, 40) 3 = 65)" if kl: "k \<le> length ws" for k
  proof -
    obtain r' C where "initlog 1 2 30 (binit (rebooted (fold disk_put (take k ws) (disk ?s)))) = Ok () r'"
      "C = dsk ?s \<and> k < length ws \<or> C = snd (store_ops ?ops (dsk ?s))" "dsk r' (1, 40) = C (1, 40)"
      using * [rule_format, OF conjI [OF kl rebooted_ok]] out unfolding l by blast
    then show ?thesis by (auto simp: d splice_def)
  qed
  moreover have "fst (store_ops ?ops (dsk ?s)) = [\<lambda>_. 0]" using d by simp
  ultimately show ?thesis using v by auto
qed

end
