(* ===== verification/Pagetable.thy ===== *)
theory Pagetable
  imports Vm
begin

text \<open>
  What the page-table code of \<^verbatim>\<open>vm.c\<close> promises.  A three-level table in memory represents a finite map from
  virtual page numbers to entries; \<open>T\<close> names the pages that hold its tables and \<open>L\<close> is the map.  The
  operations are shown to act on \<open>L\<close> and to keep the tables, the free pages and everything else apart.
\<close>

section \<open>Addresses\<close>

definition vpn :: "u64 \<Rightarrow> nat" where "vpn va = unat va div 4096"

text \<open>The index of \<open>va\<close> in its table of level \<open>k\<close>, and the number of that table.\<close>

definition idx :: "nat \<Rightarrow> u64 \<Rightarrow> nat" where "idx k va = vpn va div 512 ^ k mod 512"
definition tkey :: "nat \<Rightarrow> u64 \<Rightarrow> nat" where "tkey k va = vpn va div 512 ^ (k + 1)"

lemma idx_less [simp]: "idx k va < 512" by (simp add: idx_def)

lemma split_512: "i < 512 \<Longrightarrow> x < 512 \<Longrightarrow> j * 512 + i = k * 512 + x \<longleftrightarrow> j = k \<and> i = x" for i j k x :: nat
proof -
  assume "i < 512" "x < 512"
  then have "(j * 512 + i) div 512 = j" "(j * 512 + i) mod 512 = i" "(k * 512 + x) div 512 = k" "(k * 512 + x) mod 512 = x"
    by simp_all
  then show ?thesis by metis
qed

lemma tkey_step: "tkey k va = tkey (Suc k) va * 512 + idx (Suc k) va"
proof -
  have "512 ^ (Suc k + 1) = 512 ^ (k + 1) * (512 :: nat)" by simp
  then have "tkey (Suc k) va = tkey k va div 512" unfolding tkey_def by (simp only: div_mult2_eq)
  moreover have "idx (Suc k) va = tkey k va mod 512" by (simp add: tkey_def idx_def)
  ultimately show ?thesis by simp
qed

lemma vpn_split: "vpn va = tkey 0 va * 512 + idx 0 va"
  by (simp add: tkey_def idx_def)

lemma MAXVA_vpn: "va < MAXVA \<longleftrightarrow> vpn va < 2 ^ 26"
  by (simp add: MAXVA_def vpn_def word_less_nat_alt div_less_iff_less_mult)

lemma tkey_top: "va < MAXVA \<Longrightarrow> tkey 2 va = 0"
  by (simp add: MAXVA_vpn tkey_def)

lemma PX_idx: "PX k va = of_nat (idx k va)"
proof -
  have "PX k va = take_bit 9 (drop_bit (12 + 9 * k) va)"
    by (simp add: PX_def take_bit_eq_mask mask_eq_exp_minus_1)
  then have "unat (PX k va) = take_bit 9 (drop_bit (12 + 9 * k) (unat va))"
    by (simp only: unsigned_take_bit_eq unat_drop_bit_eq)
  then have "unat (PX k va) = unat va div 2 ^ (12 + 9 * k) mod 512"
    by (simp add: drop_bit_eq_div take_bit_eq_mod)
  also have "unat va div 2 ^ (12 + 9 * k) = vpn va div 512 ^ k"
    by (simp add: vpn_def power_add power_mult div_mult2_eq)
  finally show ?thesis by (metis idx_def of_nat_unat ucast_id)
qed

lemma unat_pte_at:
  assumes "page_ok s p"
  shows "unat (pte_at p k va) = unat p + 8 * idx k va"
proof -
  have "idx k va \<le> 511" using idx_less [of k va] by linarith
  moreover have "unat p < 0x88000000" using page_unat [OF assms] by simp
  moreover have "unat (8 * PX k va) = 8 * idx k va"
    using \<open>idx k va \<le> 511\<close> by (simp add: PX_idx unat_word_ariths unat_of_nat)
  ultimately show ?thesis by (simp add: pte_at_def unat_word_ariths)
qed

section \<open>Entries\<close>

definition entry :: "bytes \<Rightarrow> u64 \<Rightarrow> nat \<Rightarrow> u64" where "entry m p i = ld64 m (unat p + 8 * i)"

lemma rd64_pte: "page_ok s p \<Longrightarrow> rd64 (pte_at p k va) s = entry (pmem s) p (idx k va)"
  by (simp add: rd64_def entry_def unat_pte_at)

lemma ld64_st64_away: "j + 8 \<le> k \<or> k + 8 \<le> j \<Longrightarrow> ld64 (st64 m k v) j = ld64 m j"
  by (rule ld64_cong) (subst st64_outside; auto)

lemma entry_bytes: "i < 512 \<Longrightarrow> j < 8 \<Longrightarrow> in_page p (unat p + 8 * i + j)"
  by (simp add: in_page_def)

lemma entry_cong: "i < 512 \<Longrightarrow> (\<And>a. in_page p a \<Longrightarrow> m a = m' a) \<Longrightarrow> entry m p i = entry m' p i"
  unfolding entry_def by (rule ld64_cong) (simp add: entry_bytes)

lemma entry_st64:
  assumes "page_ok s p" and "page_ok s q" and "i < 512" and "j < 512"
  shows "entry (st64 m (unat p + 8 * i) v) q j = (if p = q \<and> i = j then v else entry m q j)"
proof (cases "p = q")
  case True
  have "8 * j + 8 \<le> 8 * i \<or> 8 * i + 8 \<le> 8 * j" if "i \<noteq> j" using that by linarith
  then show ?thesis using True ld64_st64_away [of "unat p + 8 * j" "unat p + 8 * i"] by (auto simp: entry_def)
next
  case False
  have "entry (st64 m (unat p + 8 * i) v) q j = entry m q j"
  proof (rule entry_cong [OF assms(4)])
    fix a assume "in_page q a"
    then have "\<not> in_page p a" using pages_disjoint [OF assms(2,1)] False by auto
    then show "st64 m (unat p + 8 * i) v a = m a" using assms(3) by (intro st64_outside) (auto simp: in_page_def)
  qed
  then show ?thesis using False by simp
qed

lemma entry_zero: "(\<And>a. in_page p a \<Longrightarrow> m a = 0) \<Longrightarrow> i < 512 \<Longrightarrow> entry m p i = 0"
  using entry_cong [of i p m "\<lambda>_. 0"] by (simp add: entry_def ld64_def ld32_def)

text \<open>An entry for a page of RAM.\<close>

lemma page_bits: "p mod PGSIZE = 0 \<Longrightarrow> push_bit 12 (drop_bit 12 p) = p" for p :: u64
proof -
  assume "p mod PGSIZE = 0"
  then have "unat p mod 4096 = 0" by (simp add: PGSIZE_def word_unat_eq_iff unat_mod)
  then have "unat (PGROUNDDOWN p) = unat p" unfolding unat_PGROUNDDOWN by (metis div_mult_mod_eq add.right_neutral)
  then have "PGROUNDDOWN p = p" by (simp only: word_unat_eq_iff)
  then show ?thesis by (simp add: PGROUNDDOWN_bits)
qed

lemma flag_bits:
  fixes f :: u64
  assumes "f < 1024"
  shows "drop_bit 10 f = 0" "10 \<le> n \<Longrightarrow> \<not> bit f n"
proof -
  show d: "drop_bit 10 f = 0"
    using assms by (simp add: drop_bit_eq_div word_unat_eq_iff unat_div word_less_nat_alt)
  show "\<not> bit f n" if "10 \<le> n" using that arg_cong [OF d, of "\<lambda>w. bit w (n - 10)"] by (simp add: bit_drop_bit_eq)
qed

lemma PTE2PA_PA2PTE:
  assumes "p mod PGSIZE = 0" and "p < PHYSTOP" and "f < 1024"
  shows "PTE2PA (PA2PTE p OR f) = p"
proof -
  have "unat p < 0x88000000" using assms(2) by (simp add: PHYSTOP_val word_less_nat_alt)
  then have "drop_bit 10 (push_bit 10 (drop_bit 12 p)) = drop_bit 12 p"
    by (simp add: drop_bit_eq_div push_bit_eq_mult word_unat_eq_iff unat_div unat_word_ariths)
  then show ?thesis using page_bits [OF assms(1)] by (simp add: PTE2PA_def PA2PTE_def drop_bit_or flag_bits(1) [OF assms(3)])
qed

lemma PTE_flag: "f < 1024 \<Longrightarrow> g < 1024 \<Longrightarrow> (PA2PTE p OR f) AND g = f AND g" for f g :: u64
  using flag_bits(2) [of g] by (intro bit_word_eqI) (auto simp: PA2PTE_def bit_simps not_le)

section \<open>Trees of tables\<close>

type_synonym tables = "nat \<times> nat \<Rightarrow> u64 option"
type_synonym mapping = "nat \<Rightarrow> u64 option"

text \<open>
  The memory holds, from the page \<open>pt\<close> on, exactly the tables \<open>T\<close>, and they map exactly \<open>L\<close>.  Table
  \<open>(k, j)\<close> is the one of level \<open>k\<close> for the addresses with \<open>tkey k va = j\<close>.
\<close>

definition tree :: "bytes \<Rightarrow> u64 \<Rightarrow> tables \<Rightarrow> mapping \<Rightarrow> bool" where
  "tree m pt T L \<longleftrightarrow> T (2, 0) = Some pt \<and>
     (\<forall>k j. T (k, j) \<noteq> None \<longrightarrow> k < 2 \<or> k = 2 \<and> j = 0) \<and>
     (\<forall>k j i. i < 512 \<and> k < 2 \<and> T (Suc k, j) = None \<longrightarrow> T (k, j * 512 + i) = None) \<and>
     (\<forall>k j p i. i < 512 \<and> T (Suc k, j) = Some p \<longrightarrow>
        (case T (k, j * 512 + i) of None \<Rightarrow> entry m p i AND PTE_V = 0 | Some q \<Rightarrow> entry m p i = PA2PTE q OR PTE_V)) \<and>
     (\<forall>j p i. i < 512 \<and> T (0, j) = Some p \<longrightarrow>
        L (j * 512 + i) = (if entry m p i AND PTE_V = 0 then None else Some (entry m p i))) \<and>
     (\<forall>j i. i < 512 \<and> T (0, j) = None \<longrightarrow> L (j * 512 + i) = None)"

text \<open>The tables lie in RAM, each in a page of its own, apart from the free pages \<open>ps\<close>.\<close>

definition pages_apart :: "'a memst_scheme \<Rightarrow> tables \<Rightarrow> u64 list \<Rightarrow> bool" where
  "pages_apart s T ps \<longleftrightarrow> irq_ok s \<and> free L_kmem s \<and> free_list s ps \<and> inj_on T (dom T) \<and>
     (\<forall>p \<in> ran T. page_ok s p \<and> p \<notin> set ps)"

definition vm_inv :: "'a memst_scheme \<Rightarrow> u64 \<Rightarrow> tables \<Rightarrow> mapping \<Rightarrow> u64 list \<Rightarrow> bool" where
  "vm_inv s pt T L ps \<longleftrightarrow> tree (pmem s) pt T L \<and> pages_apart s T ps"

lemma tree_root: "tree m pt T L \<Longrightarrow> T (2, 0) = Some pt"
  by (simp add: tree_def)

lemma tree_child:
  assumes "tree m pt T L" and "T (Suc k, tkey (Suc k) va) = Some p"
  shows "T (k, tkey k va) = None \<Longrightarrow> entry m p (idx (Suc k) va) AND PTE_V = 0"
    and "T (k, tkey k va) = Some q \<Longrightarrow> entry m p (idx (Suc k) va) = PA2PTE q OR PTE_V"
proof -
  have "case T (k, tkey k va) of None \<Rightarrow> entry m p (idx (Suc k) va) AND PTE_V = 0
      | Some q \<Rightarrow> entry m p (idx (Suc k) va) = PA2PTE q OR PTE_V"
    using assms unfolding tree_def tkey_step [of k] by (metis idx_less)
  then show "T (k, tkey k va) = None \<Longrightarrow> entry m p (idx (Suc k) va) AND PTE_V = 0"
    "T (k, tkey k va) = Some q \<Longrightarrow> entry m p (idx (Suc k) va) = PA2PTE q OR PTE_V"
    by simp_all
qed

lemma tree_level: "tree m pt T L \<Longrightarrow> T (k, j) = Some p \<Longrightarrow> k < 2 \<or> k = 2 \<and> j = 0"
  unfolding tree_def by (metis option.discI)

lemma tree_orphan: "tree m pt T L \<Longrightarrow> k < 2 \<Longrightarrow> T (Suc k, tkey (Suc k) va) = None \<Longrightarrow> T (k, tkey k va) = None"
  unfolding tree_def tkey_step [of k] by (metis idx_less)

lemma tree_end: "tree m pt T L \<Longrightarrow> k \<le> 2 \<Longrightarrow> T (k, tkey k va) = None \<Longrightarrow> T (0, tkey 0 va) = None"
proof (induction k)
  case (Suc k)
  then have "T (k, tkey k va) = None" using tree_orphan [of m pt T L k va] by simp
  then show ?case using Suc by simp
qed

lemma tree_leaf:
  assumes "tree m pt T L"
  shows "T (0, tkey 0 va) = None \<Longrightarrow> L (vpn va) = None"
    and "T (0, tkey 0 va) = Some p \<Longrightarrow>
      L (vpn va) = (if entry m p (idx 0 va) AND PTE_V = 0 then None else Some (entry m p (idx 0 va)))"
  using assms unfolding tree_def vpn_split by (metis idx_less)+

lemma tables_ok: "pages_apart s T ps \<Longrightarrow> T x = Some p \<Longrightarrow> page_ok s p"
  unfolding pages_apart_def by (blast intro: ranI)

text \<open>Going down to the last table, where it exists.\<close>

lemma PTE_V_nonzero [simp]: "PTE_V \<noteq> 0" "(x OR PTE_V) AND PTE_V = PTE_V" "(x OR y OR PTE_V) AND PTE_V = PTE_V"
  by (simp add: PTE_V_def) (auto intro!: bit_word_eqI simp: bit_simps)

lemma PTE2PA_table: "page_ok s q \<Longrightarrow> PTE2PA (PA2PTE q OR PTE_V) = q"
  by (rule PTE2PA_PA2PTE) (simp_all add: page_ok_def PTE_V_def)

definition leaf_addr :: "tables \<Rightarrow> u64 \<Rightarrow> u64" where
  "leaf_addr T va = (case T (0, tkey 0 va) of None \<Rightarrow> 0 | Some q \<Rightarrow> pte_at q 0 va)"

lemma walk_loop_find:
  assumes "vm_inv s pt T L ps" and "T (k, tkey k va) = Some p"
  shows "walk_loop k p va False s = Ok (leaf_addr T va) s"
  using assms(2)
proof (induction k arbitrary: p)
  case 0
  then show ?case by (simp add: leaf_addr_def)
next
  case (Suc k)
  have t: "tree (pmem s) pt T L" "pages_apart s T ps" using assms(1) by (simp_all add: vm_inv_def)
  have rd: "rd64 (pte_at p (Suc k) va) s = entry (pmem s) p (idx (Suc k) va)"
    by (rule rd64_pte [OF tables_ok [OF t(2) Suc.prems]])
  show ?case
  proof (cases "T (k, tkey k va)")
    case None
    have "T (0, tkey 0 va) = None" using tree_end [OF t(1) _ None] tree_level [OF t(1) Suc.prems] by auto
    then show ?thesis using tree_child(1) [OF t(1) Suc.prems None] by (simp add: rd leaf_addr_def)
  next
    case (Some q)
    then show ?thesis
      using tree_child(2) [OF t(1) Suc.prems Some] Suc.IH [OF Some] tables_ok [OF t(2) Some]
      by (simp add: rd PTE2PA_table)
  qed
qed

lemma walk_find:
  assumes "vm_inv s pt T L ps"
  shows "walk pt va False s = (if va < MAXVA then Ok (leaf_addr T va) s else Panic ''walk'')"
  using walk_loop_find [OF assms, of 2 va pt] tree_root [of "pmem s" pt T L] assms
  by (auto simp: walk_def not_less vm_inv_def tkey_top)

section \<open>Adding a table\<close>

text \<open>From \<open>s\<close> to \<open>t\<close> only the free list and the pages \<open>A\<close> of memory changed.\<close>

definition touched :: "'a memst_scheme \<Rightarrow> 'a memst_scheme \<Rightarrow> u64 set \<Rightarrow> bool" where
  "touched s t A \<longleftrightarrow> (\<exists>m f. t = s\<lparr>pmem := m, freelist := f\<rparr> \<and> (\<forall>a. (\<forall>p \<in> A. \<not> in_page p a) \<longrightarrow> m a = pmem s a))"

lemma touched_refl: "touched s s A"
  unfolding touched_def by (intro exI [of _ "pmem s"] exI [of _ "freelist s"]) simp

lemma touched_trans: "touched s t A \<Longrightarrow> touched t u B \<Longrightarrow> touched s u (A \<union> B)"
proof -
  assume "touched s t A" "touched t u B"
  then obtain m f m' f' where "t = s\<lparr>pmem := m, freelist := f\<rparr>" "\<forall>a. (\<forall>p \<in> A. \<not> in_page p a) \<longrightarrow> m a = pmem s a"
    "u = t\<lparr>pmem := m', freelist := f'\<rparr>" "\<forall>a. (\<forall>p \<in> B. \<not> in_page p a) \<longrightarrow> m' a = pmem t a"
    unfolding touched_def by blast
  then show ?thesis unfolding touched_def by (intro exI [of _ m'] exI [of _ f']) simp
qed

lemma touched_mono: "touched s t A \<Longrightarrow> A \<subseteq> B \<Longrightarrow> touched s t B"
  unfolding touched_def by blast

lemma touchedI:
  "t = s\<lparr>pmem := m, freelist := f\<rparr> \<Longrightarrow> (\<And>a. (\<And>p. p \<in> A \<Longrightarrow> \<not> in_page p a) \<Longrightarrow> m a = pmem s a) \<Longrightarrow> touched s t A"
  unfolding touched_def by blast

lemma touched_pmem: "touched s t A \<Longrightarrow> (\<And>p. p \<in> A \<Longrightarrow> \<not> in_page p a) \<Longrightarrow> pmem t a = pmem s a"
  by (auto simp: touched_def)

lemma touched_state:
  assumes "touched s t A"
  shows "irq_ok t \<longleftrightarrow> irq_ok s" "free l t \<longleftrightarrow> free l s" "page_ok t p \<longleftrightarrow> page_ok s p" "kend t = kend s"
    "procs t = procs s" "mycpu t = mycpu s" "me t = me s"
  using assms by (auto simp: touched_def frame_simps page_ok_frame me_def)

lemma alloc_none: "pages_apart s T [] \<Longrightarrow> kalloc s = Ok 0 s"
  by (rule kalloc_empty) (simp_all add: pages_apart_def)

lemma alloc_some:
  assumes "pages_apart s T (q # ps)"
  shows "\<exists>t. kalloc s = Ok q t \<and> page_ok s q \<and> pages_apart t T ps \<and> touched s t {q} \<and> q \<notin> ran T \<union> set ps"
proof -
  have a: "irq_ok s" "free L_kmem s" "free_list s (q # ps)" "inj_on T (dom T)" "\<And>p. p \<in> ran T \<Longrightarrow> page_ok s p \<and> p \<notin> set (q # ps)"
    using assms by (simp_all add: pages_apart_def)
  obtain m f where k: "kalloc s = Ok q (s\<lparr>pmem := m, freelist := f\<rparr>)" "page_ok s q"
    "free_list (s\<lparr>pmem := m, freelist := f\<rparr>) ps" "m = (\<lambda>a. if in_page q a then 5 else pmem s a)"
    using kalloc_ok [OF a(1-3)] by blast
  have "touched s (s\<lparr>pmem := m, freelist := f\<rparr>) {q}" by (rule touchedI [OF refl]) (simp add: k(4))
  moreover have "pages_apart (s\<lparr>pmem := m, freelist := f\<rparr>) T ps"
    using a k(3) by (auto simp: pages_apart_def frame_simps page_ok_frame)
  moreover have "q \<notin> ran T \<union> set ps" using a(3,5) by (auto simp: free_list_def)
  ultimately show ?thesis using k(1,2) by blast
qed

text \<open>Writing to pages that are not free.\<close>

lemma apart_use:
  assumes "pages_apart s T ps" and "\<And>p. p \<in> A \<Longrightarrow> page_ok s p" and "A \<inter> set ps = {}"
    and "\<And>a. (\<And>p. p \<in> A \<Longrightarrow> \<not> in_page p a) \<Longrightarrow> m a = pmem s a"
  shows "pages_apart (s\<lparr>pmem := m\<rparr>) T ps" "touched s (s\<lparr>pmem := m\<rparr>) A"
proof -
  have "free_list (s\<lparr>pmem := m\<rparr>) ps"
    by (rule free_list_use [of s ps A]) (use assms in \<open>auto simp: pages_apart_def\<close>)
  then show "pages_apart (s\<lparr>pmem := m\<rparr>) T ps"
    using assms(1) by (auto simp: pages_apart_def frame_simps page_ok_frame)
  show "touched s (s\<lparr>pmem := m\<rparr>) A"
    by (rule touchedI [where f = "freelist s" and m = m]) (use assms(4) in auto)
qed

lemma apart_link:
  assumes "pages_apart s T ps" and "page_ok s q" and "q \<notin> ran T \<union> set ps" and "T x = None"
  shows "pages_apart s (T(x \<mapsto> q)) ps"
proof -
  have r: "ran (T(x \<mapsto> q)) = insert q (ran T)" using assms(4) by (rule ran_map_upd)
  have "inj_on (T(x \<mapsto> q)) (dom (T(x \<mapsto> q)))"
  proof (rule inj_onI)
    fix y z assume yz: "y \<in> dom (T(x \<mapsto> q))" "z \<in> dom (T(x \<mapsto> q))" "(T(x \<mapsto> q)) y = (T(x \<mapsto> q)) z"
    have "T w \<noteq> Some q" for w using assms(3) by (auto intro: ranI)
    then show "y = z" using yz assms(1) unfolding pages_apart_def inj_on_def by (metis dom_fun_upd fun_upd_apply insertE option.discI)
  qed
  then show ?thesis using assms(1-3) unfolding pages_apart_def r by simp
qed

text \<open>The memory after \<^verbatim>\<open>walk\<close> has linked the zeroed page \<open>q\<close> under the table \<open>p\<close>.\<close>

lemma tree_grow:
  assumes t: "tree m pt T L" and inj: "inj_on T (dom T)" and q: "q \<notin> ran T"
    and p: "T (Suc k, tkey (Suc k) va) = Some p" and none: "T (k, tkey k va) = None"
    and same: "\<And>r i. r \<in> ran T \<Longrightarrow> i < 512 \<Longrightarrow>
        entry m' r i = (if r = p \<and> i = idx (Suc k) va then PA2PTE q OR PTE_V else entry m r i)"
    and zero: "\<And>i. i < 512 \<Longrightarrow> entry m' q i = 0"
  shows "tree m' pt (T((k, tkey k va) \<mapsto> q)) L"
proof -
  let ?T = "T((k, tkey k va) \<mapsto> q)"
  have inj': "x = y" if "T x = Some r" "T y = Some r" for x y r
    using inj that unfolding inj_on_def by (metis domI)
  have child: "(k', j * 512 + i) = (k, tkey k va) \<longleftrightarrow> k' = k \<and> j = tkey (Suc k) va \<and> i = idx (Suc k) va"
    if "i < 512" for k' j i
  proof -
    have "j * 512 + i = tkey k va \<longleftrightarrow> j = tkey (Suc k) va \<and> i = idx (Suc k) va"
      unfolding tkey_step [of k] by (rule split_512 [OF that idx_less])
    then show ?thesis by auto
  qed
  have root: "?T (2, 0) = Some pt" using t none by (auto simp: tree_def)
  have k2: "k < 2" using tree_level [OF t p] by auto
  have level: "k' < 2 \<or> k' = 2 \<and> j = 0" if "?T (k', j) \<noteq> None" for k' j
    using that t k2 unfolding tree_def by (auto split: if_splits)
  have orphan: "?T (k', j * 512 + i) = None" if "i < 512" "k' < 2" "?T (Suc k', j) = None" for k' j i
    using that t child [OF that(1), of k' j] p unfolding tree_def by (auto split: if_splits)
  have inner: "case ?T (k', j * 512 + i) of None \<Rightarrow> entry m' r i AND PTE_V = 0 | Some q \<Rightarrow> entry m' r i = PA2PTE q OR PTE_V"
    if i: "i < 512" and r: "?T (Suc k', j) = Some r" for k' j i r
  proof (cases "(Suc k', j) = (k, tkey k va)")
    case True
    then have "r = q" "T (k', j * 512 + i) = None" "k' \<noteq> k"
      using r t none i k2 unfolding tree_def by auto
    then show ?thesis using zero [OF i] by simp
  next
    case False
    then have r': "T (Suc k', j) = Some r" using r by auto
    then have e: "entry m' r i = (if r = p \<and> i = idx (Suc k) va then PA2PTE q OR PTE_V else entry m r i)"
      using same [OF ranI i] by blast
    have o: "case T (k', j * 512 + i) of None \<Rightarrow> entry m r i AND PTE_V = 0 | Some q \<Rightarrow> entry m r i = PA2PTE q OR PTE_V"
      using t i r' unfolding tree_def by blast
    show ?thesis
    proof (cases "(k', j * 512 + i) = (k, tkey k va)")
      case True
      then have "r = p" "i = idx (Suc k) va" using r' p child [OF i] by auto
      then show ?thesis using e True by simp
    next
      case F: False
      then have "\<not> (r = p \<and> i = idx (Suc k) va)" using inj' [OF r'] p child [OF i, of k' j] by auto
      then have e1: "entry m' r i = entry m r i" using e by auto
      have e2: "?T (k', j * 512 + i) = T (k', j * 512 + i)" using F by auto
      show ?thesis unfolding e1 e2 by (rule o)
    qed
  qed
  have leaf: "L (j * 512 + i) = (if entry m' r i AND PTE_V = 0 then None else Some (entry m' r i))"
    if i: "i < 512" and r: "?T (0, j) = Some r" for j i r
  proof (cases "(0, j) = (k, tkey k va)")
    case True
    then have "r = q" "T (0, j) = None" using r none by auto
    then show ?thesis using zero [OF i] t i unfolding tree_def by simp
  next
    case False
    then have r': "T (0, j) = Some r" using r by auto
    then have "r \<noteq> p" using inj' [OF r', of "(Suc k, tkey (Suc k) va)"] p by auto
    then show ?thesis using same [OF ranI [of T, OF r'] i] t i r' unfolding tree_def by auto
  qed
  have "L (j * 512 + i) = None" if "i < 512" "?T (0, j) = None" for j i
    using that t unfolding tree_def by (auto split: if_splits)
  with root level orphan inner leaf show ?thesis unfolding tree_def by blast
qed

text \<open>The new page, emptied and linked.\<close>

lemma link_table:
  assumes v: "vm_inv s pt T L (q # ps)" and p: "T (Suc k, tkey (Suc k) va) = Some p" and none: "T (k, tkey k va) = None"
  shows "\<exists>t. kalloc s = Ok q t \<and> q \<noteq> 0 \<and> page_ok s q \<and>
     (let u = wr64 (pte_at p (Suc k) va) (PA2PTE q OR PTE_V) (fill_page q 0 t) in
      vm_inv u pt (T((k, tkey k va) \<mapsto> q)) L ps \<and> touched s u {p, q})"
proof -
  have t: "tree (pmem s) pt T L" and a: "pages_apart s T (q # ps)" using v by (simp_all add: vm_inv_def)
  obtain t where k: "kalloc s = Ok q t" "page_ok s q" "pages_apart t T ps" "touched s t {q}" "q \<notin> ran T \<union> set ps"
    using alloc_some [OF a] by blast
  let ?i = "idx (Suc k) va" let ?v = "PA2PTE q OR PTE_V"
  let ?u = "wr64 (pte_at p (Suc k) va) ?v (fill_page q 0 t)"
  let ?m = "st64 (pmem (fill_page q 0 t)) (unat p + 8 * ?i) ?v"
  have pk: "page_ok s p" using tables_ok [OF a p] .
  have pr: "p \<in> ran T" using ranI [of T, OF p] .
  then have pq: "p \<noteq> q" "p \<notin> set ps" using k(5) a by (auto simp: pages_apart_def)
  have u: "?u = t\<lparr>pmem := ?m\<rparr>"
    using unat_pte_at [OF pk, of "Suc k" va] by (simp add: wr64_def fill_page_def)
  have away: "?m x = pmem t x" if "\<And>r. r \<in> {p, q} \<Longrightarrow> \<not> in_page r x" for x
  proof -
    have "8 * ?i + 8 \<le> 4096" using idx_less [of "Suc k" va] by linarith
    moreover have "\<not> in_page p x" using that [of p] by simp
    ultimately have "?m x = pmem (fill_page q 0 t) x" unfolding in_page_def by (intro st64_outside) linarith
    then show ?thesis using that [of q] by (simp add: fill_page_apply)
  qed
  have ap: "pages_apart ?u T ps" "touched t ?u {p, q}"
    unfolding u
    by (rule apart_use [OF k(3), of "{p, q}"]; use pk k(2,5) pq away touched_state(3) [OF k(4)] in auto)+
  have same: "entry ?m r i = (if r = p \<and> i = ?i then ?v else entry (pmem s) r i)"
    if "r \<in> ran T" "i < 512" for r i
  proof -
    have r: "page_ok s r" "r \<noteq> q" using that(1) a k(5) by (auto simp: pages_apart_def)
    have "pmem (fill_page q 0 t) x = pmem s x" if "in_page r x" for x
      using pages_disjoint [OF r(1) k(2) r(2) that] touched_pmem [OF k(4)] by (auto simp: fill_page_apply)
    then have "entry (pmem (fill_page q 0 t)) r i = entry (pmem s) r i" by (rule entry_cong [OF that(2)])
    then show ?thesis using entry_st64 [OF pk r(1) idx_less that(2)] by auto
  qed
  have zero: "entry ?m q i = 0" if "i < 512" for i
    using entry_st64 [OF pk k(2) idx_less that] pq(1) entry_zero [OF _ that] by (auto simp: fill_page_apply)
  have inj: "inj_on T (dom T)" using a by (simp add: pages_apart_def)
  have "tree ?m pt (T((k, tkey k va) \<mapsto> q)) L"
    by (rule tree_grow [OF t inj _ p none same zero]) (use k(5) in auto)
  moreover have "pages_apart ?u (T((k, tkey k va) \<mapsto> q)) ps"
    using apart_link [OF ap(1) _ k(5) none] k(2) touched_state(3) [OF touched_trans [OF k(4) ap(2)]] by simp
  ultimately have "vm_inv ?u pt (T((k, tkey k va) \<mapsto> q)) L ps" by (simp add: vm_inv_def u)
  moreover have "touched s ?u {p, q}" using touched_trans [OF k(4) ap(2)] by (rule touched_mono) auto
  ultimately show ?thesis using k(1,2) by (intro exI [of _ t]) (simp add: Let_def page_ok_def)
qed

text \<open>\<^verbatim>\<open>walk\<close> with \<open>alloc\<close> set.\<close>

lemma walk_loop_alloc:
  assumes "vm_inv s pt T L ps" and "T (k, tkey k va) = Some p"
  shows "\<exists>t T' ps'. walk_loop k p va True s = Ok (leaf_addr T' va) t \<and> vm_inv t pt T' L ps' \<and>
     touched s t (ran T \<union> set ps) \<and> ran T' \<union> set ps' = ran T \<union> set ps \<and> T \<subseteq>\<^sub>m T' \<and>
     (T' (0, tkey 0 va) = None \<longrightarrow> ps' = []) \<and> length ps \<le> length ps' + k"
  using assms
proof (induction k arbitrary: p s T ps)
  case 0
  then show ?case by (intro exI [of _ s] exI [of _ T] exI [of _ ps]) (simp add: leaf_addr_def touched_refl)
next
  case (Suc k)
  have t: "tree (pmem s) pt T L" and a: "pages_apart s T ps" using Suc.prems(1) by (simp_all add: vm_inv_def)
  have rd: "rd64 (pte_at p (Suc k) va) s = entry (pmem s) p (idx (Suc k) va)"
    by (rule rd64_pte [OF tables_ok [OF a Suc.prems(2)]])
  show ?case
  proof (cases "T (k, tkey k va)")
    case (Some q)
    then have "walk_loop (Suc k) p va True s = walk_loop k q va True s"
      using tree_child(2) [OF t Suc.prems(2) Some] tables_ok [OF a Some] by (simp add: rd PTE2PA_table)
    moreover obtain w T' ps' where "walk_loop k q va True s = Ok (leaf_addr T' va) w" "vm_inv w pt T' L ps'"
      "touched s w (ran T \<union> set ps)" "ran T' \<union> set ps' = ran T \<union> set ps" "T \<subseteq>\<^sub>m T'"
      "T' (0, tkey 0 va) = None \<longrightarrow> ps' = []" "length ps \<le> length ps' + k"
      using Suc.IH [OF Suc.prems(1) Some] by (elim exE conjE) (rule that)
    moreover from this(7) have "length ps \<le> length ps' + Suc k" by simp
    ultimately show ?thesis by metis
  next
    case None
    have e: "entry (pmem s) p (idx (Suc k) va) AND PTE_V = 0" by (rule tree_child(1) [OF t Suc.prems(2) None])
    show ?thesis
    proof (cases ps)
      case Nil
      then have "walk_loop (Suc k) p va True s = Ok 0 s" using e alloc_none [OF a [unfolded Nil]] by (simp add: rd)
      moreover have "leaf_addr T va = 0" using tree_end [OF t _ None] tree_level [OF t Suc.prems(2)] by (auto simp: leaf_addr_def)
      ultimately show ?thesis
        using Suc.prems(1) Nil by (intro exI [of _ s] exI [of _ T] exI [of _ ps]) (simp add: touched_refl)
    next
      case (Cons q qs)
      let ?u = "\<lambda>t. wr64 (pte_at p (Suc k) va) (PA2PTE q OR PTE_V) (fill_page q 0 t)"
      let ?T = "T((k, tkey k va) \<mapsto> q)"
      obtain t where k: "kalloc s = Ok q t" "q \<noteq> 0" and v: "vm_inv (?u t) pt ?T L qs" and tu: "touched s (?u t) {p, q}"
        using link_table [OF Suc.prems(1) [unfolded Cons] Suc.prems(2) None] by (auto simp: Let_def)
      have run: "walk_loop (Suc k) p va True s = walk_loop k q va True (?u t)" using k e by (simp add: rd)
      obtain w T' ps' where w: "walk_loop k q va True (?u t) = Ok (leaf_addr T' va) w" "vm_inv w pt T' L ps'"
        "touched (?u t) w (ran ?T \<union> set qs)" "ran T' \<union> set ps' = ran ?T \<union> set qs" "?T \<subseteq>\<^sub>m T'"
        "T' (0, tkey 0 va) = None \<longrightarrow> ps' = []" "length qs \<le> length ps' + k"
        using Suc.IH [OF v fun_upd_same] by (elim exE conjE) (rule that)
      have r: "ran ?T \<union> set qs = ran T \<union> set ps" using Cons ran_map_upd [of T "(k, tkey k va)" q] None by auto
      have TT: "T \<subseteq>\<^sub>m ?T" unfolding map_le_def using None by auto
      show ?thesis
      proof (intro exI conjI)
        show "walk_loop (Suc k) p va True s = Ok (leaf_addr T' va) w" unfolding run by (rule w(1))
        show "touched s w (ran T \<union> set ps)"
          using touched_trans [OF tu w(3)] by (rule touched_mono) (use r Suc.prems(2) Cons in \<open>auto intro: ranI\<close>)
        show "ran T' \<union> set ps' = ran T \<union> set ps" using w(4) r by simp
        show "T \<subseteq>\<^sub>m T'" by (rule map_le_trans [OF TT w(5)])
        show "length ps \<le> length ps' + Suc k" using w(7) Cons by simp
      qed (rule w)+
    qed
  qed
qed

lemma walk_alloc:
  assumes "vm_inv s pt T L ps" and "va < MAXVA"
  shows "\<exists>t T' ps'. walk pt va True s = Ok (leaf_addr T' va) t \<and> vm_inv t pt T' L ps' \<and>
     touched s t (ran T \<union> set ps) \<and> ran T' \<union> set ps' = ran T \<union> set ps \<and> T \<subseteq>\<^sub>m T' \<and>
     (T' (0, tkey 0 va) = None \<longrightarrow> ps' = []) \<and> length ps \<le> length ps' + 2"
  using walk_loop_alloc [OF assms(1), of 2 va pt] tree_root [of "pmem s" pt T L] assms
  by (simp add: walk_def not_less vm_inv_def tkey_top leD)

section \<open>Entries of the last level\<close>

lemma leaf_nonzero: "pages_apart s T ps \<Longrightarrow> T (0, tkey 0 va) = Some q \<Longrightarrow> leaf_addr T va \<noteq> 0"
  using unat_pte_at [OF tables_ok, of s T ps "(0, tkey 0 va)" q 0 va] tables_ok [of s T ps "(0, tkey 0 va)" q]
  by (auto simp: leaf_addr_def page_ok_def unat_eq_0 dest!: arg_cong [of _ _ unat])

lemma leaf_zero: "pages_apart s T ps \<Longrightarrow> leaf_addr T va = 0 \<longleftrightarrow> T (0, tkey 0 va) = None"
  using leaf_nonzero [of s T ps va] by (cases "T (0, tkey 0 va)") (auto simp: leaf_addr_def)

text \<open>What the entry of an address says.\<close>

lemma leaf_read:
  assumes "vm_inv s pt T L ps" and "T (0, tkey 0 va) = Some q"
  shows "L (vpn va) = (if rd64 (leaf_addr T va) s AND PTE_V = 0 then None else Some (rd64 (leaf_addr T va) s))"
  using tree_leaf(2) [of "pmem s" pt T L va q] rd64_pte [OF tables_ok, of s T ps "(0, tkey 0 va)" q 0 va] assms
  by (simp add: vm_inv_def leaf_addr_def)

lemma vpn_eq: "j * 512 + i = vpn va \<longleftrightarrow> j = tkey 0 va \<and> i = idx 0 va" if "i < 512"
  unfolding vpn_split by (rule split_512 [OF that idx_less])

lemma leaf_write:
  assumes v: "vm_inv s pt T L ps" and q: "T (0, tkey 0 va) = Some q"
  shows "vm_inv (wr64 (leaf_addr T va) e s) pt T (L(vpn va := if e AND PTE_V = 0 then None else Some e)) ps"
    "touched s (wr64 (leaf_addr T va) e s) {q}"
proof -
  have t: "tree (pmem s) pt T L" and a: "pages_apart s T ps" using v by (simp_all add: vm_inv_def)
  let ?i = "idx 0 va" let ?m = "st64 (pmem s) (unat q + 8 * ?i) e"
  let ?L = "L(vpn va := if e AND PTE_V = 0 then None else Some e)"
  have qk: "page_ok s q" and qr: "q \<in> ran T" using tables_ok [OF a q] ranI [of T, OF q] by blast+
  have u: "wr64 (leaf_addr T va) e s = s\<lparr>pmem := ?m\<rparr>"
    using q unat_pte_at [OF qk, of 0 va] by (simp add: wr64_def leaf_addr_def)
  have le: "8 * ?i + 8 \<le> 4096" using idx_less [of 0 va] by linarith
  have away: "?m x = pmem s x" if "\<And>p. p \<in> {q} \<Longrightarrow> \<not> in_page p x" for x
    using that [of q] le unfolding in_page_def by (intro st64_outside) auto
  have ap: "pages_apart (s\<lparr>pmem := ?m\<rparr>) T ps" "touched s (s\<lparr>pmem := ?m\<rparr>) {q}"
    by (rule apart_use [OF a, of "{q}"]; use qk a qr away in \<open>auto simp: pages_apart_def\<close>)+
  have entry: "entry ?m r i = (if q = r \<and> ?i = i then e else entry (pmem s) r i)" if "r \<in> ran T" "i < 512" for r i
    using entry_st64 [OF qk _ idx_less that(2)] that(1) a by (simp add: pages_apart_def)
  have key: "x = (0, tkey 0 va)" if "T x = Some q" for x
    using a q that unfolding pages_apart_def inj_on_def by (metis domI)
  have "tree ?m pt T ?L"
    unfolding tree_def
  proof (intro conjI allI impI)
    show "T (2, 0) = Some pt" using t by (rule tree_root)
  next
    fix k j assume "T (k, j) \<noteq> None"
    then show "k < 2 \<or> k = 2 \<and> j = 0" using tree_level [OF t] by (cases "T (k, j)") simp_all
  next
    fix k j i :: nat assume "i < 512 \<and> k < 2 \<and> T (Suc k, j) = None"
    then show "T (k, j * 512 + i) = None" using t unfolding tree_def by blast
  next
    fix k j i :: nat and p assume p: "i < 512 \<and> T (Suc k, j) = Some p"
    then have "q \<noteq> p" using key [of "(Suc k, j)"] by auto
    then have "entry ?m p i = entry (pmem s) p i" using entry [OF ranI, of "(Suc k, j)" p i] p by auto
    then show "case T (k, j * 512 + i) of None \<Rightarrow> entry ?m p i AND PTE_V = 0 | Some q \<Rightarrow> entry ?m p i = PA2PTE q OR PTE_V"
      using t p unfolding tree_def by (simp only:)
  next
    fix j i :: nat and p assume p: "i < 512 \<and> T (0, j) = Some p"
    then have e: "entry ?m p i = (if q = p \<and> ?i = i then e else entry (pmem s) p i)"
      using entry [OF ranI, of "(0, j)" p i] by blast
    have old: "L (j * 512 + i) = (if entry (pmem s) p i AND PTE_V = 0 then None else Some (entry (pmem s) p i))"
      using t p unfolding tree_def by blast
    have "q = p \<and> ?i = i \<longleftrightarrow> j * 512 + i = vpn va"
      using p q key [of "(0, j)"] vpn_eq [of i j va] by auto
    then show "?L (j * 512 + i) = (if entry ?m p i AND PTE_V = 0 then None else Some (entry ?m p i))"
      using e old by auto
  next
    fix j i :: nat assume p: "i < 512 \<and> T (0, j) = None"
    then have "j * 512 + i \<noteq> vpn va" using q vpn_eq [of i j va] by auto
    then show "?L (j * 512 + i) = None" using t p unfolding tree_def by simp
  qed
  then show "vm_inv (wr64 (leaf_addr T va) e s) pt T ?L ps" using ap(1) by (simp add: vm_inv_def u)
  show "touched s (wr64 (leaf_addr T va) e s) {q}" using ap(2) by (simp add: u)
qed

section \<open>Mapping a range\<close>

text \<open>The map with \<open>n\<close> pages from page \<open>v\<close> on mapped to the physical addresses from \<open>pa\<close> on.\<close>

definition map_pages :: "mapping \<Rightarrow> nat \<Rightarrow> nat \<Rightarrow> u64 \<Rightarrow> u64 \<Rightarrow> mapping" where
  "map_pages L v n pa perm = (\<lambda>w. if v \<le> w \<and> w < v + n then Some (PA2PTE (pa + of_nat (w - v) * PGSIZE) OR perm OR PTE_V) else L w)"

lemma map_pages_0 [simp]: "map_pages L v 0 pa perm = L"
  by (auto simp: map_pages_def fun_eq_iff)

lemma map_pages_Suc:
  "map_pages (L(v \<mapsto> PA2PTE pa OR perm OR PTE_V)) (Suc v) n (pa + PGSIZE) perm = map_pages L v (Suc n) pa perm"
proof
  fix w
  have "PA2PTE (pa + PGSIZE + of_nat (w - Suc v) * PGSIZE) = PA2PTE (pa + of_nat (w - v) * PGSIZE)" if "v < w"
  proof -
    have "w - v = Suc (w - Suc v)" using that by simp
    then show ?thesis by (simp add: algebra_simps)
  qed
  then show "map_pages (L(v \<mapsto> PA2PTE pa OR perm OR PTE_V)) (Suc v) n (pa + PGSIZE) perm w = map_pages L v (Suc n) pa perm w"
    by (auto simp: map_pages_def)
qed

text \<open>Tables may be added from the free pages; everything outside both is as it was.\<close>

definition grown :: "'a memst_scheme \<Rightarrow> tables \<Rightarrow> u64 list \<Rightarrow> 'a memst_scheme \<Rightarrow> tables \<Rightarrow> u64 list \<Rightarrow> bool" where
  "grown s T ps t T' ps' \<longleftrightarrow> touched s t (ran T \<union> set ps) \<and> ran T' \<union> set ps' = ran T \<union> set ps \<and> T \<subseteq>\<^sub>m T'"

lemma grown_refl: "grown s T ps s T ps"
  by (simp add: grown_def touched_refl)

lemma grown_trans: "grown s T ps t T' ps' \<Longrightarrow> grown t T' ps' u T'' ps'' \<Longrightarrow> grown s T ps u T'' ps''"
  unfolding grown_def using touched_trans map_le_trans by fastforce

lemma grown_touch: "grown s T ps t T' ps' \<Longrightarrow> touched t u A \<Longrightarrow> A \<subseteq> ran T' \<union> set ps' \<Longrightarrow> grown s T ps u T' ps'"
proof -
  assume a: "grown s T ps t T' ps'" "touched t u A" "A \<subseteq> ran T' \<union> set ps'"
  then have "touched s u (ran T \<union> set ps \<union> A)" "ran T' \<union> set ps' = ran T \<union> set ps" "T \<subseteq>\<^sub>m T'"
    unfolding grown_def by (blast intro: touched_trans)+
  moreover have "ran T \<union> set ps \<union> A \<subseteq> ran T \<union> set ps" using a(3) calculation(2) by blast
  ultimately show ?thesis unfolding grown_def using touched_mono by blast
qed

lemma aligned_vpn: "a mod PGSIZE = 0 \<Longrightarrow> unat a = 4096 * vpn a" for a :: u64
proof -
  assume "a mod PGSIZE = 0"
  then have "unat a mod 4096 = 0" by (simp add: PGSIZE_def word_unat_eq_iff unat_mod)
  then show ?thesis unfolding vpn_def by (metis add.right_neutral mult_div_mod_eq)
qed

lemma vpn_next:
  assumes "a mod PGSIZE = 0" and "unat a < 2 ^ 38"
  shows "vpn (a + PGSIZE) = Suc (vpn a)" "(a + PGSIZE) mod PGSIZE = 0" "unat (a + PGSIZE) = unat a + 4096"
proof -
  show u: "unat (a + PGSIZE) = unat a + 4096" using assms(2) by (intro va_step) simp
  then show "vpn (a + PGSIZE) = Suc (vpn a)" by (simp add: vpn_def)
  have "unat (a + PGSIZE) mod 4096 = 0" using u aligned_vpn [OF assms(1)] by simp
  then show "(a + PGSIZE) mod PGSIZE = 0" by (simp add: PGSIZE_def word_unat_eq_iff unat_mod)
qed

lemma map_one:
  assumes v: "vm_inv s pt T L ps" and a: "a < MAXVA" and none: "L (vpn a) = None"
  shows "\<exists>t T' ps'. walk pt a True s = Ok (leaf_addr T' a) t \<and>
     (leaf_addr T' a = 0 \<and> vm_inv t pt T' L ps' \<and> grown s T ps t T' ps' \<and> ps' = [] \<and> length ps \<le> 2 \<or>
      leaf_addr T' a \<noteq> 0 \<and> length ps \<le> length ps' + 2 \<and> rd64 (leaf_addr T' a) t AND PTE_V = 0 \<and>
      vm_inv (wr64 (leaf_addr T' a) (PA2PTE pa OR perm OR PTE_V) t) pt T' (L(vpn a \<mapsto> PA2PTE pa OR perm OR PTE_V)) ps' \<and>
      grown s T ps (wr64 (leaf_addr T' a) (PA2PTE pa OR perm OR PTE_V) t) T' ps')"
proof -
  obtain t T' ps' where t: "walk pt a True s = Ok (leaf_addr T' a) t" "vm_inv t pt T' L ps'"
    "touched s t (ran T \<union> set ps)" "ran T' \<union> set ps' = ran T \<union> set ps" "T \<subseteq>\<^sub>m T'"
    "T' (0, tkey 0 a) = None \<longrightarrow> ps' = []" "length ps \<le> length ps' + 2"
    using walk_alloc [OF v a] by (elim exE conjE) (rule that)
  have g: "grown s T ps t T' ps'" using t(3-5) by (simp add: grown_def)
  have ap: "pages_apart t T' ps'" using t(2) by (simp add: vm_inv_def)
  show ?thesis
  proof (cases "T' (0, tkey 0 a)")
    case None
    then have "ps' = []" "leaf_addr T' a = 0" using t(6) leaf_zero [OF ap, of a] by simp_all
    moreover from this(1) have "length ps \<le> 2" using t(7) by simp
    ultimately show ?thesis using t(1,2) g by blast
  next
    case (Some q)
    let ?e = "PA2PTE pa OR perm OR PTE_V"
    have "rd64 (leaf_addr T' a) t AND PTE_V = 0"
      using leaf_read [OF t(2) Some] none by (simp split: if_splits)
    moreover have "vm_inv (wr64 (leaf_addr T' a) ?e t) pt T' (L(vpn a \<mapsto> ?e)) ps'"
      using leaf_write(1) [OF t(2) Some, of ?e] by simp
    moreover have "grown s T ps (wr64 (leaf_addr T' a) ?e t) T' ps'"
      by (rule grown_touch [OF g leaf_write(2) [OF t(2) Some]]) (use Some in \<open>auto intro: ranI\<close>)
    ultimately show ?thesis using t(1,7) leaf_nonzero [OF ap Some] by blast
  qed
qed

lemma mappages_loop_ok:
  assumes "vm_inv s pt T L ps" and "a mod PGSIZE = 0" and "unat a + 4096 * n < 2 ^ 38"
    and "\<And>v. vpn a \<le> v \<Longrightarrow> v \<le> vpn a + n \<Longrightarrow> L v = None"
  shows "\<exists>t T' ps' j. mappages_loop pt a (a + of_nat n * PGSIZE) pa perm s = Ok (if j = Suc n then 0 else - 1) t \<and>
     vm_inv t pt T' (map_pages L (vpn a) j pa perm) ps' \<and> grown s T ps t T' ps' \<and> j \<le> Suc n \<and> (j \<le> n \<longrightarrow> ps' = []) \<and>
     length ps \<le> length ps' + 2 * Suc n"
  using assms
proof (induction n arbitrary: a pa s T L ps rule: less_induct)
  case (less n a pa s T L ps)
  note v = less.prems(1) and al = less.prems(2) and le = less.prems(3) and none = less.prems(4)
  let ?e = "PA2PTE pa OR perm OR PTE_V"
  have a: "a < MAXVA" using le by (simp add: MAXVA_def word_less_nat_alt)
  obtain t T' ps' where t: "walk pt a True s = Ok (leaf_addr T' a) t" and
    d: "leaf_addr T' a = 0 \<and> vm_inv t pt T' L ps' \<and> grown s T ps t T' ps' \<and> ps' = [] \<and> length ps \<le> 2 \<or>
      leaf_addr T' a \<noteq> 0 \<and> length ps \<le> length ps' + 2 \<and> rd64 (leaf_addr T' a) t AND PTE_V = 0 \<and> vm_inv (wr64 (leaf_addr T' a) ?e t) pt T' (L(vpn a \<mapsto> ?e)) ps' \<and>
      grown s T ps (wr64 (leaf_addr T' a) ?e t) T' ps'"
    using map_one [where pa = pa and perm = perm, OF v a none] by auto
  let ?u = "wr64 (leaf_addr T' a) ?e t" and ?last = "a + of_nat n * PGSIZE"
  have "unat ?last = unat a + 4096 * n"
    using le by (simp add: PGSIZE_def unat_word_ariths unat_of_nat)
  then have last: "a = ?last \<longleftrightarrow> n = 0" by (auto simp: word_unat_eq_iff)
  from d show ?case
  proof (elim disjE conjE)
    assume "leaf_addr T' a = 0" "vm_inv t pt T' L ps'" "grown s T ps t T' ps'" "ps' = []" "length ps \<le> 2"
    then show ?thesis
      using t by (intro exI [of _ t] exI [of _ T'] exI [of _ ps'] exI [of _ 0]) (simp add: mappages_loop.simps [of pt a])
  next
    assume len: "length ps \<le> length ps' + 2" and ne: "leaf_addr T' a \<noteq> 0" "rd64 (leaf_addr T' a) t AND PTE_V = 0" and vu: "vm_inv ?u pt T' (L(vpn a \<mapsto> ?e)) ps'"
      and g: "grown s T ps ?u T' ps'"
    have run: "mappages_loop pt a ?last pa perm s = (if n = 0 then Ok 0 ?u else mappages_loop pt (a + PGSIZE) ?last (pa + PGSIZE) perm ?u)"
      using t ne last by (simp add: mappages_loop.simps [of pt a] Let_def)
    show ?thesis
    proof (cases n)
      case 0
      have one: "map_pages L (vpn a) 1 pa perm = L(vpn a \<mapsto> ?e)" by (auto simp: map_pages_def fun_eq_iff)
      have "vm_inv ?u pt T' (map_pages L (vpn a) 1 pa perm) ps'" unfolding one by (rule vu)
      then show ?thesis
        using run g 0 len by (intro exI [of _ ?u] exI [of _ T'] exI [of _ ps'] exI [of _ 1]) simp
    next
      case (Suc m)
      have lt: "unat a < 2 ^ 38" using le by simp
      note nx = vpn_next [OF al lt]
      have last': "?last = a + PGSIZE + of_nat m * PGSIZE" using Suc by (simp add: algebra_simps)
      have "n \<noteq> 0" using Suc by simp
      then have run': "mappages_loop pt a ?last pa perm s =
          mappages_loop pt (a + PGSIZE) (a + PGSIZE + of_nat m * PGSIZE) (pa + PGSIZE) perm ?u"
        using run by (simp only: last' if_False)
      have "\<exists>t' T'' ps'' j. mappages_loop pt (a + PGSIZE) (a + PGSIZE + of_nat m * PGSIZE) (pa + PGSIZE) perm ?u = Ok (if j = Suc m then 0 else - 1) t' \<and>
         vm_inv t' pt T'' (map_pages (L(vpn a \<mapsto> ?e)) (vpn (a + PGSIZE)) j (pa + PGSIZE) perm) ps'' \<and> grown ?u T' ps' t' T'' ps'' \<and>
         j \<le> Suc m \<and> (j \<le> m \<longrightarrow> ps'' = []) \<and> length ps' \<le> length ps'' + 2 * Suc m"
        by (rule less.IH [OF _ vu nx(2)]) (use Suc le nx(1,3) none in auto)
      then obtain t' T'' ps'' j where r: "mappages_loop pt a ?last pa perm s = Ok (if j = Suc m then 0 else - 1) t'"
        "vm_inv t' pt T'' (map_pages L (vpn a) (Suc j) pa perm) ps''" "grown ?u T' ps' t' T'' ps''" "j \<le> Suc m" "j \<le> m \<longrightarrow> ps'' = []"
        "length ps' \<le> length ps'' + 2 * Suc m"
        unfolding nx(1) map_pages_Suc run' [symmetric] by (elim exE conjE) (rule that)
      have "grown s T ps t' T'' ps''" by (rule grown_trans [OF g r(3)])
      then show ?thesis
        using r(1,2,4,5,6) Suc len by (intro exI [of _ t'] exI [of _ T''] exI [of _ ps''] exI [of _ "Suc j"]) simp
    qed
  qed
qed

lemma PGROUNDDOWN_fix: "a mod PGSIZE = 0 \<Longrightarrow> PGROUNDDOWN a = a"
  by (simp add: PGROUNDDOWN_bits page_bits)

text \<open>The range of \<^verbatim>\<open>mappages\<close>: the pages from that of \<open>va\<close> to that of the last byte.\<close>

definition npages :: "u64 \<Rightarrow> u64 \<Rightarrow> nat" where
  "npages va n = (unat va + unat n - 1) div 4096 - vpn va + 1"

lemma mappages_ok:
  assumes "vm_inv s pt T L ps" and "0 < n" and "unat va + unat n \<le> 2 ^ 38"
    and "\<And>v. vpn va \<le> v \<Longrightarrow> v < vpn va + npages va n \<Longrightarrow> L v = None"
  shows "\<exists>t T' ps' j. mappages pt va n pa perm s = Ok (if j = npages va n then 0 else - 1) t \<and>
     vm_inv t pt T' (map_pages L (vpn va) j pa perm) ps' \<and> grown s T ps t T' ps' \<and> j \<le> npages va n \<and>
     (j < npages va n \<longrightarrow> ps' = []) \<and> length ps \<le> length ps' + 2 * npages va n"
proof -
  let ?a = "PGROUNDDOWN va" let ?m = "(unat va + unat n - 1) div 4096 - vpn va"
  have n0: "0 < unat n" using assms(2) by (simp add: word_less_nat_alt)
  have ua: "unat ?a = 4096 * vpn va" by (simp add: unat_PGROUNDDOWN vpn_def)
  have va: "vpn ?a = vpn va" by (simp add: vpn_def unat_PGROUNDDOWN)
  have "unat (va + n - 1) = unat va + unat n - 1"
  proof -
    have "unat (va + n) = unat va + unat n" using assms(3) by (simp add: unat_word_ariths)
    then show ?thesis using n0 by (subst unat_sub) (simp_all add: word_le_nat_alt)
  qed
  then have ul: "unat (PGROUNDDOWN (va + n - 1)) = (unat va + unat n - 1) div 4096 * 4096" by (simp add: unat_PGROUNDDOWN)
  have ge: "vpn va \<le> (unat va + unat n - 1) div 4096" unfolding vpn_def by (rule div_le_mono) (use n0 in simp)
  then have um: "4096 * vpn va + 4096 * ?m = (unat va + unat n - 1) div 4096 * 4096" by (simp add: algebra_simps)
  also have "\<dots> \<le> unat va + unat n - 1" by simp
  finally have lt: "unat ?a + 4096 * ?m < 2 ^ 38" using assms(3) n0 ua by linarith
  have "unat (?a + of_nat ?m * PGSIZE) = unat ?a + 4096 * ?m"
    using lt by (simp add: PGSIZE_def unat_word_ariths unat_of_nat)
  then have last: "PGROUNDDOWN (va + n - 1) = ?a + of_nat ?m * PGSIZE"
    using ul um ua by (simp add: word_unat_eq_iff)
  have np: "npages va n = Suc ?m" by (simp add: npages_def)
  have "mappages pt va n pa perm s = mappages_loop pt ?a (?a + of_nat ?m * PGSIZE) pa perm s"
    using last n0 by (auto simp: mappages_def)
  moreover have "\<exists>t T' ps' j. mappages_loop pt ?a (?a + of_nat ?m * PGSIZE) pa perm s = Ok (if j = Suc ?m then 0 else - 1) t \<and>
     vm_inv t pt T' (map_pages L (vpn ?a) j pa perm) ps' \<and> grown s T ps t T' ps' \<and> j \<le> Suc ?m \<and> (j \<le> ?m \<longrightarrow> ps' = []) \<and>
     length ps \<le> length ps' + 2 * Suc ?m"
    by (rule mappages_loop_ok [OF assms(1) PGROUNDDOWN_aligned lt]) (use assms(4) va np in auto)
  ultimately show ?thesis unfolding np va by (simp add: less_Suc_eq_le)
qed

lemma mappages_page:
  assumes "vm_inv s pt T L ps" and "va mod PGSIZE = 0" and "va < MAXVA" and "L (vpn va) = None"
  shows "\<exists>t T' ps'. grown s T ps t T' ps' \<and>
     (mappages pt va PGSIZE pa perm s = Ok 0 t \<and> vm_inv t pt T' (L(vpn va \<mapsto> PA2PTE pa OR perm OR PTE_V)) ps' \<or>
      mappages pt va PGSIZE pa perm s = Ok (- 1) t \<and> vm_inv t pt T' L ps' \<and> ps' = []) \<and> length ps \<le> length ps' + 2"
proof -
  have ua: "unat va = 4096 * vpn va" by (rule aligned_vpn [OF assms(2)])
  have lt: "vpn va < 2 ^ 26" using assms(3) by (simp add: MAXVA_vpn)
  have "(4096 * vpn va + 4095) div 4096 = vpn va" by simp
  then have np: "npages va PGSIZE = 1" using ua by (simp add: npages_def PGSIZE_def)
  have le: "unat va + unat PGSIZE \<le> 2 ^ 38" using ua lt by (simp add: PGSIZE_def)
  have n0: "0 < PGSIZE" by (simp add: PGSIZE_def)
  have none: "L v = None" if "vpn va \<le> v" "v < vpn va + 1" for v
    using that assms(4) by (cases "v = vpn va") auto
  have "\<exists>t T' ps' j. mappages pt va PGSIZE pa perm s = Ok (if j = npages va PGSIZE then 0 else - 1) t \<and>
     vm_inv t pt T' (map_pages L (vpn va) j pa perm) ps' \<and> grown s T ps t T' ps' \<and> j \<le> npages va PGSIZE \<and>
     (j < npages va PGSIZE \<longrightarrow> ps' = []) \<and> length ps \<le> length ps' + 2 * npages va PGSIZE"
    by (rule mappages_ok [OF assms(1) n0 le]) (use none np in simp)
  then obtain t T' ps' j where t: "mappages pt va PGSIZE pa perm s = Ok (if j = 1 then 0 else - 1) t"
    "vm_inv t pt T' (map_pages L (vpn va) j pa perm) ps'" "grown s T ps t T' ps'" "j \<le> 1" "j < 1 \<longrightarrow> ps' = []"
    "length ps \<le> length ps' + 2 * 1"
    unfolding np by (elim exE conjE) (rule that)
  have one: "map_pages L (vpn va) 1 pa perm = L(vpn va \<mapsto> PA2PTE pa OR perm OR PTE_V)" by (auto simp: map_pages_def fun_eq_iff)
  show ?thesis
  proof (cases "j = 1")
    case True
    then have "vm_inv t pt T' (L(vpn va \<mapsto> PA2PTE pa OR perm OR PTE_V)) ps'" using t(2) unfolding True one by simp
    moreover have "mappages pt va PGSIZE pa perm s = Ok 0 t" using t(1) True by simp
    moreover have "length ps \<le> length ps' + 2" using t(6) by simp
    ultimately show ?thesis using t(3) by blast
  next
    case False
    then have "j = 0" using t(4) by simp
    then have "mappages pt va PGSIZE pa perm s = Ok (- 1) t" "vm_inv t pt T' L ps'" "ps' = []"
      using t(1,2,5) by simp_all
    moreover have "length ps \<le> length ps' + 2" using t(6) by simp
    ultimately show ?thesis using t(3) by blast
  qed
qed

end
