(* ===== verification/Uspace.thy ===== *)
theory Uspace
  imports Pagetable
begin

text \<open>
  The memory a process sees through its page table, and what \<^verbatim>\<open>copyout\<close>, \<^verbatim>\<open>copyin\<close>, \<^verbatim>\<open>copyinstr\<close>,
  \<^verbatim>\<open>uvmunmap\<close>, \<^verbatim>\<open>uvmalloc\<close> and \<^verbatim>\<open>uvmcopy\<close> do to it.
\<close>

section \<open>User memory\<close>

text \<open>The physical page of a virtual page, and whether user code may use it.\<close>

definition page_of :: "mapping \<Rightarrow> nat \<Rightarrow> u64" where "page_of L v = PTE2PA (the (L v))"

definition user :: "mapping \<Rightarrow> nat \<Rightarrow> bool" where
  "user L v \<longleftrightarrow> (case L v of None \<Rightarrow> False | Some e \<Rightarrow> e AND PTE_U \<noteq> 0)"

text \<open>
  The pages \<open>D\<close> of an address space are its own: each is a leaf, a page of RAM of its own, not free and not
  a page table, and every page that user code may use is among them.
\<close>

definition space :: "'a memst_scheme \<Rightarrow> u64 \<Rightarrow> tables \<Rightarrow> mapping \<Rightarrow> u64 list \<Rightarrow> nat set \<Rightarrow> bool" where
  "space s pt T L ps D \<longleftrightarrow> vm_inv s pt T L ps \<and> D \<subseteq> dom L \<and> inj_on (page_of L) D \<and>
     (\<forall>v \<in> D. PTE_FLAGS (the (L v)) \<noteq> PTE_V \<and> page_ok s (page_of L v) \<and> page_of L v \<notin> ran T \<union> set ps) \<and>
     (\<forall>v. user L v \<longrightarrow> v \<in> D)"

text \<open>The bytes user code can reach, by virtual address.\<close>

definition umem :: "'a memst_scheme \<Rightarrow> mapping \<Rightarrow> nat \<Rightarrow> u8 option" where
  "umem s L a = (if a < 2 ^ 38 \<and> user L (a div 4096) then Some (pmem s (unat (page_of L (a div 4096)) + a mod 4096)) else None)"

text \<open>User memory with \<open>n\<close> bytes of \<open>src\<close> written at \<open>a\<close>.\<close>

definition uput :: "(nat \<Rightarrow> u8 option) \<Rightarrow> nat \<Rightarrow> nat \<Rightarrow> bytes \<Rightarrow> nat \<Rightarrow> u8 option" where
  "uput M a n src = (\<lambda>x. if a \<le> x \<and> x < a + n then Some (src (x - a)) else M x)"

lemma uput_0 [simp]: "uput M a 0 src = M"
  by (auto simp: uput_def fun_eq_iff)

lemma uput_uput: "uput (uput M a n src) (a + n) k (\<lambda>i. src (n + i)) = uput M a (n + k) src"
  by (auto simp: uput_def fun_eq_iff)

lemma space_page: "space s pt T L ps D \<Longrightarrow> user L v \<Longrightarrow> page_ok s (page_of L v) \<and> page_of L v \<notin> ran T \<union> set ps"
  by (auto simp: space_def)

lemma leaf_of_page:
  assumes "vm_inv s pt T L ps" and "L (vpn va) = Some e"
  shows "leaf_addr T va \<noteq> 0" "rd64 (leaf_addr T va) s = e" "e AND PTE_V \<noteq> 0" "\<exists>q. T (0, tkey 0 va) = Some q"
proof -
  have v: "tree (pmem s) pt T L" "pages_apart s T ps" using assms(1) by (simp_all add: vm_inv_def)
  obtain q where q: "T (0, tkey 0 va) = Some q" using tree_leaf(1) [OF v(1)] assms(2) by (cases "T (0, tkey 0 va)") auto
  then show "\<exists>q. T (0, tkey 0 va) = Some q" by blast
  show "leaf_addr T va \<noteq> 0" by (rule leaf_nonzero [OF v(2) q])
  show "rd64 (leaf_addr T va) s = e" "e AND PTE_V \<noteq> 0"
    using leaf_read [OF assms(1) q] assms(2) by (auto split: if_splits)
qed

lemma leaf_of_hole:
  assumes "vm_inv s pt T L ps" and "L (vpn va) = None"
  shows "leaf_addr T va = 0 \<or> rd64 (leaf_addr T va) s AND PTE_V = 0"
  using leaf_read [OF assms(1)] assms(2) by (cases "T (0, tkey 0 va)") (auto simp: leaf_addr_def split: if_splits)

lemma walkaddr_ok:
  assumes "space s pt T L ps D"
  shows "walkaddr pt va s = Ok (if va < MAXVA \<and> user L (vpn va) then page_of L (vpn va) else 0) s"
proof -
  have v: "vm_inv s pt T L ps" using assms by (simp add: space_def)
  show ?thesis
  proof (cases "L (vpn va)")
    case None
    then show ?thesis using leaf_of_hole [OF v None] walk_find [OF v] by (auto simp: walkaddr_def user_def not_less)
  next
    case (Some e)
    then show ?thesis
      using leaf_of_page [OF v Some] walk_find [OF v] by (auto simp: walkaddr_def user_def page_of_def not_less)
  qed
qed

section \<open>Copying out\<close>

text \<open>A store inside a page of the address space.\<close>

lemma tree_same:
  assumes "tree m pt T L" and "\<And>r a. r \<in> ran T \<Longrightarrow> in_page r a \<Longrightarrow> m' a = m a"
  shows "tree m' pt T L"
proof -
  have e: "entry m' r i = entry m r i" if "T x = Some r" "i < 512" for x r i
    by (rule entry_cong [OF that(2)]) (use assms(2) that(1) in \<open>auto intro: ranI\<close>)
  show ?thesis
    unfolding tree_def
  proof (intro conjI allI impI)
    show "T (2, 0) = Some pt" using assms(1) by (rule tree_root)
  next
    fix k j assume "T (k, j) \<noteq> None"
    then show "k < 2 \<or> k = 2 \<and> j = 0" using tree_level [OF assms(1)] by (cases "T (k, j)") simp_all
  next
    fix k j i :: nat assume "i < 512 \<and> k < 2 \<and> T (Suc k, j) = None"
    then show "T (k, j * 512 + i) = None" using assms(1) unfolding tree_def by blast
  next
    fix k j i :: nat and p assume p: "i < 512 \<and> T (Suc k, j) = Some p"
    then have "entry m' p i = entry m p i" using e by blast
    then show "case T (k, j * 512 + i) of None \<Rightarrow> entry m' p i AND PTE_V = 0 | Some q \<Rightarrow> entry m' p i = PA2PTE q OR PTE_V"
      using assms(1) p unfolding tree_def by (simp only:)
  next
    fix j i :: nat and p assume p: "i < 512 \<and> T (0, j) = Some p"
    then have "entry m' p i = entry m p i" using e by blast
    then show "L (j * 512 + i) = (if entry m' p i AND PTE_V = 0 then None else Some (entry m' p i))"
      using assms(1) p unfolding tree_def by (simp only:)
  next
    fix j i :: nat assume "i < 512 \<and> T (0, j) = None"
    then show "L (j * 512 + i) = None" using assms(1) unfolding tree_def by blast
  qed
qed

text \<open>Writing to own pages keeps the address space; \<open>A\<close> are the pages written.\<close>

lemma space_write:
  assumes sp: "space s pt T L ps D" and A: "A \<subseteq> page_of L ` D"
    and m: "\<And>a. (\<And>p. p \<in> A \<Longrightarrow> \<not> in_page p a) \<Longrightarrow> m a = pmem s a"
  shows "space (s\<lparr>pmem := m\<rparr>) pt T L ps D" "touched s (s\<lparr>pmem := m\<rparr>) A"
proof -
  have v: "tree (pmem s) pt T L" "pages_apart s T ps" using sp by (simp_all add: space_def vm_inv_def)
  have own: "page_ok s p" "p \<notin> ran T \<union> set ps" if "p \<in> A" for p using A sp that by (auto simp: space_def)
  have ap: "pages_apart (s\<lparr>pmem := m\<rparr>) T ps" "touched s (s\<lparr>pmem := m\<rparr>) A"
    by (rule apart_use [OF v(2), of A]; use own m in auto)+
  have "tree m pt T L"
  proof (rule tree_same [OF v(1)])
    fix r a assume r: "r \<in> ran T" "in_page r a"
    have "\<not> in_page p a" if p: "p \<in> A" for p
      using pages_disjoint [OF _ own(1) [OF p] _ r(2)] own(2) [OF p] r(1) v(2) unfolding pages_apart_def by blast
    then show "m a = pmem s a" by (rule m)
  qed
  then show "space (s\<lparr>pmem := m\<rparr>) pt T L ps D" using sp ap(1) by (simp add: space_def vm_inv_def page_ok_frame)
  show "touched s (s\<lparr>pmem := m\<rparr>) A" by (rule ap(2))
qed

lemma page_offset: "unat (va - PGROUNDDOWN va) = unat va mod 4096"
proof -
  have "unat (PGROUNDDOWN va) \<le> unat va" by (simp add: unat_PGROUNDDOWN)
  then show ?thesis by (simp add: unat_sub word_le_nat_alt unat_PGROUNDDOWN minus_div_mult_eq_mod)
qed

lemma frame_addr:
  assumes "page_ok s p"
  shows "unat (p + (va - PGROUNDDOWN va)) = unat p + unat va mod 4096"
proof -
  have "unat p < 0x88000000" using page_unat [OF assms] by simp
  then show ?thesis using mod_less_divisor [of 4096 "unat va"] page_offset [of va] by (simp add: unat_word_ariths)
qed

lemma store_step:
  fixes src :: bytes
  assumes sp: "space s pt T L ps D" and va: "va < MAXVA" "user L (vpn va)" and n: "unat va mod 4096 + n \<le> 4096"
  defines "u \<equiv> store_bytes (page_of L (vpn va) + (va - PGROUNDDOWN va)) src n s"
  shows "space u pt T L ps D" "touched s u (page_of L ` D)" "umem u L = uput (umem s L) (unat va) n src"
proof -
  let ?p = "page_of L (vpn va)" let ?o = "unat va mod 4096"
  let ?m = "splice (pmem s) (unat ?p + ?o) n src"
  have p: "page_ok s ?p" "vpn va \<in> D" using space_page [OF sp va(2)] sp va(2) by (auto simp: space_def)
  have u: "u = s\<lparr>pmem := ?m\<rparr>" using frame_addr [OF p(1), of va] by (simp add: u_def store_bytes_def)
  have m: "?m a = pmem s a" if "\<And>q. q \<in> {?p} \<Longrightarrow> \<not> in_page q a" for a
    using that [of ?p] n by (auto simp: splice_def in_page_def)
  note w = space_write [OF sp, of "{?p}" ?m, OF _ m]
  show "space u pt T L ps D" unfolding u by (rule w(1)) (use p in auto)
  show "touched s u (page_of L ` D)"
    unfolding u by (rule touched_mono [OF w(2)]) (use p in auto)
  have split: "unat va = 4096 * vpn va + ?o" by (simp add: vpn_def)
  show "umem u L = uput (umem s L) (unat va) n src"
  proof
    fix x
    let ?q = "page_of L (x div 4096)"
    show "umem u L x = uput (umem s L) (unat va) n src x"
    proof (cases "x div 4096 = vpn va")
      case True
      then have x: "x = 4096 * vpn va + x mod 4096" using mult_div_mod_eq [of 4096 x] by simp
      have "vpn va < 67108864" "x mod 4096 < 4096" using va(1) by (simp_all add: MAXVA_vpn)
      then have "x < 274877906944" using x by linarith
      then have lt: "x < 2 ^ 38" by simp
      have "unat va \<le> x \<and> x < unat va + n \<longleftrightarrow> ?o \<le> x mod 4096 \<and> x mod 4096 < ?o + n" using x split by linarith
      moreover have "x - unat va = x mod 4096 - ?o" using x split by linarith
      ultimately show ?thesis
        using lt True va(2) by (simp add: umem_def uput_def u splice_def)
    next
      case False
      have out: "\<not> (unat va \<le> x \<and> x < unat va + n)"
      proof
        assume "unat va \<le> x \<and> x < unat va + n"
        then have "4096 * vpn va \<le> x" "x < 4096 * vpn va + 4096" using split n by linarith+
        then have "x div 4096 = vpn va" by (intro div_nat_eqI) simp_all
        then show False using False by contradiction
      qed
      have "?m (unat ?q + x mod 4096) = pmem s (unat ?q + x mod 4096)" if "user L (x div 4096)"
      proof (rule m)
        have q: "page_ok s ?q" "x div 4096 \<in> D" using space_page [OF sp that] sp that by (auto simp: space_def)
        have "?q \<noteq> ?p" using sp p(2) q(2) False by (auto simp: space_def inj_on_def)
        moreover have "in_page ?q (unat ?q + x mod 4096)" by (simp add: in_page_def)
        ultimately show "\<not> in_page r (unat ?q + x mod 4096)" if "r \<in> {?p}" for r
          using pages_disjoint [OF q(1) p(1)] that by simp
      qed
      then show ?thesis using out by (auto simp: umem_def uput_def u)
    qed
  qed
qed

lemma unat_page_part: "unat (page_part va len) = min (4096 - unat va mod 4096) (unat len)"
proof -
  have "unat va mod 4096 < 4096" by simp
  then have "unat (PGSIZE - (va - PGROUNDDOWN va)) = 4096 - unat va mod 4096"
    using page_offset [of va] by (subst unat_sub) (simp_all add: PGSIZE_def word_le_nat_alt)
  then show ?thesis by (auto simp: page_part_def Let_def word_less_nat_alt)
qed

text \<open>The part of a copy inside the first page, and where the rest starts.\<close>

lemma vpn_PGROUNDDOWN: "vpn (PGROUNDDOWN va) = vpn va"
  by (simp add: vpn_def unat_PGROUNDDOWN)

lemma next_page:
  assumes "va < MAXVA"
  shows "unat (PGROUNDDOWN va + PGSIZE) = unat va + (4096 - unat va mod 4096)"
proof -
  have lt: "vpn va < 2 ^ 26" using assms by (simp add: MAXVA_vpn)
  have u: "unat (PGROUNDDOWN va) = 4096 * vpn va" by (simp add: unat_PGROUNDDOWN vpn_def)
  then have "unat (PGROUNDDOWN va + PGSIZE) = 4096 * vpn va + 4096" using lt by (intro trans [OF va_step]) simp_all
  moreover have "unat va = 4096 * vpn va + unat va mod 4096" "unat va mod 4096 < 4096" by (simp_all add: vpn_def)
  ultimately show ?thesis by linarith
qed

lemma umem_page:
  assumes "va < MAXVA" and "user L (vpn va)" and "i < 4096 - unat va mod 4096"
  shows "umem s L (unat va + i) = Some (pmem s (unat (page_of L (vpn va)) + unat va mod 4096 + i))"
proof -
  define r where "r = unat va mod 4096"
  have lt: "vpn va < 67108864" using assms(1) by (simp add: MAXVA_vpn)
  have v: "unat va = 4096 * vpn va + r" by (simp add: vpn_def r_def)
  have ri: "r + i < 4096" using assms(3) by (simp add: r_def)
  have "(4096 * vpn va + r + i) div 4096 = vpn va" "(4096 * vpn va + r + i) mod 4096 = r + i"
    using ri by (simp_all add: add.assoc)
  moreover have "4096 * vpn va + r + i < 2 ^ 38" using lt ri by simp
  ultimately show ?thesis
    using assms(2) unfolding r_def [symmetric] by (simp add: umem_def v add.assoc)
qed

lemma copyout_ok:
  assumes "space s pt T L ps D"
  shows "\<exists>t k. copyout pt va src len s = Ok (if k = unat len then 0 else - 1) t \<and> k \<le> unat len \<and>
     space t pt T L ps D \<and> touched s t (page_of L ` D) \<and> umem t L = uput (umem s L) (unat va) k src \<and>
     (\<forall>i < k. umem s L (unat va + i) \<noteq> None) \<and> (k < unat len \<longrightarrow> umem s L (unat va + k) = None)"
  using assms
proof (induction "unat len" arbitrary: va src len s rule: less_induct)
  case (less len va src s)
  note sp = less.prems
  let ?base = "PGROUNDDOWN va" let ?v = "vpn va"
  have v0: "vpn ?base = ?v" "?base < MAXVA \<longleftrightarrow> va < MAXVA" by (simp_all add: MAXVA_vpn vpn_PGROUNDDOWN)
  show ?case
  proof (cases "len = 0")
    case True
    then show ?thesis
      using sp by (intro exI [of _ s] exI [of _ 0]) (simp add: copyout.simps touched_refl)
  next
    case pos: False
    then have pos': "len > 0" by (simp add: word_neq_0_conv)
    show ?thesis
    proof (cases "va < MAXVA \<and> user L ?v")
      case False
      then have "umem s L (unat va) = None" by (auto simp: umem_def MAXVA_vpn vpn_def)
      moreover have "copyout pt va src len s = Ok (- 1) s"
        using walkaddr_ok [OF sp, of ?base] False v0 pos' by (auto simp: copyout.simps [of pt va])
      moreover have "0 < unat len" using pos' by (simp add: word_less_nat_alt)
      ultimately show ?thesis
        using sp by (intro exI [of _ s] exI [of _ 0]) (simp add: touched_refl)
    next
      case va: True
      let ?n = "page_part va len" let ?o = "unat va mod 4096"
      let ?u = "store_bytes (page_of L ?v + (va - ?base)) src (unat ?n) s"
      let ?rest = "copyout pt (?base + PGSIZE) (\<lambda>i. src (unat ?n + i)) (len - ?n) ?u"
      have n: "unat ?n = min (4096 - ?o) (unat len)" by (rule unat_page_part)
      have "page_of L ?v \<noteq> 0" using space_page [OF sp, of "vpn va"] va by (auto simp: page_ok_def)
      then have run: "copyout pt va src len s = ?rest"
        using walkaddr_ok [OF sp, of ?base] va v0 pos' by (simp add: copyout.simps [of pt va] Let_def)
      have "?o + unat ?n \<le> 4096" using n by simp
      note st = store_step [OF sp _ _ this, of src] va
      have u: "space ?u pt T L ps D" "touched s ?u (page_of L ` D)" "umem ?u L = uput (umem s L) (unat va) (unat ?n) src"
        using st by blast+
      have nle: "unat ?n \<le> unat len" using n by simp
      have le: "unat (len - ?n) = unat len - unat ?n" using n by (simp add: unat_sub word_le_nat_alt)
      have small: "unat (len - ?n) < unat len" by (rule page_part_less [OF pos'])
      obtain t k where t: "?rest = Ok (if k = unat (len - ?n) then 0 else - 1) t" "k \<le> unat (len - ?n)"
        "space t pt T L ps D" "touched ?u t (page_of L ` D)"
        "umem t L = uput (umem ?u L) (unat (?base + PGSIZE)) k (\<lambda>i. src (unat ?n + i))"
        "\<forall>i < k. umem ?u L (unat (?base + PGSIZE) + i) \<noteq> None"
        "k < unat (len - ?n) \<longrightarrow> umem ?u L (unat (?base + PGSIZE) + k) = None"
        using less.hyps [OF small u(1), of "PGROUNDDOWN va + PGSIZE" "\<lambda>i. src (unat ?n + i)"] by blast
      have here: "umem s L (unat va + i) \<noteq> None" if "i < unat ?n" for i
        using umem_page [of va L i s] va that n by simp
      have tt: "touched s t (page_of L ` D)" using touched_trans [OF u(2) t(4)] by simp
      show ?thesis
      proof (cases "unat ?n = unat len")
        case True
        then have "k = 0" using t(2) le by simp
        then show ?thesis
          using t(1,3,5) u(3) tt here True le run by (intro exI [of _ t] exI [of _ "unat len"]) simp
      next
        case False
        then have nx: "unat (?base + PGSIZE) = unat va + unat ?n" using next_page [of va] va n by simp
        have after: "umem ?u L (unat va + unat ?n + i) = umem s L (unat va + (unat ?n + i))" for i
          by (simp add: u(3) uput_def add.assoc)
        have "umem t L = uput (umem s L) (unat va) (unat ?n + k) src" using t(5) nx u(3) by (simp add: uput_uput)
        moreover have "umem s L (unat va + i) \<noteq> None" if "i < unat ?n + k" for i
        proof (cases "i < unat ?n")
          case False
          then show ?thesis using t(6) [rule_format, of "i - unat ?n"] that after [of "i - unat ?n"] by (simp add: nx)
        qed (rule here)
        moreover have "umem s L (unat va + (unat ?n + k)) = None" if "unat ?n + k < unat len"
          using t(7) that le after [of k] by (simp add: nx)
        moreover have "k = unat (len - ?n) \<longleftrightarrow> unat ?n + k = unat len" using le nle by linarith
        moreover have "unat ?n + k \<le> unat len" using t(2) le nle by linarith
        ultimately show ?thesis
          using t(1,3) tt run by (intro exI [of _ t] exI [of _ "unat ?n + k"]) simp
      qed
    qed
  qed
qed

section \<open>Copying in\<close>

lemma splice_splice: "splice (splice d j n e) (j + n) k (\<lambda>i. e (n + i)) = splice d j (n + k) e"
  by (auto simp: splice_def fun_eq_iff)

lemma splice_cong: "(\<And>i. i < n \<Longrightarrow> e i = f i) \<Longrightarrow> splice d j n e = splice d j n f"
  by (auto simp: splice_def fun_eq_iff)

lemma load_page:
  assumes "space s pt T L ps D" and "va < MAXVA" and "user L (vpn va)" and "i < 4096 - unat va mod 4096"
  shows "load_bytes (page_of L (vpn va) + (va - PGROUNDDOWN va)) s i = the (umem s L (unat va + i))"
  using frame_addr [of s "page_of L (vpn va)" va] space_page [OF assms(1,3)] umem_page [OF assms(2-4), of s]
  by (simp add: load_bytes_def)

lemma copyin_loop_ok:
  assumes "space s pt T L ps D"
  shows "\<exists>k. copyin_loop pt dst d va len s =
       Ok (if k = unat len then 0 else - 1, splice dst d k (\<lambda>i. the (umem s L (unat va + i)))) s \<and> k \<le> unat len \<and>
     (\<forall>i < k. umem s L (unat va + i) \<noteq> None) \<and> (k < unat len \<longrightarrow> umem s L (unat va + k) = None)"
proof (induction "unat len" arbitrary: va dst d len rule: less_induct)
  case (less len va dst d)
  note sp = assms
  let ?base = "PGROUNDDOWN va" let ?v = "vpn va"
  have v0: "vpn ?base = ?v" "?base < MAXVA \<longleftrightarrow> va < MAXVA" by (simp_all add: MAXVA_vpn vpn_PGROUNDDOWN)
  show ?case
  proof (cases "len = 0")
    case True
    then show ?thesis by (intro exI [of _ 0]) (simp add: copyin_loop.simps)
  next
    case pos: False
    then have pos': "len > 0" by (simp add: word_neq_0_conv)
    show ?thesis
    proof (cases "va < MAXVA \<and> user L ?v")
      case False
      then have "umem s L (unat va) = None" by (auto simp: umem_def MAXVA_vpn vpn_def)
      moreover have "copyin_loop pt dst d va len s = Ok (- 1, dst) s"
        using walkaddr_ok [OF sp, of ?base] False v0 pos' by (auto simp: copyin_loop.simps [of pt dst d va])
      moreover have "0 < unat len" using pos' by (simp add: word_less_nat_alt)
      ultimately show ?thesis by (intro exI [of _ 0]) simp
    next
      case va: True
      let ?n = "page_part va len" let ?o = "unat va mod 4096"
      let ?buf = "splice dst d (unat ?n) (load_bytes (page_of L ?v + (va - ?base)) s)"
      let ?rest = "copyin_loop pt ?buf (d + unat ?n) (?base + PGSIZE) (len - ?n) s"
      have n: "unat ?n = min (4096 - ?o) (unat len)" by (rule unat_page_part)
      have "page_of L ?v \<noteq> 0" using space_page [OF sp, of "vpn va"] va by (auto simp: page_ok_def)
      then have run: "copyin_loop pt dst d va len s = ?rest"
        using walkaddr_ok [OF sp, of ?base] va v0 pos' by (simp add: copyin_loop.simps [of pt dst d va] Let_def)
      have nle: "unat ?n \<le> unat len" using n by simp
      have le: "unat (len - ?n) = unat len - unat ?n" using n by (simp add: unat_sub word_le_nat_alt)
      have small: "unat (len - ?n) < unat len" by (rule page_part_less [OF pos'])
      obtain k where t: "?rest = Ok (if k = unat (len - ?n) then 0 else - 1,
            splice ?buf (d + unat ?n) k (\<lambda>i. the (umem s L (unat (?base + PGSIZE) + i)))) s" "k \<le> unat (len - ?n)"
        "\<forall>i < k. umem s L (unat (?base + PGSIZE) + i) \<noteq> None"
        "k < unat (len - ?n) \<longrightarrow> umem s L (unat (?base + PGSIZE) + k) = None"
        using less.hyps [OF small] by blast
      have here: "umem s L (unat va + i) \<noteq> None" if "i < unat ?n" for i
        using umem_page [of va L i s] va that n by simp
      have buf: "?buf = splice dst d (unat ?n) (\<lambda>i. the (umem s L (unat va + i)))"
        by (rule splice_cong, rule load_page [OF sp]) (use va n in auto)
      show ?thesis
      proof (cases "unat ?n = unat len")
        case True
        then have "k = 0" using t(2) le by simp
        then show ?thesis
          using t(1) buf here True le run by (intro exI [of _ "unat len"]) simp
      next
        case False
        then have nx: "unat (?base + PGSIZE) = unat va + unat ?n" using next_page [of va] va n by simp
        have "splice ?buf (d + unat ?n) k (\<lambda>i. the (umem s L (unat (?base + PGSIZE) + i))) =
            splice dst d (unat ?n + k) (\<lambda>i. the (umem s L (unat va + i)))"
          using splice_splice [of dst d "unat ?n" "\<lambda>i. the (umem s L (unat va + i))" k] buf nx by (simp add: add.assoc)
        moreover have "umem s L (unat va + i) \<noteq> None" if "i < unat ?n + k" for i
        proof (cases "i < unat ?n")
          case False
          then show ?thesis using t(3) [rule_format, of "i - unat ?n"] that by (simp add: nx)
        qed (rule here)
        moreover have "umem s L (unat va + (unat ?n + k)) = None" if "unat ?n + k < unat len"
          using t(4) that le by (simp add: nx add.assoc)
        moreover have "k = unat (len - ?n) \<longleftrightarrow> unat ?n + k = unat len" using le nle by linarith
        moreover have "unat ?n + k \<le> unat len" using t(2) le nle by linarith
        ultimately show ?thesis
          using t(1) run by (intro exI [of _ "unat ?n + k"]) simp
      qed
    qed
  qed
qed

lemma copyin_ok:
  assumes "space s pt T L ps D"
  shows "\<exists>k. copyin pt dst va len s =
       Ok (if k = unat len then 0 else - 1, splice dst 0 k (\<lambda>i. the (umem s L (unat va + i)))) s \<and> k \<le> unat len \<and>
     (\<forall>i < k. umem s L (unat va + i) \<noteq> None) \<and> (k < unat len \<longrightarrow> umem s L (unat va + k) = None)"
  unfolding copyin_def by (rule copyin_loop_ok [OF assms])

section \<open>Copying a string in\<close>

lemma splice_one: "splice (dst(d := e 0)) (d + 1) k (\<lambda>i. e (i + 1)) = splice dst d (Suc k) e"
  by (auto simp: splice_def fun_eq_iff Suc_diff_Suc)

lemma instr_page_ok:
  "\<exists>k \<le> n. (\<forall>i < k. m (p + i) \<noteq> 0) \<and> (k < n \<longrightarrow> m (p + k) = 0) \<and>
     instr_page n p m d dst = (k < n, splice dst d (if k < n then Suc k else k) (\<lambda>i. m (p + i)))"
proof (induction n arbitrary: p d dst)
  case (Suc n)
  show ?case
  proof (cases "m p = 0")
    case True
    have "dst(d := 0) = splice dst d (Suc 0) (\<lambda>i. m (p + i))" using True by (auto simp: splice_def fun_eq_iff)
    then show ?thesis using True by (intro exI [of _ 0]) simp
  next
    case False
    obtain k where k: "k \<le> n" "\<forall>i < k. m (p + 1 + i) \<noteq> 0" "k < n \<longrightarrow> m (p + 1 + k) = 0"
      "instr_page n (p + 1) m (d + 1) (dst(d := m p)) =
        (k < n, splice (dst(d := m p)) (d + 1) (if k < n then Suc k else k) (\<lambda>i. m (p + 1 + i)))"
      using Suc.IH [of "p + 1" "d + 1" "dst(d := m p)"] by blast
    have "m (p + i) \<noteq> 0" if "i < Suc k" for i
      using that k(2) [rule_format, of "i - 1"] False by (cases i) auto
    moreover have "splice (dst(d := m p)) (d + 1) j (\<lambda>i. m (p + 1 + i)) = splice dst d (Suc j) (\<lambda>i. m (p + i))" for j
      using splice_one [of dst d "\<lambda>i. m (p + i)" j] by (simp add: add.assoc add.commute [of 1])
    ultimately show ?thesis using k False by (intro exI [of _ "Suc k"]) auto
  qed
qed auto

text \<open>The bytes before the first NUL or the first address that cannot be read, at most \<open>n\<close>.\<close>

definition text_length :: "(nat \<Rightarrow> u8 option) \<Rightarrow> nat \<Rightarrow> nat \<Rightarrow> nat \<Rightarrow> bool" where
  "text_length M a n k \<longleftrightarrow> k \<le> n \<and> (\<forall>i < k. M (a + i) \<noteq> None \<and> M (a + i) \<noteq> Some 0) \<and>
     (k < n \<longrightarrow> M (a + k) = None \<or> M (a + k) = Some 0)"

lemma text_length_shift:
  assumes "\<And>i. i < n \<Longrightarrow> M (a + i) \<noteq> None \<and> M (a + i) \<noteq> Some 0" and "n \<le> len"
  shows "text_length M (a + n) (len - n) k \<longleftrightarrow> text_length M a len (n + k)"
proof
  assume t: "text_length M (a + n) (len - n) k"
  have "M (a + i) \<noteq> None \<and> M (a + i) \<noteq> Some 0" if "i < n + k" for i
  proof (cases "i < n")
    case False
    then show ?thesis using t that by (auto simp: text_length_def dest!: spec [of _ "i - n"])
  qed (rule assms(1))
  then show "text_length M a len (n + k)" using t assms(2) by (auto simp: text_length_def add.assoc)
next
  assume t: "text_length M a len (n + k)"
  have "M (a + n + i) \<noteq> None \<and> M (a + n + i) \<noteq> Some 0" if "i < k" for i
    using t that unfolding text_length_def by (metis add.assoc nat_add_left_cancel_less)
  then show "text_length M (a + n) (len - n) k" using t by (auto simp: text_length_def add.assoc)
qed

lemma copyinstr_loop_ok:
  assumes "space s pt T L ps D"
  shows "\<exists>k. text_length (umem s L) (unat va) (unat len) k \<and>
     (let found = (k < unat len \<and> umem s L (unat va + k) = Some 0) in
      copyinstr_loop pt dst d va len s =
       Ok (if found then 0 else - 1, splice dst d (if found then Suc k else k) (\<lambda>i. the (umem s L (unat va + i)))) s)"
proof (induction "unat len" arbitrary: va dst d len rule: less_induct)
  case (less len va dst d)
  note sp = assms
  let ?base = "PGROUNDDOWN va" let ?v = "vpn va" let ?M = "umem s L"
  have v0: "vpn ?base = ?v" "?base < MAXVA \<longleftrightarrow> va < MAXVA" by (simp_all add: MAXVA_vpn vpn_PGROUNDDOWN)
  show ?case
  proof (cases "len = 0")
    case True
    then show ?thesis by (intro exI [of _ 0]) (simp add: copyinstr_loop.simps text_length_def)
  next
    case pos: False
    then have pos': "len > 0" by (simp add: word_neq_0_conv)
    show ?thesis
    proof (cases "va < MAXVA \<and> user L ?v")
      case False
      then have "?M (unat va) = None" by (auto simp: umem_def MAXVA_vpn vpn_def)
      moreover have "copyinstr_loop pt dst d va len s = Ok (- 1, dst) s"
        using walkaddr_ok [OF sp, of ?base] False v0 pos' by (auto simp: copyinstr_loop.simps [of pt dst d va])
      ultimately show ?thesis by (intro exI [of _ 0]) (simp add: text_length_def)
    next
      case va: True
      let ?n = "page_part va len" let ?o = "unat va mod 4096"
      let ?p = "unat (page_of L ?v + (va - ?base))"
      let ?e = "\<lambda>i. the (?M (unat va + i))"
      have n: "unat ?n = min (4096 - ?o) (unat len)" by (rule unat_page_part)
      have pk: "page_ok s (page_of L ?v)" using space_page [OF sp, of "vpn va"] va by auto
      have p: "?p = unat (page_of L ?v) + ?o" by (rule frame_addr [OF pk])
      obtain k where k: "k \<le> unat ?n" "\<forall>i < k. pmem s (?p + i) \<noteq> 0" "k < unat ?n \<longrightarrow> pmem s (?p + k) = 0"
        "instr_page (unat ?n) ?p (pmem s) d dst = (k < unat ?n, splice dst d (if k < unat ?n then Suc k else k) (\<lambda>i. pmem s (?p + i)))"
        using instr_page_ok [of "unat ?n" "pmem s" ?p d dst] by blast
      have here: "?M (unat va + i) = Some (pmem s (?p + i))" if "i < unat ?n" for i
        using umem_page [of va L i s] va that n p by (simp add: add.assoc)
      have buf: "splice dst d j (\<lambda>i. pmem s (?p + i)) = splice dst d j ?e" if "j \<le> unat ?n" for j
        by (rule splice_cong) (use here that in auto)
      have "page_of L ?v \<noteq> 0" using pk by (simp add: page_ok_def)
      then have run: "copyinstr_loop pt dst d va len s =
          (if k < unat ?n then Ok (0, splice dst d (Suc k) ?e) s
           else copyinstr_loop pt (splice dst d (unat ?n) ?e) (d + unat ?n) (?base + PGSIZE) (len - ?n) s)"
        using walkaddr_ok [OF sp, of ?base] va v0 pos' k(1,4) buf [of "Suc k"] buf [of "unat ?n"]
        by (simp add: copyinstr_loop.simps [of pt dst d va] Let_def)
      have nle: "unat ?n \<le> unat len" using n by simp
      show ?thesis
      proof (cases "k < unat ?n")
        case True
        have "text_length ?M (unat va) (unat len) k"
          using True k(2,3) here nle by (auto simp: text_length_def)
        moreover have "k < unat len \<and> ?M (unat va + k) = Some 0" using True nle here [OF True] k(3) by simp
        ultimately show ?thesis using run True by (intro exI [of _ k]) simp
      next
        case False
        then have kn: "k = unat ?n" using k(1) by simp
        have full: "?M (unat va + i) \<noteq> None \<and> ?M (unat va + i) \<noteq> Some 0" if "i < unat ?n" for i
          using here [OF that] k(2) kn that by simp
        have le: "unat (len - ?n) = unat len - unat ?n" using n by (simp add: unat_sub word_le_nat_alt)
        have small: "unat (len - ?n) < unat len" by (rule page_part_less [OF pos'])
        let ?va = "?base + PGSIZE"
        obtain j where j: "text_length ?M (unat ?va) (unat (len - ?n)) j"
          "copyinstr_loop pt (splice dst d (unat ?n) ?e) (d + unat ?n) ?va (len - ?n) s =
            (let found = (j < unat (len - ?n) \<and> ?M (unat ?va + j) = Some 0) in
             Ok (if found then 0 else - 1, splice (splice dst d (unat ?n) ?e) (d + unat ?n) (if found then Suc j else j) (\<lambda>i. the (?M (unat ?va + i)))) s)"
          using less.hyps [OF small, of ?va "splice dst d (unat ?n) ?e" "d + unat ?n"] by (auto simp: Let_def)
        show ?thesis
        proof (cases "unat ?n = unat len")
          case True
          then have "j = 0" "unat (len - ?n) = 0" using j(1) le by (simp_all add: text_length_def)
          then show ?thesis
            using run False True j(2) full by (intro exI [of _ "unat len"]) (simp add: text_length_def Let_def)
        next
          case part: False
          then have nx: "unat ?va = unat va + unat ?n" using next_page [of va] va n by simp
          have "text_length ?M (unat va) (unat len) (unat ?n + j)"
            using j(1) text_length_shift [of "unat ?n" ?M "unat va" "unat len" j] full nle by (simp add: nx le)
          moreover have "j < unat (len - ?n) \<longleftrightarrow> unat ?n + j < unat len" using le nle by linarith
          moreover have "splice (splice dst d (unat ?n) ?e) (d + unat ?n) i (\<lambda>i. the (?M (unat ?va + i))) = splice dst d (unat ?n + i) ?e" for i
            using splice_splice [of dst d "unat ?n" ?e i] by (simp add: nx add.assoc)
          ultimately show ?thesis
            using run False j(2) by (intro exI [of _ "unat ?n + j"]) (simp add: Let_def nx add.assoc)
        qed
      qed
    qed
  qed
qed

end
