(* ===== verification/Uvm.thy ===== *)
theory Uvm
  imports Uspace
begin

text \<open>
  How address spaces grow, shrink and are copied: \<^verbatim>\<open>uvmcreate\<close>, \<^verbatim>\<open>uvmunmap\<close>, \<^verbatim>\<open>uvmdealloc\<close>, \<^verbatim>\<open>uvmalloc\<close> and
  \<^verbatim>\<open>uvmcopy\<close> of \<^verbatim>\<open>vm.c\<close>, over the maps of \<open>Pagetable\<close> and the user memory of \<open>Uspace\<close>.
\<close>

section \<open>Pages taken and given back\<close>

lemma take_page:
  assumes v: "vm_inv s pt T L (q # ps)"
  shows "\<exists>t. kalloc s = Ok q t \<and> page_ok s q \<and> vm_inv t pt T L ps \<and> touched s t {q} \<and> q \<notin> ran T \<union> set ps"
proof -
  have t: "tree (pmem s) pt T L" and a: "pages_apart s T (q # ps)" using v by (simp_all add: vm_inv_def)
  obtain t where k: "kalloc s = Ok q t" "page_ok s q" "pages_apart t T ps" "touched s t {q}" "q \<notin> ran T \<union> set ps"
    using alloc_some [OF a] by blast
  have "tree (pmem t) pt T L"
  proof (rule tree_same [OF t])
    fix r x assume r: "r \<in> ran T" "in_page r x"
    have "\<not> in_page q x"
      using pages_disjoint [OF _ k(2) _ r(2)] k(5) r(1) a unfolding pages_apart_def by blast
    then show "pmem t x = pmem s x" using touched_pmem [OF k(4)] by blast
  qed
  then show ?thesis using k by (auto simp: vm_inv_def)
qed

lemma give_page:
  assumes v: "vm_inv s pt T L ps" and q: "page_ok s q" "q \<notin> ran T \<union> set ps"
  shows "\<exists>t. kfree q s = Ok () t \<and> vm_inv t pt T L (q # ps) \<and> touched s t {q}"
proof -
  have t: "tree (pmem s) pt T L" and a: "irq_ok s" "free L_kmem s" "free_list s ps" "inj_on T (dom T)"
    "\<And>p. p \<in> ran T \<Longrightarrow> page_ok s p \<and> p \<notin> set ps"
    using v by (simp_all add: vm_inv_def pages_apart_def)
  have "q \<notin> set ps" using q(2) by simp
  then obtain m where k: "kfree q s = Ok () (s\<lparr>pmem := m, freelist := q\<rparr>)" "free_list (s\<lparr>pmem := m, freelist := q\<rparr>) (q # ps)"
    "\<forall>a. \<not> in_page q a \<longrightarrow> m a = pmem s a"
    using kfree_ok [OF a(1,2) q(1) a(3)] by blast
  have "tree m pt T L"
  proof (rule tree_same [OF t])
    fix r x assume r: "r \<in> ran T" "in_page r x"
    have "\<not> in_page q x" using pages_disjoint [OF _ q(1) _ r(2)] q(2) r(1) a(5) by blast
    then show "m x = pmem s x" using k(3) by blast
  qed
  moreover have "touched s (s\<lparr>pmem := m, freelist := q\<rparr>) {q}" by (rule touchedI [OF refl]) (use k(3) in simp)
  moreover have "pages_apart (s\<lparr>pmem := m, freelist := q\<rparr>) T (q # ps)"
    using a k(2) q(2) unfolding pages_apart_def by (auto simp: frame_simps page_ok_frame)
  ultimately show ?thesis using k(1) by (auto simp: vm_inv_def)
qed

lemma use_page:
  assumes v: "vm_inv s pt T L ps" and q: "page_ok s q" "q \<notin> ran T \<union> set ps"
    and m: "\<And>a. \<not> in_page q a \<Longrightarrow> m a = pmem s a"
  shows "vm_inv (s\<lparr>pmem := m\<rparr>) pt T L ps" "touched s (s\<lparr>pmem := m\<rparr>) {q}"
proof -
  have t: "tree (pmem s) pt T L" and a: "pages_apart s T ps" using v by (simp_all add: vm_inv_def)
  have ap: "pages_apart (s\<lparr>pmem := m\<rparr>) T ps" "touched s (s\<lparr>pmem := m\<rparr>) {q}"
    by (rule apart_use [OF a, of "{q}"]; use q m in auto)+
  have "tree m pt T L"
  proof (rule tree_same [OF t])
    fix r x assume r: "r \<in> ran T" "in_page r x"
    have "\<not> in_page q x"
      using pages_disjoint [OF _ q(1) _ r(2)] q(2) r(1) a unfolding pages_apart_def by blast
    then show "m x = pmem s x" by (rule m)
  qed
  then show "vm_inv (s\<lparr>pmem := m\<rparr>) pt T L ps" using ap(1) by (simp add: vm_inv_def)
  show "touched s (s\<lparr>pmem := m\<rparr>) {q}" by (rule ap(2))
qed

section \<open>Unmapping\<close>

definition unmap :: "mapping \<Rightarrow> nat \<Rightarrow> nat \<Rightarrow> mapping" where
  "unmap L v n = (\<lambda>w. if v \<le> w \<and> w < v + n then None else L w)"

lemma unmap_0 [simp]: "unmap L v 0 = L"
  by (auto simp: unmap_def fun_eq_iff)

lemma unmap_Suc: "unmap (L(v := None)) (Suc v) n = unmap L v (Suc n)"
  by (auto simp: unmap_def fun_eq_iff)

text \<open>The pages of a range, in the order in which freeing them stacks them.\<close>

definition range_pages :: "mapping \<Rightarrow> nat \<Rightarrow> nat \<Rightarrow> u64 list" where
  "range_pages L v n = rev (map (page_of L) [v..<v + n])"

lemma range_pages_Suc: "range_pages L v (Suc n) = range_pages (L(v := None)) (Suc v) n @ [page_of L v]"
proof -
  have "[v..<v + Suc n] = v # [Suc v..<v + Suc n]" by (rule upt_conv_Cons) simp
  moreover have "page_of (L(v := None)) w = page_of L w" if "w \<in> set [Suc v..<v + Suc n]" for w
  proof -
    have "w \<noteq> v" using that by auto
    then show ?thesis by (simp add: page_of_def)
  qed
  ultimately show ?thesis unfolding range_pages_def by (simp cong: map_cong)
qed

text \<open>The pages of a range can be freed: present, not tables of tables, of their own.\<close>

definition freeable :: "'a memst_scheme \<Rightarrow> tables \<Rightarrow> mapping \<Rightarrow> u64 list \<Rightarrow> nat \<Rightarrow> nat \<Rightarrow> bool" where
  "freeable s T L ps v n \<longleftrightarrow> inj_on (page_of L) {v..<v + n} \<and>
     (\<forall>w. v \<le> w \<and> w < v + n \<longrightarrow>
        (\<exists>e. L w = Some e \<and> PTE_FLAGS e \<noteq> PTE_V) \<and> page_ok s (page_of L w) \<and> page_of L w \<notin> ran T \<union> set ps)"

lemma uvmunmap_loop_ok:
  assumes "vm_inv s pt T L ps" and "freeable s T L ps (vpn a) n" and "a mod PGSIZE = 0"
    and "unat e = unat a + 4096 * n" and "unat e \<le> 2 ^ 38"
  shows "\<exists>t. uvmunmap_loop pt a e True s = Ok () t \<and> vm_inv t pt T (unmap L (vpn a) n) (range_pages L (vpn a) n @ ps) \<and>
     touched s t (ran T \<union> page_of L ` {vpn a..<vpn a + n})"
  using assms
proof (induction n arbitrary: a s L ps)
  case 0
  then have "a = e" by (simp add: word_unat_eq_iff)
  then show ?case
    using 0 by (intro exI [of _ s]) (simp add: uvmunmap_loop.simps touched_refl range_pages_def)
next
  case (Suc n)
  have lt: "unat a < 2 ^ 38" using Suc.prems(4,5) by simp
  then have a: "a < MAXVA" "a < e" using Suc.prems(4) by (simp_all add: MAXVA_def word_less_nat_alt)
  let ?v = "vpn a" let ?q = "page_of L ?v" let ?L = "L(?v := None)"
  have "(\<exists>e. L ?v = Some e \<and> PTE_FLAGS e \<noteq> PTE_V) \<and> page_ok s ?q \<and> ?q \<notin> ran T \<union> set ps"
    using Suc.prems(2) unfolding freeable_def by simp
  then obtain x where x: "L ?v = Some x" "PTE_FLAGS x \<noteq> PTE_V" and q: "page_ok s ?q" "?q \<notin> ran T \<union> set ps"
    by blast
  note l = leaf_of_page [OF Suc.prems(1) x(1)]
  obtain t0 where k: "kfree ?q s = Ok () t0" "vm_inv t0 pt T L (?q # ps)" "touched s t0 {?q}"
    using give_page [OF Suc.prems(1) q] by blast
  obtain p where p: "T (0, tkey 0 a) = Some p" using l(4) by blast
  let ?t = "wr64 (leaf_addr T a) 0 t0"
  have w: "vm_inv ?t pt T ?L (?q # ps)" "touched t0 ?t {p}"
    using leaf_write [OF k(2) p, of 0] by simp_all
  have ts: "touched s ?t ({?q} \<union> {p})" by (rule touched_trans [OF k(3) w(2)])
  have run: "uvmunmap_loop pt a e True s = uvmunmap_loop pt (a + PGSIZE) e True ?t"
    using walk_find [OF Suc.prems(1), of a] a l x k(1) by (simp add: uvmunmap_loop.simps [of pt a] page_of_def)
  note nx = vpn_next [OF Suc.prems(3) lt]
  have same: "page_of ?L w = page_of L w" if "w \<noteq> ?v" for w using that by (simp add: page_of_def)
  have "inj_on (page_of L) {?v..<?v + Suc n}" using Suc.prems(2) by (simp add: freeable_def)
  then have new: "page_of L w \<noteq> ?q" if "?v < w" "w < ?v + Suc n" for w
    using that inj_onD [of "page_of L" _ w ?v] by fastforce
  have fr: "freeable ?t T ?L (?q # ps) (vpn (a + PGSIZE)) n"
    unfolding freeable_def nx(1)
  proof (intro conjI allI impI)
    show "inj_on (page_of ?L) {Suc ?v..<Suc ?v + n}"
      using Suc.prems(2) same by (auto simp: freeable_def inj_on_def)
    fix w assume w: "Suc ?v \<le> w \<and> w < Suc ?v + n"
    then have old: "(\<exists>e. L w = Some e \<and> PTE_FLAGS e \<noteq> PTE_V) \<and> page_ok s (page_of L w) \<and> page_of L w \<notin> ran T \<union> set ps"
      using Suc.prems(2) unfolding freeable_def by simp
    show "\<exists>e. ?L w = Some e \<and> PTE_FLAGS e \<noteq> PTE_V" using old w by simp
    show "page_ok ?t (page_of ?L w)" using old w same touched_state(3) [OF ts] by simp
    show "page_of ?L w \<notin> ran T \<union> set (?q # ps)" using old w same new [of w] by auto
  qed
  have e: "unat e = unat (a + PGSIZE) + 4096 * n" using Suc.prems(4) nx(3) by simp
  obtain t where t: "uvmunmap_loop pt (a + PGSIZE) e True ?t = Ok () t"
    "vm_inv t pt T (unmap ?L (Suc ?v) n) (range_pages ?L (Suc ?v) n @ ?q # ps)"
    "touched ?t t (ran T \<union> page_of ?L ` {Suc ?v..<Suc ?v + n})"
    using Suc.IH [OF w(1) fr nx(2) e Suc.prems(5)] unfolding nx(1) by blast
  have "touched s t (ran T \<union> page_of L ` {?v..<?v + Suc n})"
    using touched_trans [OF ts t(3)]
    by (rule touched_mono) (use p same in \<open>auto intro: ranI\<close>)
  then show ?case using t(1,2) run by (auto simp: unmap_Suc range_pages_Suc)
qed

text \<open>An address space loses the pages of a range.\<close>

lemma freeable_space:
  assumes "space s pt T L ps D" and "{v..<v + n} \<subseteq> D"
  shows "freeable s T L ps v n"
proof -
  have "inj_on (page_of L) {v..<v + n}" using assms by (auto simp: space_def intro: inj_on_subset)
  moreover have "(\<exists>e. L w = Some e \<and> PTE_FLAGS e \<noteq> PTE_V) \<and> page_ok s (page_of L w) \<and> page_of L w \<notin> ran T \<union> set ps"
    if "v \<le> w \<and> w < v + n" for w
  proof -
    have "w \<in> D" using assms(2) that by auto
    then show ?thesis using assms(1) unfolding space_def by (metis domD option.sel subsetD)
  qed
  ultimately show ?thesis unfolding freeable_def by blast
qed

lemma page_of_unmap: "w \<notin> {v..<v + n} \<Longrightarrow> page_of (unmap L v n) w = page_of L w"
  by (auto simp: page_of_def unmap_def)

lemma user_unmap: "user (unmap L v n) w \<longleftrightarrow> user L w \<and> w \<notin> {v..<v + n}"
  by (auto simp: user_def unmap_def)

lemma umem_same:
  assumes "space s pt T L ps D" and "touched s t A" and "\<And>p. p \<in> A \<Longrightarrow> page_ok s p"
    and "\<And>v. v \<in> B \<Longrightarrow> user L v \<Longrightarrow> page_of L v \<notin> A" and "a div 4096 \<in> B"
  shows "umem t L a = umem s L a"
proof (cases "user L (a div 4096)")
  case True
  let ?p = "page_of L (a div 4096)"
  have "pmem t (unat ?p + a mod 4096) = pmem s (unat ?p + a mod 4096)"
  proof (rule touched_pmem [OF assms(2)])
    fix q assume q: "q \<in> A"
    have "in_page ?p (unat ?p + a mod 4096)" by (simp add: in_page_def)
    then show "\<not> in_page q (unat ?p + a mod 4096)"
      using pages_disjoint [OF _ assms(3) [OF q]] space_page [OF assms(1) True] assms(4) [OF assms(5) True] q by metis
  qed
  then show ?thesis by (simp add: umem_def)
qed (simp add: umem_def)

lemma uvmunmap_space:
  assumes sp: "space s pt T L ps D" and D: "{vpn va..<vpn va + n} \<subseteq> D" and al: "va mod PGSIZE = 0"
    and np: "unat np = n" and le: "unat va + 4096 * n \<le> 2 ^ 38"
  shows "\<exists>t. uvmunmap pt va np True s = Ok () t \<and>
     space t pt T (unmap L (vpn va) n) (range_pages L (vpn va) n @ ps) (D - {vpn va..<vpn va + n}) \<and>
     touched s t (ran T \<union> page_of L ` {vpn va..<vpn va + n}) \<and>
     umem t (unmap L (vpn va) n) = (\<lambda>a. if vpn va \<le> a div 4096 \<and> a div 4096 < vpn va + n then None else umem s L a)"
proof -
  let ?R = "{vpn va..<vpn va + n}" let ?L = "unmap L (vpn va) n" let ?A = "ran T \<union> page_of L ` ?R"
  have v: "vm_inv s pt T L ps" using sp by (simp add: space_def)
  have "unat (va + np * PGSIZE) = unat va + 4096 * n"
    using le np by (simp add: PGSIZE_def unat_word_ariths)
  then obtain t where t: "uvmunmap_loop pt va (va + np * PGSIZE) True s = Ok () t"
    "vm_inv t pt T ?L (range_pages L (vpn va) n @ ps)" "touched s t ?A"
    using uvmunmap_loop_ok [OF v freeable_space [OF sp D] al] le by metis
  have own: "page_ok s (page_of L w)" "page_of L w \<notin> ran T \<union> set ps" "PTE_FLAGS (the (L w)) \<noteq> PTE_V" "w \<in> dom L" if "w \<in> D" for w
    using sp that by (auto simp: space_def)
  have inj: "page_of L w = page_of L x \<longleftrightarrow> w = x" if "w \<in> D" "x \<in> D" for w x
    using sp that by (auto simp: space_def inj_on_def)
  have new: "page_of L w \<notin> page_of L ` ?R" if "w \<in> D - ?R" for w
  proof
    assume "page_of L w \<in> page_of L ` ?R"
    then obtain x where "x \<in> ?R" "page_of L w = page_of L x" by blast
    then show False using inj [of w x] D that by blast
  qed
  have "space t pt T ?L (range_pages L (vpn va) n @ ps) (D - ?R)"
    unfolding space_def
  proof (intro conjI ballI allI impI)
    show "vm_inv t pt T ?L (range_pages L (vpn va) n @ ps)" by (rule t(2))
    show "D - ?R \<subseteq> dom ?L" using own(4) by (auto simp: unmap_def dom_def)
    show "inj_on (page_of ?L) (D - ?R)" using inj by (auto simp: inj_on_def page_of_unmap)
    fix w
    show "user ?L w \<Longrightarrow> w \<in> D - ?R" using sp by (auto simp: user_unmap space_def)
    assume w: "w \<in> D - ?R"
    then have e: "page_of ?L w = page_of L w" by (simp add: page_of_unmap)
    show "page_ok t (page_of ?L w)" using own(1) w touched_state(3) [OF t(3)] unfolding e by simp
    show "PTE_FLAGS (the (?L w)) \<noteq> PTE_V" using own(3) [of w] w by (auto simp: unmap_def)
    show "page_of ?L w \<notin> ran T \<union> set (range_pages L (vpn va) n @ ps)"
      using own(2) [of w] new [OF w] w unfolding e by (auto simp: range_pages_def)
  qed
  moreover have "umem t ?L a = (if a div 4096 \<in> ?R then None else umem s L a)" for a
  proof (cases "a div 4096 \<in> ?R")
    case False
    have "umem t L a = umem s L a"
    proof (rule umem_same [OF sp t(3), of "- ?R"])
      fix p assume "p \<in> ?A"
      then show "page_ok s p" using own(1) D v by (auto simp: vm_inv_def pages_apart_def)
    next
      fix w assume w: "w \<in> - ?R" "user L w"
      then have "w \<in> D" using sp by (simp add: space_def)
      then show "page_of L w \<notin> ?A" using own(2) [of w] new [of w] w by auto
    qed (use False in simp)
    moreover have "umem t ?L a = umem t L a" using False by (simp add: umem_def user_unmap page_of_unmap)
    ultimately show ?thesis using False by auto
  qed (simp add: umem_def user_unmap)
  ultimately show ?thesis
    using t(1,3) al by (auto simp: uvmunmap_def fun_eq_iff)
qed

section \<open>Growing\<close>

text \<open>Work on the tables and free pages leaves an address space alone; a page of them can be added to it.\<close>

lemma space_work:
  assumes sp: "space s pt T L ps D" and w: "touched s t A" "A \<subseteq> ran T \<union> set ps" "ran T' \<union> set ps' \<subseteq> ran T \<union> set ps"
  shows "vm_inv t pt T' L ps' \<Longrightarrow> space t pt T' L ps' D" and "umem t L = umem s L"
proof -
  have own: "page_ok s (page_of L w)" "page_of L w \<notin> ran T \<union> set ps" if "w \<in> D" for w
    using sp that by (auto simp: space_def)
  have ok: "page_ok s p" if "p \<in> ran T \<union> set ps" for p
    using sp that by (auto simp: space_def vm_inv_def pages_apart_def free_list_def)
  show "space t pt T' L ps' D" if "vm_inv t pt T' L ps'"
    unfolding space_def
  proof (intro conjI ballI)
    show "vm_inv t pt T' L ps'" by (rule that)
    show "D \<subseteq> dom L" "inj_on (page_of L) D" "\<forall>v. user L v \<longrightarrow> v \<in> D" using sp by (simp_all add: space_def)
    fix v assume v: "v \<in> D"
    show "PTE_FLAGS (the (L v)) \<noteq> PTE_V" using sp v by (simp add: space_def)
    show "page_ok t (page_of L v)" using own(1) [OF v] touched_state(3) [OF w(1)] by simp
    show "page_of L v \<notin> ran T' \<union> set ps'" using own(2) [OF v] w(3) by blast
  qed
  have "umem t L a = umem s L a" for a
  proof (rule umem_same [OF sp w(1), of UNIV])
    fix p assume "p \<in> A"
    then show "page_ok s p" using ok w(2) by blast
  next
    fix v assume "user L v"
    then show "page_of L v \<notin> A" using own(2) [of v] w(2) sp by (auto simp: space_def)
  qed simp
  then show "umem t L = umem s L" by auto
qed

lemma page_of_upd: "page_of (L(v \<mapsto> e)) w = (if w = v then PTE2PA e else page_of L w)"
  by (simp add: page_of_def)

lemma user_upd: "user (L(v \<mapsto> e)) w \<longleftrightarrow> (if w = v then e AND PTE_U \<noteq> 0 else user L w)"
  by (simp add: user_def)

lemma space_add:
  assumes sp: "space s pt T L ps D" and w: "touched s t A" "A \<subseteq> ran T \<union> set ps" "ran T' \<union> set ps' \<subseteq> ran T \<union> set ps"
    and v: "vm_inv t pt T' (L(v \<mapsto> e)) ps'" "L v = None" "PTE_FLAGS e \<noteq> PTE_V"
    and q: "PTE2PA e \<in> ran T \<union> set ps" "PTE2PA e \<notin> ran T' \<union> set ps'"
  shows "space t pt T' (L(v \<mapsto> e)) ps' (insert v D)"
    and "umem t (L(v \<mapsto> e)) a = (if a div 4096 = v \<and> e AND PTE_U \<noteq> 0 \<and> a < 2 ^ 38
           then Some (pmem t (unat (PTE2PA e) + a mod 4096)) else umem s L a)"
proof -
  let ?L = "L(v \<mapsto> e)"
  have own: "page_ok s (page_of L w)" "page_of L w \<notin> ran T \<union> set ps" "PTE_FLAGS (the (L w)) \<noteq> PTE_V" "w \<noteq> v" if "w \<in> D" for w
    using sp that v(2) by (auto simp: space_def)
  have ok: "page_ok s p" if "p \<in> ran T \<union> set ps" for p
    using sp that by (auto simp: space_def vm_inv_def pages_apart_def free_list_def)
  show "space t pt T' ?L ps' (insert v D)"
    unfolding space_def
  proof (intro conjI ballI)
    show "vm_inv t pt T' ?L ps'" by (rule v(1))
    show "insert v D \<subseteq> dom ?L" using sp by (auto simp: space_def)
    have "PTE2PA e \<notin> page_of L ` D" using own(2) q(1) by fastforce
    moreover have "inj_on (page_of ?L) D \<longleftrightarrow> inj_on (page_of L) D"
      by (rule inj_on_cong) (use own(4) in \<open>auto simp: page_of_upd\<close>)
    moreover have "page_of ?L ` (D - {v}) = page_of L ` (D - {v})" by (rule image_cong) (auto simp: page_of_upd)
    ultimately show "inj_on (page_of ?L) (insert v D)"
      using sp by (auto simp: inj_on_insert page_of_upd space_def)
    show "\<forall>w. user ?L w \<longrightarrow> w \<in> insert v D" using sp by (auto simp: user_upd space_def)
    fix w assume w: "w \<in> insert v D"
    show "PTE_FLAGS (the (?L w)) \<noteq> PTE_V" using own(3) [of w] v(3) w by auto
    show "page_ok t (page_of ?L w)"
      using own(1) [of w] ok [OF q(1)] w touched_state(3) [OF assms(2)] by (auto simp: page_of_upd)
    show "page_of ?L w \<notin> ran T' \<union> set ps'" using own(2) [of w] q(2) w assms(4) by (auto simp: page_of_upd)
  qed
  have un: "\<not> user L v" using v(2) by (simp add: user_def)
  have "umem t L a = umem s L a" using space_work(2) [OF sp w] by metis
  moreover have "umem t ?L a = umem t L a" if "a div 4096 \<noteq> v" using that by (simp add: umem_def user_upd page_of_upd)
  ultimately show "umem t ?L a = (if a div 4096 = v \<and> e AND PTE_U \<noteq> 0 \<and> a < 2 ^ 38
           then Some (pmem t (unat (PTE2PA e) + a mod 4096)) else umem s L a)"
    using un by (auto simp: umem_def user_upd page_of_upd)
qed

lemma less_1024: "f < 1024 \<longleftrightarrow> drop_bit 10 f = 0" for f :: u64
  by (simp add: drop_bit_eq_div word_unat_eq_iff unat_div word_less_nat_alt div_eq_0_iff)

lemma take_1024: "f < 1024 \<Longrightarrow> take_bit 10 f = f" for f :: u64
  by (rule bit_word_eqI) (use flag_bits(2) [of f] in \<open>auto simp: bit_take_bit_iff simp flip: not_le\<close>)

lemma new_entry:
  fixes perm :: u64
  assumes "page_ok s q" and "perm < 1024" and "perm AND NOT PTE_V \<noteq> 0"
  defines "e \<equiv> PA2PTE q OR perm OR PTE_V"
  shows "PTE2PA e = q" "PTE_FLAGS e \<noteq> PTE_V" "e AND PTE_U = perm AND PTE_U" "PTE_FLAGS e = perm OR PTE_V"
proof -
  have f: "perm OR PTE_V < 1024" using assms(2) by (simp add: less_1024 drop_bit_or) (simp add: PTE_V_def)
  show "PTE2PA e = q" unfolding e_def by (rule PTE2PA_PA2PTE [OF _ _ f]) (use assms(1) in \<open>simp_all add: page_ok_def\<close>)
  have "e AND PTE_U = (perm OR PTE_V) AND PTE_U" unfolding e_def by (rule PTE_flag [OF f]) (simp add: PTE_U_def)
  then show "e AND PTE_U = perm AND PTE_U" by (simp add: bit.conj_disj_distrib2 PTE_V_def PTE_U_def)
  have "PTE_FLAGS e = (perm OR PTE_V) AND 0x3FF" unfolding PTE_FLAGS_def e_def by (rule PTE_flag [OF f]) simp
  also have "\<dots> = take_bit 10 (perm OR PTE_V)" by (simp add: take_bit_eq_mask mask_eq_exp_minus_1)
  also have "\<dots> = perm OR PTE_V" by (rule take_1024 [OF f])
  finally show "PTE_FLAGS e = perm OR PTE_V" .
  moreover have "perm AND NOT PTE_V = (perm OR PTE_V) AND NOT PTE_V" by (auto intro!: bit_word_eqI simp: bit_simps)
  ultimately show "PTE_FLAGS e \<noteq> PTE_V" using assms(3) by auto
qed

text \<open>One page of a growing address space: allocate, initialise with \<open>c\<close>, map; or give up with all as it was.\<close>

definition page_added ::
  "'a memst_scheme \<Rightarrow> u64 \<Rightarrow> tables \<Rightarrow> mapping \<Rightarrow> u64 \<Rightarrow> u64 list \<Rightarrow> nat set \<Rightarrow> u64 \<Rightarrow> u64 \<Rightarrow> bytes \<Rightarrow>
   'a memst_scheme \<Rightarrow> 'a memst_scheme \<Rightarrow> tables \<Rightarrow> u64 list \<Rightarrow> bool" where
  "page_added s pt T L q ps D va perm c t' u T' ps' \<longleftrightarrow> length ps \<le> length ps' + 2 \<and> grown t' T ps u T' ps' \<and>
     touched s u (ran T \<union> set (q # ps)) \<and>
     (mappages pt va PGSIZE q perm t' = Ok 0 u \<and>
        space u pt T' (L(vpn va \<mapsto> PA2PTE q OR perm OR PTE_V)) ps' (insert (vpn va) D) \<and>
        (\<forall>a. umem u (L(vpn va \<mapsto> PA2PTE q OR perm OR PTE_V)) a =
           (if a div 4096 = vpn va \<and> perm AND PTE_U \<noteq> 0 then Some (c (a mod 4096)) else umem s L a)) \<or>
      mappages pt va PGSIZE q perm t' = Ok (- 1) u \<and> ps' = [] \<and>
        (\<exists>u'. kfree q u = Ok () u' \<and> space u' pt T' L [q] D \<and> umem u' L = umem s L \<and> touched s u' (ran T \<union> set (q # ps))))"

lemma add_page:
  fixes c :: bytes
  assumes sp: "space s pt T L (q # ps) D" and va: "va mod PGSIZE = 0" "va < MAXVA" "L (vpn va) = None" and perm: "perm < 1024" "perm AND NOT PTE_V \<noteq> 0"
    and k: "kalloc s = Ok q t" "touched s t {q}" "vm_inv t pt T L ps"
    and init: "t' = t\<lparr>pmem := m\<rparr>" "\<And>a. \<not> in_page q a \<Longrightarrow> m a = pmem t a" "\<And>i. i < 4096 \<Longrightarrow> m (unat q + i) = c i"
  shows "\<exists>u T' ps'. page_added s pt T L q ps D va perm c t' u T' ps'"
proof -
  let ?e = "PA2PTE q OR perm OR PTE_V"
  have v: "vm_inv s pt T L (q # ps)" using sp by (simp add: space_def)
  obtain t0 where "kalloc s = Ok q t0" "page_ok s q" "q \<notin> ran T \<union> set ps" using take_page [OF v] by blast
  then have q: "page_ok s q" "q \<notin> ran T \<union> set ps" by simp_all
  have qt: "page_ok t q" using q(1) touched_state(3) [OF k(2)] by simp
  note e = new_entry [OF q(1) perm]
  have v': "vm_inv t' pt T L ps" "touched t t' {q}"
    unfolding init(1) by (rule use_page [OF k(3) qt q(2) init(2)]; assumption)+
  have st: "touched s t' {q}" using touched_trans [OF k(2) v'(2)] by simp
  obtain u T' ps' where g: "grown t' T ps u T' ps'" and few: "length ps \<le> length ps' + 2" and
    d: "mappages pt va PGSIZE q perm t' = Ok 0 u \<and> vm_inv u pt T' (L(vpn va \<mapsto> ?e)) ps' \<or>
      mappages pt va PGSIZE q perm t' = Ok (- 1) u \<and> vm_inv u pt T' L ps' \<and> ps' = []"
    using mappages_page [OF v'(1) va(1,2), of q perm] va(3) by blast
  have su: "touched s u (ran T \<union> set (q # ps))"
    using touched_trans [OF st, of u "ran T \<union> set ps"] g unfolding grown_def by (auto elim: touched_mono)
  have rs: "ran T' \<union> set ps' = ran T \<union> set ps" using g by (simp add: grown_def)
  from d show ?thesis
  proof (elim disjE conjE)
    assume m: "mappages pt va PGSIZE q perm t' = Ok 0 u" "vm_inv u pt T' (L(vpn va \<mapsto> ?e)) ps'"
    note sa = space_add [OF sp su order_refl _ m(2) va(3) e(2), unfolded e(1,3)]
    have "space u pt T' (L(vpn va \<mapsto> ?e)) ps' (insert (vpn va) D)"
      by (rule sa(1)) (use rs q(2) in auto)
    moreover have "umem u (L(vpn va \<mapsto> ?e)) a =
        (if a div 4096 = vpn va \<and> perm AND PTE_U \<noteq> 0 then Some (c (a mod 4096)) else umem s L a)" for a
    proof -
      have "pmem u (unat q + a mod 4096) = pmem t' (unat q + a mod 4096)"
      proof (rule touched_pmem)
        show "touched t' u (ran T \<union> set ps)" using g by (simp add: grown_def)
        fix p assume p: "p \<in> ran T \<union> set ps"
        then have "page_ok s p" using v by (auto simp: vm_inv_def pages_apart_def free_list_def)
        moreover have "in_page q (unat q + a mod 4096)" by (simp add: in_page_def)
        ultimately show "\<not> in_page p (unat q + a mod 4096)" using pages_disjoint [OF q(1)] p q(2) by metis
      qed
      then have c: "pmem u (unat q + a mod 4096) = c (a mod 4096)" using init(1,3) by simp
      have "a < 2 ^ 38" if "a div 4096 = vpn va"
      proof -
        have "a div 4096 < 2 ^ 26" unfolding that using va(2) by (simp add: MAXVA_vpn)
        then show ?thesis by (simp add: div_less_iff_less_mult)
      qed
      moreover have "umem u (L(vpn va \<mapsto> ?e)) a = (if a div 4096 = vpn va \<and> perm AND PTE_U \<noteq> 0 \<and> a < 2 ^ 38
           then Some (pmem u (unat q + a mod 4096)) else umem s L a)"
        by (rule sa(2)) (use rs q(2) in auto)
      ultimately show ?thesis using c by simp
    qed
    ultimately show ?thesis unfolding page_added_def using few g su m(1) by blast
  next
    assume m: "mappages pt va PGSIZE q perm t' = Ok (- 1) u" "vm_inv u pt T' L ps'" "ps' = []"
    have "page_ok u q" "q \<notin> ran T' \<union> set ps'" using q rs touched_state(3) [OF su] by simp_all
    then obtain u' where u: "kfree q u = Ok () u'" "vm_inv u' pt T' L [q]" "touched u u' {q}"
      using give_page [OF m(2)] m(3) by blast
    have w: "touched s u' (ran T \<union> set (q # ps))" using touched_trans [OF su u(3)] by (rule touched_mono) auto
    note sw = space_work [OF sp w order_refl, of T' "[q]"]
    have "space u' pt T' L [q] D" "umem u' L = umem s L" using sw u(2) rs m(3) by auto
    then show ?thesis unfolding page_added_def using few g su m(1,3) u(1) w by blast
  qed
qed

text \<open>The number of pages that hold \<open>n\<close> bytes.\<close>

definition pages :: "u64 \<Rightarrow> nat" where "pages n = (unat n + 4095) div 4096"

lemma PGROUNDUP_pages: "unat n \<le> 2 ^ 38 \<Longrightarrow> unat (PGROUNDUP n) = 4096 * pages n"
  by (subst unat_PGROUNDUP) (simp_all add: pages_def)

lemma pages_le: "unat n \<le> 2 ^ 38 \<Longrightarrow> pages n \<le> 2 ^ 26"
  by (simp add: pages_def div_le_mono [of _ "2 ^ 38 + 4095" 4096, simplified])

lemma pages_aligned: "n mod PGSIZE = 0 \<Longrightarrow> pages n = vpn n"
  using aligned_vpn [of n] by (simp add: pages_def)

lemma vpn_PGROUNDUP: "unat n \<le> 2 ^ 38 \<Longrightarrow> vpn (PGROUNDUP n) = pages n"
  by (simp add: vpn_def PGROUNDUP_pages)

lemma unat_scast_small:
  fixes w :: u32
  assumes "unat w < 2 ^ 31"
  shows "unat (scast w :: u64) = unat w"
proof -
  define k where "k = unat w"
  have k: "w = of_nat k" "k < 2 ^ 31" using assms by (simp_all add: k_def)
  have "sint (of_nat k :: u32) = int k" using k(2) by (simp add: signed_of_nat signed_take_bit_int_eq_self)
  then have "(scast w :: u64) = of_int (int k)" unfolding k(1) by (metis of_int_sint)
  then have "(scast w :: u64) = of_nat k" by simp
  then have "unat (scast w :: u64) = k" using k(2) by (simp add: unat_of_nat)
  then show ?thesis by (simp add: k_def)
qed

lemma uvmdealloc_ok:
  assumes sp: "space s pt T L ps D" and D: "{pages new..<pages old} \<subseteq> D" and sz: "new \<le> old" "unat old \<le> 2 ^ 38"
  shows "\<exists>t. uvmdealloc pt old new s = Ok new t \<and>
     space t pt T (unmap L (pages new) (pages old - pages new)) (range_pages L (pages new) (pages old - pages new) @ ps)
       (D - {pages new..<pages old}) \<and>
     touched s t (ran T \<union> page_of L ` {pages new..<pages old}) \<and>
     umem t (unmap L (pages new) (pages old - pages new)) =
       (\<lambda>a. if pages new \<le> a div 4096 \<and> a div 4096 < pages old then None else umem s L a)"
proof -
  have nle: "unat new \<le> unat old" using sz(1) by (simp add: word_le_nat_alt)
  then have nsz: "unat new \<le> 2 ^ 38" using sz(2) by simp
  have le: "pages new \<le> pages old" using nle by (simp add: pages_def div_le_mono)
  note po = PGROUNDUP_pages [OF sz(2)] and pn = PGROUNDUP_pages [OF nsz]
  let ?n = "pages old - pages new"
  show ?thesis
  proof (cases "pages new < pages old")
    case False
    then have "uvmdealloc pt old new s = Ok new s"
      using sz(1) le po pn by (auto simp: uvmdealloc_def word_less_nat_alt)
    then show ?thesis using False sp by (intro exI [of _ s]) (auto simp: touched_refl range_pages_def fun_eq_iff)
  next
    case True
    let ?np = "scast (ucast ((PGROUNDUP old - PGROUNDUP new) div PGSIZE) :: u32) :: u64"
    have "unat (PGROUNDUP old - PGROUNDUP new) = 4096 * ?n"
      using po pn le by (subst unat_sub) (simp_all add: word_le_nat_alt algebra_simps)
    then have d: "unat ((PGROUNDUP old - PGROUNDUP new) div PGSIZE) = ?n" by (simp add: unat_div PGSIZE_def)
    have small: "?n \<le> 2 ^ 26" using pages_le [OF sz(2)] by simp
    have np: "unat ?np = ?n"
    proof -
      let ?w = "ucast ((PGROUNDUP old - PGROUNDUP new) div PGSIZE) :: u32"
      have w: "unat ?w = ?n" using d small by (simp add: unsigned_ucast_eq take_bit_nat_eq_self)
      then show ?thesis using small by (intro trans [OF unat_scast_small]) simp_all
    qed
    have D': "{vpn (PGROUNDUP new)..<vpn (PGROUNDUP new) + ?n} \<subseteq> D" using D le by (simp add: vpn_PGROUNDUP [OF nsz])
    have top: "unat (PGROUNDUP new) + 4096 * ?n \<le> 2 ^ 38" using pages_le [OF sz(2)] le pn by simp
    obtain t where t: "uvmunmap pt (PGROUNDUP new) ?np True s = Ok () t"
      "space t pt T (unmap L (pages new) ?n) (range_pages L (pages new) ?n @ ps) (D - {pages new..<pages new + ?n})"
      "touched s t (ran T \<union> page_of L ` {pages new..<pages new + ?n})"
      "umem t (unmap L (pages new) ?n) = (\<lambda>a. if pages new \<le> a div 4096 \<and> a div 4096 < pages new + ?n then None else umem s L a)"
      using uvmunmap_space [OF sp D' PGROUNDUP_aligned np top] unfolding vpn_PGROUNDUP [OF nsz] by blast
    have lt: "new < old" using True nle by (auto simp: word_less_nat_alt pages_def order_le_less)
    moreover have "PGROUNDUP new < PGROUNDUP old" using True po pn by (simp add: word_less_nat_alt)
    ultimately have "uvmdealloc pt old new s = Ok new t" using t(1) by (auto simp: uvmdealloc_def)
    then show ?thesis using t(2-4) le by auto
  qed
qed

text \<open>The pages an address space owns: its page tables and its memory.\<close>

definition pages_used :: "tables \<Rightarrow> mapping \<Rightarrow> nat set \<Rightarrow> u64 set" where
  "pages_used T L D = ran T \<union> page_of L ` D"

text \<open>
  What a call of \<^verbatim>\<open>uvmalloc\<close> leaves: \<open>n\<close> zeroed pages from page \<open>v\<close> on, with the entry flags \<open>f\<close>; or, when
  memory was short and fewer than three pages a page asked for were free, nothing but more page tables.
  Either way every page is owned by the address space or free, as before: none is lost.
\<close>

definition extends :: "mapping \<Rightarrow> nat set \<Rightarrow> nat \<Rightarrow> nat \<Rightarrow> u64 \<Rightarrow> mapping \<Rightarrow> nat set \<Rightarrow> bool" where
  "extends L D v n f L' D' \<longleftrightarrow> D' = D \<union> {v..<v + n} \<and> (\<forall>w. w \<notin> {v..<v + n} \<longrightarrow> L' w = L w) \<and>
     (\<forall>w \<in> {v..<v + n}. user L' w \<and> PTE_FLAGS (the (L' w)) = f)"

definition zeroed :: "(nat \<Rightarrow> u8 option) \<Rightarrow> nat \<Rightarrow> nat \<Rightarrow> nat \<Rightarrow> u8 option" where
  "zeroed M v n = (\<lambda>a. if v \<le> a div 4096 \<and> a div 4096 < v + n then Some 0 else M a)"

lemma unmap_fresh: "L v = None \<Longrightarrow> u \<le> v \<Longrightarrow> unmap (L(v \<mapsto> e)) u (Suc v - u) = unmap L u (v - u)"
  by (auto simp: unmap_def fun_eq_iff)

definition alloc_result ::
  "'a memst_scheme \<Rightarrow> u64 \<Rightarrow> tables \<Rightarrow> mapping \<Rightarrow> u64 list \<Rightarrow> nat set \<Rightarrow> nat \<Rightarrow> nat \<Rightarrow> nat \<Rightarrow> u64 \<Rightarrow> u64 \<Rightarrow> u64 \<Rightarrow> 'a memst_scheme \<Rightarrow> bool" where
  "alloc_result s pt T L ps D u v n f new r t \<longleftrightarrow>
     (\<exists>T' ps' L' D'. space t pt T' L' ps' D' \<and> touched s t (ran T \<union> set ps \<union> page_of L ` {u..<v}) \<and>
       pages_used T' L' D' \<union> set ps' = pages_used T L D \<union> set ps \<and>
       (r = new \<and> extends L D v n f L' D' \<and> length ps \<le> length ps' + 3 * n \<and> umem t L' = zeroed (umem s L) v n \<or>
        r = 0 \<and> L' = unmap L u (v - u) \<and> D' = D - {u..<v} \<and> length ps \<le> 3 * n \<and>
          umem t L' = (\<lambda>y. if u \<le> y div 4096 \<and> y div 4096 < v then None else umem s L y)))"

text \<open>Giving up: the pages mapped so far are unmapped and freed.\<close>

lemma unmap_used:
  assumes "{u..<u + k} \<subseteq> D"
  shows "pages_used T (unmap L u k) (D - {u..<u + k}) \<union> set (range_pages L u k) = pages_used T L D"
proof -
  have "page_of (unmap L u k) ` (D - {u..<u + k}) = page_of L ` (D - {u..<u + k})"
    by (rule image_cong) (auto simp: page_of_def unmap_def)
  moreover have "page_of L ` (D - {u..<u + k}) \<union> page_of L ` {u..<u + k} = page_of L ` D"
    using assms by blast
  ultimately show ?thesis by (auto simp: pages_used_def range_pages_def)
qed

lemma alloc_fails:
  assumes sp: "space w pt T' L ps' D" and w: "touched s w (ran T \<union> set ps)" "umem w L = umem s L" "ran T' \<union> set ps' = ran T \<union> set ps"
    and a: "a mod PGSIZE = 0" "old mod PGSIZE = 0" "old \<le> a" "unat a \<le> 2 ^ 38" "{vpn old..<vpn a} \<subseteq> D"
    and few: "length ps \<le> 3 * n"
  shows "\<exists>t. kbind (uvmdealloc pt a old w) (\<lambda>_ s. Ok 0 s) = Ok 0 t \<and> alloc_result s pt T L ps D (vpn old) (vpn a) n f new 0 t"
proof -
  have ao: "pages a = vpn a" "pages old = vpn old" using pages_aligned a by simp_all
  have vle: "vpn old + (vpn a - vpn old) = vpn a" using a(3) by (simp add: vpn_def word_le_nat_alt div_le_mono)
  have "{pages old..<pages a} \<subseteq> D" using a(5) ao by simp
  from uvmdealloc_ok [OF sp this a(3,4)] obtain t where t: "uvmdealloc pt a old w = Ok old t"
    "space t pt T' (unmap L (vpn old) (vpn a - vpn old)) (range_pages L (vpn old) (vpn a - vpn old) @ ps') (D - {vpn old..<vpn a})"
    "touched w t (ran T' \<union> page_of L ` {vpn old..<vpn a})"
    "umem t (unmap L (vpn old) (vpn a - vpn old)) = (\<lambda>y. if vpn old \<le> y div 4096 \<and> y div 4096 < vpn a then None else umem s L y)"
    unfolding ao w(2) by (elim exE conjE) (rule that)
  have "touched s t (ran T \<union> set ps \<union> page_of L ` {vpn old..<vpn a})"
    using touched_trans [OF w(1) t(3)] by (rule touched_mono) (use w(3) in auto)
  moreover have "pages_used T' (unmap L (vpn old) (vpn a - vpn old)) (D - {vpn old..<vpn a}) \<union>
      set (range_pages L (vpn old) (vpn a - vpn old) @ ps') = pages_used T L D \<union> set ps"
    using unmap_used [of "vpn old" "vpn a - vpn old" D T' L] a(5) w(3) unfolding vle by (auto simp: pages_used_def)
  ultimately have "alloc_result s pt T L ps D (vpn old) (vpn a) n f new 0 t"
    unfolding alloc_result_def using t(2,4) few by blast
  then show ?thesis using t(1) by simp
qed

lemma alloc_step:
  assumes r: "alloc_result w pt T' (L(v \<mapsto> e)) ps' (insert v D) u (Suc v) n f new r t"
    and w: "touched s w (ran T \<union> set ps)" "insert (PTE2PA e) (ran T' \<union> set ps') = ran T \<union> set ps"
    and few: "length ps \<le> length ps' + 3"
    and v: "L v = None" "v \<notin> D" "u \<le> v" "e AND PTE_U \<noteq> 0" "PTE_FLAGS e = f"
    and m: "umem w (L(v \<mapsto> e)) = (\<lambda>y. if y div 4096 = v then Some 0 else umem s L y)"
  shows "alloc_result s pt T L ps D u v (Suc n) f new r t"
proof -
  let ?L = "L(v \<mapsto> e)"
  obtain T'' ps'' L' D' where a: "space t pt T'' L' ps'' D'" "touched w t (ran T' \<union> set ps' \<union> page_of ?L ` {u..<Suc v})"
    and cons: "pages_used T'' L' D' \<union> set ps'' = pages_used T' ?L (insert v D) \<union> set ps'"
    and d: "r = new \<and> extends ?L (insert v D) (Suc v) n f L' D' \<and> length ps' \<le> length ps'' + 3 * n \<and> umem t L' = zeroed (umem w ?L) (Suc v) n \<or>
        r = 0 \<and> L' = unmap ?L u (Suc v - u) \<and> D' = insert v D - {u..<Suc v} \<and> length ps' \<le> 3 * n \<and>
          umem t L' = (\<lambda>y. if u \<le> y div 4096 \<and> y div 4096 < Suc v then None else umem w ?L y)"
    using r unfolding alloc_result_def by blast
  have "page_of ?L ` insert v D = insert (PTE2PA e) (page_of L ` D)"
    using v(2) by (auto simp: page_of_upd image_iff)
  then have own: "pages_used T'' L' D' \<union> set ps'' = pages_used T L D \<union> set ps"
    unfolding cons using w(2) by (auto simp: pages_used_def)
  have im: "page_of ?L ` {u..<Suc v} \<subseteq> page_of L ` {u..<v} \<union> {PTE2PA e}"
    using v(3) by (auto simp: page_of_upd less_Suc_eq)
  have t: "touched s t (ran T \<union> set ps \<union> page_of L ` {u..<v})"
    using touched_trans [OF w(1) a(2)]
  proof (rule touched_mono)
    let ?A = "ran T \<union> set ps" and ?J = "page_of L ` {u..<v}"
    have "?J \<union> {PTE2PA e} \<subseteq> ?A \<union> ?J" using w(2) by (intro Un_least) auto
    from subset_trans [OF im this] have 1: "page_of ?L ` {u..<Suc v} \<subseteq> ?A \<union> ?J" .
    have 2: "ran T' \<union> set ps' \<subseteq> ?A \<union> ?J" using w(2) by blast
    show "?A \<union> (ran T' \<union> set ps' \<union> page_of ?L ` {u..<Suc v}) \<subseteq> ?A \<union> ?J"
      by (rule Un_least [OF Un_upper1 Un_least [OF 2 1]])
  qed
  have set: "insert v D \<union> {Suc v..<Suc v + n} = D \<union> {v..<v + Suc n}" by auto
  have len: "length ps \<le> 3 * Suc n" if "length ps' \<le> 3 * n" using few that by simp
  have more: "length ps \<le> length ps'' + 3 * Suc n" if "length ps' \<le> length ps'' + 3 * n" using few that by simp
  have "extends ?L (insert v D) (Suc v) n f L' D' \<Longrightarrow> extends L D v (Suc n) f L' D'"
  proof -
    assume e: "extends ?L (insert v D) (Suc v) n f L' D'"
    have "L' v = ?L v" using e by (simp add: extends_def)
    then have "user L' v \<and> PTE_FLAGS (the (L' v)) = f" using v(4,5) by (simp add: user_def)
    then have "user L' x \<and> PTE_FLAGS (the (L' x)) = f" if "x \<in> {v..<v + Suc n}" for x using e that by (cases "x = v") (auto simp: extends_def)
    moreover have "L' x = L x" if "x \<notin> {v..<v + Suc n}" for x using e that by (auto simp: extends_def)
    moreover have "D' = D \<union> {v..<v + Suc n}" using e set by (simp add: extends_def)
    ultimately show ?thesis by (simp add: extends_def)
  qed
  moreover have "zeroed (umem w ?L) (Suc v) n = zeroed (umem s L) v (Suc n)"
    unfolding m by (auto simp: zeroed_def fun_eq_iff)
  moreover have "insert v D - {u..<Suc v} = D - {u..<v}" using v(2,3) by (auto simp: less_Suc_eq)
  moreover have "(\<lambda>y. if u \<le> y div 4096 \<and> y div 4096 < Suc v then None else umem w ?L y) =
      (\<lambda>y. if u \<le> y div 4096 \<and> y div 4096 < v then None else umem s L y)"
  proof -
    have "umem s L y = None" if "y div 4096 = v" for y using v(1) that by (simp add: umem_def user_def)
    then show ?thesis unfolding m using v(3) by (auto simp: fun_eq_iff)
  qed
  ultimately show ?thesis
    using d len more unmap_fresh [of L v u e, OF v(1,3)] a(1) t own unfolding alloc_result_def by (intro exI [of _ T''] exI [of _ ps''] exI [of _ L'] exI [of _ D']) auto
qed

lemma uvmalloc_loop_ok:
  assumes "space s pt T L ps D" and "a mod PGSIZE = 0" and "old mod PGSIZE = 0" and "old \<le> a" and "unat a \<le> 2 ^ 38"
    and "unat new \<le> 2 ^ 38" and "n = pages new - vpn a" and "{vpn old..<vpn a} \<subseteq> D"
    and "\<And>v. vpn a \<le> v \<Longrightarrow> v < vpn a + n \<Longrightarrow> L v = None" and "x < 1024"
  shows "\<exists>t r. uvmalloc_loop pt a old new x s = Ok r t \<and>
    alloc_result s pt T L ps D (vpn old) (vpn a) n (PTE_V OR PTE_R OR PTE_U OR x) new r t"
  using assms
proof (induction n arbitrary: a s T L ps D)
  case 0
  have "\<not> a < new"
  proof
    assume "a < new"
    then have "4096 * vpn a < unat new" using aligned_vpn [OF 0(2)] by (simp add: word_less_nat_alt)
    then have "vpn a < pages new" by (simp add: pages_def)
    then show False using 0(7) by simp
  qed
  then have "uvmalloc_loop pt a old new x s = Ok new s" by (simp add: uvmalloc_loop.simps)
  moreover have "extends L D (vpn a) 0 (PTE_V OR PTE_R OR PTE_U OR x) L D" "umem s L = zeroed (umem s L) (vpn a) 0" "length ps \<le> length ps + 3 * 0"
    by (auto simp: extends_def zeroed_def fun_eq_iff)
  ultimately show ?case unfolding alloc_result_def using 0(1) touched_refl [of s] by blast
next
  case (Suc n)
  note sp = Suc.prems(1) and al = Suc.prems(2)
  have v: "vm_inv s pt T L ps" using sp by (simp add: space_def)
  have n: "vpn a < pages new" "n = pages new - Suc (vpn a)" using Suc.prems(7) by simp_all
  have "unat a < unat new"
  proof -
    have "4096 * pages new < unat new + 4096" by (simp add: pages_def)
    then show ?thesis using n(1) aligned_vpn [OF al] by linarith
  qed
  then have lt: "a < new" "unat a < 2 ^ 38" using Suc.prems(6) by (simp_all add: word_less_nat_alt)
  then have va: "a < MAXVA" by (simp add: MAXVA_def word_less_nat_alt)
  have none: "L (vpn a) = None" using Suc.prems(9) by simp
  have le: "vpn old \<le> vpn a" using Suc.prems(4) by (simp add: vpn_def word_le_nat_alt div_le_mono)
  note fails = alloc_fails [OF _ _ _ _ al Suc.prems(3,4,5,8)]
  show ?case
  proof (cases ps)
    case Nil
    then have "kalloc s = Ok 0 s" using v alloc_none by (auto simp: vm_inv_def)
    then have run: "uvmalloc_loop pt a old new x s = kbind (uvmdealloc pt a old s) (\<lambda>_ s. Ok 0 s)"
      using lt by (simp add: uvmalloc_loop.simps [of pt a])
    have few: "length ps \<le> 3 * Suc n" using Nil by simp
    show ?thesis
      unfolding run using fails [OF sp touched_refl refl refl few] by blast
  next
    case (Cons q qs)
    let ?perm = "PTE_R OR PTE_U OR x" let ?e = "PA2PTE q OR ?perm OR PTE_V" let ?L = "L(vpn a \<mapsto> ?e)"
    obtain t where t: "kalloc s = Ok q t" "page_ok s q" "vm_inv t pt T L qs" "touched s t {q}"
      using take_page [OF v [unfolded Cons]] by blast
    have old: "vpn a \<notin> D" using sp none by (auto simp: space_def)
    have "x OR PTE_R OR PTE_U < 1024" using Suc.prems(10) by (simp add: less_1024 drop_bit_or) (simp add: PTE_R_def PTE_U_def)
    then have p1: "?perm < 1024" by (simp add: or.commute or.left_commute)
    have "bit (?perm AND NOT PTE_V) 1" by (simp add: bit_simps PTE_R_def PTE_V_def)
    then have p2: "?perm AND NOT PTE_V \<noteq> 0" by (metis bit_0_eq bot_apply bot_bool_def)
    have "bit (?perm AND PTE_U) 4" by (simp add: bit_simps PTE_U_def)
    then have pu: "?perm AND PTE_U \<noteq> 0" by (metis bit_0_eq bot_apply bot_bool_def)
    let ?m = "\<lambda>y. if in_page q y then 0 else pmem t y"
    have fp: "fill_page q 0 t = t\<lparr>pmem := ?m\<rparr>"
      using fill_page_apply [of q 0 t] by (simp add: fill_page_def fun_eq_iff)
    have sp': "space s pt T L (q # qs) D" using sp Cons by simp
    have "\<exists>u T' ps'. page_added s pt T L q qs D a ?perm (\<lambda>_. 0) (fill_page q 0 t) u T' ps'"
      by (rule add_page [OF sp' al va none p1 p2 t(1,4,3) fp]) (auto simp: in_page_def)
    then obtain u T' ps' where pa: "page_added s pt T L q qs D a ?perm (\<lambda>_. 0) (fill_page q 0 t) u T' ps'" by blast
    have g: "grown (fill_page q 0 t) T qs u T' ps'" and su: "touched s u (ran T \<union> set ps)"
      using pa Cons by (simp_all add: page_added_def)
    have q0: "q \<noteq> 0" using t(2) by (simp add: page_ok_def)
    have rs: "ran T' \<union> set ps' = ran T \<union> set qs" using g by (simp add: grown_def)
    have few: "length qs \<le> length ps' + 2" using pa by (simp add: page_added_def)
    from pa [unfolded page_added_def, THEN conjunct2, THEN conjunct2, THEN conjunct2] show ?thesis
    proof (elim disjE conjE exE)
      fix u' assume m0: "ps' = []" and m: "mappages pt a PGSIZE q ?perm (fill_page q 0 t) = Ok (- 1) u" "kfree q u = Ok () u'"
        "space u' pt T' L [q] D" "umem u' L = umem s L" "touched s u' (ran T \<union> set (q # qs))"
      have run: "uvmalloc_loop pt a old new x s = kbind (uvmdealloc pt a old u') (\<lambda>_ s. Ok 0 s)"
        using lt t(1) q0 m(1,2) by (simp add: uvmalloc_loop.simps [of pt a])
      have tu: "touched s u' (ran T \<union> set ps)" and rt: "ran T' \<union> set [q] = ran T \<union> set ps" using m(5) rs m0 Cons by auto
      have few: "length ps \<le> 3 * Suc n" using few m0 Cons by simp
      show ?thesis
        unfolding run using fails [OF m(3) tu m(4) rt few] by blast
    next
      assume m: "mappages pt a PGSIZE q ?perm (fill_page q 0 t) = Ok 0 u" "space u pt T' ?L ps' (insert (vpn a) D)"
        "\<forall>y. umem u ?L y = (if y div 4096 = vpn a \<and> ?perm AND PTE_U \<noteq> 0 then Some 0 else umem s L y)"
      have run: "uvmalloc_loop pt a old new x s = uvmalloc_loop pt (a + PGSIZE) old new x u"
        using lt t(1) q0 m(1) by (simp add: uvmalloc_loop.simps [of pt a])
      note nx = vpn_next [OF al lt(2)]
      have "\<exists>t' r. uvmalloc_loop pt (a + PGSIZE) old new x u = Ok r t' \<and>
          alloc_result u pt T' ?L ps' (insert (vpn a) D) (vpn old) (vpn (a + PGSIZE)) n (PTE_V OR PTE_R OR PTE_U OR x) new r t'"
      proof (rule Suc.IH [OF m(2) nx(2) Suc.prems(3) _ _ Suc.prems(6)])
        show "old \<le> a + PGSIZE" using Suc.prems(4) nx(3) by (simp add: word_le_nat_alt)
        have "vpn a < 2 ^ 26" using va by (simp add: MAXVA_vpn)
        then show "unat (a + PGSIZE) \<le> 2 ^ 38" using nx(3) aligned_vpn [OF al] by simp
        show "n = pages new - vpn (a + PGSIZE)" using n(2) nx(1) by simp
        show "{vpn old..<vpn (a + PGSIZE)} \<subseteq> insert (vpn a) D" using Suc.prems(8) nx(1) by (auto simp: less_Suc_eq)
        show "?L v = None" if "vpn (a + PGSIZE) \<le> v" "v < vpn (a + PGSIZE) + n" for v
          using Suc.prems(9) [of v] that nx(1) by simp
      qed (rule Suc.prems(10))
      then obtain t' r where r: "uvmalloc_loop pt (a + PGSIZE) old new x u = Ok r t'"
        "alloc_result u pt T' ?L ps' (insert (vpn a) D) (vpn old) (Suc (vpn a)) n (PTE_V OR PTE_R OR PTE_U OR x) new r t'"
        unfolding nx(1) by blast
      have e: "PTE2PA ?e = q" "?e AND PTE_U = ?perm AND PTE_U" "PTE_FLAGS ?e = ?perm OR PTE_V"
        using new_entry [OF t(2) p1 p2] by simp_all
      have "alloc_result s pt T L ps D (vpn old) (vpn a) (Suc n) (PTE_V OR PTE_R OR PTE_U OR x) new r t'"
      proof (rule alloc_step [OF r(2) su _ _ none old le])
        show "length ps \<le> length ps' + 3" using few Cons by simp
        show "insert (PTE2PA ?e) (ran T' \<union> set ps') = ran T \<union> set ps" using rs e(1) Cons by simp
        show "PTE_FLAGS ?e = PTE_V OR PTE_R OR PTE_U OR x" unfolding e(3) by (simp add: or.commute or.left_commute)
        show "?e AND PTE_U \<noteq> 0" using e(2) pu by simp
        show "umem u ?L = (\<lambda>y. if y div 4096 = vpn a then Some 0 else umem s L y)" using m(3) pu by auto
      qed
      then show ?thesis using run r(1) by auto
    qed
  qed
qed

lemma uvmalloc_ok:
  assumes sp: "space s pt T L ps D" and sz: "old \<le> new" "unat new \<le> 2 ^ 38" and x: "x < 1024"
    and fresh: "dom L \<inter> {pages old..<pages new} = {}"
  shows "\<exists>t r T' ps' L' D'. uvmalloc pt old new x s = Ok r t \<and> space t pt T' L' ps' D' \<and> touched s t (ran T \<union> set ps) \<and>
     pages_used T' L' D' \<union> set ps' = pages_used T L D \<union> set ps \<and>
     (r = new \<and> extends L D (pages old) (pages new - pages old) (PTE_V OR PTE_R OR PTE_U OR x) L' D' \<and> length ps \<le> length ps' + 3 * (pages new - pages old) \<and>
        umem t L' = zeroed (umem s L) (pages old) (pages new - pages old) \<or>
      r = 0 \<and> L' = L \<and> D' = D \<and> length ps \<le> 3 * (pages new - pages old) \<and> umem t L' = umem s L)"
proof -
  let ?a = "PGROUNDUP old"
  have so: "unat old \<le> 2 ^ 38" using sz by (simp add: word_le_nat_alt)
  have va: "vpn ?a = pages old" by (rule vpn_PGROUNDUP [OF so])
  have ua: "unat ?a \<le> 2 ^ 38" using PGROUNDUP_pages [OF so] pages_le [OF so] by simp
  have "\<exists>t r. uvmalloc_loop pt ?a ?a new x s = Ok r t \<and>
      alloc_result s pt T L ps D (vpn ?a) (vpn ?a) (pages new - vpn ?a) (PTE_V OR PTE_R OR PTE_U OR x) new r t"
    by (rule uvmalloc_loop_ok [OF sp PGROUNDUP_aligned PGROUNDUP_aligned order_refl ua sz(2) refl _ _ x])
      (use fresh va in auto)
  then obtain t r where t: "uvmalloc_loop pt ?a ?a new x s = Ok r t"
    "alloc_result s pt T L ps D (pages old) (pages old) (pages new - pages old) (PTE_V OR PTE_R OR PTE_U OR x) new r t"
    unfolding va by blast
  have run: "uvmalloc pt old new x s = Ok r t" using t(1) sz(1) by (auto simp: uvmalloc_def)
  have no: "(u \<le> y \<and> y < u) = False" for u y :: nat by auto
  have none: "(\<lambda>y. if u \<le> y div 4096 \<and> y div 4096 < u then None else M y) = M" for u and M :: "nat \<Rightarrow> u8 option"
    by (simp only: no if_False)
  have empty: "{u..<u} = {}" for u :: nat by simp
  obtain T' ps' L' D' where "space t pt T' L' ps' D'" "touched s t (ran T \<union> set ps)"
    "pages_used T' L' D' \<union> set ps' = pages_used T L D \<union> set ps"
    "r = new \<and> extends L D (pages old) (pages new - pages old) (PTE_V OR PTE_R OR PTE_U OR x) L' D' \<and> length ps \<le> length ps' + 3 * (pages new - pages old) \<and>
        umem t L' = zeroed (umem s L) (pages old) (pages new - pages old) \<or>
      r = 0 \<and> L' = L \<and> D' = D \<and> length ps \<le> 3 * (pages new - pages old) \<and> umem t L' = umem s L"
    using t(2) unfolding alloc_result_def none empty image_empty Un_empty_right diff_self_eq_0 unmap_0 Diff_empty add_0
    by (elim exE conjE) (rule that)
  then show ?thesis using run by blast
qed

section \<open>Copying an address space\<close>

text \<open>Another address space, whose pages the work does not touch, is as it was.\<close>

lemma space_other:
  assumes sp: "space s pt T L ps D" and w: "touched s t A" "\<And>p. p \<in> A \<Longrightarrow> page_ok s p" "A \<inter> pages_used T L D = {}"
    and f: "free_list t ps'" "set ps' \<inter> pages_used T L D = {}"
  shows "space t pt T L ps' D" "umem t L = umem s L"
proof -
  have v: "tree (pmem s) pt T L" "pages_apart s T ps" using sp by (simp_all add: space_def vm_inv_def)
  have apart: "p \<notin> A" "p \<notin> set ps'" if "p \<in> pages_used T L D" for p using w(3) f(2) that by blast+
  have tr: "p \<in> pages_used T L D" if "p \<in> ran T" for p using that by (simp add: pages_used_def)
  have "tree (pmem t) pt T L"
  proof (rule tree_same [OF v(1)])
    fix r a assume r: "r \<in> ran T" "in_page r a"
    have rk: "page_ok s r" using v(2) r(1) by (simp add: pages_apart_def)
    have "\<not> in_page p a" if p: "p \<in> A" for p
      using pages_disjoint [OF rk w(2) [OF p] _ r(2)] apart(1) [OF tr [OF r(1)]] p by blast
    then show "pmem t a = pmem s a" by (rule touched_pmem [OF w(1)])
  qed
  moreover have "pages_apart t T ps'"
    using v(2) f(1) apart(2) tr touched_state [OF w(1)] by (auto simp: pages_apart_def)
  moreover have "page_of L x \<notin> ran T \<union> set ps'" if "x \<in> D" for x
    using sp that apart(2) [of "page_of L x"] by (auto simp: space_def pages_used_def)
  ultimately show "space t pt T L ps' D"
    using sp touched_state(3) [OF w(1)] by (auto simp: space_def vm_inv_def)
  have "umem t L a = umem s L a" for a
  proof (rule umem_same [OF sp w(1,2), of UNIV])
    fix x assume "user L x"
    then show "page_of L x \<notin> A" using sp apart(1) [of "page_of L x"] by (auto simp: space_def pages_used_def)
  qed simp_all
  then show "umem t L = umem s L" by auto
qed

end
