(* ===== verification/Uvmcopy.thy ===== *)
theory Uvmcopy
  imports Uvm
begin

text \<open>
  \<^verbatim>\<open>uvmcopy\<close>, the copy of an address space for \<^verbatim>\<open>fork\<close>, and the properties of the page-table code as a whole.
\<close>

section \<open>Two address spaces\<close>

text \<open>An old and a new address space without a page in common, over the same free pages.\<close>

definition pair ::
  "'a memst_scheme \<Rightarrow> u64 \<Rightarrow> tables \<Rightarrow> mapping \<Rightarrow> nat set \<Rightarrow> u64 \<Rightarrow> tables \<Rightarrow> mapping \<Rightarrow> nat set \<Rightarrow> u64 list \<Rightarrow> bool" where
  "pair s old To Lo Do new Tn Ln Dn ps \<longleftrightarrow> space s old To Lo ps Do \<and> space s new Tn Ln ps Dn \<and>
     pages_used To Lo Do \<inter> pages_used Tn Ln Dn = {}"

lemma pages_used_free: "space s pt T L ps D \<Longrightarrow> p \<in> pages_used T L D \<Longrightarrow> p \<notin> set ps \<and> page_ok s p"
  by (auto simp: pages_used_def space_def vm_inv_def pages_apart_def)

lemma free_ok: "space s pt T L ps D \<Longrightarrow> p \<in> set ps \<Longrightarrow> page_ok s p"
  by (auto simp: space_def vm_inv_def pages_apart_def free_list_def)

lemma pair_step:
  assumes p: "pair s old To Lo Do new Tn Ln Dn ps" and w: "touched s t A" "A \<subseteq> pages_used Tn Ln Dn \<union> set ps"
    and n: "space t new T' L' ps' D'" "pages_used T' L' D' \<union> set ps' \<subseteq> pages_used Tn Ln Dn \<union> set ps"
  shows "pair t old To Lo Do new T' L' D' ps'" "umem t Lo = umem s Lo"
proof -
  have o: "space s old To Lo ps Do" and sn: "space s new Tn Ln ps Dn" and d: "pages_used To Lo Do \<inter> pages_used Tn Ln Dn = {}"
    using p by (simp_all add: pair_def)
  have apart: "x \<notin> pages_used Tn Ln Dn \<union> set ps" if "x \<in> pages_used To Lo Do" for x
    using d pages_used_free [OF o that] that by blast
  have ok: "page_ok s x" if "x \<in> A" for x
    using that w(2) pages_used_free [OF sn] free_ok [OF sn] by blast
  have "A \<inter> pages_used To Lo Do = {}" "set ps' \<inter> pages_used To Lo Do = {}" using apart w(2) n(2) by blast+
  moreover have "free_list t ps'" using n(1) by (simp add: space_def vm_inv_def pages_apart_def)
  ultimately have so: "space t old To Lo ps' Do" "umem t Lo = umem s Lo" using space_other [OF o w(1) ok] by blast+
  have "pages_used To Lo Do \<inter> pages_used T' L' D' = {}" using apart n(2) by blast
  then show "pair t old To Lo Do new T' L' D' ps'" using so(1) n(1) by (simp add: pair_def)
  show "umem t Lo = umem s Lo" by (rule so(2))
qed

text \<open>What a call of \<^verbatim>\<open>uvmcopy\<close> leaves: the pages from \<open>v\<close> to \<open>n\<close> copied, or, when fewer than three
  free pages were there for each of them (the copy and at most two page-table pages), the new space emptied below \<open>v\<close>.\<close>

definition copies :: "mapping \<Rightarrow> mapping \<Rightarrow> nat set \<Rightarrow> nat \<Rightarrow> nat \<Rightarrow> mapping \<Rightarrow> nat set \<Rightarrow> bool" where
  "copies Lo Ln Dn v n L' D' \<longleftrightarrow> D' = Dn \<union> {v..<n} \<and> (\<forall>w. w \<notin> {v..<n} \<longrightarrow> L' w = Ln w) \<and>
     (\<forall>w \<in> {v..<n}. PTE_FLAGS (the (L' w)) = PTE_FLAGS (the (Lo w)))"

definition copy_result ::
  "'a memst_scheme \<Rightarrow> u64 \<Rightarrow> tables \<Rightarrow> mapping \<Rightarrow> nat set \<Rightarrow> u64 \<Rightarrow> tables \<Rightarrow> mapping \<Rightarrow> nat set \<Rightarrow> u64 list \<Rightarrow>
   nat \<Rightarrow> nat \<Rightarrow> u32 \<Rightarrow> 'a memst_scheme \<Rightarrow> bool" where
  "copy_result s old To Lo Do new Tn Ln Dn ps v n r t \<longleftrightarrow>
     (\<exists>T' L' D' ps'. pair t old To Lo Do new T' L' D' ps' \<and> umem t Lo = umem s Lo \<and>
        touched s t (pages_used Tn Ln Dn \<union> set ps) \<and> pages_used T' L' D' \<union> set ps' \<subseteq> pages_used Tn Ln Dn \<union> set ps \<and>
        (r = 0 \<and> copies Lo Ln Dn v n L' D' \<and>
           umem t L' = (\<lambda>a. if v \<le> a div 4096 \<and> a div 4096 < n then umem s Lo a else umem s Ln a) \<or>
         r = - 1 \<and> L' = unmap Ln 0 v \<and> D' = Dn - {..<v} \<and> length ps \<le> 3 * (n - v) \<and>
           umem t L' = (\<lambda>a. if a div 4096 < v then None else umem s Ln a)))"

lemma copy_fails:
  assumes p: "pair w old To Lo Do new T' Ln Dn ps'" and m: "umem w Lo = umem s Lo" "umem w Ln = umem s Ln"
    and w: "touched s w (pages_used Tn Ln Dn \<union> set ps)" "pages_used T' Ln Dn \<union> set ps' \<subseteq> pages_used Tn Ln Dn \<union> set ps"
    and i: "i mod PGSIZE = 0" "unat i \<le> 2 ^ 38" "{..<vpn i} \<subseteq> Dn"
    and few: "length ps \<le> 3 * (n - vpn i)"
  shows "\<exists>t. kthen (uvmunmap new 0 (i div PGSIZE) True w) (\<lambda>s. Ok (- 1) s) = Ok (- 1) t \<and>
     copy_result s old To Lo Do new Tn Ln Dn ps (vpn i) n (- 1) t"
proof -
  have sn: "space w new T' Ln ps' Dn" using p by (simp add: pair_def)
  have vz: "vpn 0 = 0" by (simp add: vpn_def)
  have "unat (i div PGSIZE) = vpn i" by (simp add: unat_div PGSIZE_def vpn_def)
  moreover have "unat (0 :: u64) + 4096 * vpn i \<le> 2 ^ 38" using i(2) aligned_vpn [OF i(1)] by simp
  moreover have "{vpn 0..<vpn 0 + vpn i} \<subseteq> Dn" using i(3) vz by auto
  ultimately obtain t where t: "uvmunmap new 0 (i div PGSIZE) True w = Ok () t"
    "space t new T' (unmap Ln 0 (vpn i)) (range_pages Ln 0 (vpn i) @ ps') (Dn - {0..<vpn i})"
    "touched w t (ran T' \<union> page_of Ln ` {0..<vpn i})"
    "umem t (unmap Ln 0 (vpn i)) = (\<lambda>a. if 0 \<le> a div 4096 \<and> a div 4096 < vpn i then None else umem w Ln a)"
    using uvmunmap_space [OF sn, of 0 "vpn i" "i div PGSIZE"] vz by auto
  let ?L = "unmap Ln 0 (vpn i)" and ?D = "Dn - {..<vpn i}" and ?ps = "range_pages Ln 0 (vpn i) @ ps'"
  have D: "Dn - {0..<vpn i} = ?D" by auto
  have im: "page_of Ln ` {0..<vpn i} \<subseteq> page_of Ln ` Dn" using i(3) by auto
  then have A: "ran T' \<union> page_of Ln ` {0..<vpn i} \<subseteq> pages_used T' Ln Dn \<union> set ps'" by (auto simp: pages_used_def)
  have "page_of ?L ` ?D \<subseteq> page_of Ln ` Dn" by (auto simp: page_of_unmap)
  then have n: "pages_used T' ?L ?D \<union> set ?ps \<subseteq> pages_used T' Ln Dn \<union> set ps'"
    using im by (auto simp: pages_used_def range_pages_def)
  note ps = pair_step [OF p t(3) A t(2) [unfolded D] n]
  have "touched s t (pages_used Tn Ln Dn \<union> set ps)"
    using touched_trans [OF w(1) t(3)] by (rule touched_mono) (use A w(2) in blast)
  moreover have "pages_used T' ?L ?D \<union> set ?ps \<subseteq> pages_used Tn Ln Dn \<union> set ps" using n w(2) by blast
  moreover have "umem t ?L = (\<lambda>a. if a div 4096 < vpn i then None else umem s Ln a)" unfolding t(4) m(2) by simp
  ultimately have "copy_result s old To Lo Do new Tn Ln Dn ps (vpn i) n (- 1) t"
    unfolding copy_result_def using ps m(1) few
    by (intro exI [of _ T'] exI [of _ ?L] exI [of _ ?D] exI [of _ ?ps]) simp
  then show ?thesis using t(1) by simp
qed

lemma bit_PTE_V: "bit PTE_V n \<longleftrightarrow> n = 0"
  by (auto simp: PTE_V_def bit_1_iff)

lemma PTE_FLAGS_take: "PTE_FLAGS e = take_bit 10 e"
  by (simp add: PTE_FLAGS_def take_bit_eq_mask mask_eq_exp_minus_1)

lemma PTE_FLAGS_less: "PTE_FLAGS e < 1024"
  by (simp add: less_1024 PTE_FLAGS_take drop_bit_take_bit)

lemma PTE_FLAGS_bits:
  assumes "e AND PTE_V \<noteq> 0"
  shows "PTE_FLAGS e AND PTE_U = e AND PTE_U" "PTE_FLAGS e OR PTE_V = PTE_FLAGS e"
    "PTE_FLAGS e \<noteq> PTE_V \<Longrightarrow> PTE_FLAGS e AND NOT PTE_V \<noteq> 0"
proof -
  have v: "bit e 0"
  proof (rule ccontr)
    assume "\<not> bit e 0"
    then have "e AND PTE_V = 0" by (intro bit_word_eqI) (auto simp: bit_and_iff bit_PTE_V intro!: gr0I)
    then show False using assms by simp
  qed
  show "PTE_FLAGS e AND PTE_U = e AND PTE_U" by (simp add: PTE_FLAGS_def PTE_U_def and.assoc)
  show "PTE_FLAGS e OR PTE_V = PTE_FLAGS e"
    by (rule bit_word_eqI) (use v in \<open>auto simp: PTE_FLAGS_take bit_or_iff bit_take_bit_iff bit_PTE_V\<close>)
  show "PTE_FLAGS e AND NOT PTE_V \<noteq> 0" if ne: "PTE_FLAGS e \<noteq> PTE_V"
  proof
    assume z: "PTE_FLAGS e AND NOT PTE_V = 0"
    have "bit (PTE_FLAGS e) n \<longleftrightarrow> bit PTE_V n" if "n < 64" for n
      using arg_cong [OF z, of "\<lambda>w. bit w n"] v that
      by (auto simp: PTE_FLAGS_take bit_and_iff bit_not_iff bit_take_bit_iff bit_PTE_V)
    then have "PTE_FLAGS e = PTE_V" by (intro bit_word_eqI) simp
    then show False using ne by simp
  qed
qed

lemma flags_of_entry: "f < 1024 \<Longrightarrow> PTE_FLAGS (PA2PTE q OR f OR PTE_V) = f OR PTE_V"
proof -
  assume f: "f < 1024"
  then have v: "f OR PTE_V < 1024" by (simp add: less_1024 drop_bit_or) (simp add: PTE_V_def)
  have "PTE_FLAGS (PA2PTE q OR f OR PTE_V) = (f OR PTE_V) AND 0x3FF"
    unfolding PTE_FLAGS_def by (rule PTE_flag [OF v]) simp
  also have "\<dots> = take_bit 10 (f OR PTE_V)" by (simp add: take_bit_eq_mask mask_eq_exp_minus_1)
  also have "\<dots> = f OR PTE_V" by (rule take_1024 [OF v])
  finally show ?thesis .
qed

text \<open>One page more: what the rest of the loop leaves is what the whole leaves.\<close>

lemma copy_step:
  assumes r: "copy_result w old To Lo Do new T' (Ln(v \<mapsto> e)) (insert v Dn) ps' (Suc v) n r t"
    and w: "touched s w (pages_used Tn Ln Dn \<union> set ps)"
      "pages_used T' (Ln(v \<mapsto> e)) (insert v Dn) \<union> set ps' \<subseteq> pages_used Tn Ln Dn \<union> set ps"
    and few: "length ps \<le> length ps' + 3"
    and v: "Ln v = None" "v \<notin> Dn" "v < n" "PTE_FLAGS e = PTE_FLAGS (the (Lo v))"
    and m: "umem w Lo = umem s Lo" "umem w (Ln(v \<mapsto> e)) = (\<lambda>a. if a div 4096 = v then umem s Lo a else umem s Ln a)"
  shows "copy_result s old To Lo Do new Tn Ln Dn ps v n r t"
proof -
  let ?L = "Ln(v \<mapsto> e)"
  obtain T'' L' D' ps'' where a: "pair t old To Lo Do new T'' L' D' ps''" "umem t Lo = umem w Lo"
    "touched w t (pages_used T' ?L (insert v Dn) \<union> set ps')"
    "pages_used T'' L' D' \<union> set ps'' \<subseteq> pages_used T' ?L (insert v Dn) \<union> set ps'"
    and d: "r = 0 \<and> copies Lo ?L (insert v Dn) (Suc v) n L' D' \<and>
           umem t L' = (\<lambda>a. if Suc v \<le> a div 4096 \<and> a div 4096 < n then umem w Lo a else umem w ?L a) \<or>
         r = - 1 \<and> L' = unmap ?L 0 (Suc v) \<and> D' = insert v Dn - {..<Suc v} \<and> length ps' \<le> 3 * (n - Suc v) \<and>
           umem t L' = (\<lambda>a. if a div 4096 < Suc v then None else umem w ?L a)"
    using r unfolding copy_result_def by (elim exE conjE) (rule that)
  have t: "touched s t (pages_used Tn Ln Dn \<union> set ps)"
    using touched_trans [OF w(1) a(3)] by (rule touched_mono) (rule Un_least [OF order_refl w(2)])
  have sub: "pages_used T'' L' D' \<union> set ps'' \<subseteq> pages_used Tn Ln Dn \<union> set ps" by (rule subset_trans [OF a(4) w(2)])
  have mo: "umem t Lo = umem s Lo" using a(2) m(1) by simp
  from d show ?thesis
  proof (elim disjE conjE)
    assume d: "r = 0" "copies Lo ?L (insert v Dn) (Suc v) n L' D'"
      "umem t L' = (\<lambda>a. if Suc v \<le> a div 4096 \<and> a div 4096 < n then umem w Lo a else umem w ?L a)"
    have "L' v = ?L v" using d(2) by (simp add: copies_def)
    then have lv: "PTE_FLAGS (the (L' v)) = PTE_FLAGS (the (Lo v))" using v(4) by simp
    have "copies Lo Ln Dn v n L' D'"
      unfolding copies_def
    proof (intro conjI allI impI ballI)
      show "D' = Dn \<union> {v..<n}" using d(2) v(3) by (auto simp: copies_def)
      show "L' x = Ln x" if "x \<notin> {v..<n}" for x using d(2) v(3) that by (auto simp: copies_def)
      show "PTE_FLAGS (the (L' x)) = PTE_FLAGS (the (Lo x))" if "x \<in> {v..<n}" for x
        using d(2) lv that by (cases "x = v") (auto simp: copies_def)
    qed
    moreover have "umem t L' = (\<lambda>a. if v \<le> a div 4096 \<and> a div 4096 < n then umem s Lo a else umem s Ln a)"
      unfolding d(3) m using v(3) by (auto simp: fun_eq_iff)
    ultimately show ?thesis unfolding copy_result_def using a(1) mo t sub d(1) by blast
  next
    assume d: "r = - 1" "L' = unmap ?L 0 (Suc v)" "D' = insert v Dn - {..<Suc v}" "length ps' \<le> 3 * (n - Suc v)"
      "umem t L' = (\<lambda>a. if a div 4096 < Suc v then None else umem w ?L a)"
    have "L' = unmap Ln 0 v" using unmap_fresh [of Ln v 0 e, OF v(1)] d(2) by simp
    moreover have "length ps \<le> 3 * (n - v)" using few d(4) v(3) by linarith
    moreover have "D' = Dn - {..<v}" using d(3) v(2) by (auto simp: less_Suc_eq)
    moreover have "umem s Ln a = None" if "a div 4096 = v" for a using v(1) that by (simp add: umem_def user_def)
    then have "umem t L' = (\<lambda>a. if a div 4096 < v then None else umem s Ln a)"
      unfolding d(5) m by (auto simp: fun_eq_iff)
    ultimately show ?thesis unfolding copy_result_def using a(1) mo t sub d(1) by blast
  qed
qed

lemma uvmcopy_loop_ok:
  assumes "pair s old To Lo Do new Tn Ln Dn ps" and "i mod PGSIZE = 0" and "unat i \<le> 2 ^ 38" and "unat len \<le> 2 ^ 38"
    and "n = pages len - vpn i" and "{vpn i..<pages len} \<subseteq> Do" and "\<And>v. vpn i \<le> v \<Longrightarrow> v < pages len \<Longrightarrow> Ln v = None"
    and "{..<vpn i} \<subseteq> Dn"
  shows "\<exists>t r. uvmcopy_loop old new len i s = Ok r t \<and> copy_result s old To Lo Do new Tn Ln Dn ps (vpn i) (pages len) r t"
  using assms
proof (induction n arbitrary: i s Tn Ln Dn ps)
  case 0
  have "\<not> i < len"
  proof
    assume "i < len"
    then have "4096 * vpn i < unat len" using aligned_vpn [OF 0(2)] by (simp add: word_less_nat_alt)
    then have "vpn i < pages len" by (simp add: pages_def)
    then show False using 0(5) by simp
  qed
  then have run: "uvmcopy_loop old new len i s = Ok 0 s" by (simp add: uvmcopy_loop.simps)
  have le: "pages len \<le> vpn i" using 0(5) by simp
  have "copies Lo Ln Dn (vpn i) (pages len) Ln Dn" using le by (auto simp: copies_def)
  moreover have no: "(vpn i \<le> x \<and> x < pages len) = False" for x using le by auto
  have "umem s Ln = (\<lambda>a. if vpn i \<le> a div 4096 \<and> a div 4096 < pages len then umem s Lo a else umem s Ln a)"
    by (simp only: no if_False)
  ultimately have "copy_result s old To Lo Do new Tn Ln Dn ps (vpn i) (pages len) 0 s"
    unfolding copy_result_def using 0(1) touched_refl by blast
  then show ?case using run by blast
next
  case (Suc n)
  note p = Suc.prems(1) and al = Suc.prems(2)
  have so: "space s old To Lo ps Do" and sn: "space s new Tn Ln ps Dn" using p by (simp_all add: pair_def)
  have vo: "vm_inv s old To Lo ps" and vn: "vm_inv s new Tn Ln ps" using so sn by (simp_all add: space_def)
  let ?v = "vpn i" let ?pa = "page_of Lo ?v"
  have n: "?v < pages len" "n = pages len - Suc ?v" using Suc.prems(5) by simp_all
  have "unat i < unat len"
  proof -
    have "4096 * pages len < unat len + 4096" by (simp add: pages_def)
    then show ?thesis using n(1) aligned_vpn [OF al] by linarith
  qed
  then have lt: "i < len" "unat i < 2 ^ 38" using Suc.prems(4) by (simp_all add: word_less_nat_alt)
  then have va: "i < MAXVA" by (simp add: MAXVA_def word_less_nat_alt)
  have none: "Ln ?v = None" using Suc.prems(7) n(1) by simp
  have vD: "?v \<in> Do" using Suc.prems(6) n(1) by auto
  obtain e where e: "Lo ?v = Some e" using so vD by (auto simp: space_def)
  have own: "page_ok s ?pa" "?pa \<in> pages_used To Lo Do" "PTE_FLAGS e \<noteq> PTE_V"
    using so vD e by (auto simp: space_def pages_used_def)
  note l = leaf_of_page [OF vo e]
  have pa: "PTE2PA e = ?pa" using e by (simp add: page_of_def)
  let ?fl = "PTE_FLAGS e"
  note fb = PTE_FLAGS_bits [OF l(3)]
  note fails = copy_fails [OF _ _ _ _ _ al Suc.prems(3,8)]
  have find: "walk old i False s = Ok (leaf_addr To i) s" using walk_find [OF vo, of i] va by simp
  show ?case
  proof (cases ps)
    case Nil
    then have "kalloc s = Ok 0 s" using vn alloc_none by (auto simp: vm_inv_def)
    then have run: "uvmcopy_loop old new len i s = kthen (uvmunmap new 0 (i div PGSIZE) True s) (\<lambda>s. Ok (- 1) s)"
      using lt l find by (simp add: uvmcopy_loop.simps [of old new len i] Let_def)
    have few: "length ps \<le> 3 * (pages len - ?v)" using Nil by simp
    show ?thesis
      unfolding run using fails [OF p refl refl touched_refl order_refl few] by blast
  next
    case (Cons q qs)
    obtain t where t: "kalloc s = Ok q t" "page_ok s q" "vm_inv t new Tn Ln qs" "touched s t {q}"
      using take_page [OF vn [unfolded Cons]] by blast
    let ?m = "memmove (unat q) (unat ?pa) 4096 (pmem t)" let ?t = "t\<lparr>pmem := ?m\<rparr>"
    let ?c = "\<lambda>j. pmem s (unat ?pa + j)"
    have sn': "space s new Tn Ln (q # qs) Dn" using sn Cons by simp
    have qp: "?pa \<noteq> q" using pages_used_free [OF so own(2)] Cons by auto
    have same: "pmem t (unat ?pa + j) = ?c j" if "j < 4096" for j
    proof (rule touched_pmem [OF t(4)])
      have "in_page ?pa (unat ?pa + j)" using that by (simp add: in_page_def)
      then show "\<not> in_page r (unat ?pa + j)" if "r \<in> {q}" for r
        using pages_disjoint [OF own(1) t(2) qp] that by blast
    qed
    have "\<exists>u T' ps'. page_added s new Tn Ln q qs Dn i ?fl ?c ?t u T' ps'"
    proof (rule add_page [OF sn' al va none PTE_FLAGS_less fb(3) [OF own(3)] t(1,4,3) refl])
      show "?m a = pmem t a" if "\<not> in_page q a" for a using that by (auto simp: memmove_eq splice_def in_page_def)
      show "?m (unat q + j) = ?c j" if "j < 4096" for j using that same by (simp add: memmove_eq)
    qed
    then obtain u T' ps' where pg: "page_added s new Tn Ln q qs Dn i ?fl ?c ?t u T' ps'" by blast
    have g: "grown ?t Tn qs u T' ps'" and su: "touched s u (ran Tn \<union> set ps)"
      using pg Cons by (simp_all add: page_added_def)
    have q0: "q \<noteq> 0" using t(2) by (simp add: page_ok_def)
    have rs: "ran T' \<union> set ps' = ran Tn \<union> set qs" using g by (simp add: grown_def)
    have tb: "ran Tn \<union> set ps \<subseteq> pages_used Tn Ln Dn \<union> set ps" by (auto simp: pages_used_def)
    have wide: "touched s w (pages_used Tn Ln Dn \<union> set ps)" if "touched s w (ran Tn \<union> set ps)" for w
      using that by (rule touched_mono) (rule tb)
    have few: "length qs \<le> length ps' + 2" using pg by (simp add: page_added_def)
    from pg [unfolded page_added_def, THEN conjunct2, THEN conjunct2, THEN conjunct2] show ?thesis
    proof (elim disjE conjE exE)
      fix w assume m0: "ps' = []" and m: "mappages new i PGSIZE q ?fl ?t = Ok (- 1) u" "kfree q u = Ok () w"
        "space w new T' Ln [q] Dn" "umem w Ln = umem s Ln" "touched s w (ran Tn \<union> set (q # qs))"
      have run: "uvmcopy_loop old new len i s = kthen (uvmunmap new 0 (i div PGSIZE) True w) (\<lambda>s. Ok (- 1) s)"
        using lt l find t(1) q0 m(1,2) pa by (simp add: uvmcopy_loop.simps [of old new len i] Let_def)
      have sub: "pages_used T' Ln Dn \<union> set [q] \<subseteq> pages_used Tn Ln Dn \<union> set ps"
        using rs Cons by (auto simp: pages_used_def)
      have tw: "touched s w (ran Tn \<union> set ps)" using m(5) Cons by simp
      note ps = pair_step [OF p tw tb m(3) sub]
      have few: "length ps \<le> 3 * (pages len - ?v)" using few m0 Cons n(1) by simp
      show ?thesis
        unfolding run using fails [OF ps(1,2) m(4) wide [OF tw] sub few] by blast
    next
      let ?e = "PA2PTE q OR ?fl OR PTE_V" let ?L = "Ln(?v \<mapsto> ?e)"
      assume m: "mappages new i PGSIZE q ?fl ?t = Ok 0 u" "space u new T' ?L ps' (insert ?v Dn)"
        "\<forall>a. umem u ?L a = (if a div 4096 = ?v \<and> ?fl AND PTE_U \<noteq> 0 then Some (?c (a mod 4096)) else umem s Ln a)"
      have run: "uvmcopy_loop old new len i s = uvmcopy_loop old new len (i + PGSIZE) u"
        using lt l find t(1) q0 m(1) pa by (simp add: uvmcopy_loop.simps [of old new len i] Let_def)
      have fresh: "?v \<notin> Dn" using sn none by (auto simp: space_def)
      have pe: "PTE2PA ?e = q" "PTE_FLAGS ?e = ?fl"
        by (rule new_entry(1) [OF t(2) PTE_FLAGS_less fb(3) [OF own(3)]])
          (rule trans [OF flags_of_entry [OF PTE_FLAGS_less] fb(2)])
      have "page_of ?L ` insert ?v Dn \<subseteq> insert q (page_of Ln ` Dn)" using pe(1) fresh by (auto simp: page_of_upd)
      then have sub: "pages_used T' ?L (insert ?v Dn) \<union> set ps' \<subseteq> pages_used Tn Ln Dn \<union> set ps"
        using rs Cons by (auto simp: pages_used_def)
      note ps = pair_step [OF p su tb m(2) sub]
      note nx = vpn_next [OF al lt(2)]
      have "\<exists>w r. uvmcopy_loop old new len (i + PGSIZE) u = Ok r w \<and>
          copy_result u old To Lo Do new T' ?L (insert ?v Dn) ps' (vpn (i + PGSIZE)) (pages len) r w"
      proof (rule Suc.IH [OF ps(1) nx(2) _ Suc.prems(4)])
        have "?v < 2 ^ 26" using va by (simp add: MAXVA_vpn)
        then show "unat (i + PGSIZE) \<le> 2 ^ 38" using nx(3) aligned_vpn [OF al] by simp
        show "n = pages len - vpn (i + PGSIZE)" using n(2) nx(1) by simp
        show "{vpn (i + PGSIZE)..<pages len} \<subseteq> Do" using Suc.prems(6) nx(1) by auto
        show "?L w = None" if "vpn (i + PGSIZE) \<le> w" "w < pages len" for w
          using Suc.prems(7) [of w] that nx(1) by simp
        show "{..<vpn (i + PGSIZE)} \<subseteq> insert ?v Dn" using Suc.prems(8) nx(1) by (auto simp: less_Suc_eq)
      qed
      then obtain w r where r: "uvmcopy_loop old new len (i + PGSIZE) u = Ok r w"
        "copy_result u old To Lo Do new T' ?L (insert ?v Dn) ps' (Suc ?v) (pages len) r w"
        unfolding nx(1) by blast
      have mem: "umem u ?L = (\<lambda>a. if a div 4096 = ?v then umem s Lo a else umem s Ln a)"
      proof
        fix a
        have "umem s Ln a = None" if "a div 4096 = ?v" using none that by (simp add: umem_def user_def)
        moreover have "umem s Lo a = (if ?fl AND PTE_U \<noteq> 0 then Some (?c (a mod 4096)) else None)" if "a div 4096 = ?v"
        proof -
          have "a < 2 ^ 38"
          proof -
            have "a div 4096 < 2 ^ 26" unfolding that using va by (simp add: MAXVA_vpn)
            then show ?thesis by (simp add: div_less_iff_less_mult)
          qed
          then show ?thesis using that e fb(1) by (simp add: umem_def user_def)
        qed
        ultimately show "umem u ?L a = (if a div 4096 = ?v then umem s Lo a else umem s Ln a)"
          using m(3) by simp
      qed
      have "copy_result s old To Lo Do new Tn Ln Dn ps ?v (pages len) r w"
        by (rule copy_step [OF r(2) wide [OF su] sub _ none fresh n(1) _ ps(2) mem]) (use pe(2) e few Cons in simp_all)
      then show ?thesis using run r(1) by auto
    qed
  qed
qed

section \<open>Starting an address space\<close>

lemma empty_tree: "(\<And>i. i < 512 \<Longrightarrow> entry m q i = 0) \<Longrightarrow> tree m q [(2, 0) \<mapsto> q] Map.empty"
  by (auto simp: tree_def split: if_splits)

lemma uvmcreate_ok:
  assumes "irq_ok s" and "free L_kmem s" and "free_list s (q # ps)"
  shows "\<exists>t. uvmcreate s = Ok q t \<and> space t q [(2, 0) \<mapsto> q] Map.empty ps {} \<and> touched s t {q} \<and> page_ok s q"
proof -
  have a: "pages_apart s Map.empty (q # ps)" using assms by (simp add: pages_apart_def)
  obtain t where t: "kalloc s = Ok q t" "page_ok s q" "pages_apart t Map.empty ps" "touched s t {q}" "q \<notin> set ps"
    using alloc_some [OF a] by auto
  let ?m = "\<lambda>a. if in_page q a then 0 else pmem t a" let ?u = "t\<lparr>pmem := ?m\<rparr>"
  have fp: "fill_page q 0 t = ?u"
    using fill_page_apply [of q 0 t] by (simp add: fill_page_def fun_eq_iff)
  have qt: "page_ok t q" using t(2) touched_state(3) [OF t(4)] by simp
  have u: "pages_apart ?u Map.empty ps" "touched t ?u {q}"
    by (rule apart_use [OF t(3), of "{q}"]; use qt t(5) in auto)+
  have "pages_apart ?u [(2, 0) \<mapsto> q] ps"
    by (rule apart_link [OF u(1)]) (use qt t(5) in \<open>simp_all add: page_ok_frame\<close>)
  moreover have "tree ?m q [(2, 0) \<mapsto> q] Map.empty"
    by (rule empty_tree, rule entry_zero) simp_all
  ultimately have "space ?u q [(2, 0) \<mapsto> q] Map.empty ps {}"
    by (simp add: space_def vm_inv_def user_def)
  moreover have "touched s ?u {q}" using touched_trans [OF t(4) u(2)] by simp
  moreover have "q \<noteq> 0" using t(2) by (simp add: page_ok_def)
  ultimately show ?thesis using t(1,2) fp by (intro exI [of _ ?u]) (simp add: uvmcreate_def)
qed

lemma uvmcreate_pair:
  assumes sp: "space s old To Lo (q # ps) Do"
  shows "\<exists>t. uvmcreate s = Ok q t \<and> pair t old To Lo Do q [(2, 0) \<mapsto> q] Map.empty {} ps \<and> umem t Lo = umem s Lo"
proof -
  have "irq_ok s" "free L_kmem s" "free_list s (q # ps)" using sp by (simp_all add: space_def vm_inv_def pages_apart_def)
  from uvmcreate_ok [OF this] obtain t where t: "uvmcreate s = Ok q t" "space t q [(2, 0) \<mapsto> q] Map.empty ps {}"
    "touched s t {q}" "page_ok s q"
    by blast
  have q: "q \<notin> pages_used To Lo Do" using pages_used_free [OF sp, of q] by auto
  have f: "free_list t ps" using t(2) by (simp add: space_def vm_inv_def pages_apart_def)
  have ps: "set ps \<inter> pages_used To Lo Do = {}" using pages_used_free [OF sp] by auto
  have "space t old To Lo ps Do" "umem t Lo = umem s Lo"
    by (rule space_other [OF sp t(3) _ _ f ps]; use t(4) q in simp)+
  moreover have "pages_used To Lo Do \<inter> pages_used [(2, 0) \<mapsto> q] Map.empty {} = {}"
    using q by (auto simp: pages_used_def)
  ultimately show ?thesis using t(1,2) by (auto simp: pair_def)
qed

text \<open>A machine with sixteen free pages, two address spaces on it, one of two pages.\<close>

definition vm_mem :: memst where "vm_mem = small_mem\<lparr>kend := 0x87ff0000\<rparr>"

lemma vm_mem_booted: "\<exists>s ps. kinit vm_mem = Ok () s \<and> irq_ok s \<and> free L_kmem s \<and> free_list s ps \<and> length ps = 16"
proof -
  have b: "irq_ok vm_mem" "freelist vm_mem = 0" "kend vm_mem = 0x87ff0000"
    using small_mem_ok by (simp_all add: vm_mem_def irq_ok_def irq_defs cong: if_cong)
  have "unat (PGROUNDUP (kend vm_mem)) + 4096 * 16 = unat PHYSTOP"
    by (simp add: b PGROUNDUP_def PGSIZE_def PHYSTOP_val)
  from kinit_ok [OF b(1,2) _ this] obtain s where "kinit vm_mem = Ok () s" "irq_ok s" "free L_kmem s"
    "free_list s (page_run (PGROUNDUP (kend vm_mem)) 16)"
    using b by (auto simp: PHYSTOP_val)
  moreover have "length (page_run (PGROUNDUP (kend vm_mem)) 16) = 16" by (simp add: page_run_def)
  ultimately show ?thesis by blast
qed

section \<open>The properties of the page-table code\<close>


text \<open>C5: Growing an address space (\<^verbatim>\<open>sbrk\<close>, \<^verbatim>\<open>exec\<close>) returns the new size, with exactly the new pages added, zeroed,
  each entry carrying exactly the flags valid, readable, user and the caller's \<^verbatim>\<open>xperm\<close>, and every old entry and byte
  kept; or it returns 0 and the memory is as it was, and then fewer than three free pages were there for each page
  asked for.  Either way no page is lost: those of the address space (page tables and memory) together with the free
  ones are the same as before.\<close>

theorem uvmalloc_grows:
  assumes "space s pt T L ps D" and "old \<le> new" and "unat new \<le> 2 ^ 38" and "x < 1024"
    and "dom L \<inter> {pages old..<pages new} = {}"
  shows "\<exists>t r T' ps' L' D'. uvmalloc pt old new x s = Ok r t \<and> space t pt T' L' ps' D' \<and>
     ran T' \<union> page_of L' ` D' \<union> set ps' = ran T \<union> page_of L ` D \<union> set ps \<and>
     (r = new \<and> D' = D \<union> {pages old..<pages new} \<and>
        (\<forall>v \<in> {pages old..<pages new}. user L' v \<and> PTE_FLAGS (the (L' v)) = PTE_V OR PTE_R OR PTE_U OR x) \<and>
        (\<forall>v. v \<notin> {pages old..<pages new} \<longrightarrow> L' v = L v) \<and>
        umem t L' = (\<lambda>a. if pages old \<le> a div 4096 \<and> a div 4096 < pages new then Some 0 else umem s L a) \<or>
      r = 0 \<and> L' = L \<and> D' = D \<and> umem t L' = umem s L \<and> length ps \<le> 3 * (pages new - pages old))"
proof -
  have "unat old \<le> unat new" using assms(2) by (simp add: word_le_nat_alt)
  then have le: "pages old + (pages new - pages old) = pages new" by (simp add: pages_def div_le_mono)
  from uvmalloc_ok [OF assms] obtain t r T' ps' L' D' where t: "uvmalloc pt old new x s = Ok r t" "space t pt T' L' ps' D'"
    and own: "pages_used T' L' D' \<union> set ps' = pages_used T L D \<union> set ps"
    and d: "r = new \<and> extends L D (pages old) (pages new - pages old) (PTE_V OR PTE_R OR PTE_U OR x) L' D' \<and>
        length ps \<le> length ps' + 3 * (pages new - pages old) \<and>
        umem t L' = zeroed (umem s L) (pages old) (pages new - pages old) \<or>
      r = 0 \<and> L' = L \<and> D' = D \<and> length ps \<le> 3 * (pages new - pages old) \<and> umem t L' = umem s L"
    by (elim exE conjE) (rule that)
  have "r = new \<and> D' = D \<union> {pages old..<pages new} \<and>
        (\<forall>v \<in> {pages old..<pages new}. user L' v \<and> PTE_FLAGS (the (L' v)) = PTE_V OR PTE_R OR PTE_U OR x) \<and>
        (\<forall>v. v \<notin> {pages old..<pages new} \<longrightarrow> L' v = L v) \<and>
        umem t L' = (\<lambda>a. if pages old \<le> a div 4096 \<and> a div 4096 < pages new then Some 0 else umem s L a) \<or>
      r = 0 \<and> L' = L \<and> D' = D \<and> umem t L' = umem s L \<and> length ps \<le> 3 * (pages new - pages old)"
    using d unfolding extends_def zeroed_def le by (elim disjE conjE) simp_all
  then show ?thesis
    using t own unfolding pages_used_def
    by (intro exI [of _ t] exI [of _ r] exI [of _ T'] exI [of _ ps'] exI [of _ L'] exI [of _ D'] conjI)
qed

text \<open>C6: A copy of kernel bytes into one process's memory writes exactly the bytes up to the first one the process
  may not use, returns 0 only if that is all of them, and leaves the memory of any other process as it was.\<close>

theorem copyout_isolated:
  assumes "pair s old To Lo Do new Tn Ln Dn ps"
  shows "\<exists>t k. copyout new va src len s = Ok (if k = unat len then 0 else - 1) t \<and> k \<le> unat len \<and>
     pair t old To Lo Do new Tn Ln Dn ps \<and> umem t Ln = uput (umem s Ln) (unat va) k src \<and> umem t Lo = umem s Lo \<and>
     (\<forall>i < k. umem s Ln (unat va + i) \<noteq> None) \<and> (k < unat len \<longrightarrow> umem s Ln (unat va + k) = None)"
proof -
  have sn: "space s new Tn Ln ps Dn" using assms by (simp add: pair_def)
  from copyout_ok [OF sn, of va src len] obtain t k where t: "copyout new va src len s = Ok (if k = unat len then 0 else - 1) t" "k \<le> unat len"
    "space t new Tn Ln ps Dn" "touched s t (page_of Ln ` Dn)" "umem t Ln = uput (umem s Ln) (unat va) k src"
    "\<forall>i < k. umem s Ln (unat va + i) \<noteq> None" "k < unat len \<longrightarrow> umem s Ln (unat va + k) = None"
    by (elim exE conjE) (rule that)
  note ps = pair_step [OF assms t(4) _ t(3)]
  have "pair t old To Lo Do new Tn Ln Dn ps" "umem t Lo = umem s Lo" by (rule ps; auto simp: pages_used_def)+
  then show ?thesis using t by blast
qed

text \<open>C7: Copying from a process's memory, by length or as a string, reads the bytes the process can read up to the
  first it cannot, changes nothing, and succeeds only when the whole length, or a terminating zero within it, was reached.\<close>

theorem copyin_reads:
  assumes "space s pt T L ps D"
  shows "(\<exists>k. copyin pt dst va len s =
       Ok (if k = unat len then 0 else - 1, splice dst 0 k (\<lambda>i. the (umem s L (unat va + i)))) s \<and> k \<le> unat len \<and>
       (\<forall>i < k. umem s L (unat va + i) \<noteq> None) \<and> (k < unat len \<longrightarrow> umem s L (unat va + k) = None)) \<and>
     (\<exists>k. text_length (umem s L) (unat va) (unat len) k \<and>
       (let found = (k < unat len \<and> umem s L (unat va + k) = Some 0) in
        copyinstr pt dst va len s =
          Ok (if found then 0 else - 1, splice dst 0 (if found then Suc k else k) (\<lambda>i. the (umem s L (unat va + i)))) s))"
  using copyin_ok [OF assms] copyinstr_loop_ok [OF assms] unfolding copyinstr_def by blast

text \<open>C8: Mapping a range keeps the three-level tree well formed and the pages apart: the range is mapped page by page from
  the first on, the rest of the mapping is unchanged, at most two pages a page are taken for tables, and stopping short means that memory ran out.\<close>

theorem mappages_extends:
  assumes "vm_inv s pt T L ps" and "0 < n" and "unat va + unat n \<le> 2 ^ 38" and "dom L \<inter> {vpn va..<vpn va + npages va n} = {}"
  shows "\<exists>t T' ps' j. mappages pt va n pa perm s = Ok (if j = npages va n then 0 else - 1) t \<and> j \<le> npages va n \<and>
     vm_inv t pt T' (map_pages L (vpn va) j pa perm) ps' \<and> set ps' \<subseteq> set ps \<and> (j < npages va n \<longrightarrow> ps' = []) \<and>
     length ps \<le> length ps' + 2 * npages va n"
proof -
  have "\<exists>t T' ps' j. mappages pt va n pa perm s = Ok (if j = npages va n then 0 else - 1) t \<and>
     vm_inv t pt T' (map_pages L (vpn va) j pa perm) ps' \<and> grown s T ps t T' ps' \<and> j \<le> npages va n \<and>
     (j < npages va n \<longrightarrow> ps' = []) \<and> length ps \<le> length ps' + 2 * npages va n"
    by (rule mappages_ok [OF assms(1-3)]) (use assms(4) in auto)
  then obtain t T' ps' j where m: "mappages pt va n pa perm s = Ok (if j = npages va n then 0 else - 1) t"
    "vm_inv t pt T' (map_pages L (vpn va) j pa perm) ps'" "grown s T ps t T' ps'" "j \<le> npages va n" "j < npages va n \<longrightarrow> ps' = []"
    "length ps \<le> length ps' + 2 * npages va n"
    by (elim exE conjE) (rule that)
  have "set ps' \<subseteq> set ps"
  proof
    fix q assume q: "q \<in> set ps'"
    then have "q \<in> ran T \<union> set ps" using m(3) by (auto simp: grown_def)
    moreover have "q \<notin> ran T'" using m(2) q by (auto simp: vm_inv_def pages_apart_def)
    moreover have "ran T \<subseteq> ran T'" using m(3) by (auto simp: grown_def map_le_def ran_def dom_def) metis
    ultimately show "q \<in> set ps" by blast
  qed
  then show ?thesis using m by blast
qed

section \<open>A machine with two address spaces\<close>

lemma vm_user: "\<exists>(s :: memst) To Lo old new ps. pair s old To Lo {0, 1} new [(2, 0) \<mapsto> new] Map.empty {} ps \<and> 8 \<le> length ps \<and>
    umem s Lo = zeroed (\<lambda>_. None) 0 2"
proof -
  obtain s :: memst and ps where s: "irq_ok s" "free L_kmem s" "free_list s ps" "length ps = 16" using vm_mem_booted by blast
  then obtain q qs where q: "ps = q # qs" "length qs = 15" by (cases ps) auto
  obtain s :: memst where s: "space s q [(2, 0) \<mapsto> q] Map.empty qs {}"
    using uvmcreate_ok [OF s(1,2) s(3) [unfolded q]] by blast
  have pg: "pages 0 = 0" "pages 8192 = 2" by (simp_all add: pages_def)
  have e: "umem s Map.empty = (\<lambda>_. None)" by (auto simp: umem_def user_def fun_eq_iff)
  have c: "unat (8192 :: u64) \<le> 2 ^ 38" "(4 :: u64) < 1024" "dom (Map.empty :: mapping) \<inter> {pages 0..<pages 8192} = {}" by simp_all
  obtain t :: memst and T' ps' L' D' where a: "space t q T' L' ps' D'" "extends Map.empty {} 0 2 (PTE_V OR PTE_R OR PTE_U OR 4) L' D'" "15 \<le> length ps' + 6"
    "umem t L' = zeroed (\<lambda>_. None) 0 2"
    using uvmalloc_ok [OF s word_zero_le c] unfolding pg e q(2) by auto
  have "{} \<union> {0..<0 + 2} = {0, 1 :: nat}" by auto
  then have "D' = {0, 1}" using a(2) unfolding extends_def by simp
  then have t: "space t q T' L' ps' {0, 1}" "15 \<le> length ps' + 6" "umem t L' = zeroed (\<lambda>_. None) 0 2" using a by simp_all
  then obtain r rs where r: "ps' = r # rs" by (cases ps') auto
  obtain u :: memst where "pair u q T' L' {0, 1} r [(2, 0) \<mapsto> r] Map.empty {} rs" "umem u L' = umem t L'"
    using uvmcreate_pair [OF t(1) [unfolded r]] by blast
  then show ?thesis using t r by (intro exI [of _ u] exI [of _ T'] exI [of _ L'] exI [of _ q] exI [of _ r] exI [of _ rs]) simp
qed


theorem uvmalloc_grows_witness:
  "\<exists>s t (pt :: u64) (L' :: mapping). uvmalloc pt 8192 12289 PTE_W (s :: memst) = Ok 12289 t \<and> umem t L' 16383 = Some 0"
proof -
  obtain s :: memst and To Lo old new ps where p: "pair s old To Lo {0, 1} new [(2, 0) \<mapsto> new] Map.empty {} ps" "8 \<le> length ps"
    using vm_user by blast
  have s: "space s new [(2, 0) \<mapsto> new] Map.empty ps {}" using p(1) by (simp add: pair_def)
  have pg: "pages 8192 = 2" "pages 12289 = 4" by (simp_all add: pages_def)
  have c: "(8192 :: u64) \<le> 12289" "unat (12289 :: u64) \<le> 2 ^ 38" "PTE_W < 1024" "dom (Map.empty :: mapping) \<inter> {pages 8192..<pages 12289} = {}"
    by (simp_all add: PTE_W_def)
  obtain t L' where t: "uvmalloc new 8192 12289 PTE_W s = Ok 12289 t"
    "umem t L' = (\<lambda>a. if 2 \<le> a div 4096 \<and> a div 4096 < 4 then Some 0 else umem s Map.empty a)"
    using uvmalloc_grows [OF s c] p(2) unfolding pg by auto
  have "umem t L' 16383 = Some 0" unfolding t(2) by simp
  then show ?thesis using t(1) by blast
qed

theorem copyout_isolated_witness:
  "\<exists>s t (new :: u64) (old :: u64) (Lo :: mapping). copyout new 100 (\<lambda>_. 7) 5 (s :: memst) = Ok (- 1) t \<and>
     (\<exists>t'. copyout old 8190 (\<lambda>_. 7) 2 s = Ok 0 t') \<and> umem t Lo 100 = Some 0"
proof -
  obtain s :: memst and To Lo old new ps where p: "pair s old To Lo {0, 1} new [(2, 0) \<mapsto> new] Map.empty {} ps"
    "umem s Lo = zeroed (\<lambda>_. None) 0 2"
    using vm_user by blast
  have e: "umem s Map.empty a = None" for a by (simp add: umem_def user_def)
  obtain t k where t: "copyout new 100 (\<lambda>_. 7) 5 s = Ok (if k = unat (5 :: u64) then 0 else - 1) t" "umem t Lo = umem s Lo"
    "\<forall>i < k. umem s Map.empty (unat (100 :: u64) + i) \<noteq> None" 
    using copyout_isolated [OF p(1), of 100 "\<lambda>_. 7" 5] by (elim exE conjE) (rule that)
  have k: "k = 0" using t(3) e by auto
  have pr: "pair s new [(2, 0) \<mapsto> new] Map.empty {} old To Lo {0, 1} ps" using p(1) by (auto simp: pair_def)
  obtain t' k' where t': "copyout old 8190 (\<lambda>_. 7) 2 s = Ok (if k' = unat (2 :: u64) then 0 else - 1) t'" "k' \<le> unat (2 :: u64)"
    "k' < unat (2 :: u64) \<longrightarrow> umem s Lo (unat (8190 :: u64) + k') = None"
    using copyout_isolated [OF pr, of 8190 "\<lambda>_. 7" 2] by (elim exE conjE) (rule that)
  have "umem s Lo (8190 + i) = Some 0" if "i < 2" for i using that by (auto simp: p(2) zeroed_def)
  then have "k' = 2" using t'(2,3) by (cases "k' < 2") auto
  then show ?thesis using t t' k p(2) by (intro exI [of _ s] exI [of _ t] exI [of _ new] exI [of _ old] exI [of _ Lo]) (auto simp: zeroed_def)
qed

theorem copyin_reads_witness:
  "\<exists>s (old :: u64). copyin old (\<lambda>_. 9) 4090 10 (s :: memst) = Ok (0, splice (\<lambda>_. 9) 0 10 (\<lambda>_. 0)) s \<and>
     copyinstr old (\<lambda>_. 9) 4090 10 s = Ok (0, (\<lambda>_. 9)(0 := 0)) s"
proof -
  obtain s :: memst and To Lo old new ps where p: "pair s old To Lo {0, 1} new [(2, 0) \<mapsto> new] Map.empty {} ps"
    "umem s Lo = zeroed (\<lambda>_. None) 0 2"
    using vm_user by blast
  have s: "space s old To Lo ps {0, 1}" using p(1) by (simp add: pair_def)
  have z: "umem s Lo (4090 + i) = Some 0" if "i < 10" for i using that by (auto simp: p(2) zeroed_def)
  have u: "unat (4090 :: u64) = 4090" "unat (10 :: u64) = 10" by simp_all
  note c = copyin_reads [OF s, of "\<lambda>_. 9" 4090 10, unfolded u]
  from c [THEN conjunct1] obtain k where k: "copyin old (\<lambda>_. 9) 4090 10 s =
       Ok (if k = 10 then 0 else - 1, splice (\<lambda>_. 9) 0 k (\<lambda>i. the (umem s Lo (4090 + i)))) s" "k \<le> 10"
       "k < 10 \<longrightarrow> umem s Lo (4090 + k) = None"
    by (elim exE conjE) (rule that)
  have "k = 10" using k(2,3) z [of k] by auto
  moreover have "splice (\<lambda>_. 9) 0 10 (\<lambda>i. the (umem s Lo (4090 + i))) = splice (\<lambda>_. 9) 0 10 (\<lambda>_. 0)"
    using z by (auto simp: splice_def fun_eq_iff)
  ultimately have 1: "copyin old (\<lambda>_. 9) 4090 10 s = Ok (0, splice (\<lambda>_. 9) 0 10 (\<lambda>_. 0)) s" using k(1) by simp
  from c [THEN conjunct2] obtain j where j: "text_length (umem s Lo) 4090 10 j"
    "copyinstr old (\<lambda>_. 9) 4090 10 s = (let found = (j < 10 \<and> umem s Lo (4090 + j) = Some 0) in
          Ok (if found then 0 else - 1, splice (\<lambda>_. 9) 0 (if found then Suc j else j) (\<lambda>i. the (umem s Lo (4090 + i)))) s)"
    by (auto simp: Let_def)
  have "j = 0" using j(1) z [of 0] by (auto simp: text_length_def)
  then have "copyinstr old (\<lambda>_. 9) 4090 10 s = Ok (0, (\<lambda>_. 9)(0 := 0)) s"
    using j(2) z [of 0] by (auto simp: splice_def fun_eq_iff)
  then show ?thesis using 1 by blast
qed

theorem mappages_extends_witness:
  "\<exists>s t (pt :: u64). mappages pt 4095 2 0x80000000 (PTE_R OR PTE_X) (s :: memst) = Ok 0 t"
proof -
  obtain s :: memst and To Lo old new ps where p: "pair s old To Lo {0, 1} new [(2, 0) \<mapsto> new] Map.empty {} ps" "8 \<le> length ps"
    using vm_user by blast
  have v: "vm_inv s new [(2, 0) \<mapsto> new] Map.empty ps" using p(1) by (simp add: pair_def space_def)
  have n: "npages 4095 2 = 2" "vpn 4095 = 0" by (simp_all add: npages_def vpn_def)
  have c: "(0 :: u64) < 2" "unat (4095 :: u64) + unat (2 :: u64) \<le> 2 ^ 38"
    "dom (Map.empty :: mapping) \<inter> {vpn 4095..<vpn 4095 + npages 4095 2} = {}" by simp_all
  obtain t and ps' :: "u64 list" and j :: nat where "mappages new 4095 2 0x80000000 (PTE_R OR PTE_X) s = Ok (if j = 2 then 0 else - 1) t" "j \<le> 2"
    "j < 2 \<longrightarrow> ps' = []" "length ps \<le> length ps' + 2 * 2"
    using mappages_extends [OF v c, of "0x80000000" "PTE_R OR PTE_X"] unfolding n(1) by (elim exE conjE) (rule that)
  then show ?thesis using p(2) by (cases "j = 2") auto
qed

end
