(* ===== verification/Pipe.thy ===== *)
theory Pipe
  imports File Uvmcopy Bcache
begin

text \<open>
  Pipes as queues: the ring buffer of \<^verbatim>\<open>pipe.c\<close>, with its two counters that wrap around, is a first-in first-out
  queue of at most \<open>PIPESIZE\<close> bytes, and \<^verbatim>\<open>pipewrite\<close> and \<^verbatim>\<open>piperead\<close> move bytes between it and user memory.
\<close>

section \<open>Bounded queues\<close>

text \<open>What the users of a bounded queue rely on, and what follows for any sequence of operations on it.\<close>

datatype 'a qop = Put 'a | Get

fun qrun :: "('a \<Rightarrow> 'q \<Rightarrow> 'q) \<Rightarrow> ('q \<Rightarrow> 'a \<times> 'q) \<Rightarrow> ('q \<Rightarrow> bool) \<Rightarrow> ('q \<Rightarrow> bool) \<Rightarrow> 'a qop list \<Rightarrow> 'q \<Rightarrow> 'a list \<times> 'a list \<times> 'q" where
  "qrun put get full vacant [] x = ([], [], x)"
| "qrun put get full vacant (Put c # ops) x =
     (if full x then qrun put get full vacant ops x
      else (case qrun put get full vacant ops (put c x) of (ins, outs, y) \<Rightarrow> (c # ins, outs, y)))"
| "qrun put get full vacant (Get # ops) x =
     (if vacant x then qrun put get full vacant ops x
      else (case get x of (c, x) \<Rightarrow> (case qrun put get full vacant ops x of (ins, outs, y) \<Rightarrow> (ins, c # outs, y))))"

locale bounded_queue =
  fixes put :: "'a \<Rightarrow> 'q \<Rightarrow> 'q" and get :: "'q \<Rightarrow> 'a \<times> 'q" and full :: "'q \<Rightarrow> bool" and vacant :: "'q \<Rightarrow> bool"
    and items :: "'q \<Rightarrow> 'a list" and ok :: "'q \<Rightarrow> bool" and cap :: nat
  assumes put_law: "ok x \<Longrightarrow> length (items x) < cap \<Longrightarrow> items (put c x) = items x @ [c] \<and> ok (put c x)"
    and get_law: "ok x \<Longrightarrow> items x \<noteq> [] \<Longrightarrow> get x = (c, y) \<Longrightarrow> items x = c # items y \<and> ok y"
    and full_law: "ok x \<Longrightarrow> full x \<longleftrightarrow> length (items x) = cap"
    and empty_law: "ok x \<Longrightarrow> vacant x \<longleftrightarrow> items x = []"
    and cap_law: "ok x \<Longrightarrow> length (items x) \<le> cap"
begin

lemma fifo:
  "ok x \<Longrightarrow> qrun put get full vacant ops x = (ins, outs, y) \<Longrightarrow> items x @ ins = outs @ items y \<and> ok y"
proof (induction ops arbitrary: x ins outs)
  case Nil
  then show ?case by simp
next
  case (Cons a ops)
  show ?case
  proof (cases a)
    case (Put c)
    show ?thesis
    proof (cases "full x")
      case True
      then show ?thesis using Cons Put by simp
    next
      case False
      then have lt: "length (items x) < cap" using Cons.prems(1) full_law cap_law [of x] by (simp add: le_less)
      obtain ins' where r: "qrun put get full vacant ops (put c x) = (ins', outs, y)" "ins = c # ins'"
        using Cons.prems(2) Put False by (auto split: prod.splits)
      show ?thesis using put_law [OF Cons.prems(1) lt, of c] Cons.IH [OF _ r(1)] r(2) by simp
    qed
  next
    case Get
    show ?thesis
    proof (cases "vacant x")
      case True
      then show ?thesis using Cons Get by simp
    next
      case False
      then have ne: "items x \<noteq> []" using Cons.prems(1) empty_law by simp
      obtain c z where g: "get x = (c, z)" by (cases "get x")
      obtain outs' where r: "qrun put get full vacant ops z = (ins, outs', y)" "outs = c # outs'"
        using Cons.prems(2) Get False g by (auto split: prod.splits)
      show ?thesis using get_law [OF Cons.prems(1) ne g] Cons.IH [OF _ r(1)] r(2) by simp
    qed
  qed
qed

end

section \<open>The ring buffer\<close>

definition pqueue :: "pipe_t \<Rightarrow> u8 list" where
  "pqueue x = map (\<lambda>k. p_data x (unat (p_nread x + of_nat k) mod PIPESIZE)) [0..<unat (p_nwrite x - p_nread x)]"

definition pipe_ok :: "pipe_t \<Rightarrow> bool" where
  "pipe_ok x \<longleftrightarrow> unat (p_nwrite x - p_nread x) \<le> PIPESIZE"

definition pipe_full :: "pipe_t \<Rightarrow> bool" where "pipe_full x \<longleftrightarrow> p_nwrite x = p_nread x + of_nat PIPESIZE"
definition pipe_empty :: "pipe_t \<Rightarrow> bool" where "pipe_empty x \<longleftrightarrow> p_nread x = p_nwrite x"

text \<open>The size divides \<open>2 ^ 32\<close>, so the wrap-around of a counter is invisible in the index.\<close>

lemma slot: "unat (a + of_nat k :: u32) mod PIPESIZE = (unat a + k) mod PIPESIZE"
proof -
  have "unat (a + of_nat k) = (unat a + k) mod 2 ^ 32" by (simp add: unat_word_ariths unat_of_nat mod_simps)
  then show ?thesis by (simp add: PIPESIZE_def mod_mod_cancel)
qed

lemma length_pqueue: "length (pqueue x) = unat (p_nwrite x - p_nread x)"
  by (simp add: pqueue_def)

lemma pqueue_slots: "pqueue x = map (\<lambda>k. p_data x ((unat (p_nread x) + k) mod PIPESIZE)) [0..<length (pqueue x)]"
  by (simp add: pqueue_def slot)

lemma pipe_full_iff: "pipe_full x \<longleftrightarrow> length (pqueue x) = PIPESIZE"
proof -
  have "p_nwrite x = p_nread x + 512 \<longleftrightarrow> p_nwrite x - p_nread x = 512" by (auto simp: algebra_simps)
  then show ?thesis by (simp add: pipe_full_def length_pqueue PIPESIZE_def word_unat_eq_iff)
qed

lemma pipe_empty_iff: "pipe_empty x \<longleftrightarrow> pqueue x = []"
proof -
  have "p_nread x = p_nwrite x \<longleftrightarrow> p_nwrite x - p_nread x = 0" by auto
  then show ?thesis by (simp add: pipe_empty_def pqueue_def unat_eq_zero)
qed

lemma put_queue:
  assumes "length (pqueue x) < PIPESIZE"
  shows "pqueue (pipe_put c x) = pqueue x @ [c]" "pipe_ok (pipe_put c x)"
proof -
  let ?n = "length (pqueue x)"
  have lt: "unat (p_nwrite x - p_nread x) < 512" using assms by (simp add: length_pqueue PIPESIZE_def)
  have "unat (p_nwrite x - p_nread x + 1) = Suc ?n"
    using lt by (simp add: length_pqueue unat_word_ariths)
  then have n: "unat (p_nwrite x + 1 - p_nread x) = Suc ?n" by (simp add: algebra_simps)
  have w: "unat (p_nwrite x) mod PIPESIZE = (unat (p_nread x) + ?n) mod PIPESIZE"
    using slot [of "p_nread x" ?n] by (simp add: length_pqueue)
  have d: "(unat (p_nread x) + k) mod PIPESIZE \<noteq> (unat (p_nread x) + ?n) mod PIPESIZE" if "k < ?n" for k
  proof
    assume "(unat (p_nread x) + k) mod PIPESIZE = (unat (p_nread x) + ?n) mod PIPESIZE"
    then have "PIPESIZE dvd unat (p_nread x) + ?n - (unat (p_nread x) + k)"
      using mod_eq_dvd_iff_nat [of "unat (p_nread x) + k" "unat (p_nread x) + ?n" PIPESIZE] that by simp
    then show False using that assms by (auto dest: dvd_imp_le)
  qed
  show "pqueue (pipe_put c x) = pqueue x @ [c]"
    by (rule nth_equalityI)
      (use n w d in \<open>auto simp: pipe_put_def pqueue_def slot nth_append length_pqueue [unfolded pqueue_def] less_Suc_eq\<close>)
  show "pipe_ok (pipe_put c x)" using n assms by (simp add: pipe_ok_def pipe_put_def)
qed

lemma get_queue:
  assumes "pipe_ok x" and "pqueue x \<noteq> []" and "pipe_get x = (c, y)"
  shows "pqueue x = c # pqueue y" "pipe_ok y"
proof -
  have y: "y = x\<lparr>p_nread := p_nread x + 1\<rparr>" "c = p_data x (unat (p_nread x) mod PIPESIZE)"
    using assms(3) by (auto simp: pipe_get_def)
  have pos: "0 < unat (p_nwrite x - p_nread x)" using assms(2) by (simp add: pqueue_def)
  have "unat (p_nwrite x - p_nread x - 1) = unat (p_nwrite x - p_nread x) - 1"
    using pos by (subst unat_sub) (simp_all add: word_le_nat_alt)
  then have n: "unat (p_nwrite x - (p_nread x + 1)) = unat (p_nwrite x - p_nread x) - 1" by (simp add: algebra_simps)
  have s: "p_nread x + 1 + of_nat k = p_nread x + of_nat (Suc k)" for k by simp
  obtain m where m: "unat (p_nwrite x - p_nread x) = Suc m" using pos gr0_implies_Suc by blast
  show "pqueue x = c # pqueue y"
  proof -
    have yf: "p_data y = p_data x" "p_nread y = p_nread x + 1" "p_nwrite y = p_nwrite x" using y(1) by simp_all
    have u: "[0..<Suc m] = 0 # map Suc [0..<m]" by (simp add: upt_conv_Cons map_Suc_upt del: upt_Suc)
    have ny: "unat (p_nwrite x - (p_nread x + 1)) = m" using n m by simp
    have "pqueue y = map (\<lambda>k. p_data x (unat (p_nread x + of_nat (Suc k)) mod PIPESIZE)) [0..<m]"
      by (simp only: pqueue_def yf ny s)
    moreover have "pqueue x = c # map (\<lambda>k. p_data x (unat (p_nread x + of_nat (Suc k)) mod PIPESIZE)) [0..<m]"
      by (simp only: pqueue_def m u y(2) list.map map_map comp_def) simp
    ultimately show ?thesis by simp
  qed
  show "pipe_ok y" using assms(1) n y by (simp add: pipe_ok_def)
qed

interpretation pq: bounded_queue pipe_put pipe_get pipe_full pipe_empty pqueue pipe_ok PIPESIZE
proof
  show "pqueue (pipe_put c x) = pqueue x @ [c] \<and> pipe_ok (pipe_put c x)" if "pipe_ok x" "length (pqueue x) < PIPESIZE" for x c
    using put_queue [OF that(2)] by blast
  show "pqueue x = c # pqueue y \<and> pipe_ok y" if "pipe_ok x" "pqueue x \<noteq> []" "pipe_get x = (c, y)" for x c y
    using get_queue [OF that] by blast
  show "pipe_full x \<longleftrightarrow> length (pqueue x) = PIPESIZE" for x by (rule pipe_full_iff)
  show "pipe_empty x \<longleftrightarrow> pqueue x = []" for x by (rule pipe_empty_iff)
  show "length (pqueue x) \<le> PIPESIZE" if "pipe_ok x" for x using that by (simp add: pipe_ok_def length_pqueue)
qed

text \<open>C12: A pipe is first in, first out across every wrap-around of its counters: whatever sequence of bytes is stored
  while it is not full and taken while it is not empty, the bytes taken followed by the bytes still in it are the bytes
  that were in it followed by the bytes stored.\<close>

theorem pipe_fifo:
  "case qrun pipe_put pipe_get pipe_full pipe_empty ops \<lparr>p_data = d, p_nread = a, p_nwrite = a, p_readopen = r, p_writeopen = w\<rparr>
   of (ins, outs, y) \<Rightarrow> ins = outs @ pqueue y \<and> length (pqueue y) \<le> PIPESIZE"
proof -
  let ?x = "\<lparr>p_data = d, p_nread = a, p_nwrite = a, p_readopen = r, p_writeopen = w\<rparr>"
  have x: "pipe_ok ?x" "pqueue ?x = []" by (simp_all add: pipe_ok_def pqueue_def)
  show ?thesis
    using pq.fifo [OF x(1)] x(2) pq.cap_law by (auto split: prod.split)
qed

section \<open>Moving bytes\<close>

lemma umem_cong: "pmem t = pmem s \<Longrightarrow> umem t = umem s"
  by (intro ext) (simp add: umem_def)

lemma space_cong:
  assumes "space s pt T L ps D" and "pmem t = pmem s" and "freelist t = freelist s" and "kend t = kend s"
    and "irq_ok t" and "free L_kmem t"
  shows "space t pt T L ps D" "umem t L = umem s L"
  using assms umem_cong [OF assms(2)] by (simp_all add: space_def vm_inv_def pages_apart_def free_list_def page_ok_def)

lemma upd_pipe_frame [frame_simps]:
  "irq_ok (upd_pipe a f s) \<longleftrightarrow> irq_ok s" "free l (upd_pipe a f s) \<longleftrightarrow> free l s" "mycpu (upd_pipe a f s) = mycpu s"
  "me (upd_pipe a f s) = me s" "procs (upd_pipe a f s) = procs s" "pmem (upd_pipe a f s) = pmem s"
  "freelist (upd_pipe a f s) = freelist s" "kend (upd_pipe a f s) = kend s" "proc_locks_free (upd_pipe a f s) \<longleftrightarrow> proc_locks_free s"
  "upd_pipe a f (grab l s) = grab l (upd_pipe a f s)" "pipes (grab l s) = pipes s" "ftable (upd_pipe a f s) = ftable s"
  by (simp_all add: upd_pipe_def irq_ok_def free_def me_def proc_locks_free_def grab_def Let_def irq_defs)

lemma pipes_upd_pipe [simp]: "pipes (upd_pipe a f s) = (pipes s)(a := f (pipes s a))"
  by (simp add: upd_pipe_def)

lemma copyin_byte:
  assumes "space s pt T L ps D"
  shows "copyin pt d a 1 s = (case umem s L (unat a) of None \<Rightarrow> Ok (- 1, d) s | Some b \<Rightarrow> Ok (0, d(0 := b)) s)"
proof -
  have u: "unat (1 :: u64) = 1" by simp
  obtain k where k: "copyin pt d a 1 s = Ok (if k = 1 then 0 else - 1, splice d 0 k (\<lambda>i. the (umem s L (unat a + i)))) s"
    "k \<le> 1" "\<forall>i < k. umem s L (unat a + i) \<noteq> None" "k < 1 \<longrightarrow> umem s L (unat a + k) = None"
    using copyin_ok [OF assms, of d a 1] unfolding u by (elim exE conjE) (rule that)
  show ?thesis
  proof (cases "k = 1")
    case True
    then obtain b where b: "umem s L (unat a) = Some b" using k(3) by auto
    have "splice d 0 1 (\<lambda>i. the (umem s L (unat a + i))) = d(0 := b)" using b by (auto simp: splice_def fun_eq_iff)
    then show ?thesis using k(1) True b by simp
  next
    case False
    then have "k = 0" using k(2) by simp
    then show ?thesis using k(1,4) by (simp add: splice_def)
  qed
qed

lemma copyout_byte:
  assumes "space s pt T L ps D"
  shows "\<exists>t. copyout pt a src 1 s = Ok (if umem s L (unat a) = None then - 1 else 0) t \<and> space t pt T L ps D \<and>
     touched s t (page_of L ` D) \<and> umem t L = uput (umem s L) (unat a) (if umem s L (unat a) = None then 0 else 1) src"
proof -
  have u: "unat (1 :: u64) = 1" by simp
  obtain t k where k: "copyout pt a src 1 s = Ok (if k = 1 then 0 else - 1) t" "k \<le> 1" "space t pt T L ps D"
    "touched s t (page_of L ` D)" "umem t L = uput (umem s L) (unat a) k src"
    "\<forall>i < k. umem s L (unat a + i) \<noteq> None" "k < 1 \<longrightarrow> umem s L (unat a + k) = None"
    using copyout_ok [OF assms, of a src 1] unfolding u by (elim exE conjE) (rule that)
  show ?thesis
  proof (cases "umem s L (unat a) = None")
    case True
    then have "k = 0" using k(6) by (cases k) auto
    then show ?thesis using k(1,3-5) True by auto
  next
    case False
    then have "k = 1" using k(2,7) by (cases k) auto
    then show ?thesis using k(1,3-5) False by auto
  qed
qed

text \<open>A process in the kernel, holding no lock, not killed, with its address space.\<close>

definition calls :: "'a filest_scheme \<Rightarrow> nat \<Rightarrow> tables \<Rightarrow> mapping \<Rightarrow> u64 list \<Rightarrow> nat set \<Rightarrow> bool" where
  "calls s p T L ps D \<longleftrightarrow> quiet s \<and> me s = Some p \<and> pkilled (procs s p) = 0 \<and> space s (pagetable (procs s p)) T L ps D"

lemma calls_facts:
  assumes "calls s p T L ps D"
  shows "irq_ok s" "free l s" "proc_locks_free s" "noff (mycpu s) = 0" "me s = Some p" "pkilled (procs s p) = 0"
    "space s (pagetable (procs s p)) T L ps D" "p < NPROC"
  using assms quiet_procs [of s] by (auto simp: calls_def quiet_def)

lemma calls_pipe [simp]: "calls (upd_pipe a f s) p T L ps D \<longleftrightarrow> calls s p T L ps D"
proof -
  have "space (upd_pipe a f s) q T L ps D \<longleftrightarrow> space s q T L ps D" for q
    by (simp add: space_def vm_inv_def pages_apart_def free_list_def page_ok_def frame_simps)
  then show ?thesis by (simp add: calls_def quiet_def frame_simps)
qed

lemma space_grab_lock:
  assumes "calls s p T L ps D" and "l \<noteq> L_kmem"
  shows "space (grab l s) (pagetable (procs s p)) T L ps D" "umem (grab l s) L = umem s L"
  using space_cong [OF calls_facts(7) [OF assms(1)], of "grab l s"] calls_facts(1,2) [OF assms(1)] assms(2)
  by (simp_all add: frame_simps kernel_simps)

lemma space_grab:
  assumes "calls s p T L ps D"
  shows "space (grab (L_pipe a) s) (pagetable (procs s p)) T L ps D" "umem (grab (L_pipe a) s) L = umem s L"
  by (rule space_grab_lock [OF assms]; simp)+

lemma umem_upd_pipe [simp]: "umem (upd_pipe a f s) L = umem s L"
  using umem_cong [of "upd_pipe a f s" s] by (simp add: frame_simps)

text \<open>The ends of \<^verbatim>\<open>pipewrite\<close> and \<^verbatim>\<open>piperead\<close>: wake the other side up and let go; or wake it up and sleep.\<close>

definition wake :: "chan \<Rightarrow> 'a filest_scheme \<Rightarrow> 'a filest_scheme" where
  "wake ch s = s\<lparr>procs := woken ch (me s) (procs s)\<rparr>"

lemma wake_simps [frame_simps]:
  "irq_ok (wake ch s) \<longleftrightarrow> irq_ok s" "free l (wake ch s) \<longleftrightarrow> free l s" "mycpu (wake ch s) = mycpu s" "me (wake ch s) = me s"
  "pipes (wake ch s) = pipes s" "procs (wake ch s) = woken ch (me s) (procs s)" "umem (wake ch s) = umem s"
  using umem_cong [of "wake ch s" s] by (simp_all add: wake_def frame_simps)

lemma pipe_fin:
  assumes "irq_ok s" and "proc_locks_free s" and "free (L_pipe a) s"
  shows "kthen (wakeup ch (grab (L_pipe a) s)) (\<lambda>s. kthen (release (L_pipe a) s) (\<lambda>s. Ok r s)) = Ok r (wake ch s)"
  using assms by (simp add: wakeup_ok wake_def kernel_simps frame_simps)

lemma pipe_wait:
  assumes "irq_ok s" and "\<And>l. free l s" and "proc_locks_free s" and "me s = Some p" and "noff (mycpu s) = 0"
  shows "kthen (wakeup ch (grab (L_pipe a) s)) (\<lambda>s. kthen (sleep ch' (L_pipe a) s) f) =
     Blocked (Swtch p) (grab (L_proc p) (upd_proc p (\<lambda>q. q\<lparr>pchan := Some ch', pstate := SLEEPING\<rparr>) (wake ch s)))"
  using assms sleep_ok [of "wake ch s" "L_pipe a" p ch'] by (simp add: wakeup_ok wake_def kernel_simps frame_simps)

lemma upd_pipe_upd [simp]: "upd_pipe a f (upd_pipe a g s) = upd_pipe a (\<lambda>x. f (g x)) s"
  by (simp add: upd_pipe_def)

definition asleep :: "nat \<Rightarrow> chan \<Rightarrow> 'a filest_scheme \<Rightarrow> 'a filest_scheme" where
  "asleep p ch s = grab (L_proc p) (upd_proc p (\<lambda>q. q\<lparr>pchan := Some ch, pstate := SLEEPING\<rparr>) s)"

text \<open>What a writer leaves: \<open>k\<close> of its \<open>n\<close> bytes are in the pipe, and it returns, or sleeps because the pipe is full.\<close>

definition written :: "'a filest_scheme \<Rightarrow> nat \<Rightarrow> u64 \<Rightarrow> (nat \<Rightarrow> u8 option) \<Rightarrow> nat \<Rightarrow> nat \<Rightarrow> (u32, 'a filest_scheme) kr \<Rightarrow> bool" where
  "written s p a src i n r \<longleftrightarrow>
     (\<exists>k y. i \<le> k \<and> k \<le> n \<and> (\<forall>j. i \<le> j \<and> j < k \<longrightarrow> src j \<noteq> None) \<and>
        pqueue y = pqueue (pipes s a) @ map (\<lambda>j. the (src j)) [i..<k] \<and> pipe_ok y \<and>
        p_readopen y = p_readopen (pipes s a) \<and> p_writeopen y = p_writeopen (pipes s a) \<and>
        (if k < n \<and> length (pqueue y) = PIPESIZE
         then r = Blocked (Swtch p) (asleep p (Ch_nwrite a) (wake (Ch_nread a) (upd_pipe a (\<lambda>_. y) s)))
         else (k < n \<longrightarrow> src k = None) \<and> r = Ok (of_nat k) (wake (Ch_nread a) (upd_pipe a (\<lambda>_. y) s))))"

lemma written_here:
  assumes "pipe_ok (pipes s a)" and "i \<le> n"
    and "if i < n \<and> length (pqueue (pipes s a)) = PIPESIZE
      then r = Blocked (Swtch p) (asleep p (Ch_nwrite a) (wake (Ch_nread a) s))
      else (i < n \<longrightarrow> src i = None) \<and> r = Ok (of_nat i) (wake (Ch_nread a) s)"
  shows "written s p a src i n r"
proof -
  have "upd_pipe a (\<lambda>_. pipes s a) s = s" by (simp add: upd_pipe_def)
  then show ?thesis unfolding written_def using assms by (intro exI [of _ i] exI [of _ "pipes s a"]) auto
qed

lemma pipewrite_loop_ok:
  assumes "calls s p T L ps D" and "pipe_ok (pipes s a)" and "p_readopen (pipes s a)" and "i \<le> n"
  shows "written s p a (\<lambda>j. umem s L (unat (addr + of_nat j))) i n
     (pipewrite_loop p a addr (int n) (int i) (grab (L_pipe a) s))"
  using assms
proof (induction "n - i" arbitrary: i s)
  case 0
  note c = calls_facts [OF 0(2)]
  have "pipewrite_loop p a addr (int n) (int i) (grab (L_pipe a) s) = Ok (of_nat i) (wake (Ch_nread a) s)"
    using 0(1) pipe_fin [OF c(1,3,2), of "Ch_nread a" a] by (simp add: pipewrite_loop.simps Let_def)
  then show ?case using 0 by (intro written_here) simp_all
next
  case (Suc m)
  note c = calls_facts [OF Suc.prems(1)] and g = space_grab [OF Suc.prems(1), of a]
  let ?src = "\<lambda>j. umem s L (unat (addr + of_nat j))" and ?s = "grab (L_pipe a) s" and ?x = "pipes s a"
  have lt: "i < n" using Suc(2) by simp
  have k: "killed p ?s = Ok 0 ?s" using c(1,2,6) by (simp add: kernel_simps frame_simps)
  have pt: "pagetable (procs ?s p) = pagetable (procs s p)" by (simp add: frame_simps)
  have ps: "pipes ?s = pipes s" by (simp add: frame_simps)
  show ?case
  proof (cases "length (pqueue ?x) = PIPESIZE")
    case True
    then have "p_nwrite ?x = p_nread ?x + of_nat PIPESIZE" using pipe_full_iff [of ?x] by (simp add: pipe_full_def)
    then have "pipewrite_loop p a addr (int n) (int i) ?s = kthen (wakeup (Ch_nread a) ?s)
        (\<lambda>s. kthen (sleep (Ch_nwrite a) (L_pipe a) s) (\<lambda>s. Fault ''sleep returned without a switch''))"
      using lt Suc.prems(3) k ps by (simp add: pipewrite_loop.simps [of p a addr "int n" "int i"] Let_def)
    also have "\<dots> = Blocked (Swtch p) (asleep p (Ch_nwrite a) (wake (Ch_nread a) s))"
      unfolding asleep_def by (rule pipe_wait [OF c(1,2,3,5,4)])
    finally show ?thesis using True lt Suc.prems(2) by (intro written_here) simp_all
  next
    case room: False
    then have "\<not> pipe_full ?x" by (simp add: pipe_full_iff)
    then have nf: "p_nwrite ?x \<noteq> p_nread ?x + of_nat PIPESIZE" by (simp add: pipe_full_def)
    note ci = copyin_byte [OF g(1), of "\<lambda>_. 0" "addr + of_int (int i)"]
    have step: "pipewrite_loop p a addr (int n) (int i) ?s =
        (case ?src i of None \<Rightarrow> Ok (of_nat i) (wake (Ch_nread a) s)
         | Some b \<Rightarrow> pipewrite_loop p a addr (int n) (int (Suc i)) (grab (L_pipe a) (upd_pipe a (pipe_put b) s)))"
      using lt Suc.prems(3) k ps nf ci g(2) pt pipe_fin [OF c(1,3,2), of "Ch_nread a" a "of_nat i :: u32"]
      by (simp add: pipewrite_loop.simps [of p a addr "int n" "int i"] Let_def frame_simps add.commute split: option.split)
    show ?thesis
    proof (cases "?src i")
      case None
      then show ?thesis unfolding step using room lt Suc.prems(2) by (intro written_here) simp_all
    next
      case (Some b)
      let ?u = "upd_pipe a (pipe_put b) s"
      have "length (pqueue ?x) < PIPESIZE" using room Suc.prems(2) by (simp add: pipe_ok_def length_pqueue)
      note pq = put_queue [OF this, of b]
      have x: "pipes ?u a = pipe_put b ?x" by simp
      have "written ?u p a (\<lambda>j. umem ?u L (unat (addr + of_nat j))) (Suc i) n
          (pipewrite_loop p a addr (int n) (int (Suc i)) (grab (L_pipe a) ?u))"
        by (rule Suc(1)) (use Suc(2) Suc.prems lt pq(2) in \<open>simp_all add: pipe_put_def\<close>)
      then obtain k y where y: "Suc i \<le> k" "k \<le> n" "\<forall>j. Suc i \<le> j \<and> j < k \<longrightarrow> ?src j \<noteq> None"
        "pqueue y = (pqueue ?x @ [b]) @ map (\<lambda>j. the (?src j)) [Suc i..<k]" "pipe_ok y"
        "p_readopen y = p_readopen (pipe_put b ?x)" "p_writeopen y = p_writeopen (pipe_put b ?x)"
        "if k < n \<and> length (pqueue y) = PIPESIZE
         then pipewrite_loop p a addr (int n) (int (Suc i)) (grab (L_pipe a) ?u) =
           Blocked (Swtch p) (asleep p (Ch_nwrite a) (wake (Ch_nread a) (upd_pipe a (\<lambda>_. y) ?u)))
         else (k < n \<longrightarrow> ?src k = None) \<and> pipewrite_loop p a addr (int n) (int (Suc i)) (grab (L_pipe a) ?u) =
           Ok (of_nat k) (wake (Ch_nread a) (upd_pipe a (\<lambda>_. y) ?u))"
        unfolding written_def x pq(1) umem_upd_pipe by (elim exE conjE) (rule that)
      have run: "pipewrite_loop p a addr (int n) (int i) ?s = pipewrite_loop p a addr (int n) (int (Suc i)) (grab (L_pipe a) ?u)"
        unfolding step Some by simp
      have up: "[i..<k] = i # [Suc i..<k]" using y(1) by (simp add: upt_conv_Cons)
      have src: "\<forall>j. i \<le> j \<and> j < k \<longrightarrow> ?src j \<noteq> None"
        using y(3) Some by (metis Suc_leI le_neq_implies_less option.discI)
      have "pqueue y = pqueue ?x @ map (\<lambda>j. the (?src j)) [i..<k]" unfolding up y(4) using Some by simp
      moreover have "p_readopen y = p_readopen ?x" "p_writeopen y = p_writeopen ?x" using y(6,7) by (simp_all add: pipe_put_def)
      moreover have "i \<le> k" using y(1) by simp
      ultimately show ?thesis
        unfolding written_def run using y(2,5,8) src unfolding upd_pipe_upd by blast
    qed
  qed
qed

text \<open>C10: A write to a pipe appends to the queue the bytes of the writer's memory in order, as many as fit: it returns
  their number when all are in or the next one is not readable, and otherwise sleeps with the pipe full, the rest still
  to come; either way every reader asleep on the pipe can run. If the reading end is closed or the process was
  killed it returns -1 and stores nothing.\<close>

theorem pipewrite_appends:
  assumes "calls s p T L ps D" and "pipe_ok (pipes s a)"
  shows "(p_readopen (pipes s a) \<longrightarrow> written s p a (\<lambda>j. umem s L (unat (addr + of_nat j))) 0 n (pipewrite a addr (int n) s)) \<and>
     (\<not> p_readopen (pipes s a) \<and> 0 < n \<longrightarrow> pipewrite a addr (int n) s = Ok (- 1) s) \<and>
     (0 < n \<longrightarrow> pipewrite a addr (int n) (upd_proc p (\<lambda>q. q\<lparr>pkilled := 1\<rparr>) s) = Ok (- 1) (upd_proc p (\<lambda>q. q\<lparr>pkilled := 1\<rparr>) s))"
proof (intro conjI impI)
  note c = calls_facts [OF assms(1)]
  have run: "pipewrite a addr (int n) s = pipewrite_loop p a addr (int n) (int 0) (grab (L_pipe a) s)"
    using c by (simp add: pipewrite_def kernel_simps)
  show "written s p a (\<lambda>j. umem s L (unat (addr + of_nat j))) 0 n (pipewrite a addr (int n) s)" if "p_readopen (pipes s a)"
    unfolding run by (rule pipewrite_loop_ok [OF assms that]) simp
  show "pipewrite a addr (int n) s = Ok (- 1) s" if "\<not> p_readopen (pipes s a) \<and> 0 < n"
    unfolding run using that c by (simp add: pipewrite_loop.simps [of p a addr "int n"] kernel_simps frame_simps Let_def)
  let ?s = "upd_proc p (\<lambda>q. q\<lparr>pkilled := 1\<rparr>) s"
  show "pipewrite a addr (int n) ?s = Ok (- 1) ?s" if "0 < n"
    using that c by (simp add: pipewrite_def pipewrite_loop.simps [of p a addr "int n"] kernel_simps frame_simps Let_def)
qed

text \<open>What a reader leaves: \<open>k\<close> bytes from the front of the pipe are in its memory and \<open>k\<close> is returned; if it
  stopped early because the next byte of its memory is not usable, the byte meant for it is gone.\<close>

definition taken ::
  "'a filest_scheme \<Rightarrow> nat \<Rightarrow> u64 \<Rightarrow> tables \<Rightarrow> mapping \<Rightarrow> u64 list \<Rightarrow> nat set \<Rightarrow> u64 \<Rightarrow> nat \<Rightarrow> nat \<Rightarrow> (u32, 'a filest_scheme) kr \<Rightarrow> bool" where
  "taken s p a T L ps D addr i n r \<longleftrightarrow>
     (\<exists>k t. let q = pqueue (pipes s a); m = min (n - i) (length q) in
        k \<le> m \<and> r = Ok (of_nat (i + k)) (wake (Ch_nwrite a) t) \<and> calls t p T L ps D \<and> procs t = procs s \<and> me t = me s \<and>
        pipe_ok (pipes t a) \<and> p_writeopen (pipes t a) = p_writeopen (pipes s a) \<and>
        umem t L = uput (umem s L) (unat (addr + of_nat i)) k (\<lambda>j. q ! j) \<and>
        (\<forall>j < k. umem s L (unat (addr + of_nat (i + j))) \<noteq> None) \<and>
        (if k = m then pqueue (pipes t a) = drop m q
         else umem s L (unat (addr + of_nat (i + k))) = None \<and> pqueue (pipes t a) = drop (Suc k) q))"

lemma taken_here:
  assumes "calls s p T L ps D" and "pipe_ok (pipes s a)" and "r = Ok (of_nat i) (wake (Ch_nwrite a) s)"
    and "n \<le> i \<or> pqueue (pipes s a) = []"
  shows "taken s p a T L ps D addr i n r"
proof -
  have m: "min (n - i) (length (pqueue (pipes s a))) = 0" using assms(4) by auto
  show ?thesis
    unfolding taken_def Let_def m using assms(1-3) by (intro exI [of _ 0] exI [of _ s]) simp
qed

lemma touched_grab:
  fixes s :: "'a filest_scheme"
  assumes "touched (grab l s) t A"
  shows "\<exists>u. t = grab l u \<and> touched s u A"
proof -
  obtain m f where m: "t = (grab l s)\<lparr>pmem := m, freelist := f\<rparr>" "\<forall>a. (\<forall>p \<in> A. \<not> in_page p a) \<longrightarrow> m a = pmem s a"
    using assms by (auto simp: touched_def frame_simps)
  then have "t = grab l (s\<lparr>pmem := m, freelist := f\<rparr>)" by (simp add: frame_simps)
  moreover have "touched s (s\<lparr>pmem := m, freelist := f\<rparr>) A" unfolding touched_def using m(2) by blast
  ultimately show ?thesis by blast
qed

lemma touched_fields:
  fixes s :: "'a filest_scheme"
  assumes "touched s t A"
  shows "procs t = procs s" "pipes t = pipes s" "me t = me s" "quiet t \<longleftrightarrow> quiet s" "kend t = kend s"
proof -
  obtain m f where t: "t = s\<lparr>pmem := m, freelist := f\<rparr>" using assms by (auto simp: touched_def)
  show "procs t = procs s" "pipes t = pipes s" "me t = me s" "quiet t \<longleftrightarrow> quiet s" "kend t = kend s"
    by (simp_all add: t quiet_def me_def frame_simps)
qed

text \<open>One byte goes out.\<close>

lemma copyout_lock:
  assumes "calls s p T L ps D" and "l \<noteq> L_kmem"
  shows "\<exists>u. copyout (pagetable (procs s p)) a src 1 (grab l s) = Ok (if umem s L (unat a) = None then - 1 else 0) (grab l u) \<and> touched s u (page_of L ` D) \<and>
     calls u p T L ps D \<and> procs u = procs s \<and> pipes u = pipes s \<and> me u = me s \<and>
     umem u L = uput (umem s L) (unat a) (if umem s L (unat a) = None then 0 else 1) src"
proof -
  note g = space_grab_lock [OF assms]
  obtain t where t: "copyout (pagetable (procs s p)) a src 1 (grab l s) = Ok (if umem s L (unat a) = None then - 1 else 0) t"
    "space t (pagetable (procs s p)) T L ps D" "touched (grab l s) t (page_of L ` D)"
    "umem t L = uput (umem s L) (unat a) (if umem s L (unat a) = None then 0 else 1) src"
    using copyout_byte [OF g(1), of a src] unfolding g(2) by (elim exE conjE) (rule that)
  obtain u where u: "t = grab l u" "touched s u (page_of L ` D)" using touched_grab [OF t(3)] by blast
  note f = touched_fields [OF u(2)]
  have q: "quiet u" using f(4) assms(1) by (simp add: calls_def)
  have "pmem u = pmem t" "freelist u = freelist t" "kend u = kend t" using u(1) by (simp_all add: frame_simps)
  from space_cong [OF t(2) this] have "space u (pagetable (procs s p)) T L ps D" "umem u L = umem t L"
    using q by (simp_all add: quiet_def)
  then have "calls u p T L ps D \<and> umem u L = uput (umem s L) (unat a) (if umem s L (unat a) = None then 0 else 1) src"
    using assms(1) q f t(4) by (simp add: calls_def)
  then show ?thesis using t(1) u f by blast
qed

lemma copyout_held:
  assumes "calls s p T L ps D"
  shows "\<exists>u. copyout (pagetable (procs s p)) a src 1 (grab (L_pipe b) s) = Ok (if umem s L (unat a) = None then - 1 else 0) (grab (L_pipe b) u) \<and>
     calls u p T L ps D \<and> procs u = procs s \<and> pipes u = pipes s \<and> me u = me s \<and>
     umem u L = uput (umem s L) (unat a) (if umem s L (unat a) = None then 0 else 1) src"
  using copyout_lock [OF assms, of "L_pipe b" a src] by auto

lemma umem_low: "umem s L a \<noteq> None \<Longrightarrow> a < 2 ^ 38"
  by (simp add: umem_def split: if_splits)

lemma piperead_copy_ok:
  assumes "calls s p T L ps D" and "pipe_ok (pipes s a)"
  shows "taken s p a T L ps D addr i n (piperead_copy p a addr (int n) (int i) (grab (L_pipe a) s))"
  using assms
proof (induction "n - i" arbitrary: i s)
  case 0
  note c = calls_facts [OF 0(2)]
  have "piperead_copy p a addr (int n) (int i) (grab (L_pipe a) s) = Ok (of_nat i) (wake (Ch_nwrite a) s)"
    using 0(1) pipe_fin [OF c(1,3,2), of "Ch_nwrite a" a] by (simp add: piperead_copy.simps Let_def)
  then show ?case using 0 by (intro taken_here) simp_all
next
  case (Suc m)
  note c = calls_facts [OF Suc.prems(1)]
  let ?s = "grab (L_pipe a) s" and ?x = "pipes s a" and ?A = "addr + of_nat i"
  have lt: "i < n" using Suc(2) by simp
  have ps: "pipes ?s = pipes s" by (simp add: frame_simps)
  show ?case
  proof (cases "pqueue ?x")
    case Nil
    then have "p_nread ?x = p_nwrite ?x" using pipe_empty_iff [of ?x] by (simp add: pipe_empty_def)
    then have "piperead_copy p a addr (int n) (int i) ?s = Ok (of_nat i) (wake (Ch_nwrite a) s)"
      using lt ps pipe_fin [OF c(1,3,2), of "Ch_nwrite a" a "of_nat i :: u32"]
      by (simp add: piperead_copy.simps [of p a addr "int n" "int i"] Let_def)
    then show ?thesis using Nil Suc.prems by (intro taken_here) simp_all
  next
    case (Cons b q)
    then have ne: "p_nread ?x \<noteq> p_nwrite ?x" using pipe_empty_iff [of ?x] by (simp add: pipe_empty_def)
    obtain d y where gx: "pipe_get ?x = (d, y)" by (cases "pipe_get ?x")
    have "pqueue ?x \<noteq> []" using Cons by simp
    note gq = get_queue [OF Suc.prems(2) this gx]
    have y: "d = b" "pqueue y = q" "pipe_ok y" "p_writeopen y = p_writeopen ?x"
      using gq Cons gx by (auto simp: pipe_get_def)
    let ?v = "upd_pipe a (\<lambda>_. y) s"
    have cv: "calls ?v p T L ps D" using Suc.prems(1) by simp
    let ?ok = "umem s L (unat ?A) \<noteq> None"
    obtain u where u: "copyout (pagetable (procs s p)) ?A (\<lambda>_. b) 1 (grab (L_pipe a) ?v) =
        Ok (if umem s L (unat ?A) = None then - 1 else 0) (grab (L_pipe a) u)" "calls u p T L ps D" "procs u = procs s" "pipes u = pipes ?v" "me u = me s"
      "umem u L = uput (umem s L) (unat ?A) (if umem s L (unat ?A) = None then 0 else 1) (\<lambda>_. b)"
      using copyout_held [OF cv, of ?A "\<lambda>_. b" a] unfolding umem_upd_pipe upd_pipe_frame by blast
    note cu = calls_facts [OF u(2)]
    have pu: "pipes u a = y" using u(4) by simp
    show ?thesis
    proof (cases ?ok)
      case False
      then have run: "piperead_copy p a addr (int n) (int i) ?s = Ok (of_nat i) (wake (Ch_nwrite a) u)"
        using lt ps ne gx y(1) u(1) pipe_fin [OF cu(1,3,2), of "Ch_nwrite a" a "of_nat i :: u32"]
        by (simp add: piperead_copy.simps [of p a addr "int n" "int i"] Let_def frame_simps)
      show ?thesis
        unfolding taken_def run Let_def Cons using u False pu y lt by (intro exI [of _ 0] exI [of _ u]) simp
    next
      case True
      have run: "piperead_copy p a addr (int n) (int i) ?s = piperead_copy p a addr (int n) (int (Suc i)) (grab (L_pipe a) u)"
        using lt ps ne gx y(1) u(1) True
        by (simp add: piperead_copy.simps [of p a addr "int n" "int i"] Let_def frame_simps add.commute)
      have "taken u p a T L ps D addr (Suc i) n (piperead_copy p a addr (int n) (int (Suc i)) (grab (L_pipe a) u))"
        by (rule Suc(1)) (use Suc(2) u(2) pu y(3) in simp_all)
      then obtain k t where t: "k \<le> min (n - Suc i) (length q)"
        "piperead_copy p a addr (int n) (int (Suc i)) (grab (L_pipe a) u) = Ok (of_nat (Suc i + k)) (wake (Ch_nwrite a) t)" "calls t p T L ps D"
        "procs t = procs u" "me t = me u" "pipe_ok (pipes t a)" "p_writeopen (pipes t a) = p_writeopen y"
        "umem t L = uput (umem u L) (unat (addr + of_nat (Suc i))) k (\<lambda>j. q ! j)"
        "\<forall>j < k. umem u L (unat (addr + of_nat (Suc i + j))) \<noteq> None"
        "if k = min (n - Suc i) (length q) then pqueue (pipes t a) = drop (min (n - Suc i) (length q)) q
         else umem u L (unat (addr + of_nat (Suc i + k))) = None \<and> pqueue (pipes t a) = drop (Suc k) q"
        unfolding taken_def pu y(2) Let_def by (elim exE conjE) (rule that)
      have m: "min (n - i) (length (b # q)) = Suc (min (n - Suc i) (length q))" using lt by (simp add: Suc_diff_Suc)
      have "unat ?A < 2 ^ 38" using umem_low True by blast
      then have "unat (?A + 1) = unat ?A + 1" by (simp add: unat_word_ariths)
      then have nx: "unat (addr + of_nat (Suc i)) = unat ?A + 1" by (simp add: add.commute add.left_commute)
      have "umem t L = uput (uput (umem s L) (unat ?A) 1 (\<lambda>j. (b # q) ! j)) (unat ?A + 1) k (\<lambda>j. (b # q) ! (1 + j))"
        using t(8) u(6) True nx by (simp add: uput_def fun_eq_iff)
      then have mem: "umem t L = uput (umem s L) (unat ?A) (Suc k) (\<lambda>j. (b # q) ! j)"
        unfolding uput_uput by simp
      have none: "umem s L x = None" if "umem u L x = None" for x
        using that u(6) True by (simp add: uput_def split: if_splits)
      have usable: "umem s L x \<noteq> None" if "umem u L x \<noteq> None" for x
      proof (cases "x = unat ?A")
        case False
        then have "\<not> (unat ?A \<le> x \<and> x < unat ?A + 1)" by linarith
        then have "umem u L x = umem s L x" using u(6) True by (auto simp: uput_def)
        with that show ?thesis by simp
      qed (use True in simp)
      have "if Suc k = min (n - i) (length (b # q)) then pqueue (pipes t a) = drop (min (n - i) (length (b # q))) (b # q)
         else umem s L (unat (addr + of_nat (i + Suc k))) = None \<and> pqueue (pipes t a) = drop (Suc (Suc k)) (b # q)"
        using t(10) none unfolding m by (auto split: if_splits)
      moreover have "\<forall>j < Suc k. umem s L (unat (addr + of_nat (i + j))) \<noteq> None"
      proof (intro allI impI)
        fix j assume j: "j < Suc k"
        show "umem s L (unat (addr + of_nat (i + j))) \<noteq> None"
        proof (cases j)
          case 0
          then show ?thesis using True by simp
        next
          case (Suc l)
          then have "umem u L (unat (addr + of_nat (i + j))) \<noteq> None" using t(9) j by simp
          then show ?thesis by (rule usable)
        qed
      qed
      moreover have "Suc k \<le> min (n - i) (length (b # q))" using t(1) unfolding m by simp
      moreover have "piperead_copy p a addr (int n) (int i) ?s = Ok (of_nat (i + Suc k)) (wake (Ch_nwrite a) t)"
        unfolding run t(2) by simp
      ultimately show ?thesis
        unfolding taken_def Let_def Cons using t(3-7) u(3,5) mem y(4) by (intro exI [of _ "Suc k"] exI [of _ t]) simp
    qed
  qed
qed

lemma calls_back:
  assumes "quiet v" and "p < NPROC" and "pkilled (procs v p) = 0" and "space v (pagetable (procs v p)) T L ps D"
  shows "calls (back_in p b v) p T L ps D" "pipes (back_in p b v) = pipes v" "umem (back_in p b v) = umem v"
proof -
  have q: "irq_ok v" "\<forall>l. free l v" "noff (mycpu v) = 0" using assms(1) by (simp_all add: quiet_def)
  have m: "pmem (back_in p b v) = pmem v" "freelist (back_in p b v) = freelist v" "kend (back_in p b v) = kend v"
    and "pipes (back_in p b v) = pipes v"
    by (simp_all add: back_in_def set_irq_def upd_proc_def irq_defs)
  then show "pipes (back_in p b v) = pipes v" "umem (back_in p b v) = umem v" by (simp_all add: umem_cong [OF m(1)])
  have "space (back_in p b v) (pagetable (procs v p)) T L ps D"
    by (rule space_cong(1) [OF assms(4) m]) (use q in \<open>simp_all add: frame_simps\<close>)
  then show "calls (back_in p b v) p T L ps D"
    using q assms(2,3) by (simp add: calls_def quiet_def frame_simps)
qed

lemma piperead_loop_ok:
  assumes "calls s p T L ps D" and "pipe_ok (pipes s a)" and "pqueue (pipes s a) \<noteq> [] \<or> \<not> p_writeopen (pipes s a)"
  shows "taken s p a T L ps D addr 0 n (piperead_loop p a addr (int n) (grab (L_pipe a) s))"
proof -
  have "\<not> (p_nread (pipes s a) = p_nwrite (pipes s a) \<and> p_writeopen (pipes s a))"
    using assms(3) pipe_empty_iff [of "pipes s a"] by (auto simp: pipe_empty_def)
  then have "piperead_loop p a addr (int n) (grab (L_pipe a) s) = piperead_copy p a addr (int n) (int 0) (grab (L_pipe a) s)"
    by (auto simp: piperead_loop_def frame_simps)
  then show ?thesis by (simp only: piperead_copy_ok [OF assms(1,2)])
qed

lemma piperead_eq:
  "calls s p T L ps D \<Longrightarrow> piperead a addr n s = piperead_loop p a addr n (grab (L_pipe a) s)"
  using calls_facts [of s p T L ps D] by (simp add: piperead_def kernel_simps)

text \<open>C11: A read takes bytes from the front of the queue, in order, into the reader's memory, and returns their number;
  every writer asleep on the pipe can run. If its memory ends before that, the byte meant for the first address it
  may not use is taken from the pipe all the same and lost. With the queue empty it returns 0 when the writing end is
  closed, and else sleeps until woken by a writer, having changed nothing, or returns -1 if the process was killed.\<close>

theorem piperead_takes:
  assumes "calls s p T L ps D" and "pipe_ok (pipes s a)"
  shows "(pqueue (pipes s a) \<noteq> [] \<or> \<not> p_writeopen (pipes s a) \<longrightarrow> taken s p a T L ps D addr 0 n (piperead a addr (int n) s)) \<and>
     (pqueue (pipes s a) = [] \<and> p_writeopen (pipes s a) \<longrightarrow>
        piperead a addr (int n) s = Blocked (Swtch p) (asleep p (Ch_nread a) s) \<and>
        piperead a addr (int n) (upd_proc p (\<lambda>q. q\<lparr>pkilled := 1\<rparr>) s) = Ok (- 1) (upd_proc p (\<lambda>q. q\<lparr>pkilled := 1\<rparr>) s))"
proof (intro conjI impI)
  note c = calls_facts [OF assms(1)]
  show "taken s p a T L ps D addr 0 n (piperead a addr (int n) s)" if "pqueue (pipes s a) \<noteq> [] \<or> \<not> p_writeopen (pipes s a)"
    unfolding piperead_eq [OF assms(1)] by (rule piperead_loop_ok [OF assms that])
  assume e: "pqueue (pipes s a) = [] \<and> p_writeopen (pipes s a)"
  then have e': "p_nread (pipes s a) = p_nwrite (pipes s a)" using pipe_empty_iff [of "pipes s a"] by (simp add: pipe_empty_def)
  have ne: "L_pipe a \<noteq> L_proc p" by simp
  show "piperead a addr (int n) s = Blocked (Swtch p) (asleep p (Ch_nread a) s)"
    using e e' c sleep_ok [OF c(1,2,2) ne c(5,4), of "Ch_nread a"]
    by (simp add: piperead_def piperead_loop_def asleep_def kernel_simps frame_simps)
  let ?s = "upd_proc p (\<lambda>q. q\<lparr>pkilled := 1\<rparr>) s"
  have p: "pipes ?s = pipes s" by (simp add: upd_proc_def)
  show "piperead a addr (int n) ?s = Ok (- 1) ?s"
    using e e' c p by (simp add: piperead_def piperead_loop_def kernel_simps frame_simps)
qed

text \<open>C9: A reader asleep on a pipe is not forgotten: a write of at least one readable byte, whether it completes or fills the
  pipe and sleeps in its turn, leaves the reader runnable and the pipe not empty, and when the scheduler then runs the reader,
  its read returns the number of bytes taken: all that are asked for and there, or those up to the first address of its
  buffer it may not use. They are the first of the queue, in order, and the rest stays in the pipe (but for the byte
  meant for the unusable address, which is lost).\<close>

theorem pipe_reader_progress:
  fixes s :: "'a filest_scheme"
  assumes "calls s w T L ps D" and "pipe_ok (pipes s a)" and "p_readopen (pipes s a)" and "0 < n"
    and "umem s L (unat addr) \<noteq> None" and "length (pqueue (pipes s a)) < PIPESIZE"
    and "p < NPROC" and "pstate (procs s p) = SLEEPING" and "pchan (procs s p) = Some (Ch_nread a)"
  shows "\<exists>u r. (pipewrite a addr (int n) s = Ok r u \<or> pipewrite a addr (int n) s = Blocked (Swtch w) u) \<and>
     pstate (procs u p) = RUNNABLE \<and> pqueue (pipes u a) \<noteq> [] \<and>
     (\<forall>(v :: 'a filest_scheme) T L ps D b buf m. quiet v \<and> pipes v = pipes u \<and> procs v p = procs u p \<and> pkilled (procs v p) = 0 \<and>
        space v (pagetable (procs v p)) T L ps D \<longrightarrow>
        (\<exists>v1 k t. scheduler_turn p v = Ok True v1 \<and> piperead_resume p b a buf (int m) v1 = Ok (of_nat k) t \<and>
           k \<le> min m (length (pqueue (pipes u a))) \<and> (\<forall>j < k. umem v L (unat (buf + of_nat j)) \<noteq> None) \<and>
           (k < min m (length (pqueue (pipes u a))) \<longrightarrow> umem v L (unat (buf + of_nat k)) = None) \<and>
           umem t L = uput (umem v L) (unat buf) k (\<lambda>j. pqueue (pipes u a) ! j) \<and>
           pqueue (pipes t a) = drop (if k < min m (length (pqueue (pipes u a))) then Suc k else k) (pqueue (pipes u a))))"
proof -
  note c = calls_facts [OF assms(1)]
  have pw: "p \<noteq> w" using assms(1,8) by (auto simp: calls_def quiet_def)
  let ?src = "\<lambda>j. umem s L (unat (addr + of_nat j))"
  have run: "pipewrite a addr (int n) s = pipewrite_loop w a addr (int n) (int 0) (grab (L_pipe a) s)"
    using c by (simp add: pipewrite_def kernel_simps)
  have "written s w a ?src 0 n (pipewrite a addr (int n) s)"
    unfolding run by (rule pipewrite_loop_ok [OF assms(1-3)]) simp
  then obtain k y where "0 \<le> k" "k \<le> n" "\<forall>j. 0 \<le> j \<and> j < k \<longrightarrow> ?src j \<noteq> None"
    and k: "pqueue y = pqueue (pipes s a) @ map (\<lambda>j. the (?src j)) [0..<k]" "pipe_ok y"
    "p_readopen y = p_readopen (pipes s a)" "p_writeopen y = p_writeopen (pipes s a)"
    "if k < n \<and> length (pqueue y) = PIPESIZE
         then pipewrite a addr (int n) s = Blocked (Swtch w) (asleep w (Ch_nwrite a) (wake (Ch_nread a) (upd_pipe a (\<lambda>_. y) s)))
         else (k < n \<longrightarrow> ?src k = None) \<and> pipewrite a addr (int n) s = Ok (of_nat k) (wake (Ch_nread a) (upd_pipe a (\<lambda>_. y) s))"
    unfolding written_def by (elim exE conjE) (rule that)
  let ?u0 = "wake (Ch_nread a) (upd_pipe a (\<lambda>_. y) s)"
  define u where "u = (if k < n \<and> length (pqueue y) = PIPESIZE then asleep w (Ch_nwrite a) ?u0 else ?u0)"
  have u: "pipes u = (pipes s)(a := y)" "procs u p = (procs s p)\<lparr>pstate := RUNNABLE\<rparr>"
    using assms(7-9) pw c(5) by (simp_all add: u_def asleep_def frame_simps woken_def upd_proc_def)
  have w: "pipewrite a addr (int n) s = Ok (of_nat k) u \<or> pipewrite a addr (int n) s = Blocked (Swtch w) u"
    using k(5) by (auto simp: u_def split: if_splits)
  have ne: "pqueue y \<noteq> []"
  proof
    assume e: "pqueue y = []"
    then have "k = 0" using k(1) by simp
    then show False using k(5) e assms(4,5) by (simp add: PIPESIZE_def)
  qed
  have res: "\<exists>v1 k t. scheduler_turn p v = Ok True v1 \<and> piperead_resume p b a buf (int m) v1 = Ok (of_nat k) t \<and>
           k \<le> min m (length (pqueue y)) \<and> (\<forall>j < k. umem v L (unat (buf + of_nat j)) \<noteq> None) \<and>
           (k < min m (length (pqueue y)) \<longrightarrow> umem v L (unat (buf + of_nat k)) = None) \<and>
           umem t L = uput (umem v L) (unat buf) k (\<lambda>j. pqueue y ! j) \<and>
           pqueue (pipes t a) = drop (if k < min m (length (pqueue y)) then Suc k else k) (pqueue y)"
    if v: "quiet v \<and> pipes v = pipes u \<and> procs v p = procs u p \<and> pkilled (procs v p) = 0 \<and>
        space v (pagetable (procs v p)) T L ps D" for v :: "'a filest_scheme" and T L ps D b buf m
  proof -
    have q: "irq_ok v" "\<forall>l. free l v" "noff (mycpu v) = 0" using v by (simp_all add: quiet_def)
    have run: "pstate (procs v p) = RUNNABLE" using v u(2) by simp
    obtain v1 where v1: "scheduler_turn p v = Ok True v1" using scheduler_turn_ok [of v p] q run by auto
    have bk: "calls (back_in p b v) p T L ps D" "pipes (back_in p b v) = pipes v" "umem (back_in p b v) = umem v"
      using calls_back [OF _ assms(7)] v by blast+
    have pa: "pipes v a = y" using v u(1) by simp
    have "piperead_resume p b a buf (int m) v1 = piperead_loop p a buf (int m) (grab (L_pipe a) (back_in p b v))"
      using sleep_return_turn [OF q v1] by (simp add: piperead_resume_def)
    moreover have "taken (back_in p b v) p a T L ps D buf 0 m (piperead_loop p a buf (int m) (grab (L_pipe a) (back_in p b v)))"
      by (rule piperead_loop_ok [OF bk(1)]) (use bk(2) pa k(2) ne in simp_all)
    ultimately have "taken (back_in p b v) p a T L ps D buf 0 m (piperead_resume p b a buf (int m) v1)" by simp
    then obtain k t where t: "k \<le> min m (length (pqueue y))" "piperead_resume p b a buf (int m) v1 = Ok (of_nat k) (wake (Ch_nwrite a) t)"
      "umem t L = uput (umem v L) (unat (buf + of_nat 0)) k (\<lambda>j. pqueue y ! j)"
      "\<forall>j < k. umem v L (unat (buf + of_nat j)) \<noteq> None"
      "if k = min m (length (pqueue y)) then pqueue (pipes t a) = drop (min m (length (pqueue y))) (pqueue y)
         else umem v L (unat (buf + of_nat k)) = None \<and> pqueue (pipes t a) = drop (Suc k) (pqueue y)"
      unfolding taken_def bk(2,3) pa Let_def diff_zero add_0 by (elim exE conjE) (rule that)
    have "k < min m (length (pqueue y)) \<longrightarrow> umem v L (unat (buf + of_nat k)) = None"
      "pqueue (pipes (wake (Ch_nwrite a) t) a) = drop (if k < min m (length (pqueue y)) then Suc k else k) (pqueue y)"
      using t(1,5) by (auto simp: wake_simps split: if_splits)
    then show ?thesis using v1 t(1-4) wake_simps(7) [of "Ch_nwrite a" t]
      by (intro exI [of _ v1] exI [of _ k] exI [of _ "wake (Ch_nwrite a) t"]) simp
  qed
  have pu: "pipes u a = y" using u(1) by simp
  show ?thesis
  proof (rule exI [of _ u], rule exI [of _ "of_nat k"], intro conjI allI impI)
    show "pipewrite a addr (int n) s = Ok (of_nat k) u \<or> pipewrite a addr (int n) s = Blocked (Swtch w) u" by (rule w)
    show "pstate (procs u p) = RUNNABLE" using u(2) by simp
    show "pqueue (pipes u a) \<noteq> []" using ne pu by simp
  qed (unfold pu, rule res)
qed

section \<open>A machine with pipes\<close>

definition file_state :: filest where
  "file_state = fsst.extend (logst.extend (bufst.extend bio_state
     (logst.fields \<lparr>log_start = 2, log_size = 30, outstanding = 0, committing = False, log_dev = 1, lh_n = 0,
        lh_block = (\<lambda>_. 0)\<rparr>))
     (fsst.fields \<lparr>sb_magic = 0x10203040, sb_size = 2000, sb_nblocks = 1954, sb_ninodes = 200, sb_nlog = 30,
        sb_logstart = 2, sb_inodestart = 32, sb_bmapstart = 45\<rparr>
        (\<lambda>_. \<lparr>i_dev = 0, i_inum = 0, i_ref = 0, i_valid = False, i_type = 0, i_major = 0, i_minor = 0, i_nlink = 0,
           i_size = 0, i_addrs = (\<lambda>_. 0)\<rparr>)))
     (filest.fields
        (\<lambda>_. \<lparr>f_type = FD_NONE, f_ref = 0, f_readable = False, f_writable = False, f_pipe = 0, f_ip = None, f_off = 0, f_major = 0\<rparr>)
        (\<lambda>_. \<lparr>p_data = (\<lambda>_. 0), p_nread = 0xfffffffe, p_nwrite = 0xfffffffe, p_readopen = True, p_writeopen = True\<rparr>))"

text \<open>Process 1 runs with the address space \<open>pt\<close> of \<open>m\<close>; process 2 sleeps in a read from the pipe \<open>0x1000\<close>.\<close>

definition pipe_state :: "memst \<Rightarrow> u64 \<Rightarrow> filest" where
  "pipe_state m pt = file_state\<lparr>pmem := pmem m, freelist := freelist m, kend := kend m,
     procs := (\<lambda>_. idle_proc)(1 := idle_proc\<lparr>pstate := RUNNING, pid := 7, pagetable := pt\<rparr>,
       2 := idle_proc\<lparr>pstate := SLEEPING, pid := 8, pchan := Some (Ch_nread 0x1000)\<rparr>)\<rparr>"

lemmas file_state_defs = file_state_def bio_state_def small_mem_def sl_state_def sem_state_def run_state_def
  procst.defs semst.defs slst.defs memst.defs bufst.defs logst.defs fsst.defs filest.defs

lemma pipe_state_fields:
  "pmem (pipe_state m pt) = pmem m" "freelist (pipe_state m pt) = freelist m" "kend (pipe_state m pt) = kend m"
  "irq_ok (pipe_state m pt)" "free l (pipe_state m pt)" "me (pipe_state m pt) = Some 1" "quiet (pipe_state m pt)"
  "procs (pipe_state m pt) 1 = idle_proc\<lparr>pstate := RUNNING, pid := 7, pagetable := pt\<rparr>"
  "procs (pipe_state m pt) 2 = idle_proc\<lparr>pstate := SLEEPING, pid := 8, pchan := Some (Ch_nread 0x1000)\<rparr>"
  "pipes (pipe_state m pt) a = \<lparr>p_data = (\<lambda>_. 0), p_nread = 0xfffffffe, p_nwrite = 0xfffffffe, p_readopen = True, p_writeopen = True\<rparr>"
  by (simp_all add: pipe_state_def file_state_defs irq_ok_def irq_defs free_def me_def quiet_def NPROC_def)

lemma pipe_state_calls:
  assumes "space m pt T L ps D"
  shows "calls (pipe_state m pt) 1 T L ps D" "umem (pipe_state m pt) L = umem m L"
    "pipe_ok (pipes (pipe_state m pt) a)" "pqueue (pipes (pipe_state m pt) a) = []"
proof -
  have "space (pipe_state m pt) pt T L ps D" "umem (pipe_state m pt) L = umem m L"
    by (rule space_cong [OF assms]; simp add: pipe_state_fields)+
  then show "calls (pipe_state m pt) 1 T L ps D" "umem (pipe_state m pt) L = umem m L"
    by (simp_all add: calls_def pipe_state_fields idle_proc_def del: One_nat_def)
  show "pipe_ok (pipes (pipe_state m pt) a)" "pqueue (pipes (pipe_state m pt) a) = []"
    by (simp_all add: pipe_state_fields pipe_ok_def pqueue_def)
qed

lemma pipe_user:
  "\<exists>m pt T L ps D. space m pt T L ps D \<and> umem (pipe_state m pt) L = zeroed (\<lambda>_. None) 0 2 \<and> calls (pipe_state m pt) 1 T L ps D"
proof -
  obtain m :: memst and To Lo old new ps where p: "pair m old To Lo {0, 1} new [(2, 0) \<mapsto> new] Map.empty {} ps"
    "umem m Lo = zeroed (\<lambda>_. None) 0 2"
    using vm_user by blast
  have s: "space m old To Lo ps {0, 1}" using p(1) by (simp add: pair_def)
  show ?thesis using s pipe_state_calls [OF s] p(2) by metis
qed

theorem pipewrite_appends_witness:
  "\<exists>m pt k y. pipewrite 0x1000 8190 5 (pipe_state m pt) = Ok 2
     (wake (Ch_nread 0x1000) (upd_pipe 0x1000 (\<lambda>_. y) (pipe_state m pt))) \<and> pqueue y = [0, 0] \<and> (k :: nat) = 2"
proof -
  obtain m pt T L ps D where m: "space m pt T L ps D" "umem (pipe_state m pt) L = zeroed (\<lambda>_. None) 0 2"
    "calls (pipe_state m pt) 1 T L ps D"
    using pipe_user by blast
  let ?s = "pipe_state m pt" and ?src = "\<lambda>j. umem (pipe_state m pt) L (unat (8190 + of_nat j :: u64))"
  have ok: "pipe_ok (pipes ?s 0x1000)" "pqueue (pipes ?s 0x1000) = []" "p_readopen (pipes ?s 0x1000)"
    using pipe_state_calls [OF m(1)] by (simp_all add: pipe_state_fields)
  have "written ?s 1 0x1000 ?src 0 5 (pipewrite 0x1000 8190 (int 5) ?s)"
    using pipewrite_appends [OF m(3) ok(1), of 8190 5] ok(3) by blast
  then obtain k y where k: "k \<le> 5" "\<forall>j. 0 \<le> j \<and> j < k \<longrightarrow> ?src j \<noteq> None" "pqueue y = [] @ map (\<lambda>j. the (?src j)) [0..<k]"
    "if k < 5 \<and> length (pqueue y) = PIPESIZE
     then pipewrite 0x1000 8190 (int 5) ?s = Blocked (Swtch 1) (asleep 1 (Ch_nwrite 0x1000) (wake (Ch_nread 0x1000) (upd_pipe 0x1000 (\<lambda>_. y) ?s)))
     else (k < 5 \<longrightarrow> ?src k = None) \<and> pipewrite 0x1000 8190 (int 5) ?s = Ok (of_nat k) (wake (Ch_nread 0x1000) (upd_pipe 0x1000 (\<lambda>_. y) ?s))"
    unfolding written_def ok(2) by (elim exE conjE) (rule that)
  have u: "unat (8190 + of_nat j :: u64) = 8190 + j" if "j \<le> 5" for j using that by (simp add: unat_word_ariths unat_of_nat)
  have src: "?src j = (if j < 2 then Some 0 else None)" if "j \<le> 5" for j using that by (auto simp: u m(2) zeroed_def)
  have "\<not> 2 < k" using k(1,2) src [of 2] by auto
  moreover have "length (pqueue y) = k" using k(3) by simp
  ultimately have "k = 2" using k(1,4) src [of k] by (auto simp: PIPESIZE_def split: if_splits)
  then show ?thesis using k(3,4) src [of 0] src [of 1]
    by (intro exI [of _ m] exI [of _ pt] exI [of _ k] exI [of _ y]) (simp add: PIPESIZE_def upt_rec)
qed

theorem piperead_takes_witness:
  "\<exists>m pt. piperead 0x1000 100 4 (pipe_state m pt) = Blocked (Swtch 1) (asleep 1 (Ch_nread 0x1000) (pipe_state m pt))"
proof -
  obtain m pt T L ps D where m: "space m pt T L ps D" "calls (pipe_state m pt) 1 T L ps D" using pipe_user by blast
  have ok: "pipe_ok (pipes (pipe_state m pt) 0x1000)" "pqueue (pipes (pipe_state m pt) 0x1000) = []"
    using pipe_state_calls [OF m(1)] by blast+
  have "p_writeopen (pipes (pipe_state m pt) 0x1000)" by (simp add: pipe_state_fields)
  then show ?thesis using piperead_takes [OF m(2) ok(1), of 100 4] ok(2) by auto
qed

theorem pipe_reader_progress_witness:
  "\<exists>m pt u r. (pipewrite 0x1000 0 7 (pipe_state m pt) = Ok r u \<or> pipewrite 0x1000 0 7 (pipe_state m pt) = Blocked (Swtch 1) u) \<and>
     pstate (procs u 2) = RUNNABLE \<and> pqueue (pipes u 0x1000) \<noteq> []"
proof -
  obtain m pt T L ps D where m: "space m pt T L ps D" "umem (pipe_state m pt) L = zeroed (\<lambda>_. None) 0 2"
    "calls (pipe_state m pt) 1 T L ps D"
    using pipe_user by blast
  note ok = pipe_state_calls(3,4) [OF m(1), of "0x1000"]
  have a: "p_readopen (pipes (pipe_state m pt) 0x1000)" "(0 :: nat) < 7" "umem (pipe_state m pt) L (unat (0 :: u64)) \<noteq> None"
    "length (pqueue (pipes (pipe_state m pt) 0x1000)) < PIPESIZE" "2 < NPROC"
    "pstate (procs (pipe_state m pt) 2) = SLEEPING" "pchan (procs (pipe_state m pt) 2) = Some (Ch_nread 0x1000)"
    using ok(2) by (simp_all add: pipe_state_fields m(2) zeroed_def PIPESIZE_def NPROC_def)
  obtain u r where "(pipewrite 0x1000 0 (int 7) (pipe_state m pt) = Ok r u \<or> pipewrite 0x1000 0 (int 7) (pipe_state m pt) = Blocked (Swtch 1) u)"
     "pstate (procs u 2) = RUNNABLE" "pqueue (pipes u 0x1000) \<noteq> []"
    using pipe_reader_progress [OF m(3) ok(1) a] by (elim exE conjE) (rule that)
  then show ?thesis by auto
qed

end
