(* ===== verification/Console.thy ===== *)
theory Console
  imports Pipe
begin

text \<open>
  The console, \<^verbatim>\<open>src/lab2/kernel/console.c\<close>, and the serial port under it, \<^verbatim>\<open>uart.c\<close>.  Of the device the model keeps
  what the code can see: the characters waiting to be read, the answers that successive looks at the transmitter's
  idle bit give, the register writes of \<^verbatim>\<open>uartinit\<close>; characters sent are appended to \<open>kout\<close>.  The three uses of \<^verbatim>\<open>sleep\<close>
  cut \<^verbatim>\<open>uartputc\<close>, \<^verbatim>\<open>consolewrite\<close> and \<^verbatim>\<open>consoleread\<close>; their loop variables are arguments of the functions that go on.
\<close>

section \<open>State\<close>

definition INPUT_BUF_SIZE :: nat where "INPUT_BUF_SIZE = 128"
definition UART_TX_BUF_SIZE :: nat where "UART_TX_BUF_SIZE = 32"

record cons_t =
  c_buf :: "nat \<Rightarrow> u8"
  c_r :: u32
  c_w :: u32
  c_e :: u32

record uart_t =
  tx_buf :: "nat \<Rightarrow> u8"
  tx_w :: u64
  tx_r :: u64
  tx_idle :: "bool list"
  rx :: "u8 list"
  regs :: "(nat \<times> u8) list"

record consst = filest +
  console :: cons_t
  uart :: uart_t

definition upd_cons :: "(cons_t \<Rightarrow> cons_t) \<Rightarrow> 'a consst_scheme \<Rightarrow> 'a consst_scheme" where
  "upd_cons f s = s\<lparr>console := f (console s)\<rparr>"

definition upd_uart :: "(uart_t \<Rightarrow> uart_t) \<Rightarrow> 'a consst_scheme \<Rightarrow> 'a consst_scheme" where
  "upd_uart f s = s\<lparr>uart := f (uart s)\<rparr>"

definition ctrl :: "char \<Rightarrow> u8" where "ctrl c = of_char c - of_char (CHR ''@'')"

section \<open>uart.c\<close>

definition write_reg :: "nat \<Rightarrow> u8 \<Rightarrow> 'a consst_scheme \<Rightarrow> 'a consst_scheme" where
  "write_reg reg v s = upd_uart (\<lambda>u. u\<lparr>regs := regs u @ [(reg, v)]\<rparr>) s"

definition uartinit :: "'a consst_scheme \<Rightarrow> 'a consst_scheme" where
  "uartinit s =
     initlock L_uart ''uart''
       (write_reg 1 3 (write_reg 2 7 (write_reg 3 3 (write_reg 1 0 (write_reg 0 3 (write_reg 3 0x80 (write_reg 1 0 s)))))))"

text \<open>Sending a character that the transmitter is ready for.\<close>

definition uartputc_sync :: "u8 \<Rightarrow> 'a lockst_scheme \<Rightarrow> (unit, 'a lockst_scheme) kr" where
  "uartputc_sync c s =
     (let s = push_off s in
      if panicked s then Blocked (Polling ''uartputc_sync: panicked'') s
      else pop_off (kputs [char_of (unat c)] s))"

text \<open>One look at the idle bit.\<close>

definition lsr_tx_idle :: "'a consst_scheme \<Rightarrow> bool \<times> 'a consst_scheme" where
  "lsr_tx_idle s = (tx_idle (uart s) \<noteq> [] \<and> hd (tx_idle (uart s)), upd_uart (\<lambda>u. u\<lparr>tx_idle := tl (tx_idle u)\<rparr>) s)"

text \<open>The bytes still buffered bound the loop of \<^verbatim>\<open>uartstart\<close>; the first argument is that bound.\<close>

primrec uartstart_loop :: "nat \<Rightarrow> 'a consst_scheme \<Rightarrow> (unit, 'a consst_scheme) kr" where
  "uartstart_loop 0 s = Ok () s"
| "uartstart_loop (Suc m) s =
     (case lsr_tx_idle s of
        (idle, s) \<Rightarrow>
          if \<not> idle then Ok () s
          else
            (let c = tx_buf (uart s) (unat (tx_r (uart s)) mod UART_TX_BUF_SIZE);
                 s = upd_uart (\<lambda>u. u\<lparr>tx_r := tx_r u + 1\<rparr>) s in
             kthen (wakeup Ch_uart s) (\<lambda>s. uartstart_loop m (kputs [char_of (unat c)] s))))"

definition uartstart :: "'a consst_scheme \<Rightarrow> (unit, 'a consst_scheme) kr" where
  "uartstart s = uartstart_loop (unat (tx_w (uart s) - tx_r (uart s))) s"

definition uartputc_loop :: "u8 \<Rightarrow> 'a consst_scheme \<Rightarrow> (unit, 'a consst_scheme) kr" where
  "uartputc_loop c s =
     (if tx_w (uart s) = tx_r (uart s) + of_nat UART_TX_BUF_SIZE then
        kthen (sleep Ch_uart L_uart s) (\<lambda>s. Fault ''sleep returned without a switch'')
      else
        (let s = upd_uart (\<lambda>u. u\<lparr>tx_buf := (tx_buf u)(unat (tx_w u) mod UART_TX_BUF_SIZE := c)\<rparr>) s;
             s = upd_uart (\<lambda>u. u\<lparr>tx_w := tx_w u + 1\<rparr>) s in
         kthen (uartstart s) (\<lambda>s. release L_uart s)))"

definition uartputc :: "u8 \<Rightarrow> 'a consst_scheme \<Rightarrow> (unit, 'a consst_scheme) kr" where
  "uartputc c s =
     kthen (acquire L_uart s) (\<lambda>s.
       if panicked s then Blocked (Polling ''uartputc: panicked'') s else uartputc_loop c s)"

definition uartputc_resume :: "nat \<Rightarrow> bool \<Rightarrow> u8 \<Rightarrow> 'a consst_scheme \<Rightarrow> (unit, 'a consst_scheme) kr" where
  "uartputc_resume p saved c s = kthen (sleep_return p L_uart saved s) (\<lambda>s. uartputc_loop c s)"

text \<open>\<open>None\<close> is -1.\<close>

definition uartgetc :: "'a consst_scheme \<Rightarrow> u8 option \<times> 'a consst_scheme" where
  "uartgetc s =
     (case rx (uart s) of
        [] \<Rightarrow> (None, s)
      | c # cs \<Rightarrow> (Some c, upd_uart (\<lambda>u. u\<lparr>rx := cs\<rparr>) s))"

section \<open>console.c\<close>

datatype key = Char u8 | BACKSPACE

definition consputc :: "key \<Rightarrow> 'a lockst_scheme \<Rightarrow> (unit, 'a lockst_scheme) kr" where
  "consputc k s =
     (case k of
        BACKSPACE \<Rightarrow>
          kthen (uartputc_sync 8 s) (\<lambda>s. kthen (uartputc_sync 32 s) (\<lambda>s. uartputc_sync 8 s))
      | Char c \<Rightarrow> uartputc_sync c s)"

function consolewrite_loop :: "addr \<Rightarrow> int \<Rightarrow> int \<Rightarrow> 'a consst_scheme \<Rightarrow> (u32, 'a consst_scheme) kr" where
  "consolewrite_loop src n i s =
     (if i < n then
        kbind (either_copyin (\<lambda>_. 0) 0 src 1 (\<lambda>_. 0) s) (\<lambda>(r, d) s.
          if r = - 1 then Ok (of_int i) s
          else kthen (uartputc (d 0) s) (\<lambda>s. consolewrite_loop (addr_add src 1) n (i + 1) s))
      else Ok (of_int i) s)"
  by pat_completeness auto
termination
  by (relation "measure (\<lambda>(src, n, i, s). nat (n - i))") auto

declare consolewrite_loop.simps [simp del]

definition consolewrite :: "addr \<Rightarrow> u32 \<Rightarrow> 'a consst_scheme \<Rightarrow> (u32, 'a consst_scheme) kr" where
  "consolewrite src n s = consolewrite_loop src (sint n) 0 s"

text \<open>After a sleep in the \<^verbatim>\<open>uartputc\<close> of byte \<open>i\<close>, which was \<open>c\<close>.\<close>

definition consolewrite_resume ::
  "nat \<Rightarrow> bool \<Rightarrow> u8 \<Rightarrow> addr \<Rightarrow> int \<Rightarrow> int \<Rightarrow> 'a consst_scheme \<Rightarrow> (u32, 'a consst_scheme) kr" where
  "consolewrite_resume p saved c src n i s =
     kthen (uartputc_resume p saved c s) (\<lambda>s. consolewrite_loop (addr_add src 1) n (i + 1) s)"

text \<open>\<^verbatim>\<open>c = cons.buf[cons.r++ % INPUT_BUF_SIZE]\<close>\<close>

definition cons_get :: "cons_t \<Rightarrow> u8 \<times> cons_t" where
  "cons_get x = (c_buf x (unat (c_r x) mod INPUT_BUF_SIZE), x\<lparr>c_r := c_r x + 1\<rparr>)"

text \<open>The loop of \<^verbatim>\<open>consoleread\<close>: \<open>asked\<close> is what was asked for and \<open>n\<close> what is still missing.\<close>

function consoleread_loop :: "addr \<Rightarrow> int \<Rightarrow> int \<Rightarrow> 'a consst_scheme \<Rightarrow> (u32, 'a consst_scheme) kr" where
  "consoleread_loop dst asked n s =
     (let fin = (\<lambda>n s. kthen (release L_cons s) (\<lambda>s. Ok (of_int (asked - n)) s)) in
      if n > 0 then
        if c_r (console s) = c_w (console s) then
          kbind (myproc s) (\<lambda>me s.
            case me of
              None \<Rightarrow> Fault ''consoleread: no process''
            | Some p \<Rightarrow>
                kbind (killed p s) (\<lambda>k s.
                  if k \<noteq> 0 then kthen (release L_cons s) (\<lambda>s. Ok (- 1) s)
                  else kthen (sleep Ch_cons L_cons s) (\<lambda>s. Fault ''sleep returned without a switch'')))
        else
          (case cons_get (console s) of
             (c, x) \<Rightarrow>
               let s = upd_cons (\<lambda>_. x) s in
               if c = ctrl (CHR ''D'') then
                 fin n (if n < asked then upd_cons (\<lambda>x. x\<lparr>c_r := c_r x - 1\<rparr>) s else s)
               else
                 kbind (either_copyout dst (\<lambda>_. c) 1 (\<lambda>_. 0) s) (\<lambda>(r, _) s.
                   if r = - 1 then fin n s
                   else if c = of_char newline then fin (n - 1) s
                   else consoleread_loop (addr_add dst 1) asked (n - 1) s))
      else fin n s)"
  by pat_completeness auto
termination
  by (relation "measure (\<lambda>(dst, asked, n, s). nat n)") auto

declare consoleread_loop.simps [simp del]

definition consoleread :: "addr \<Rightarrow> u32 \<Rightarrow> 'a consst_scheme \<Rightarrow> (u32, 'a consst_scheme) kr" where
  "consoleread dst n s = kthen (acquire L_cons s) (\<lambda>s. consoleread_loop dst (sint n) (sint n) s)"

definition consoleread_resume :: "nat \<Rightarrow> bool \<Rightarrow> addr \<Rightarrow> int \<Rightarrow> int \<Rightarrow> 'a consst_scheme \<Rightarrow> (u32, 'a consst_scheme) kr" where
  "consoleread_resume p saved dst asked n s = kthen (sleep_return p L_cons saved s) (\<lambda>s. consoleread_loop dst asked n s)"

text \<open>The loop of \<^verbatim>\<open>C('U')\<close>; the bytes being edited bound it.\<close>

primrec kill_line :: "nat \<Rightarrow> 'a consst_scheme \<Rightarrow> (unit, 'a consst_scheme) kr" where
  "kill_line 0 s = Ok () s"
| "kill_line (Suc m) s =
     (if c_buf (console s) (unat (c_e (console s) - 1) mod INPUT_BUF_SIZE) \<noteq> of_char newline then
        kthen (consputc BACKSPACE (upd_cons (\<lambda>x. x\<lparr>c_e := c_e x - 1\<rparr>) s)) (\<lambda>s. kill_line m s)
      else Ok () s)"

text \<open>\<^verbatim>\<open>cons.buf[cons.e++ % INPUT_BUF_SIZE] = c\<close>\<close>

definition cons_put :: "u8 \<Rightarrow> cons_t \<Rightarrow> cons_t" where
  "cons_put c x = x\<lparr>c_buf := (c_buf x)(unat (c_e x) mod INPUT_BUF_SIZE := c), c_e := c_e x + 1\<rparr>"

definition consoleintr :: "u8 \<Rightarrow> 'a consst_scheme \<Rightarrow> (unit, 'a consst_scheme) kr" where
  "consoleintr c s =
     kthen (acquire L_cons s) (\<lambda>s.
     kthen
       (if c = ctrl (CHR ''P'') then procdump s
        else if c = ctrl (CHR ''U'') then kill_line (unat (c_e (console s) - c_w (console s))) s
        else if c = ctrl (CHR ''H'') \<or> c = 0x7f then
          (if c_e (console s) \<noteq> c_w (console s) then consputc BACKSPACE (upd_cons (\<lambda>x. x\<lparr>c_e := c_e x - 1\<rparr>) s) else Ok () s)
        else if c \<noteq> 0 \<and> c_e (console s) - c_r (console s) < of_nat INPUT_BUF_SIZE then
          (let c = (if c = 13 then of_char newline else c) in
           kthen (consputc (Char c) s) (\<lambda>s.
             let s = upd_cons (cons_put c) s in
             if c = of_char newline \<or> c = ctrl (CHR ''D'') \<or> c_e (console s) - c_r (console s) = of_nat INPUT_BUF_SIZE
             then wakeup Ch_cons (upd_cons (\<lambda>x. x\<lparr>c_w := c_e x\<rparr>) s)
             else Ok () s))
        else Ok () s) (\<lambda>s.
       release L_cons s))"

text \<open>\<^verbatim>\<open>uartintr\<close>: the loop takes every waiting character.\<close>

primrec uartintr_loop :: "nat \<Rightarrow> 'a consst_scheme \<Rightarrow> (unit, 'a consst_scheme) kr" where
  "uartintr_loop 0 s = Ok () s"
| "uartintr_loop (Suc m) s =
     (case uartgetc s of
        (None, s) \<Rightarrow> Ok () s
      | (Some c, s) \<Rightarrow> kthen (consoleintr c s) (\<lambda>s. uartintr_loop m s))"

definition uartintr :: "'a consst_scheme \<Rightarrow> (unit, 'a consst_scheme) kr" where
  "uartintr s =
     kthen (uartintr_loop (length (rx (uart s)) + 1) s) (\<lambda>s.
     kthen (acquire L_uart s) (\<lambda>s.
     kthen (uartstart s) (\<lambda>s. release L_uart s)))"

definition consoleinit :: "'a consst_scheme \<Rightarrow> 'a consst_scheme" where
  "consoleinit s = uartinit (initlock L_cons ''cons'' s)"

section \<open>The line discipline\<close>

text \<open>What the buffer holds: the bytes \<^verbatim>\<open>consoleread\<close> may take, and those still being edited.\<close>

definition cring :: "cons_t \<Rightarrow> u32 \<Rightarrow> u32 \<Rightarrow> u8 list" where
  "cring x a b = map (\<lambda>k. c_buf x (unat (a + of_nat k) mod INPUT_BUF_SIZE)) [0..<unat (b - a)]"

definition committed :: "cons_t \<Rightarrow> u8 list" where "committed x = cring x (c_r x) (c_w x)"
definition editing :: "cons_t \<Rightarrow> u8 list" where "editing x = cring x (c_w x) (c_e x)"

definition ends_line :: "u8 \<Rightarrow> bool" where "ends_line c \<longleftrightarrow> c = of_char newline \<or> c = ctrl (CHR ''D'')"

definition cons_ok :: "cons_t \<Rightarrow> bool" where
  "cons_ok x \<longleftrightarrow> unat (c_w x - c_r x) + unat (c_e x - c_w x) \<le> INPUT_BUF_SIZE \<and> (\<forall>c \<in> set (editing x). \<not> ends_line c)"

text \<open>What a key does to the two, and what is echoed.\<close>

definition typed :: "u8 \<Rightarrow> u8" where "typed c = (if c = 13 then of_char newline else c)"

definition edit :: "u8 \<Rightarrow> u8 list \<times> u8 list \<Rightarrow> u8 list \<times> u8 list" where
  "edit c q =
     (case q of
        (fixed, cur) \<Rightarrow>
          if c = ctrl (CHR ''P'') then (fixed, cur)
          else if c = ctrl (CHR ''U'') then (fixed, [])
          else if c = ctrl (CHR ''H'') \<or> c = 0x7f then (fixed, butlast cur)
          else if c \<noteq> 0 \<and> length fixed + length cur < INPUT_BUF_SIZE then
            (if ends_line (typed c) \<or> length fixed + length cur + 1 = INPUT_BUF_SIZE then (fixed @ cur @ [typed c], [])
             else (fixed, cur @ [typed c]))
          else (fixed, cur))"

definition erase :: string where "erase = [char_of (8 :: nat), CHR '' '', char_of (8 :: nat)]"

definition echo :: "u8 \<Rightarrow> u8 list \<times> u8 list \<Rightarrow> string" where
  "echo c q =
     (case q of
        (fixed, cur) \<Rightarrow>
          if c = ctrl (CHR ''P'') then []
          else if c = ctrl (CHR ''U'') then concat (replicate (length cur) erase)
          else if c = ctrl (CHR ''H'') \<or> c = 0x7f then (if cur = [] then [] else erase)
          else if c \<noteq> 0 \<and> length fixed + length cur < INPUT_BUF_SIZE then [char_of (unat (typed c))]
          else [])"

lemma cslot: "unat (a + of_nat k :: u32) mod INPUT_BUF_SIZE = (unat a + k) mod INPUT_BUF_SIZE"
proof -
  have "unat (a + of_nat k) = (unat a + k) mod 2 ^ 32" by (simp add: unat_word_ariths unat_of_nat mod_simps)
  then show ?thesis by (simp add: INPUT_BUF_SIZE_def mod_mod_cancel)
qed

lemma length_cring: "length (cring x a b) = unat (b - a)"
  by (simp add: cring_def)

lemma cring_empty: "cring x a b = [] \<longleftrightarrow> a = b"
proof -
  have "a = b \<longleftrightarrow> b - a = 0" by auto
  then show ?thesis by (simp add: cring_def unat_eq_zero)
qed

lemma next_index: "unat (b - a) < 2 ^ 32 - 1 \<Longrightarrow> unat (b + 1 - a) = Suc (unat (b - a))" for a b :: u32
proof -
  assume "unat (b - a) < 2 ^ 32 - 1"
  then have "unat (b - a + 1) = Suc (unat (b - a))" by (simp add: unat_word_ariths)
  then show ?thesis by (simp add: algebra_simps)
qed

lemma prev_index: "a \<noteq> b \<Longrightarrow> unat (b - 1 - a) = unat (b - a) - 1" for a b :: u32
proof -
  assume "a \<noteq> b"
  then have "b - a \<noteq> 0" by auto
  then have "unat (b - a - 1) = unat (b - a) - 1" by (rule unat_minus_one)
  then show ?thesis by (simp add: algebra_simps)
qed

text \<open>Storing at the end, forgetting the last and taking the first.\<close>

lemma slots_apart:
  assumes "k < n" and "n < INPUT_BUF_SIZE"
  shows "(a + k) mod INPUT_BUF_SIZE \<noteq> (a + n) mod INPUT_BUF_SIZE"
proof
  assume "(a + k) mod INPUT_BUF_SIZE = (a + n) mod INPUT_BUF_SIZE"
  then have "INPUT_BUF_SIZE dvd a + n - (a + k)"
    using mod_eq_dvd_iff_nat [of "a + k" "a + n" INPUT_BUF_SIZE] assms(1) by simp
  then show False using assms by (auto dest: dvd_imp_le)
qed

lemma last_slot: "unat b mod INPUT_BUF_SIZE = (unat a + unat (b - a)) mod INPUT_BUF_SIZE" for a b :: u32
  using cslot [of a "unat (b - a)"] by simp

lemma cring_put:
  assumes "unat (c_e x - a) < INPUT_BUF_SIZE"
  shows "cring (cons_put c x) a (c_e x + 1) = cring x a (c_e x) @ [c]"
proof -
  have n: "unat (c_e x + 1 - a) = Suc (unat (c_e x - a))"
    by (rule next_index) (use assms in \<open>simp add: INPUT_BUF_SIZE_def\<close>)
  show ?thesis
    by (rule nth_equalityI)
      (use n last_slot [of "c_e x" a] slots_apart [OF _ assms] in \<open>auto simp: cons_put_def cring_def cslot nth_append less_Suc_eq\<close>)
qed

lemma cring_other:
  assumes "unat (b - a) \<le> unat (c_e x - a)" and "unat (c_e x - a) < INPUT_BUF_SIZE"
  shows "cring (cons_put c x) a b = cring x a b"
proof -
  have "(unat a + k) mod INPUT_BUF_SIZE \<noteq> unat (c_e x) mod INPUT_BUF_SIZE" if "k < unat (b - a)" for k
    using slots_apart [OF _ assms(2), of k "unat a"] that assms(1) last_slot [of "c_e x" a] by simp
  then show ?thesis by (simp add: cring_def cons_put_def cslot)
qed

lemma cring_butlast: "a \<noteq> b \<Longrightarrow> cring x a (b - 1) = butlast (cring x a b)"
proof -
  assume "a \<noteq> b"
  then have "unat (b - 1 - a) = unat (b - a) - 1" by (rule prev_index)
  moreover have "butlast [0..<unat (b - a)] = [0..<unat (b - a) - 1]" by (cases "unat (b - a)") simp_all
  ultimately show ?thesis by (simp only: cring_def map_butlast [symmetric])
qed

lemma cring_last: "a \<noteq> b \<Longrightarrow> last (cring x a b) = c_buf x (unat (b - 1) mod INPUT_BUF_SIZE)"
proof -
  assume ne: "a \<noteq> b"
  then have "unat (b - 1 - a) = unat (b - a) - 1" by (rule prev_index)
  moreover have "unat (b - a) \<noteq> 0" using ne cring_empty [of x a b] by (simp add: cring_def)
  ultimately have "last (cring x a b) = c_buf x (unat (a + of_nat (unat (b - 1 - a))) mod INPUT_BUF_SIZE)"
    by (simp add: cring_def last_map)
  then show ?thesis by simp
qed

lemma cring_tl:
  assumes "a \<noteq> b"
  shows "cring x a b = c_buf x (unat a mod INPUT_BUF_SIZE) # cring x (a + 1) b"
proof -
  have "b - a \<noteq> 0" using assms by auto
  then have "unat (b - a - 1) = unat (b - a) - 1" by (rule unat_minus_one)
  then have n: "unat (b - (a + 1)) = unat (b - a) - 1" by (simp add: algebra_simps)
  obtain m where m: "unat (b - a) = Suc m" using \<open>b - a \<noteq> 0\<close> by (cases "unat (b - a)") (auto simp: unat_eq_zero)
  have s: "a + 1 + of_nat k = a + of_nat (Suc k)" for k :: nat by simp
  have u: "[0..<Suc m] = 0 # map Suc [0..<m]" by (simp add: upt_conv_Cons map_Suc_upt del: upt_Suc)
  have "cring x (a + 1) b = map (\<lambda>k. c_buf x (unat (a + of_nat (Suc k)) mod INPUT_BUF_SIZE)) [0..<m]"
    using n m by (simp only: cring_def s diff_Suc_1)
  moreover have "cring x a b = c_buf x (unat (a + of_nat 0) mod INPUT_BUF_SIZE) # map (\<lambda>k. c_buf x (unat (a + of_nat (Suc k)) mod INPUT_BUF_SIZE)) [0..<m]"
    by (simp only: cring_def m u list.map map_map comp_def)
  ultimately show ?thesis by simp
qed

lemma cring_append:
  assumes "unat (b - a) + unat (c - b) < 2 ^ 32"
  shows "cring x a c = cring x a b @ cring x b c" "unat (c - a) = unat (b - a) + unat (c - b)"
proof -
  have "c - a = (b - a) + (c - b)" by simp
  also have "unat \<dots> = (unat (b - a) + unat (c - b)) mod 2 ^ 32" by (subst unat_word_ariths(1)) simp
  finally show n: "unat (c - a) = unat (b - a) + unat (c - b)" using assms by simp
  have "(unat b + k) mod INPUT_BUF_SIZE = (unat a + (unat (b - a) + k)) mod INPUT_BUF_SIZE" for k
  proof -
    have "(unat b + k) mod INPUT_BUF_SIZE = (unat b mod INPUT_BUF_SIZE + k) mod INPUT_BUF_SIZE" by (simp add: mod_add_left_eq)
    also have "\<dots> = (unat a + unat (b - a) + k) mod INPUT_BUF_SIZE" unfolding last_slot [of b a] by (rule mod_add_left_eq)
    finally show ?thesis by (simp add: add.assoc)
  qed
  then have "map (\<lambda>k. c_buf x ((unat b + k) mod INPUT_BUF_SIZE)) [0..<unat (c - b)] =
      map (\<lambda>k. c_buf x ((unat a + k) mod INPUT_BUF_SIZE)) [unat (b - a)..<unat (b - a) + unat (c - b)]"
    by (intro nth_equalityI) simp_all
  then show "cring x a c = cring x a b @ cring x b c"
    unfolding cring_def cslot n by (simp add: upt_add_eq_append [of 0])
qed

lemma cons_counts:
  assumes "cons_ok x"
  shows "unat (c_e x - c_r x) = length (committed x) + length (editing x)" "length (committed x) + length (editing x) \<le> INPUT_BUF_SIZE"
proof -
  have le: "unat (c_w x - c_r x) + unat (c_e x - c_w x) \<le> INPUT_BUF_SIZE" using assms by (simp add: cons_ok_def)
  then have "unat (c_w x - c_r x) + unat (c_e x - c_w x) < 2 ^ 32" by (simp add: INPUT_BUF_SIZE_def)
  from cring_append(2) [OF this] show "unat (c_e x - c_r x) = length (committed x) + length (editing x)"
    by (simp add: committed_def editing_def length_cring)
  show "length (committed x) + length (editing x) \<le> INPUT_BUF_SIZE" using le by (simp add: committed_def editing_def length_cring)
qed

lemma room_iff: "cons_ok x \<Longrightarrow> c_e x - c_r x < of_nat INPUT_BUF_SIZE \<longleftrightarrow> length (committed x) + length (editing x) < INPUT_BUF_SIZE"
  using cons_counts(1) [of x] by (simp add: word_less_nat_alt INPUT_BUF_SIZE_def)

lemma put_view:
  assumes "cons_ok x" and "length (committed x) + length (editing x) < INPUT_BUF_SIZE"
  shows "committed (cons_put c x) = committed x" "editing (cons_put c x) = editing x @ [c]"
    "unat (c_e (cons_put c x) - c_r (cons_put c x)) = length (committed x) + length (editing x) + 1"
    "\<not> ends_line c \<Longrightarrow> cons_ok (cons_put c x)"
proof -
  let ?y = "cons_put c x"
  have y: "c_r ?y = c_r x" "c_w ?y = c_w x" "c_e ?y = c_e x + 1" by (simp_all add: cons_put_def)
  have n: "unat (c_e x - c_r x) < INPUT_BUF_SIZE" using cons_counts(1) [OF assms(1)] assms(2) by simp
  have le: "unat (c_w x - c_r x) \<le> unat (c_e x - c_r x)" using cons_counts(1) [OF assms(1)] by (simp add: committed_def length_cring)
  show "committed ?y = committed x" unfolding committed_def y by (rule cring_other [OF le n])
  have f: "unat (c_e x - c_w x) < INPUT_BUF_SIZE" using assms(2) by (simp add: editing_def length_cring)
  show e: "editing ?y = editing x @ [c]" unfolding editing_def y by (rule cring_put [OF f])
  show u: "unat (c_e ?y - c_r ?y) = length (committed x) + length (editing x) + 1"
    using next_index [of "c_e x" "c_r x"] n cons_counts(1) [OF assms(1)] unfolding y by (simp add: INPUT_BUF_SIZE_def)
  show "cons_ok ?y" if "\<not> ends_line c"
  proof -
    have "unat (c_e x + 1 - c_w x) = Suc (unat (c_e x - c_w x))" by (rule next_index) (use f in \<open>simp add: INPUT_BUF_SIZE_def\<close>)
    then have "unat (c_w ?y - c_r ?y) + unat (c_e ?y - c_w ?y) \<le> INPUT_BUF_SIZE"
      using assms(2) unfolding y by (simp add: committed_def editing_def length_cring)
    then show ?thesis using assms(1) e that by (auto simp: cons_ok_def)
  qed
qed

lemma commit_view:
  assumes "unat (c_w x - c_r x) + unat (c_e x - c_w x) \<le> INPUT_BUF_SIZE"
  shows "committed (x\<lparr>c_w := c_e x\<rparr>) = committed x @ editing x" "editing (x\<lparr>c_w := c_e x\<rparr>) = []" "cons_ok (x\<lparr>c_w := c_e x\<rparr>)"
proof -
  have "unat (c_w x - c_r x) + unat (c_e x - c_w x) < 2 ^ 32" using assms by (simp add: INPUT_BUF_SIZE_def)
  note a = cring_append [OF this]
  show "committed (x\<lparr>c_w := c_e x\<rparr>) = committed x @ editing x" using a(1) [of x] by (simp add: committed_def editing_def cring_def)
  show e: "editing (x\<lparr>c_w := c_e x\<rparr>) = []" by (simp add: editing_def cring_empty)
  show "cons_ok (x\<lparr>c_w := c_e x\<rparr>)" using e a(2) assms by (simp add: cons_ok_def)
qed

lemma back_view:
  assumes "cons_ok x" and "c_e x \<noteq> c_w x"
  shows "committed (x\<lparr>c_e := c_e x - 1\<rparr>) = committed x" "editing (x\<lparr>c_e := c_e x - 1\<rparr>) = butlast (editing x)"
    "cons_ok (x\<lparr>c_e := c_e x - 1\<rparr>)" "unat (c_e x - 1 - c_w x) = unat (c_e x - c_w x) - 1"
proof -
  let ?y = "x\<lparr>c_e := c_e x - 1\<rparr>"
  have ne: "c_w x \<noteq> c_e x" using assms(2) by simp
  show "committed ?y = committed x" by (simp add: committed_def cring_def)
  have "editing ?y = cring x (c_w x) (c_e x - 1)" by (simp add: editing_def cring_def)
  then show e: "editing ?y = butlast (editing x)" using cring_butlast [OF ne] by (simp add: editing_def)
  show n: "unat (c_e x - 1 - c_w x) = unat (c_e x - c_w x) - 1" by (rule prev_index [OF ne])
  show "cons_ok ?y" using assms(1) e n by (auto simp: cons_ok_def dest: in_set_butlastD)
qed

lemma upd_cons_frame [frame_simps]:
  "irq_ok (upd_cons f s) \<longleftrightarrow> irq_ok s" "free l (upd_cons f s) \<longleftrightarrow> free l s" "mycpu (upd_cons f s) = mycpu s"
  "me (upd_cons f s) = me s" "procs (upd_cons f s) = procs s" "pmem (upd_cons f s) = pmem s"
  "freelist (upd_cons f s) = freelist s" "kend (upd_cons f s) = kend s" "proc_locks_free (upd_cons f s) \<longleftrightarrow> proc_locks_free s"
  "upd_cons f (grab l s) = grab l (upd_cons f s)" "console (grab l s) = console s" "panicked (upd_cons f s) = panicked s"
  "panicked (grab l s) = panicked s" "panicked (kputs m s) = panicked s" "console (kputs m s) = console s"
  "upd_cons f (kputs m s) = kputs m (upd_cons f s)" "kputs m (grab l s) = grab l (kputs m s)" "kout (upd_cons f s) = kout s"
  by (simp_all add: upd_cons_def irq_ok_def free_def me_def proc_locks_free_def grab_def kputs_def Let_def irq_defs)

lemma kputs_procs_frame [frame_simps]: "proc_locks_free (kputs m s) \<longleftrightarrow> proc_locks_free s"
  by (simp add: proc_locks_free_def frame_simps)

lemma console_upd_cons [simp]: "console (upd_cons f s) = f (console s)"
  by (simp add: upd_cons_def)

lemma upd_cons_upd [simp]: "upd_cons f (upd_cons g s) = upd_cons (\<lambda>x. f (g x)) s"
  by (simp add: upd_cons_def)

lemma kputs_kputs: "kputs a (kputs b s) = kputs (b @ a) s"
  by (simp add: kputs_def)

lemma uartputc_sync_ok: "irq_ok s \<Longrightarrow> \<not> panicked s \<Longrightarrow> uartputc_sync c s = Ok () (kputs [char_of (unat c)] s)"
proof -
  assume a: "irq_ok s" "\<not> panicked s"
  have "kputs m (push_off s) = push_off (kputs m s)" for m by (simp add: kputs_def push_off_def irq_defs Let_def)
  moreover have "irq_ok (kputs m s)" for m using a(1) by (simp add: frame_simps)
  moreover have "panicked (push_off s) = panicked s" by (simp add: push_off_def irq_defs Let_def)
  moreover have "irq_ok (kputs [char_of (unat c)] s)" using a(1) by (simp add: frame_simps)
  note pop_push_off [OF this]
  ultimately show ?thesis using a(2) by (simp add: uartputc_sync_def Let_def)
qed

lemma kputs_quiet [simp]: "panicked (kputs m s) = panicked s" "kout (kputs m s) = kout s @ m" "kputs [] s = s"
  by (simp_all add: kputs_def)

lemma consputc_ok:
  assumes "irq_ok s" and "\<not> panicked s"
  shows "consputc (Char c) s = Ok () (kputs [char_of (unat c)] s)" "consputc BACKSPACE s = Ok () (kputs erase s)"
proof -
  show "consputc (Char c) s = Ok () (kputs [char_of (unat c)] s)" using assms by (simp add: consputc_def uartputc_sync_ok)
  let ?b = "char_of (unat (8 :: u8))" let ?p = "char_of (unat (32 :: u8))"
  have i: "irq_ok (kputs m s)" for m using assms(1) by (simp add: frame_simps)
  have "consputc BACKSPACE s = Ok () (kputs ([?b] @ [?p] @ [?b]) s)"
    using assms(2) i unfolding consputc_def key.case
    by (simp only: uartputc_sync_ok [OF assms] uartputc_sync_ok [OF i] kthen_simps kputs_quiet kputs_kputs simp_thms append_assoc)
  moreover have "[?b] @ [?p] @ [?b] = erase" by (simp add: erase_def char_of_eq_iff)
  ultimately show "consputc BACKSPACE s = Ok () (kputs erase s)" by simp
qed

lemma cons_wakeup:
  assumes "irq_ok s" and "free L_cons s" and "proc_locks_free s"
  shows "wakeup Ch_cons (grab L_cons s) = Ok () (grab L_cons (s\<lparr>procs := woken Ch_cons (me s) (procs s)\<rparr>))"
proof -
  have "irq_ok (grab L_cons s)" "proc_locks_free (grab L_cons s)" using assms by (simp_all add: kernel_simps frame_simps)
  moreover have "(grab L_cons s)\<lparr>procs := x\<rparr> = grab L_cons (s\<lparr>procs := x\<rparr>)" for x
    by (simp add: grab_def irq_defs push_off_def Let_def)
  moreover have "me (grab L_cons s) = me s" "procs (grab L_cons s) = procs s" by (simp_all add: frame_simps)
  ultimately show ?thesis by (simp add: wakeup_ok)
qed

lemma kill_line_ok:
  assumes "irq_ok s" and "\<not> panicked s" and "cons_ok (console s)" and "m = unat (c_e (console s) - c_w (console s))"
  shows "kill_line m s = Ok () (kputs (concat (replicate m erase)) (upd_cons (\<lambda>x. x\<lparr>c_e := c_w x\<rparr>) s))"
  using assms
proof (induction m arbitrary: s)
  case 0
  then have "c_e (console s) = c_w (console s)" by (simp add: unat_eq_zero)
  then have "upd_cons (\<lambda>x. x\<lparr>c_e := c_w x\<rparr>) s = s" by (simp add: upd_cons_def)
  then show ?case by (simp add: kputs_def)
next
  case (Suc m)
  let ?x = "console s" let ?t = "kputs erase (upd_cons (\<lambda>x. x\<lparr>c_e := c_e x - 1\<rparr>) s)"
  have ne: "c_e ?x \<noteq> c_w ?x" using Suc.prems(4) by auto
  note b = back_view [OF Suc.prems(3) ne]
  have e: "editing ?x \<noteq> []" using ne by (simp add: editing_def cring_empty)
  have "last (editing ?x) = c_buf ?x (unat (c_e ?x - 1) mod INPUT_BUF_SIZE)"
    unfolding editing_def using ne by (intro cring_last) simp
  moreover have "\<not> ends_line (last (editing ?x))" using Suc.prems(3) e by (simp add: cons_ok_def)
  ultimately have nl: "c_buf ?x (unat (c_e ?x - 1) mod INPUT_BUF_SIZE) \<noteq> of_char newline" by (auto simp: ends_line_def)
  have "m = unat (c_e (console ?t) - c_w (console ?t))" using b(4) Suc.prems(4) by (simp add: frame_simps)
  from Suc.IH [OF _ _ _ this] have "kill_line m ?t =
      Ok () (kputs (concat (replicate m erase)) (upd_cons (\<lambda>x. x\<lparr>c_e := c_w x\<rparr>) ?t))"
    using Suc.prems(1,2) b(3) by (simp add: frame_simps)
  then show ?case
    using nl Suc.prems(1,2) by (simp add: consputc_ok frame_simps kputs_kputs)
qed

lemma ctrl_keys [simp]: "ctrl (CHR ''U'') \<noteq> ctrl (CHR ''P'')"
  by (simp add: ctrl_def)

lemma intr_begin:
  assumes "quiet s \<and> \<not> panicked s \<and> cons_ok (console s)"
  shows "irq_ok s" "free L_cons s" "proc_locks_free s"
    "irq_ok (grab L_cons s)" "\<not> panicked (grab L_cons s)" "console (grab L_cons s) = console s"
    "acquire L_cons s = Ok () (grab L_cons s)" "cons_ok (console s)"
    "c_e (console s) = c_w (console s) \<longleftrightarrow> editing (console s) = []"
proof -
  show i: "irq_ok s" "free L_cons s" "proc_locks_free s" using assms quiet_procs [of s] by (simp_all add: quiet_def)
  show "irq_ok (grab L_cons s)" "\<not> panicked (grab L_cons s)" "console (grab L_cons s) = console s"
    "acquire L_cons s = Ok () (grab L_cons s)" "cons_ok (console s)"
    using i assms by (simp_all add: kernel_simps frame_simps)
  show "c_e (console s) = c_w (console s) \<longleftrightarrow> editing (console s) = []"
    using cring_empty [of "console s" "c_w (console s)" "c_e (console s)"] by (auto simp: editing_def)
qed

lemma intr_end: "irq_ok t \<Longrightarrow> free L_cons t \<Longrightarrow> release L_cons (grab L_cons t) = Ok () t"
  by (simp add: kernel_simps)

text \<open>What a key may change.\<close>

definition edited :: "u8 \<Rightarrow> 'a consst_scheme \<Rightarrow> 'a consst_scheme \<Rightarrow> bool" where
  "edited c s t \<longleftrightarrow>
     (let q = (committed (console s), editing (console s)) in
      cons_ok (console t) \<and> (committed (console t), editing (console t)) = edit c q \<and>
      kout t = kout s @ echo c q @ (if c = ctrl (CHR ''P'') then dump (procs s) else []) \<and>
      procs t = (if committed (console t) = committed (console s) then procs s else woken Ch_cons (me s) (procs s)))"

lemma intr_dump:
  assumes "quiet s \<and> \<not> panicked s \<and> cons_ok (console s)" and "c = ctrl (CHR ''P'')"
  shows "\<exists>t. consoleintr c s = Ok () t \<and> edited c s t"
proof -
  note i = intr_begin(1-3) [OF assms(1)] note g = intr_begin(4-6) [OF assms(1)] note acq = intr_begin(7) [OF assms(1)]
  let ?t = "kputs (dump (procs s)) s"
  have "free L_pr (grab L_cons s)" using assms(1) by (simp add: quiet_def kernel_simps)
  from procdump_ok [OF g(1) this] have "procdump (grab L_cons s) = Ok () (grab L_cons ?t)" by (simp add: frame_simps)
  moreover have "release L_cons (grab L_cons ?t) = Ok () ?t" using i by (intro intr_end) (simp_all add: frame_simps)
  ultimately have "consoleintr c s = Ok () ?t" using assms(2) acq by (simp add: consoleintr_def)
  moreover have "procs ?t = procs s" by (simp add: kputs_def)
  ultimately show ?thesis
    using assms by (intro exI [of _ ?t]) (simp add: edited_def edit_def Let_def echo_def frame_simps)
qed

lemma intr_kill:
  assumes "quiet s \<and> \<not> panicked s \<and> cons_ok (console s)" and "c \<noteq> ctrl (CHR ''P'') \<and> c = ctrl (CHR ''U'')"
  shows "\<exists>t. consoleintr c s = Ok () t \<and> edited c s t"
proof -
  let ?x = "console s" let ?q = "(committed (console s), editing (console s))" let ?g = "grab L_cons s"
  note i = intr_begin(1-3) [OF assms(1)] note g = intr_begin(4-6) [OF assms(1)] note acq = intr_begin(7) [OF assms(1)]
  note ok = intr_begin(8) [OF assms(1)] note ne = intr_begin(9) [OF assms(1)]
  have len: "unat (c_e ?x - c_w ?x) = length (editing ?x)" by (simp add: editing_def length_cring)
  let ?t = "kputs (concat (replicate (length (editing ?x)) erase)) (upd_cons (\<lambda>x. x\<lparr>c_e := c_w x\<rparr>) s)"
  have "cons_ok (console ?g)" using ok g(3) by simp
  from kill_line_ok [OF g(1,2) this refl] have "kill_line (unat (c_e ?x - c_w ?x)) ?g = Ok () (grab L_cons ?t)"
    using len g(3) by (simp add: frame_simps)
  moreover have "release L_cons (grab L_cons ?t) = Ok () ?t" using i by (intro intr_end) (simp_all add: frame_simps)
  ultimately have "consoleintr c s = Ok () ?t" using assms(2) acq g(3) by (simp add: consoleintr_def)
  moreover have "cons_ok (console ?t)" "committed (console ?t) = committed ?x" "editing (console ?t) = []"
    using ok by (simp_all add: frame_simps cons_ok_def editing_def committed_def cring_def)
  ultimately show ?thesis using assms(2) by (intro exI [of _ ?t]) (simp add: edited_def edit_def Let_def echo_def frame_simps)
qed

lemma intr_back:
  assumes "quiet s \<and> \<not> panicked s \<and> cons_ok (console s)" and "c \<noteq> ctrl (CHR ''P'') \<and> c \<noteq> ctrl (CHR ''U'') \<and> (c = ctrl (CHR ''H'') \<or> c = 0x7f)"
  shows "\<exists>t. consoleintr c s = Ok () t \<and> edited c s t"
proof -
  let ?x = "console s" let ?q = "(committed (console s), editing (console s))" let ?g = "grab L_cons s"
  note i = intr_begin(1-3) [OF assms(1)] note g = intr_begin(4-6) [OF assms(1)] note acq = intr_begin(7) [OF assms(1)]
  note ok = intr_begin(8) [OF assms(1)] note ne = intr_begin(9) [OF assms(1)]
  show ?thesis
  proof (cases "editing ?x = []")
    case True
    then have "consoleintr c s = Ok () s" using assms(2) acq g(3) ne intr_end [OF i(1,2)] by (simp add: consoleintr_def)
    then show ?thesis using assms(2) ok True by (intro exI [of _ s]) (simp add: edited_def edit_def Let_def echo_def)
  next
    case False
    let ?t = "kputs erase (upd_cons (\<lambda>x. x\<lparr>c_e := c_e x - 1\<rparr>) s)"
    have ne': "c_e ?x \<noteq> c_w ?x" using ne False by simp
    have "consputc BACKSPACE (upd_cons (\<lambda>x. x\<lparr>c_e := c_e x - 1\<rparr>) ?g) = Ok () (grab L_cons ?t)"
      using g(2) i by (subst consputc_ok) (simp_all add: kernel_simps frame_simps)
    moreover have "release L_cons (grab L_cons ?t) = Ok () ?t" using i by (intro intr_end) (simp_all add: frame_simps)
    ultimately have "consoleintr c s = Ok () ?t" using assms(2) acq g(3) ne' by (simp add: consoleintr_def)
    then show ?thesis using assms(2) False back_view [OF ok ne']
      by (intro exI [of _ ?t]) (simp add: edited_def edit_def Let_def echo_def frame_simps)
  qed
qed

lemma intr_type:
  assumes "quiet s \<and> \<not> panicked s \<and> cons_ok (console s)" and "c \<noteq> ctrl (CHR ''P'') \<and> c \<noteq> ctrl (CHR ''U'') \<and> \<not> (c = ctrl (CHR ''H'') \<or> c = 0x7f)"
  shows "\<exists>t. consoleintr c s = Ok () t \<and> edited c s t"
proof -
  let ?x = "console s" let ?q = "(committed (console s), editing (console s))" let ?g = "grab L_cons s"
  note i = intr_begin(1-3) [OF assms(1)] note g = intr_begin(4-6) [OF assms(1)] note acq = intr_begin(7) [OF assms(1)]
  note ok = intr_begin(8) [OF assms(1)] note ne = intr_begin(9) [OF assms(1)]
  show ?thesis
  proof (cases "c \<noteq> 0 \<and> length (committed ?x) + length (editing ?x) < INPUT_BUF_SIZE")
    case False
    then have "consoleintr c s = Ok () s"
      using assms(2) acq g(3) room_iff [OF ok] intr_end [OF i(1,2)] by (auto simp: consoleintr_def)
    then show ?thesis using assms(2) ok False by (intro exI [of _ s]) (auto simp: edited_def edit_def Let_def echo_def)
  next
    case True
    let ?d = "typed c" let ?y = "cons_put (typed c) ?x"
    let ?fin = "ends_line ?d \<or> length (committed ?x) + length (editing ?x) + 1 = INPUT_BUF_SIZE"
    let ?s = "kputs [char_of (unat ?d)] (upd_cons (cons_put ?d) s)"
    let ?t = "if ?fin then (upd_cons (\<lambda>x. x\<lparr>c_w := c_e x\<rparr>) ?s)\<lparr>procs := woken Ch_cons (me s) (procs s)\<rparr> else ?s"
    from True have c0: "c \<noteq> 0" and room: "length (committed ?x) + length (editing ?x) < INPUT_BUF_SIZE" by auto
    note pv = put_view [OF ok room, of ?d]
    have full: "c_e ?y - c_r ?y = of_nat INPUT_BUF_SIZE \<longleftrightarrow> length (committed ?x) + length (editing ?x) + 1 = INPUT_BUF_SIZE"
      unfolding pv(3) [symmetric] by (simp add: INPUT_BUF_SIZE_def word_unat_eq_iff)
    have "consputc (Char ?d) ?g = Ok () (grab L_cons (kputs [char_of (unat ?d)] s))"
      using g by (simp add: consputc_ok frame_simps)
    moreover have "upd_cons (cons_put ?d) (grab L_cons (kputs [char_of (unat ?d)] s)) = grab L_cons ?s"
      by (simp add: frame_simps)
    ultimately have "consoleintr c s =
        kthen (if ?fin then wakeup Ch_cons (upd_cons (\<lambda>x. x\<lparr>c_w := c_e x\<rparr>) (grab L_cons ?s)) else Ok () (grab L_cons ?s))
          (release L_cons)"
      using assms(2) acq g(3) c0 room room_iff [OF ok] full
      by (simp add: consoleintr_def typed_def [symmetric] Let_def ends_line_def frame_simps)
    moreover have "wakeup Ch_cons (upd_cons (\<lambda>x. x\<lparr>c_w := c_e x\<rparr>) (grab L_cons ?s)) =
        Ok () (grab L_cons ((upd_cons (\<lambda>x. x\<lparr>c_w := c_e x\<rparr>) ?s)\<lparr>procs := woken Ch_cons (me s) (procs s)\<rparr>))"
      using i by (subst upd_cons_frame(10), subst cons_wakeup) (simp_all add: frame_simps)
    moreover have "release L_cons (grab L_cons ?t) = Ok () ?t" using i by (intro intr_end) (simp_all add: frame_simps)
    ultimately have r: "consoleintr c s = Ok () ?t" by (cases ?fin) (simp_all only: if_True if_False kthen_simps)
    have e: "(committed (console ?t), editing (console ?t)) = edit c ?q \<and> cons_ok (console ?t)"
    proof (cases ?fin)
      case True
      have "unat (c_w ?y - c_r ?y) + unat (c_e ?y - c_w ?y) \<le> INPUT_BUF_SIZE"
        using arg_cong [OF pv(1), of length] arg_cong [OF pv(2), of length] room
        by (simp add: committed_def editing_def length_cring)
      note cv = commit_view [OF this]
      have "console ?t = ?y\<lparr>c_w := c_e ?y\<rparr>" using True by (simp add: frame_simps)
      then show ?thesis using cv pv(1,2) assms(2) c0 room True by (simp add: edited_def edit_def Let_def)
    next
      case False
      then show ?thesis using pv assms(2) c0 room by (simp add: edited_def edit_def Let_def frame_simps)
    qed
    have k: "kout ?t = kout s @ echo c ?q @ (if c = ctrl (CHR ''P'') then dump (procs s) else [])"
      using assms(2) c0 room by (simp add: echo_def frame_simps)
    have w: "fst (edit c ?q) = committed ?x \<longleftrightarrow> \<not> ?fin" using assms(2) c0 room by (simp add: edited_def edit_def Let_def)
    have p: "procs ?t = (if ?fin then woken Ch_cons (me s) (procs s) else procs s)" by (simp add: frame_simps)
    define t where "t = ?t"
    note t = r [folded t_def] e [folded t_def] k [folded t_def] p [folded t_def]
    have "committed (console t) = fst (edit c ?q)" using arg_cong [OF conjunct1 [OF t(2)], of fst] by simp
    then have "procs t = (if committed (console t) = committed ?x then procs s else woken Ch_cons (me s) (procs s))"
      using t(4) w by (cases ?fin) (simp_all only: simp_thms if_True if_False)
    then show ?thesis unfolding edited_def Let_def using t by (intro exI [of _ t]) blast
  qed
qed

text \<open>C13: The line discipline of the console: whatever is typed, the bytes that readers may take and the line being edited stay
  two disjoint parts of the ring of 128, and every key has exactly the effect of \<open>edit\<close> on them and the echo of \<open>echo\<close>:
  a character is added if there is room, a carriage return being a newline; backspace and delete take back the last one
  typed, control-U all of the line, but never anything already committed; a newline, control-D or a full buffer commits
  the line and wakes the readers; control-P changes neither and prints the process table.\<close>

theorem console_edits:
  assumes "quiet s" and "\<not> panicked s" and "cons_ok (console s)"
  defines "q \<equiv> (committed (console s), editing (console s))"
  shows "\<exists>t. consoleintr c s = Ok () t \<and> cons_ok (console t) \<and> (committed (console t), editing (console t)) = edit c q \<and>
     kout t = kout s @ echo c q @ (if c = ctrl (CHR ''P'') then dump (procs s) else []) \<and>
     procs t = (if committed (console t) = committed (console s) then procs s else woken Ch_cons (me s) (procs s))"
proof -
  have s: "quiet s \<and> \<not> panicked s \<and> cons_ok (console s)" using assms(1-3) by simp
  have "\<exists>t. consoleintr c s = Ok () t \<and> edited c s t"
    using intr_dump [OF s] intr_kill [OF s] intr_back [OF s] intr_type [OF s] by blast
  then show ?thesis by (simp add: edited_def q_def Let_def)
qed

text \<open>The line \<^verbatim>\<open>hi\<close> typed, with a reader asleep; the newline commits it.\<close>

definition cons_state :: consst where
  "cons_state = filest.extend (file_state\<lparr>procs := (\<lambda>_. idle_proc)(1 := idle_proc\<lparr>pstate := RUNNING, pid := 7\<rparr>,
        2 := idle_proc\<lparr>pstate := SLEEPING, pid := 8, pchan := Some Ch_cons\<rparr>)\<rparr>)
     (consst.fields \<lparr>c_buf = (\<lambda>k. if k = 126 then 104 else 105), c_r = 0xfffffffe, c_w = 0xfffffffe, c_e = 0\<rparr>
        \<lparr>tx_buf = (\<lambda>_. 0), tx_w = 0, tx_r = 0, tx_idle = [], rx = [], regs = []\<rparr>)"

lemmas cons_state_defs = cons_state_def file_state_defs consst.defs

lemma cons_state_begin:
  "quiet cons_state" "\<not> panicked cons_state" "kout cons_state = []" "me cons_state = Some 1"
  "console cons_state = \<lparr>c_buf = (\<lambda>k. if k = 126 then 104 else 105), c_r = 0xfffffffe, c_w = 0xfffffffe, c_e = 0\<rparr>"
  "procs cons_state 2 = idle_proc\<lparr>pstate := SLEEPING, pid := 8, pchan := Some Ch_cons\<rparr>"
  by (simp_all add: cons_state_defs irq_ok_def irq_defs free_def me_def quiet_def NPROC_def)

lemma newline_byte: "(of_char newline :: u8) = 10" "char_of (10 :: nat) = newline"
  by (simp_all add: newline_def char_of_eq_iff)

lemma cons_state_line:
  "committed (console cons_state) = []" "editing (console cons_state) = [104, 105]" "cons_ok (console cons_state)"
proof -
  have "[0..<2 :: nat] = [0, 1]" by (simp add: upt_rec)
  then show "committed (console cons_state) = []" "editing (console cons_state) = [104, 105]"
    by (simp_all add: cons_state_begin(5) committed_def editing_def cring_def INPUT_BUF_SIZE_def)
  then show "cons_ok (console cons_state)"
    by (simp add: cons_ok_def cons_state_begin(5) INPUT_BUF_SIZE_def ends_line_def ctrl_def newline_byte)
qed

theorem console_edits_witness:
  "\<exists>t. consoleintr 13 cons_state = Ok () t \<and> committed (console t) = [104, 105, 10] \<and> editing (console t) = [] \<and>
     kout t = [newline] \<and> pstate (procs t 2) = RUNNABLE"
proof -
  have c: "(13 :: u8) \<noteq> ctrl (CHR ''P'')" "(13 :: u8) \<noteq> ctrl (CHR ''U'')" "(13 :: u8) \<noteq> ctrl (CHR ''H'')"
    by (simp_all add: ctrl_def)
  from console_edits [OF cons_state_begin(1,2) cons_state_line(3), of 13] obtain t where t:
    "consoleintr 13 cons_state = Ok () t" "(committed (console t), editing (console t)) = edit 13 ([], [104, 105])"
    "kout t = echo 13 ([], [104, 105])"
    "procs t = (if committed (console t) = [] then procs cons_state else woken Ch_cons (Some 1) (procs cons_state))"
    unfolding cons_state_line(1,2) cons_state_begin(3,4) using c(1) by auto
  have e: "edit 13 ([], [104, 105]) = ([104, 105, 10], [])" "echo 13 ([], [104, 105]) = [newline]"
    using c by (simp_all add: edit_def echo_def typed_def ends_line_def INPUT_BUF_SIZE_def newline_byte)
  show ?thesis using t e by (intro exI [of _ t]) (simp add: woken_def cons_state_begin NPROC_def)
qed

section \<open>Reading a line\<close>

text \<open>The bytes a read of \<open>n\<close> takes from the front of the queue, and the queue after it; \<open>got\<close>: it has already taken some.\<close>

fun first_line :: "nat \<Rightarrow> bool \<Rightarrow> u8 list \<Rightarrow> u8 list \<times> u8 list" where
  "first_line 0 got q = ([], q)"
| "first_line (Suc n) got [] = ([], [])"
| "first_line (Suc n) got (c # q) =
     (if c = ctrl (CHR ''D'') then ([], if got then c # q else q)
      else if c = of_char newline then ([c], q)
      else (case first_line n True q of (l, rest) \<Rightarrow> (c # l, rest)))"

text \<open>The read will not have to wait.\<close>

definition line_there :: "nat \<Rightarrow> u8 list \<Rightarrow> bool" where
  "line_there n q \<longleftrightarrow> n \<le> length q \<or> list_ex ends_line q"

definition read_ok :: "'a consst_scheme \<Rightarrow> nat \<Rightarrow> tables \<Rightarrow> mapping \<Rightarrow> u64 list \<Rightarrow> nat set \<Rightarrow> u64 \<Rightarrow>
    int \<Rightarrow> u8 list \<times> u8 list \<Rightarrow> (u32, 'a consst_scheme) kr \<Rightarrow> bool" where
  "read_ok s p T L ps D a done lr r \<longleftrightarrow>
     (\<exists>t. r = Ok (of_int (done + int (length (fst lr)))) t \<and> calls t p T L ps D \<and> cons_ok (console t) \<and> procs t = procs s \<and>
        committed (console t) = snd lr \<and> editing (console t) = editing (console s) \<and>
        umem t L = uput (umem s L) (unat a) (length (fst lr)) (\<lambda>j. fst lr ! j))"

lemma get_view:
  assumes "cons_ok x" and "committed x = c # q" and "cons_get x = (d, y)"
  shows "d = c" "committed y = q" "editing y = editing x" "cons_ok y" "y\<lparr>c_r := c_r y - 1\<rparr> = x"
proof -
  have ne: "c_r x \<noteq> c_w x" using assms(2) cring_empty [of x "c_r x" "c_w x"] by (auto simp: committed_def)
  have y: "d = c_buf x (unat (c_r x) mod INPUT_BUF_SIZE)" "y = x\<lparr>c_r := c_r x + 1\<rparr>" using assms(3) by (auto simp: cons_get_def)
  have v: "cring y a b = cring x a b" for a b by (simp add: cring_def y)
  have h: "committed x = d # committed y" using cring_tl [OF ne, of x] v [of "c_r x + 1" "c_w x"] y by (simp add: committed_def)
  then show "d = c" and q: "committed y = q" using assms(2) by auto
  show e: "editing y = editing x" using v [of "c_w x" "c_e x"] y by (simp add: editing_def)
  have "length (committed y) \<le> length (committed x)" using h by simp
  then show "cons_ok y" using assms(1) e y by (simp add: cons_ok_def committed_def editing_def length_cring)
  show "y\<lparr>c_r := c_r y - 1\<rparr> = x" by (simp add: y)
qed

lemma calls_cons [simp]: "calls (upd_cons f s) p T L ps D \<longleftrightarrow> calls s p T L ps D"
proof -
  have "space (upd_cons f s) q T L ps D \<longleftrightarrow> space s q T L ps D" for q
    by (simp add: space_def vm_inv_def pages_apart_def free_list_def page_ok_def frame_simps)
  then show ?thesis by (simp add: calls_def quiet_def frame_simps)
qed

lemma umem_upd_cons [simp]: "umem (upd_cons f s) = umem s"
  by (rule umem_cong) (simp add: frame_simps)

text \<open>One byte is taken and goes out.\<close>

lemma consoleread_step:
  assumes "calls s p T L ps D" and "cons_ok (console s)" and "committed (console s) = c # q" and "c \<noteq> ctrl (CHR ''D'')"
    and "umem s L (unat a) \<noteq> None"
  shows "\<exists>u. consoleread_loop (UserVA a) asked (int (Suc n)) (grab L_cons s) =
       (if c = of_char newline then Ok (of_int (asked - int n)) u
        else consoleread_loop (UserVA (a + 1)) asked (int n) (grab L_cons u)) \<and>
     calls u p T L ps D \<and> cons_ok (console u) \<and> procs u = procs s \<and> committed (console u) = q \<and>
     editing (console u) = editing (console s) \<and> umem u L = uput (umem s L) (unat a) 1 (\<lambda>_. c)"
proof -
  obtain d y where g: "cons_get (console s) = (d, y)" by (cases "cons_get (console s)")
  note v = get_view [OF assms(2,3) g]
  have ne: "c_r (console s) \<noteq> c_w (console s)"
    using assms(3) cring_empty [of "console s" "c_r (console s)" "c_w (console s)"] by (auto simp: committed_def)
  let ?v = "upd_cons (\<lambda>_. y) s"
  have cv: "calls ?v p T L ps D" using assms(1) by simp
  obtain u where u: "copyout (pagetable (procs s p)) a (\<lambda>_. c) 1 (grab L_cons ?v) = Ok 0 (grab L_cons u)"
    "touched ?v u (page_of L ` D)" "calls u p T L ps D" "procs u = procs s" "umem u L = uput (umem s L) (unat a) 1 (\<lambda>_. c)"
    using copyout_lock [OF cv, of L_cons a "\<lambda>_. c"] assms(5) by (auto simp: frame_simps)
  have cu: "console u = y" using u(2) by (auto simp: touched_def)
  note c = calls_facts [OF assms(1)] note d = calls_facts [OF u(3)]
  have "consoleread_loop (UserVA a) asked (int (Suc n)) (grab L_cons s) =
       (if c = of_char newline then Ok (of_int (asked - int n)) u
        else consoleread_loop (UserVA (a + 1)) asked (int n) (grab L_cons u))"
    using g v(1) ne assms(4) u(1) c d
    by (simp add: consoleread_loop.simps [of "UserVA a" asked "1 + int n"] Let_def frame_simps kernel_simps either_copyout_def)
  then show ?thesis using u(3-5) cu v(2-4) by (intro exI [of _ u]) simp
qed

text \<open>The end-of-file key: it stays in the queue when the read has something to return.\<close>

lemma consoleread_eof:
  assumes "calls s p T L ps D" and "cons_ok (console s)" and "committed (console s) = ctrl (CHR ''D'') # q"
    and "got \<longleftrightarrow> int (Suc n) < asked"
  shows "read_ok s p T L ps D a (asked - int (Suc n)) ([], if got then ctrl (CHR ''D'') # q else q)
           (consoleread_loop (UserVA a) asked (int (Suc n)) (grab L_cons s))"
proof -
  obtain d y where g: "cons_get (console s) = (d, y)" by (cases "cons_get (console s)")
  note v = get_view [OF assms(2,3) g] and c = calls_facts [OF assms(1)]
  have ne: "c_r (console s) \<noteq> c_w (console s)"
    using assms(3) cring_empty [of "console s" "c_r (console s)" "c_w (console s)"] by (auto simp: committed_def)
  let ?t = "upd_cons (\<lambda>_. if got then console s else y) s"
  have "consoleread_loop (UserVA a) asked (int (Suc n)) (grab L_cons s) = Ok (of_int (asked - int (Suc n))) ?t"
    using g v(1,5) ne c assms(4)
    by (auto simp add: consoleread_loop.simps [of "UserVA a" asked "1 + int n"] Let_def frame_simps kernel_simps)
  then show ?thesis
    unfolding read_ok_def using assms(1-3) v(2-4) by (intro exI [of _ ?t]) (simp add: frame_simps)
qed

lemma consoleread_loop_ok:
  assumes "calls s p T L ps D" and "cons_ok (console s)" and "line_there n (committed (console s))"
    and "got \<longleftrightarrow> int n < asked" and "int n \<le> asked"
    and "\<forall>i < length (fst (first_line n got (committed (console s)))). umem s L (unat (a + of_nat i)) \<noteq> None"
  shows "read_ok s p T L ps D a (asked - int n) (first_line n got (committed (console s)))
           (consoleread_loop (UserVA a) asked (int n) (grab L_cons s))"
  using assms
proof (induction n arbitrary: s a got)
  case 0
  note c = calls_facts [OF 0(1)]
  have "consoleread_loop (UserVA a) asked (int 0) (grab L_cons s) = Ok (of_int asked) s"
    using c by (simp add: consoleread_loop.simps Let_def kernel_simps)
  then show ?case using 0 by (auto simp: read_ok_def)
next
  case (Suc n)
  have "committed (console s) \<noteq> []" using Suc.prems(3) by (auto simp: line_there_def)
  then obtain c q where q: "committed (console s) = c # q" by (cases "committed (console s)") auto
  show ?case
  proof (cases "c = ctrl (CHR ''D'')")
    case True
    then show ?thesis using consoleread_eof [OF Suc.prems(1,2) q [unfolded True] Suc.prems(4)] q by simp
  next
    case False
    obtain l rest where lr: "first_line n True q = (l, rest)" by (cases "first_line n True q")
    have fl: "first_line (Suc n) got (committed (console s)) = (if c = of_char newline then ([c], q) else (c # l, rest))"
      using False q lr by simp
    have room: "\<forall>i < (if c = of_char newline then 1 else Suc (length l)). umem s L (unat (a + of_nat i)) \<noteq> None"
      using Suc.prems(6) unfolding fl by (auto split: if_splits)
    have here: "umem s L (unat a) \<noteq> None" using spec [OF room, of 0] by (simp split: if_splits)
    obtain u where u: "consoleread_loop (UserVA a) asked (int (Suc n)) (grab L_cons s) =
       (if c = of_char newline then Ok (of_int (asked - int n)) u
        else consoleread_loop (UserVA (a + 1)) asked (int n) (grab L_cons u))"
      "calls u p T L ps D" "cons_ok (console u)" "procs u = procs s" "committed (console u) = q"
      "editing (console u) = editing (console s)" "umem u L = uput (umem s L) (unat a) 1 (\<lambda>_. c)"
      using consoleread_step [OF Suc.prems(1,2) q False here, of asked n] by (elim exE conjE) (rule that)
    show ?thesis
    proof (cases "c = of_char newline")
      case True
      then show ?thesis unfolding fl u(1) read_ok_def using u(2-7) by (intro exI [of _ u]) (simp add: uput_def fun_eq_iff)
    next
      case nl: False
      have "unat a < 2 ^ 38" using umem_low here by blast
      then have a1: "unat (a + 1) = unat a + 1" by (simp add: unat_word_ariths)
      have "line_there n q" using Suc.prems(3) False nl q by (auto simp: line_there_def ends_line_def)
      moreover have "\<forall>i < length l. umem u L (unat (a + 1 + of_nat i)) \<noteq> None"
      proof (intro allI impI)
        fix i assume "i < length l"
        then have "umem s L (unat (a + of_nat (Suc i))) \<noteq> None" using spec [OF room, of "Suc i"] nl by simp
        moreover have "a + of_nat (Suc i) = a + 1 + of_nat i" by simp
        ultimately have "umem s L (unat (a + 1 + of_nat i)) \<noteq> None" by metis
        then show "umem u L (unat (a + 1 + of_nat i)) \<noteq> None" unfolding u(7) by (simp add: uput_def)
      qed
      ultimately have "read_ok u p T L ps D (a + 1) (asked - int n) (l, rest)
          (consoleread_loop (UserVA (a + 1)) asked (int n) (grab L_cons u))"
        using Suc.IH [OF u(2,3), of True "a + 1"] u(5) lr Suc.prems(5) by simp
      then obtain t where t: "consoleread_loop (UserVA (a + 1)) asked (int n) (grab L_cons u) = Ok (of_int (asked - int n + int (length l))) t"
        "calls t p T L ps D" "cons_ok (console t)" "procs t = procs u" "committed (console t) = rest"
        "editing (console t) = editing (console u)" "umem t L = uput (umem u L) (unat (a + 1)) (length l) (\<lambda>j. l ! j)"
        unfolding read_ok_def by auto
      have "umem t L = uput (uput (umem s L) (unat a) 1 (\<lambda>j. (c # l) ! j)) (unat a + 1) (length l) (\<lambda>j. (c # l) ! (1 + j))"
        using t(7) u(7) a1 by (simp add: uput_def fun_eq_iff)
      then have "umem t L = uput (umem s L) (unat a) (Suc (length l)) (\<lambda>j. (c # l) ! j)" unfolding uput_uput by simp
      then show ?thesis unfolding fl u(1) read_ok_def t(1) using nl t u by (intro exI [of _ t]) simp
    qed
  qed
qed

text \<open>C14: Reading from the console gives the line discipline's lines: once a whole line, or as much as asked for, has been
  committed, the read returns without waiting the first line up to and with its newline, but at most \<open>n\<close> bytes, in the
  reader's memory and in order; a control-D ends it without being returned, and is kept, so that the next read returns
  0, unless it came first. The rest of the queue and the line being typed stay as they were.\<close>

theorem consoleread_line:
  assumes "calls s p T L ps D" and "cons_ok (console s)" and "line_there n (committed (console s))" and "n < 2 ^ 31"
    and "first_line n False (committed (console s)) = (l, rest)"
    and "\<forall>i < length l. umem s L (unat (a + of_nat i)) \<noteq> None"
  shows "\<exists>t. consoleread (UserVA a) (of_nat n) s = Ok (of_nat (length l)) t \<and>
     umem t L = uput (umem s L) (unat a) (length l) (\<lambda>j. l ! j) \<and>
     committed (console t) = rest \<and> editing (console t) = editing (console s) \<and> cons_ok (console t) \<and>
     procs t = procs s \<and> calls t p T L ps D"
proof -
  note c = calls_facts [OF assms(1)]
  have "sint (of_nat n :: u32) = int n" using assms(4) by (simp add: signed_of_nat signed_take_bit_int_eq_self)
  then have "consoleread (UserVA a) (of_nat n) s = consoleread_loop (UserVA a) (int n) (int n) (grab L_cons s)"
    using c by (simp add: consoleread_def kernel_simps)
  then show ?thesis
    using consoleread_loop_ok [OF assms(1-3), of False "int n" a] assms(5,6) by (simp add: read_ok_def) blast
qed

text \<open>Two committed lines, \<^verbatim>\<open>hi\<close> and one that control-D ended.\<close>

definition lines_state :: "memst \<Rightarrow> u64 \<Rightarrow> consst" where
  "lines_state m pt = filest.extend (pipe_state m pt)
     (consst.fields \<lparr>c_buf = (\<lambda>k. [104, 105, 10, 4, 0] ! min k 4), c_r = 0, c_w = 4, c_e = 4\<rparr>
        \<lparr>tx_buf = (\<lambda>_. 0), tx_w = 0, tx_r = 0, tx_idle = [], rx = [], regs = []\<rparr>)"

lemma lines_state_calls:
  assumes "space m pt T L ps D"
  shows "calls (lines_state m pt) 1 T L ps D" "umem (lines_state m pt) L = umem m L"
proof -
  note p = pipe_state_calls(1,2) [OF assms] note c = calls_facts [OF p(1)]
  have f: "pmem (lines_state m pt) = pmem (pipe_state m pt)" "freelist (lines_state m pt) = freelist (pipe_state m pt)"
    "kend (lines_state m pt) = kend (pipe_state m pt)" "quiet (lines_state m pt) \<longleftrightarrow> quiet (pipe_state m pt)"
    "me (lines_state m pt) = me (pipe_state m pt)" "procs (lines_state m pt) = procs (pipe_state m pt)"
    by (simp_all add: lines_state_def filest.defs consst.defs quiet_def irq_ok_def irq_defs free_def me_def)
  have q: "quiet (lines_state m pt)" using p(1) f(4) by (simp add: calls_def)
  then have "space (lines_state m pt) (pagetable (procs (pipe_state m pt) 1)) T L ps D"
    using space_cong(1) [OF c(7) f(1-3)] by (simp add: quiet_def)
  then show "calls (lines_state m pt) 1 T L ps D" using p(1) q f(5,6) by (simp add: calls_def)
  show "umem (lines_state m pt) L = umem m L" using p(2) umem_cong [OF f(1)] by simp
qed

lemma lines_state_lines:
  "cons_ok (console (lines_state m pt))" "committed (console (lines_state m pt)) = [104, 105, 10, 4]"
proof -
  have "console (lines_state m pt) = \<lparr>c_buf = (\<lambda>k. [104, 105, 10, 4, 0] ! min k 4), c_r = 0, c_w = 4, c_e = 4\<rparr>"
    by (simp add: lines_state_def filest.defs consst.defs)
  moreover have "[0..<4 :: nat] = [0, 1, 2, 3]" by (simp add: upt_rec)
  ultimately show "cons_ok (console (lines_state m pt))" "committed (console (lines_state m pt)) = [104, 105, 10, 4]"
    by (simp_all add: cons_ok_def committed_def editing_def cring_def INPUT_BUF_SIZE_def)
qed

theorem consoleread_line_witness:
  "\<exists>m pt t. consoleread (UserVA 100) 80 (lines_state m pt) = Ok 3 t \<and> committed (console t) = [4]"
proof -
  obtain m pt T L ps D where m: "space m pt T L ps D" "umem (pipe_state m pt) L = zeroed (\<lambda>_. None) 0 2"
    using pipe_user by blast
  note c = lines_state_calls [OF m(1)]
  have u: "umem (lines_state m pt) L = zeroed (\<lambda>_. None) 0 2" using c(2) m(2) pipe_state_calls(2) [OF m(1)] by simp
  have f: "first_line 80 False (committed (console (lines_state m pt))) = ([104, 105, 10], [4])"
  proof -
    have "ctrl (CHR ''D'') = 4" by (simp add: ctrl_def)
    moreover have "80 = Suc (Suc (Suc (77 :: nat)))" by simp
    ultimately show ?thesis by (simp only: lines_state_lines newline_byte first_line.simps) simp
  qed
  have "unat (100 + of_nat i :: u64) = 100 + i" if "i < 3" for i using that by (simp add: unat_word_ariths unat_of_nat)
  then have r: "\<forall>i < length [104 :: u8, 105, 10]. umem (lines_state m pt) L (unat (100 + of_nat i :: u64)) \<noteq> None"
    by (simp add: u zeroed_def)
  have l: "line_there 80 (committed (console (lines_state m pt)))" "(80 :: nat) < 2 ^ 31"
    by (simp_all add: line_there_def lines_state_lines ends_line_def newline_byte)
  obtain t where "consoleread (UserVA 100) (of_nat 80) (lines_state m pt) = Ok (of_nat (length [104 :: u8, 105, 10])) t"
    "committed (console t) = [4]"
    using consoleread_line [OF c(1) lines_state_lines(1) l f r] by (elim exE conjE) (rule that)
  then show ?thesis by (intro exI [of _ m] exI [of _ pt] exI [of _ t]) simp
qed

end
