(* ===== verification/Textutils.thy ===== *)
theory Textutils
  imports Printf
begin

text \<open>
  The text filters of \<^verbatim>\<open>src/lab2/user\<close>: \<^verbatim>\<open>cat.c\<close>, \<^verbatim>\<open>wc.c\<close> and \<^verbatim>\<open>grep.c\<close>.  The system calls they make are
  arguments: \<open>rd fd n\<close> is \<^verbatim>\<open>read\<close> (\<open>None\<close> for -1), \<open>wr fd text\<close> is \<^verbatim>\<open>write\<close>, \<open>opn path\<close> is \<^verbatim>\<open>open(path, 0)\<close> and
  \<open>cl fd\<close> is \<^verbatim>\<open>close\<close>; the state is whatever they act on.  What the programs rely on is the locale \<open>user_io\<close>.
  A C string is the list of its characters before the NUL, and a buffer the list of the bytes in use.
\<close>

section \<open>Running programs\<close>

datatype 's run = Returns 's | Exits int 's

type_synonym 's reader = "nat \<Rightarrow> nat \<Rightarrow> 's \<Rightarrow> string option \<times> 's"
type_synonym 's writer = "nat \<Rightarrow> string \<Rightarrow> 's \<Rightarrow> int \<times> 's"

text \<open>The user library's \<^verbatim>\<open>printf\<close> and \<^verbatim>\<open>fprintf\<close> write one character at a time.\<close>

definition say :: "'s writer \<Rightarrow> nat \<Rightarrow> string \<Rightarrow> 's \<Rightarrow> 's" where
  "say wr fd tx s = fold (\<lambda>c s. snd (wr fd [c] s)) tx s"

definition sayf :: "'s writer \<Rightarrow> nat \<Rightarrow> string \<Rightarrow> varg list \<Rightarrow> 's \<Rightarrow> 's" where
  "sayf wr fd fmt as s = (case vprintf fmt as of None \<Rightarrow> s | Some tx \<Rightarrow> say wr fd tx s)"

text \<open>The loop over the file arguments, the same in the three programs but for the message and the body.\<close>

fun each_file ::
  "(string \<Rightarrow> 's \<Rightarrow> nat option \<times> 's) \<Rightarrow> (nat \<Rightarrow> 's \<Rightarrow> 's) \<Rightarrow> (string \<Rightarrow> 's \<Rightarrow> 's) \<Rightarrow> (nat \<Rightarrow> string \<Rightarrow> 's \<Rightarrow> 's run option) \<Rightarrow>
   string list \<Rightarrow> 's \<Rightarrow> 's run option" where
  "each_file opn cl cannot body [] s = Some (Exits 0 s)"
| "each_file opn cl cannot body (path # paths) s =
     (case opn path s of
        (None, s) \<Rightarrow> Some (Exits 1 (cannot path s))
      | (Some fd, s) \<Rightarrow>
          (case body fd path s of
             None \<Rightarrow> None
           | Some (Exits c s) \<Rightarrow> Some (Exits c s)
           | Some (Returns s) \<Rightarrow> each_file opn cl cannot body paths (cl fd s)))"

definition then_exit :: "'s run option \<Rightarrow> 's run option" where
  "then_exit r = (case r of Some (Returns s) \<Rightarrow> Some (Exits 0 s) | _ \<Rightarrow> r)"

section \<open>cat.c\<close>

partial_function (option) cat :: "'s reader \<Rightarrow> 's writer \<Rightarrow> nat \<Rightarrow> 's \<Rightarrow> 's run option" where
  "cat rd wr fd s =
     (case rd fd 512 s of
        (None, s) \<Rightarrow> Some (Exits 1 (say wr 2 (''cat: read error'' @ [newline]) s))
      | (Some b, s) \<Rightarrow>
          if b = [] then Some (Returns s)
          else
            (case wr 1 b s of
               (n, s) \<Rightarrow>
                 if n \<noteq> int (length b) then Some (Exits 1 (say wr 2 (''cat: write error'' @ [newline]) s))
                 else cat rd wr fd s))"

definition cat_main ::
  "'s reader \<Rightarrow> 's writer \<Rightarrow> (string \<Rightarrow> 's \<Rightarrow> nat option \<times> 's) \<Rightarrow> (nat \<Rightarrow> 's \<Rightarrow> 's) \<Rightarrow> string list \<Rightarrow> 's \<Rightarrow> 's run option" where
  "cat_main rd wr opn cl argv s =
     (if length argv \<le> 1 then then_exit (cat rd wr 0 s)
      else each_file opn cl (\<lambda>path s. sayf wr 2 (''cat: cannot open %s'' @ [newline]) [V_str (Some path)] s)
        (\<lambda>fd path s. cat rd wr fd s) (tl argv) s)"

section \<open>wc.c\<close>

text \<open>The counters \<^verbatim>\<open>l\<close>, \<^verbatim>\<open>w\<close>, \<^verbatim>\<open>c\<close> and \<^verbatim>\<open>inword\<close>.\<close>

record counts =
  w_l :: u32
  w_w :: u32
  w_c :: u32
  w_in :: bool

definition blank :: "char \<Rightarrow> bool" where
  "blank c \<longleftrightarrow> c \<in> {CHR '' '', CHR 0x0D, CHR 0x09, newline, CHR 0x0B}"

definition wc_char :: "char \<Rightarrow> counts \<Rightarrow> counts" where
  "wc_char ch k =
     (let k = k\<lparr>w_c := w_c k + 1\<rparr>;
          k = (if ch = newline then k\<lparr>w_l := w_l k + 1\<rparr> else k)
      in if blank ch then k\<lparr>w_in := False\<rparr>
         else if \<not> w_in k then k\<lparr>w_w := w_w k + 1, w_in := True\<rparr>
         else k)"

partial_function (option) wc_loop :: "'s reader \<Rightarrow> nat \<Rightarrow> counts \<Rightarrow> 's \<Rightarrow> (counts option \<times> 's) option" where
  "wc_loop rd fd k s =
     (case rd fd 512 s of
        (None, s) \<Rightarrow> Some (None, s)
      | (Some b, s) \<Rightarrow> if b = [] then Some (Some k, s) else wc_loop rd fd (fold wc_char b k) s)"

definition wc :: "'s reader \<Rightarrow> 's writer \<Rightarrow> nat \<Rightarrow> string \<Rightarrow> 's \<Rightarrow> 's run option" where
  "wc rd wr fd nm s =
     (case wc_loop rd fd \<lparr>w_l = 0, w_w = 0, w_c = 0, w_in = False\<rparr> s of
        None \<Rightarrow> None
      | Some (None, s) \<Rightarrow> Some (Exits 1 (say wr 1 (''wc: read error'' @ [newline]) s))
      | Some (Some k, s) \<Rightarrow>
          Some (Returns (sayf wr 1 (''%d %d %d %s'' @ [newline])
            [V_int (w_l k), V_int (w_w k), V_int (w_c k), V_str (Some nm)] s)))"

definition wc_main ::
  "'s reader \<Rightarrow> 's writer \<Rightarrow> (string \<Rightarrow> 's \<Rightarrow> nat option \<times> 's) \<Rightarrow> (nat \<Rightarrow> 's \<Rightarrow> 's) \<Rightarrow> string list \<Rightarrow> 's \<Rightarrow> 's run option" where
  "wc_main rd wr opn cl argv s =
     (if length argv \<le> 1 then then_exit (wc rd wr 0 '''' s)
      else each_file opn cl (\<lambda>path s. sayf wr 1 (''wc: cannot open %s'' @ [newline]) [V_str (Some path)] s)
        (\<lambda>fd path s. wc rd wr fd path s) (tl argv) s)"

section \<open>grep.c\<close>

text \<open>The matcher of Kernighan and Pike; each call looks at a suffix of the pattern and of the text.\<close>

function matchhere :: "string \<Rightarrow> string \<Rightarrow> bool" and matchstar :: "char \<Rightarrow> string \<Rightarrow> string \<Rightarrow> bool" where
  "matchhere re tx =
     (case re of
        [] \<Rightarrow> True
      | c # re' \<Rightarrow>
          if re' \<noteq> [] \<and> hd re' = CHR ''*'' then matchstar c (tl re') tx
          else if c = CHR ''$'' \<and> re' = [] then tx = []
          else if tx \<noteq> [] \<and> (c = CHR ''.'' \<or> c = hd tx) then matchhere re' (tl tx)
          else False)"
| "matchstar c re tx =
     (if matchhere re tx then True
      else if tx \<noteq> [] \<and> (hd tx = c \<or> c = CHR ''.'') then matchstar c re (tl tx)
      else False)"
  by pat_completeness auto
termination
  by (relation "measures [\<lambda>x. case x of Inl (re, t) \<Rightarrow> 2 * length re | Inr (c, re, t) \<Rightarrow> 2 * length re + 1,
      \<lambda>x. case x of Inl (re, t) \<Rightarrow> length t | Inr (c, re, t) \<Rightarrow> length t]") auto

declare matchhere.simps [simp del] matchstar.simps [simp del]

fun match_from :: "string \<Rightarrow> string \<Rightarrow> bool" where
  "match_from re tx = (if matchhere re tx then True else if tx \<noteq> [] then match_from re (tl tx) else False)"

declare match_from.simps [simp del]

definition match :: "string \<Rightarrow> string \<Rightarrow> bool" where
  "match re tx = (if re \<noteq> [] \<and> hd re = CHR ''^'' then matchhere (tl re) tx else match_from re tx)"

text \<open>\<^verbatim>\<open>strchr(p, '\n')\<close> on the NUL-terminated buffer, as an index.\<close>

fun find_newline :: "string \<Rightarrow> nat option" where
  "find_newline [] = None"
| "find_newline (c # p) =
     (if c = CHR 0x00 then None else if c = newline then Some 0 else map_option Suc (find_newline p))"

lemma find_newline_less: "find_newline p = Some i \<Longrightarrow> i < length p"
  by (induction p arbitrary: i) (auto split: if_splits)

text \<open>The inner loop, over the lines that the buffer holds from \<^verbatim>\<open>p\<close> on; its answer is what remains.\<close>

function grep_lines :: "'s writer \<Rightarrow> string \<Rightarrow> string \<Rightarrow> 's \<Rightarrow> string \<times> 's" where
  "grep_lines wr re p s =
     (case find_newline p of
        None \<Rightarrow> (p, s)
      | Some i \<Rightarrow>
          grep_lines wr re (drop (i + 1) p)
            (if match re (take i p) then snd (wr 1 (take (i + 1) p) s) else s))"
  by pat_completeness auto
termination
  by (relation "measure (\<lambda>(wr, re, p, s). length p)") (auto dest: find_newline_less)

declare grep_lines.simps [simp del]

partial_function (option) grep_loop :: "'s reader \<Rightarrow> 's writer \<Rightarrow> string \<Rightarrow> nat \<Rightarrow> string \<Rightarrow> 's \<Rightarrow> 's option" where
  "grep_loop rd wr re fd b s =
     (case rd fd (1024 - length b - 1) s of
        (None, s) \<Rightarrow> Some s
      | (Some d, s) \<Rightarrow>
          if d = [] then Some s
          else (case grep_lines wr re (b @ d) s of (b, s) \<Rightarrow> grep_loop rd wr re fd b s))"

definition grep :: "'s reader \<Rightarrow> 's writer \<Rightarrow> string \<Rightarrow> nat \<Rightarrow> 's \<Rightarrow> 's run option" where
  "grep rd wr re fd s = map_option Returns (grep_loop rd wr re fd [] s)"

definition grep_main ::
  "'s reader \<Rightarrow> 's writer \<Rightarrow> (string \<Rightarrow> 's \<Rightarrow> nat option \<times> 's) \<Rightarrow> (nat \<Rightarrow> 's \<Rightarrow> 's) \<Rightarrow> string list \<Rightarrow> 's \<Rightarrow> 's run option" where
  "grep_main rd wr opn cl argv s =
     (if length argv \<le> 1 then Some (Exits 1 (say wr 2 (''usage: grep pattern [file ...]'' @ [newline]) s))
      else if length argv \<le> 2 then then_exit (grep rd wr (argv ! 1) 0 s)
      else each_file opn cl (\<lambda>path s. sayf wr 1 (''grep: cannot open %s'' @ [newline]) [V_str (Some path)] s)
        (\<lambda>fd path s. grep rd wr (argv ! 1) fd s) (drop 2 argv) s)"

section \<open>What a pattern denotes\<close>

text \<open>A pattern read as a sequence of characters, wildcards and repetitions, and whether it ends in \<^verbatim>\<open>$\<close>.\<close>

datatype item = One char | Many char

fun parse_re :: "string \<Rightarrow> item list \<times> bool" where
  "parse_re [] = ([], False)"
| "parse_re [c] = (if c = CHR ''$'' then ([], True) else ([One c], False))"
| "parse_re (c # d # re) =
     (if d = CHR ''*'' then (case parse_re re of (rs, e) \<Rightarrow> (Many c # rs, e))
      else (case parse_re (d # re) of (rs, e) \<Rightarrow> (One c # rs, e)))"

definition stands :: "char \<Rightarrow> char \<Rightarrow> bool" where "stands c x \<longleftrightarrow> c = CHR ''.'' \<or> c = x"

inductive denotes :: "item list \<Rightarrow> string \<Rightarrow> bool" where
  nothing: "denotes [] []"
| one: "stands c x \<Longrightarrow> denotes rs w \<Longrightarrow> denotes (One c # rs) (x # w)"
| enough: "denotes rs w \<Longrightarrow> denotes (Many c # rs) w"
| more: "stands c x \<Longrightarrow> denotes (Many c # rs) w \<Longrightarrow> denotes (Many c # rs) (x # w)"

inductive_simps denotes_nil: "denotes [] w"
inductive_simps denotes_one: "denotes (One c # rs) w"
inductive_simps denotes_many: "denotes (Many c # rs) w"

definition begins :: "item list \<Rightarrow> bool \<Rightarrow> string \<Rightarrow> bool" where
  "begins rs e tx \<longleftrightarrow> (\<exists>v w. tx = v @ w \<and> denotes rs v \<and> (e \<longrightarrow> w = []))"

lemma begins_nil: "begins [] e tx \<longleftrightarrow> (e \<longrightarrow> tx = [])"
  by (auto simp: begins_def denotes_nil)

lemma beginsI: "denotes rs v \<Longrightarrow> (e \<Longrightarrow> w = []) \<Longrightarrow> begins rs e (v @ w)"
  by (auto simp: begins_def)

lemma begins_all: "denotes rs v \<Longrightarrow> begins rs e v"
  using beginsI [of rs v e "[]"] by simp

lemma begins_one: "begins (One c # rs) e tx \<longleftrightarrow> tx \<noteq> [] \<and> stands c (hd tx) \<and> begins rs e (tl tx)"
proof
  assume "begins (One c # rs) e tx"
  then obtain v w where t: "tx = v @ w" "denotes (One c # rs) v" "e \<longrightarrow> w = []" by (auto simp: begins_def)
  from t(2) obtain x u where "v = x # u" "stands c x" "denotes rs u" unfolding denotes_one by blast
  then show "tx \<noteq> [] \<and> stands c (hd tx) \<and> begins rs e (tl tx)" using t(1,3) by (auto intro: beginsI begins_all)
next
  assume a: "tx \<noteq> [] \<and> stands c (hd tx) \<and> begins rs e (tl tx)"
  then obtain x v w where t: "tx = x # v @ w" "denotes rs v" "e \<longrightarrow> w = []" by (cases tx) (auto simp: begins_def)
  then have "denotes (One c # rs) (x # v)" using a by (simp add: one)
  then show "begins (One c # rs) e tx" using beginsI [of "One c # rs" "x # v" e w] t by auto
qed

lemma begins_many: "begins (Many c # rs) e tx \<longleftrightarrow>
    begins rs e tx \<or> tx \<noteq> [] \<and> stands c (hd tx) \<and> begins (Many c # rs) e (tl tx)"
proof
  assume "begins (Many c # rs) e tx"
  then obtain v w where t: "tx = v @ w" "denotes (Many c # rs) v" "e \<longrightarrow> w = []" by (auto simp: begins_def)
  from t(2) show "begins rs e tx \<or> tx \<noteq> [] \<and> stands c (hd tx) \<and> begins (Many c # rs) e (tl tx)"
    unfolding denotes_many [of c rs v] using t(1,3) by (auto intro: beginsI begins_all)
next
  assume "begins rs e tx \<or> tx \<noteq> [] \<and> stands c (hd tx) \<and> begins (Many c # rs) e (tl tx)"
  then show "begins (Many c # rs) e tx"
  proof (elim disjE conjE)
    assume "begins rs e tx"
    then show ?thesis unfolding begins_def by (blast intro: enough)
  next
    assume a: "tx \<noteq> []" "stands c (hd tx)" "begins (Many c # rs) e (tl tx)"
    then obtain x v w where t: "tx = x # v @ w" "denotes (Many c # rs) v" "e \<longrightarrow> w = []" by (cases tx) (auto simp: begins_def)
    then have "denotes (Many c # rs) (x # v)" using a(2) by (simp add: more)
    then show ?thesis using beginsI [of "Many c # rs" "x # v" e w] t by auto
  qed
qed

lemma matcher_ok:
  "matchhere re tx \<longleftrightarrow> (case parse_re re of (rs, e) \<Rightarrow> begins rs e tx)"
  "matchstar c re tx \<longleftrightarrow> (case parse_re re of (rs, e) \<Rightarrow> begins (Many c # rs) e tx)"
proof (induction re tx and c re tx rule: matchhere_matchstar.induct)
  case (1 re tx)
  show ?case
  proof (cases re)
    case Nil
    then show ?thesis by (simp add: matchhere.simps begins_nil)
  next
    case (Cons c re')
    show ?thesis
    proof (cases re')
      case Nil
      then show ?thesis using Cons
        by (cases "c = CHR ''$''") (auto simp: matchhere.simps [of "[c]"] matchhere.simps [of "''$''"] matchhere.simps [of "[]"] begins_nil begins_one stands_def)
    next
      case (Cons d re'')
      then show ?thesis
        using 1 \<open>re = c # re'\<close>
        by (cases "d = CHR ''*''")
          (auto simp: matchhere.simps [of "c # d # re''"] matchhere.simps [of "c # CHR ''*'' # re''"] begins_one stands_def split: prod.splits)
    qed
  qed
next
  case (2 c re tx)
  obtain rs e where p: "parse_re re = (rs, e)" by (cases "parse_re re")
  show ?case
    using 2 unfolding p by (subst begins_many) (auto simp: matchstar.simps [of c re tx] stands_def)
qed

lemma match_from_ok: "match_from re tx \<longleftrightarrow> (\<exists>u v. tx = u @ v \<and> matchhere re v)"
proof (induction tx)
  case Nil
  then show ?case by (simp add: match_from.simps)
next
  case (Cons x tx)
  have "(\<exists>u v. x # tx = u @ v \<and> matchhere re v) \<longleftrightarrow> matchhere re (x # tx) \<or> (\<exists>u v. tx = u @ v \<and> matchhere re v)"
  proof
    assume "\<exists>u v. x # tx = u @ v \<and> matchhere re v"
    then obtain u v where "x # tx = u @ v" "matchhere re v" by blast
    then show "matchhere re (x # tx) \<or> (\<exists>u v. tx = u @ v \<and> matchhere re v)" by (cases u) auto
  next
    assume "matchhere re (x # tx) \<or> (\<exists>u v. tx = u @ v \<and> matchhere re v)"
    then show "\<exists>u v. x # tx = u @ v \<and> matchhere re v"
      by (metis append_Cons append_Nil)
  qed
  then show ?case using Cons by (simp add: match_from.simps [of re "x # tx"])
qed

text \<open>C22: The matcher of \<^verbatim>\<open>grep\<close> finds what its patterns denote: a line matches exactly when some part of it, the first
  one after \<^verbatim>\<open>^\<close> and the last one before \<^verbatim>\<open>$\<close>, is a word of the pattern read as a sequence of characters, \<^verbatim>\<open>.\<close>
  wildcards and \<^verbatim>\<open>*\<close> repetitions.\<close>

theorem grep_match:
  "match re tx \<longleftrightarrow>
     (let anchored = (re \<noteq> [] \<and> hd re = CHR ''^''); (rs, at_end) = parse_re (if anchored then tl re else re) in
      \<exists>u v w. tx = u @ v @ w \<and> denotes rs v \<and> (anchored \<longrightarrow> u = []) \<and> (at_end \<longrightarrow> w = []))"
  unfolding match_def match_from_ok matcher_ok begins_def Let_def
  by (auto split: prod.splits)

text \<open>A match in the middle of a line, and one that the anchors forbid.\<close>

theorem grep_match_witness: "match ''a.*d'' ''xabcdx'' \<and> \<not> match ''^b$'' ''abc''"
proof
  have "denotes [One (CHR ''a''), Many (CHR ''.''), One (CHR ''d'')] ''abcd''"
    by (intro denotes.intros) (simp_all add: stands_def)
  then have "\<exists>u v w. ''xabcdx'' = u @ v @ w \<and> denotes [One (CHR ''a''), Many (CHR ''.''), One (CHR ''d'')] v"
    by (intro exI [of _ "''x''"] exI [of _ "''abcd''"]) simp
  then show "match ''a.*d'' ''xabcdx''" unfolding grep_match by (simp add: Let_def)
  show "\<not> match ''^b$'' ''abc''"
    unfolding grep_match by (auto simp: Let_def denotes_one denotes_nil stands_def)
qed

section \<open>What the programs rely on\<close>

text \<open>\<open>rest s fd\<close> is what is still to be read from a descriptor and \<open>out s fd\<close> what was written to it.  A \<^verbatim>\<open>read\<close> may return
  fewer bytes than asked for, but none only at the end or when none are asked for.\<close>

locale user_io =
  fixes rd :: "'s reader" and wr :: "'s writer" and rest :: "'s \<Rightarrow> nat \<Rightarrow> string" and out :: "'s \<Rightarrow> nat \<Rightarrow> string"
  assumes read_law: "rd fd n s = (r, s') \<Longrightarrow> \<exists>b. r = Some b \<and> rest s fd = b @ rest s' fd \<and> length b \<le> n \<and>
      (b = [] \<longrightarrow> n = 0 \<or> rest s fd = []) \<and> out s' = out s \<and> (\<forall>g. g \<noteq> fd \<longrightarrow> rest s' g = rest s g)"
    and write_law: "wr fd b s = (k, s') \<Longrightarrow> k = int (length b) \<and> rest s' = rest s \<and> out s' = (out s)(fd := out s fd @ b)"
begin

lemma read_some:
  obtains b s' where "rd fd n s = (Some b, s')" "rest s fd = b @ rest s' fd" "length b \<le> n" "b = [] \<Longrightarrow> n = 0 \<or> rest s fd = []"
    "out s' = out s" "\<And>g. g \<noteq> fd \<Longrightarrow> rest s' g = rest s g"
  using read_law [of fd n s] by (cases "rd fd n s") blast

lemma write_all: "fst (wr fd b s) = int (length b)" "rest (snd (wr fd b s)) = rest s"
  "out (snd (wr fd b s)) = (out s)(fd := out s fd @ b)"
  using write_law [of fd b s] by (cases "wr fd b s"; simp)+

lemma say_ok: "rest (say wr fd tx s) = rest s" "out (say wr fd tx s) = (out s)(fd := out s fd @ tx)"
  by (induction tx arbitrary: s) (simp_all add: say_def write_all)

lemma cat_ok:
  "\<exists>s'. cat rd wr fd s = Some (Returns s') \<and> rest s' fd = [] \<and> out s' = (out s)(1 := out s 1 @ rest s fd) \<and>
     (\<forall>g. g \<noteq> fd \<longrightarrow> rest s' g = rest s g)"
proof (induction "length (rest s fd)" arbitrary: s rule: less_induct)
  case less
  obtain b s' where r: "rd fd 512 s = (Some b, s')" "rest s fd = b @ rest s' fd" "b = [] \<Longrightarrow> rest s fd = []" "out s' = out s"
    "\<And>g. g \<noteq> fd \<Longrightarrow> rest s' g = rest s g"
    by (rule read_some [of fd 512 s]) (use that in auto)
  show ?case
  proof (cases "b = []")
    case True
    then have e: "rest s fd = []" "rest s' fd = []" using r(2,3) by simp_all
    have "cat rd wr fd s = Some (Returns s')" using r(1) True by (simp add: cat.simps [of rd wr fd s])
    moreover have "out s' = (out s)(1 := out s 1 @ rest s fd)" using r(4) e by simp
    ultimately show ?thesis using e(2) r(5) by blast
  next
    case False
    let ?t = "snd (wr 1 b s')"
    have step: "cat rd wr fd s = cat rd wr fd ?t"
      using r(1) False by (simp add: cat.simps [of rd wr fd s] case_prod_beta write_all)
    have "length (rest ?t fd) < length (rest s fd)" using False r(2) by (simp add: write_all)
    from less [OF this] obtain s'' where "cat rd wr fd ?t = Some (Returns s'')" "rest s'' fd = []"
      "out s'' = (out ?t)(1 := out ?t 1 @ rest ?t fd)" "\<forall>g. g \<noteq> fd \<longrightarrow> rest s'' g = rest ?t g" by blast
    then show ?thesis
      using r(2,4,5) step by (intro exI [of _ s'']) (simp add: write_all)
  qed
qed

lemma wc_loop_ok:
  "\<exists>s'. wc_loop rd fd k s = Some (Some (fold wc_char (rest s fd) k), s') \<and> rest s' fd = [] \<and> out s' = out s \<and>
     (\<forall>g. g \<noteq> fd \<longrightarrow> rest s' g = rest s g)"
proof (induction "length (rest s fd)" arbitrary: s k rule: less_induct)
  case less
  obtain b s' where r: "rd fd 512 s = (Some b, s')" "rest s fd = b @ rest s' fd" "b = [] \<Longrightarrow> rest s fd = []" "out s' = out s"
    "\<And>g. g \<noteq> fd \<Longrightarrow> rest s' g = rest s g"
    by (rule read_some [of fd 512 s]) (use that in auto)
  show ?case
  proof (cases "b = []")
    case True
    then have e: "rest s fd = []" "rest s' fd = []" using r(2,3) by simp_all
    have "wc_loop rd fd k s = Some (Some (fold wc_char (rest s fd) k), s')" using r(1) True e by (simp add: wc_loop.simps [of rd fd k s])
    then show ?thesis using e(2) r(4,5) by blast
  next
    case False
    then have "length (rest s' fd) < length (rest s fd)" using r(2) by simp
    from less [OF this] obtain s'' where "wc_loop rd fd (fold wc_char b k) s' = Some (Some (fold wc_char (rest s' fd) (fold wc_char b k)), s'')"
      "rest s'' fd = []" "out s'' = out s'" "\<forall>g. g \<noteq> fd \<longrightarrow> rest s'' g = rest s' g" by blast
    then show ?thesis
      using r(1,2,4,5) False by (intro exI [of _ s'']) (simp add: wc_loop.simps [of rd fd k s])
  qed
qed

end

section \<open>Counting\<close>

definition word_starts :: "bool \<Rightarrow> string \<Rightarrow> nat" where
  "word_starts inword t = length (filter (\<lambda>(before, c). before \<and> \<not> blank c) (zip ((\<not> inword) # map blank t) t))"

lemma word_starts_simps:
  "word_starts i [] = 0"
  "word_starts i (c # t) = (if \<not> i \<and> \<not> blank c then 1 else 0) + word_starts (\<not> blank c) t"
  by (simp_all add: word_starts_def)

lemma blank_newline: "blank newline"
  by (simp add: blank_def)

lemma fold_wc_char:
  "fold wc_char t k = \<lparr>w_l = w_l k + of_nat (length (filter (\<lambda>c. c = newline) t)), w_w = w_w k + of_nat (word_starts (w_in k) t),
     w_c = w_c k + of_nat (length t), w_in = (if t = [] then w_in k else \<not> blank (last t))\<rparr>"
proof (induction t arbitrary: k)
  case Nil
  then show ?case by (simp add: word_starts_simps)
next
  case (Cons c t)
  then show ?case using blank_newline by (auto simp: wc_char_def word_starts_simps Let_def)
qed

lemma word_starts_le: "word_starts i t \<le> length t"
  unfolding word_starts_def by (rule order_trans [OF length_filter_le]) simp

lemma sint_small: "n < 2 ^ 31 \<Longrightarrow> sint (of_nat n :: u32) = int n"
  by (simp add: signed_of_nat signed_take_bit_int_eq_self)

lemma vprintf_counts:
  assumes "n1 < 2 ^ 31" and "n2 < 2 ^ 31" and "n3 < 2 ^ 31"
  shows "vprintf (''%d %d %d %s'' @ [newline]) [V_int (of_nat n1), V_int (of_nat n2), V_int (of_nat n3), V_str (Some nm)] =
     Some (decimal n1 @ '' '' @ decimal n2 @ '' '' @ decimal n3 @ '' '' @ nm @ [newline])"
  using assms
  by (simp add: vprintf_def conversion_u_def conv_def emit_def printint_u_decimal printint_decimal sint_small newline_def)

section \<open>The lines grep prints\<close>

text \<open>The matching lines of a text, each with its newline, up to a NUL or a line that does not fit into the buffer.\<close>

function matching :: "string \<Rightarrow> string \<Rightarrow> string" where
  "matching re t =
     (case find_newline t of
        None \<Rightarrow> []
      | Some i \<Rightarrow> if i > 1022 then [] else (if match re (take i t) then take (i + 1) t else []) @ matching re (drop (i + 1) t))"
  by pat_completeness auto
termination
  by (relation "measure (\<lambda>(re, t). length t)") (auto dest: find_newline_less)

declare matching.simps [simp del]

lemma find_newline_append: "find_newline p = Some i \<Longrightarrow> find_newline (p @ d) = Some i"
  by (induction p arbitrary: i) (auto split: if_splits)

lemma find_newline_beyond: "find_newline p = None \<Longrightarrow> find_newline (p @ d) = Some i \<Longrightarrow> length p \<le> i"
  by (induction p arbitrary: i) (auto split: if_splits)

context user_io
begin

lemma grep_lines_ok:
  assumes "length p \<le> 1023"
  shows "\<exists>q s' found. grep_lines wr re p s = (q, s') \<and> find_newline q = None \<and> length q \<le> length p \<and> rest s' = rest s \<and>
     out s' = (out s)(1 := out s 1 @ found) \<and> (\<forall>d. matching re (p @ d) = found @ matching re (q @ d))"
  using assms
proof (induction "length p" arbitrary: p s rule: less_induct)
  case less
  show ?case
  proof (cases "find_newline p")
    case None
    then show ?thesis
      by (intro exI [of _ p] exI [of _ s] exI [of _ "[]"]) (simp add: grep_lines.simps [of wr re p])
  next
    case (Some i)
    have i: "i < length p" by (rule find_newline_less [OF Some])
    let ?line = "if match re (take i p) then take (i + 1) p else []"
    let ?t = "if match re (take i p) then snd (wr 1 (take (i + 1) p) s) else s"
    have t: "rest ?t = rest s" "out ?t = (out s)(1 := out s 1 @ ?line)" by (simp_all add: write_all)
    have lt: "length (drop (i + 1) p) < length p" and fits: "length (drop (i + 1) p) \<le> 1023" using i less.prems by simp_all
    obtain q s' found where q: "grep_lines wr re (drop (i + 1) p) ?t = (q, s')"
      "find_newline q = None" "length q \<le> length (drop (i + 1) p)" "rest s' = rest ?t" "out s' = (out ?t)(1 := out ?t 1 @ found)"
      "\<forall>d. matching re (drop (i + 1) p @ d) = found @ matching re (q @ d)"
      using less(1) [OF lt fits, of ?t] by (elim exE conjE) (rule that)
    have run: "grep_lines wr re p s = (q, s')" using q(1) by (simp add: grep_lines.simps [of wr re p s] Some)
    have "matching re (p @ d) = (?line @ found) @ matching re (q @ d)" for d
      using q(6) i less.prems find_newline_append [OF Some, of d]
      by (simp add: matching.simps [of re "p @ d"])
    moreover have "out s' = (out s)(1 := out s 1 @ ?line @ found)" using q(5) unfolding t(2) by simp
    ultimately show ?thesis
      using run q(2-4) t(1) i by (intro exI [of _ q] exI [of _ s'] exI [of _ "?line @ found"]) simp
  qed
qed

lemma grep_loop_ok:
  assumes "find_newline b = None" and "length b \<le> 1023"
  shows "\<exists>s'. grep_loop rd wr re fd b s = Some s' \<and> out s' = (out s)(1 := out s 1 @ matching re (b @ rest s fd)) \<and>
     (\<forall>g. g \<noteq> fd \<longrightarrow> rest s' g = rest s g)"
  using assms
proof (induction "length (rest s fd)" arbitrary: s b rule: less_induct)
  case less
  let ?n = "1024 - length b - 1"
  obtain d s' where r: "rd fd ?n s = (Some d, s')" "rest s fd = d @ rest s' fd" "length d \<le> ?n" "d = [] \<Longrightarrow> ?n = 0 \<or> rest s fd = []"
    "out s' = out s" "\<And>g. g \<noteq> fd \<Longrightarrow> rest s' g = rest s g"
    by (rule read_some [of fd ?n s]) (use that in auto)
  show ?case
  proof (cases "d = []")
    case True
    have "find_newline (b @ rest s fd) = None \<or> (\<exists>i > 1022. find_newline (b @ rest s fd) = Some i)"
      using r(4) [OF True] less.prems find_newline_beyond [OF less.prems(1), of "rest s fd"]
      by (cases "find_newline (b @ rest s fd)") auto
    then have "matching re (b @ rest s fd) = []" by (auto simp: matching.simps [of re "b @ rest s fd"])
    moreover have "grep_loop rd wr re fd b s = Some s'" using r(1) True by (simp add: grep_loop.simps [of rd wr re fd b s])
    ultimately show ?thesis using r(5,6) by simp
  next
    case False
    have len: "length (b @ d) \<le> 1023" using r(3) less.prems(2) by simp
    obtain q t found where q: "grep_lines wr re (b @ d) s' = (q, t)" "find_newline q = None" "length q \<le> length (b @ d)" "rest t = rest s'"
      "out t = (out s')(1 := out s' 1 @ found)" "\<forall>e. matching re ((b @ d) @ e) = found @ matching re (q @ e)"
      using grep_lines_ok [OF len, of re s'] by (elim exE conjE) (rule that)
    have lt: "length (rest t fd) < length (rest s fd)" using False r(2) q(4) by simp
    have "length q \<le> 1023" using q(3) len by simp
    from less(1) [OF lt q(2) this] obtain u where u: "grep_loop rd wr re fd q t = Some u"
      "out u = (out t)(1 := out t 1 @ matching re (q @ rest t fd))" "\<forall>g. g \<noteq> fd \<longrightarrow> rest u g = rest t g" by blast
    have "grep_loop rd wr re fd b s = Some u" using r(1) False q(1) u(1) by (simp add: grep_loop.simps [of rd wr re fd b s])
    moreover have "matching re (b @ rest s fd) = found @ matching re (q @ rest t fd)"
      using q(6) unfolding r(2) q(4) by (metis append.assoc)
    ultimately show ?thesis using u(2,3) q(4,5) r(5,6) by simp
  qed
qed

end

section \<open>A world to run in\<close>

text \<open>Inputs by descriptor, how many bytes each successive read finds ready, and outputs by descriptor.\<close>

record world =
  inputs :: "nat \<Rightarrow> string"
  ready :: "nat list"
  outputs :: "nat \<Rightarrow> string"

definition world_read :: "world reader" where
  "world_read fd n s =
     (let k = (case ready s of [] \<Rightarrow> n | r # rs \<Rightarrow> min n (r + 1)) in
      (Some (take k (inputs s fd)), s\<lparr>inputs := (inputs s)(fd := drop k (inputs s fd)), ready := tl (ready s)\<rparr>))"

definition world_write :: "world writer" where
  "world_write fd b s = (int (length b), s\<lparr>outputs := (outputs s)(fd := outputs s fd @ b)\<rparr>)"

interpretation world: user_io world_read world_write inputs outputs
proof
  fix fd n r and s s' :: world
  assume "world_read fd n s = (r, s')"
  then show "\<exists>b. r = Some b \<and> inputs s fd = b @ inputs s' fd \<and> length b \<le> n \<and> (b = [] \<longrightarrow> n = 0 \<or> inputs s fd = []) \<and>
      outputs s' = outputs s \<and> (\<forall>g. g \<noteq> fd \<longrightarrow> inputs s' g = inputs s g)"
    by (auto simp: world_read_def Let_def split: list.splits)
next
  fix fd b k and s s' :: world
  assume "world_write fd b s = (k, s')"
  then show "k = int (length b) \<and> inputs s' = inputs s \<and> outputs s' = (outputs s)(fd := outputs s fd @ b)"
    by (auto simp: world_write_def)
qed

section \<open>Properties of the filters\<close>

text \<open>C23: However the input arrives, \<^verbatim>\<open>grep\<close> returns and prints exactly the matching lines, in order and each once, but only
  lines that end in a newline, and none from the first line on that is longer than 1022 characters or holds a NUL.\<close>

theorem grep_prints:
  assumes "user_io rd wr rest out"
  shows "\<exists>s'. grep rd wr re fd s = Some (Returns s') \<and> out s' = (out s)(1 := out s 1 @ matching re (rest s fd))"
proof -
  have "find_newline [] = None" "length ([] :: string) \<le> 1023" by simp_all
  from user_io.grep_loop_ok [OF assms this, of re fd s] show ?thesis by (auto simp: grep_def)
qed

theorem grep_prints_witness:
  "\<exists>s. grep world_read world_write ''^a.*c$'' 0 \<lparr>inputs = (\<lambda>_. ''abc'' @ [newline] @ ''xabc'' @ [newline] @ ''ac''), ready = [0, 4, 2],
     outputs = (\<lambda>_. [])\<rparr> = Some (Returns s) \<and> outputs s 1 = ''abc'' @ [newline]"
proof -
  have f: "find_newline (''abc'' @ [newline] @ ''xabc'' @ [newline] @ ''ac'') = Some 3" "find_newline (''xabc'' @ [newline] @ ''ac'') = Some 4"
    "find_newline ''ac'' = None"
    by (simp_all add: newline_def)
  have m: "match ''^a.*c$'' ''abc''" "\<not> match ''^a.*c$'' ''xabc''"
    by (simp_all add: match_def matchhere.simps matchstar.simps)
  have "matching ''^a.*c$'' (''abc'' @ [newline] @ ''xabc'' @ [newline] @ ''ac'') = ''abc'' @ [newline]"
    using f m by (simp add: matching.simps)
  then show ?thesis
    using grep_prints [OF world.user_io_axioms, of "''^a.*c$''" 0 "\<lparr>inputs = (\<lambda>_. ''abc'' @ [newline] @ ''xabc'' @ [newline] @ ''ac''),
      ready = [0, 4, 2], outputs = (\<lambda>_. [])\<rparr>"] by auto
qed

text \<open>C24: However the input arrives, \<^verbatim>\<open>cat\<close> copies it whole, and \<^verbatim>\<open>wc\<close> prints in decimal the number of newlines, of words (characters
  that are not blank and do not follow one that is not) and of characters, and the name.\<close>

theorem cat_and_wc:
  assumes "user_io rd wr rest out"
  shows "(\<exists>s'. cat rd wr fd s = Some (Returns s') \<and> rest s' fd = [] \<and> out s' = (out s)(1 := out s 1 @ rest s fd)) \<and>
     (length (rest s fd) < 2 ^ 31 \<longrightarrow>
       (\<exists>s'. wc rd wr fd nm s = Some (Returns s') \<and> rest s' fd = [] \<and>
          out s' = (out s)(1 := out s 1 @ decimal (length (filter (\<lambda>c. c = newline) (rest s fd))) @ '' '' @
            decimal (word_starts False (rest s fd)) @ '' '' @ decimal (length (rest s fd)) @ '' '' @ nm @ [newline])))"
proof (intro conjI impI)
  show "\<exists>s'. cat rd wr fd s = Some (Returns s') \<and> rest s' fd = [] \<and> out s' = (out s)(1 := out s 1 @ rest s fd)"
    using user_io.cat_ok [OF assms] by blast
  assume len: "length (rest s fd) < 2 ^ 31"
  let ?t = "rest s fd" and ?k0 = "\<lparr>w_l = 0, w_w = 0, w_c = 0, w_in = False\<rparr>"
  have lines: "length (filter (\<lambda>c. c = newline) ?t) < 2 ^ 31" using length_filter_le [of _ ?t] len by (rule le_less_trans)
  have wds: "word_starts False ?t < 2 ^ 31" using word_starts_le len by (rule le_less_trans)
  obtain s' where w: "wc_loop rd fd ?k0 s = Some (Some (fold wc_char ?t ?k0), s')" "rest s' fd = []" "out s' = out s"
    using user_io.wc_loop_ok [OF assms] by blast
  let ?m = "decimal (length (filter (\<lambda>c. c = newline) ?t)) @ '' '' @ decimal (word_starts False ?t) @ '' '' @ decimal (length ?t) @ '' '' @ nm @ [newline]"
  have "wc rd wr fd nm s = Some (Returns (say wr 1 ?m s'))"
    using vprintf_counts [OF lines wds len, of nm] by (simp add: wc_def w(1) fold_wc_char sayf_def)
  moreover note user_io.say_ok [OF assms, of 1 ?m s']
  ultimately show "\<exists>s'. wc rd wr fd nm s = Some (Returns s') \<and> rest s' fd = [] \<and> out s' = (out s)(1 := out s 1 @ ?m)"
    using w(2,3) by auto
qed

theorem cat_and_wc_witness:
  "\<exists>s. wc world_read world_write 3 ''f'' \<lparr>inputs = (\<lambda>_. ''a bc  d'' @ [newline]), ready = [0, 0], outputs = (\<lambda>_. [])\<rparr> = Some (Returns s) \<and>
     outputs s 1 = decimal 1 @ '' '' @ decimal 3 @ '' '' @ decimal 8 @ '' f'' @ [newline]"
proof -
  let ?s = "\<lparr>inputs = (\<lambda>_. ''a bc  d'' @ [newline]), ready = [0, 0], outputs = (\<lambda>_. [])\<rparr>"
  have c: "word_starts False (inputs ?s 3) = 3" "length (filter (\<lambda>c. c = newline) (inputs ?s 3)) = 1" "length (inputs ?s 3) = 8"
    by (simp_all add: word_starts_def blank_def newline_def)
  have "length (inputs ?s 3) < 2 ^ 31" using c(3) by simp
  then show ?thesis using cat_and_wc [OF world.user_io_axioms, of 3 ?s "''f''"] unfolding c by auto
qed

end
