(* ===== verification/Sh.thy ===== *)
theory Sh
  imports Prelude
begin

text \<open>
  The shell of xv6, \<^verbatim>\<open>src/lab2/user/sh.c\<close>: its parser, and the processes that running a command gives.  The line is a
  list of characters, a pointer into it a position, and \<open>es\<close> the position of the terminating NUL; the position behind
  a \<^verbatim>\<open>char **\<close> argument is an argument and a result.  A command node is a constructor; \<^verbatim>\<open>malloc\<close> is taken to succeed.
  \<open>Inl\<close> is \<^verbatim>\<open>panic\<close>, which ends the process: the lines printed on descriptor 2, the last of them \<^verbatim>\<open>panic\<close>'s own message.
  \<open>None\<close> means that the fuel of a recursion ran out.
\<close>

section \<open>Commands\<close>

text \<open>\<open>'w\<close> is what a node holds of a word: the positions of its two ends in the line, or the word itself.\<close>

datatype 'w cmd =
    EXEC "'w list"
  | REDIR "'w cmd" 'w int nat
  | PIPE "'w cmd" "'w cmd"
  | LIST "'w cmd" "'w cmd"
  | BACK "'w cmd"

type_synonym span = "nat \<times> nat"
type_synonym 'a presult = "(string list + 'a) option"

definition MAXARGS :: nat where "MAXARGS = 10"

definition O_RDONLY :: int where "O_RDONLY = 0x000"
definition O_WRONLY :: int where "O_WRONLY = 0x001"
definition O_CREATE :: int where "O_CREATE = 0x200"
definition O_TRUNC :: int where "O_TRUNC = 0x400"

abbreviation NUL :: char where "NUL \<equiv> CHR 0x00"

definition whitespace :: string where
  "whitespace = [CHR '' '', CHR 0x09, CHR 0x0D, CHR 0x0A, CHR 0x0B]"

definition symbols :: string where "symbols = ''<|>&;()''"

definition pbind :: "'a presult \<Rightarrow> ('a \<Rightarrow> 'b presult) \<Rightarrow> 'b presult" where
  "pbind m f = (case m of None \<Rightarrow> None | Some (Inl e) \<Rightarrow> Some (Inl e) | Some (Inr a) \<Rightarrow> f a)"

abbreviation okay :: "'a \<Rightarrow> 'a presult" where "okay a \<equiv> Some (Inr a)"
abbreviation panic :: "string \<Rightarrow> 'a presult" where "panic m \<equiv> Some (Inl [m])"

lemma pbind_simps [simp]: "pbind None f = None" "pbind (Some (Inl e)) f = Some (Inl e)" "pbind (Some (Inr a)) f = f a"
  by (simp_all add: pbind_def)

lemma pbind_cong [fundef_cong]: "m = m' \<Longrightarrow> (\<And>a. m' = Some (Inr a) \<Longrightarrow> f a = f' a) \<Longrightarrow> pbind m f = pbind m' f'"
  by (auto simp: pbind_def split: option.splits sum.splits)

lemma pbind_done: "pbind m f = Some (Inr b) \<longleftrightarrow> (\<exists>a. m = Some (Inr a) \<and> f a = Some (Inr b))"
  by (auto simp: pbind_def split: option.splits sum.splits)

lemma pbind_None: "pbind m f = None \<longleftrightarrow> m = None \<or> (\<exists>a. m = Some (Inr a) \<and> f a = None)"
  by (auto simp: pbind_def split: option.splits sum.splits)

section \<open>Scanning\<close>

text \<open>\<^verbatim>\<open>*s\<close>\<close>

definition char_at :: "string \<Rightarrow> nat \<Rightarrow> char" where
  "char_at b s = (if s < length b then b ! s else NUL)"

function skip :: "string \<Rightarrow> nat \<Rightarrow> nat \<Rightarrow> nat" where
  "skip b es s = (if s < es \<and> char_at b s \<in> set whitespace then skip b es (s + 1) else s)"
  by pat_completeness auto
termination
  by (relation "measure (\<lambda>(b, es, s). es - s)") auto

function skip_word :: "string \<Rightarrow> nat \<Rightarrow> nat \<Rightarrow> nat" where
  "skip_word b es s =
     (if s < es \<and> char_at b s \<notin> set whitespace \<and> char_at b s \<notin> set symbols then skip_word b es (s + 1) else s)"
  by pat_completeness auto
termination
  by (relation "measure (\<lambda>(b, es, s). es - s)") auto

declare skip.simps [simp del] skip_word.simps [simp del]

text \<open>The token, the two ends of its text, and the position after it.\<close>

definition gettoken :: "string \<Rightarrow> nat \<Rightarrow> nat \<Rightarrow> char \<times> nat \<times> nat \<times> nat" where
  "gettoken b es s =
     (let q = skip b es s;
          c = char_at b q;
          (ret, eq) =
            (if c = NUL then (c, q)
             else if c \<in> set ''|();&<'' then (c, q + 1)
             else if c = CHR ''>'' then (if char_at b (q + 1) = CHR ''>'' then (CHR ''+'', q + 2) else (c, q + 1))
             else (CHR ''a'', skip_word b es q))
      in (ret, q, eq, skip b es eq))"

definition peek :: "string \<Rightarrow> nat \<Rightarrow> nat \<Rightarrow> string \<Rightarrow> nat \<times> bool" where
  "peek b es s toks = (let s = skip b es s in (s, char_at b s \<noteq> NUL \<and> char_at b s \<in> set toks))"

section \<open>Parsing\<close>

text \<open>\<^verbatim>\<open>cmd->argv[argc] = q; cmd->eargv[argc] = eq\<close>, where \<^verbatim>\<open>cmd\<close> is the node at the end of the redirections in \<^verbatim>\<open>ret\<close>.\<close>

primrec add_arg :: "'w \<Rightarrow> 'w cmd \<Rightarrow> 'w cmd" where
  "add_arg w (EXEC ws) = EXEC (ws @ [w])"
| "add_arg w (REDIR c f m d) = REDIR (add_arg w c) f m d"
| "add_arg w (PIPE l r) = PIPE l r"
| "add_arg w (LIST l r) = LIST l r"
| "add_arg w (BACK c) = BACK c"

definition redirect :: "char \<Rightarrow> 'w cmd \<Rightarrow> 'w \<Rightarrow> 'w cmd" where
  "redirect tok c f =
     (if tok = CHR ''<'' then REDIR c f O_RDONLY 0
      else if tok = CHR ''>'' then REDIR c f (O_WRONLY + O_CREATE + O_TRUNC) 1
      else if tok = CHR ''+'' then REDIR c f (O_WRONLY + O_CREATE) 1
      else c)"

fun parseredirs :: "nat \<Rightarrow> string \<Rightarrow> nat \<Rightarrow> span cmd \<Rightarrow> nat \<Rightarrow> (span cmd \<times> nat) presult" where
  "parseredirs 0 b es c s = None"
| "parseredirs (Suc n) b es c s =
     (case peek b es s ''<>'' of
        (s, found) \<Rightarrow>
          if \<not> found then okay (c, s)
          else
            (case gettoken b es s of
               (tok, _, _, s) \<Rightarrow>
                 (case gettoken b es s of
                    (tok2, q, eq, s) \<Rightarrow>
                      if tok2 \<noteq> CHR ''a'' then panic ''missing file for redirection''
                      else parseredirs n b es (redirect tok c (q, eq)) s)))"

text \<open>The loop of \<^verbatim>\<open>parseexec\<close> over the arguments, of which there are \<open>argc\<close> so far.\<close>

fun parseargs :: "nat \<Rightarrow> string \<Rightarrow> nat \<Rightarrow> nat \<Rightarrow> span cmd \<Rightarrow> nat \<Rightarrow> (span cmd \<times> nat) presult" where
  "parseargs 0 b es argc ret s = None"
| "parseargs (Suc n) b es argc ret s =
     (case peek b es s ''|)&;'' of
        (s, found) \<Rightarrow>
          if found then okay (ret, s)
          else
            (case gettoken b es s of
               (tok, q, eq, s) \<Rightarrow>
                 if tok = NUL then okay (ret, s)
                 else if tok \<noteq> CHR ''a'' then panic ''syntax''
                 else
                   (let ret = add_arg (q, eq) ret; argc = argc + 1 in
                    if argc \<ge> MAXARGS then panic ''too many args''
                    else pbind (parseredirs n b es ret s) (\<lambda>(ret, s). parseargs n b es argc ret s))))"

text \<open>The loop of \<^verbatim>\<open>parseline\<close> over \<^verbatim>\<open>&\<close>.\<close>

fun parsebacks :: "nat \<Rightarrow> string \<Rightarrow> nat \<Rightarrow> span cmd \<Rightarrow> nat \<Rightarrow> (span cmd \<times> nat) presult" where
  "parsebacks 0 b es c s = None"
| "parsebacks (Suc n) b es c s =
     (case peek b es s ''&'' of
        (s, found) \<Rightarrow>
          if found then (case gettoken b es s of (_, _, _, s) \<Rightarrow> parsebacks n b es (BACK c) s) else okay (c, s))"

function (sequential) parseline :: "nat \<Rightarrow> string \<Rightarrow> nat \<Rightarrow> nat \<Rightarrow> (span cmd \<times> nat) presult"
  and parsepipe :: "nat \<Rightarrow> string \<Rightarrow> nat \<Rightarrow> nat \<Rightarrow> (span cmd \<times> nat) presult"
  and parseblock :: "nat \<Rightarrow> string \<Rightarrow> nat \<Rightarrow> nat \<Rightarrow> (span cmd \<times> nat) presult"
  and parseexec :: "nat \<Rightarrow> string \<Rightarrow> nat \<Rightarrow> nat \<Rightarrow> (span cmd \<times> nat) presult" where
  "parseline 0 b es s = None"
| "parseline (Suc n) b es s =
     pbind (parsepipe n b es s) (\<lambda>(c, s).
     pbind (parsebacks n b es c s) (\<lambda>(c, s).
       case peek b es s '';'' of
         (s, found) \<Rightarrow>
           if found then
             (case gettoken b es s of
                (_, _, _, s) \<Rightarrow> pbind (parseline n b es s) (\<lambda>(d, s). okay (LIST c d, s)))
           else okay (c, s)))"
| "parsepipe 0 b es s = None"
| "parsepipe (Suc n) b es s =
     pbind (parseexec n b es s) (\<lambda>(c, s).
       case peek b es s ''|'' of
         (s, found) \<Rightarrow>
           if found then
             (case gettoken b es s of
                (_, _, _, s) \<Rightarrow> pbind (parsepipe n b es s) (\<lambda>(d, s). okay (PIPE c d, s)))
           else okay (c, s))"
| "parseblock 0 b es s = None"
| "parseblock (Suc n) b es s =
     (case peek b es s ''('' of
        (s, found) \<Rightarrow>
          if \<not> found then panic ''parseblock''
          else
            (case gettoken b es s of
               (_, _, _, s) \<Rightarrow>
                 pbind (parseline n b es s) (\<lambda>(c, s).
                   case peek b es s '')'' of
                     (s, found) \<Rightarrow>
                       if \<not> found then panic ''syntax - missing )''
                       else (case gettoken b es s of (_, _, _, s) \<Rightarrow> parseredirs n b es c s))))"
| "parseexec 0 b es s = None"
| "parseexec (Suc n) b es s =
     (case peek b es s ''('' of
        (s, found) \<Rightarrow>
          if found then parseblock n b es s
          else pbind (parseredirs n b es (EXEC []) s) (\<lambda>(ret, s). parseargs n b es 0 ret s))"
  by pat_completeness auto
termination
  by (relation "measure (\<lambda>x. case x of Inl (Inl (n, _)) \<Rightarrow> n | Inl (Inr (n, _)) \<Rightarrow> n | Inr (Inl (n, _)) \<Rightarrow> n | Inr (Inr (n, _)) \<Rightarrow> n)") auto

text \<open>The NULs that \<^verbatim>\<open>nulterminate\<close> writes after the words.\<close>

primrec nulterminate :: "span cmd \<Rightarrow> string \<Rightarrow> string" where
  "nulterminate (EXEC ws) b = foldl (\<lambda>b w. b[snd w := NUL]) b ws"
| "nulterminate (REDIR c f m d) b = (nulterminate c b)[snd f := NUL]"
| "nulterminate (PIPE l r) b = nulterminate r (nulterminate l b)"
| "nulterminate (LIST l r) b = nulterminate r (nulterminate l b)"
| "nulterminate (BACK c) b = nulterminate c b"

definition strlen :: "string \<Rightarrow> nat" where
  "strlen b = length (takeWhile (\<lambda>c. c \<noteq> NUL) b)"

text \<open>Four nested calls for each token and four at the end are enough.\<close>

definition parsecmd :: "string \<Rightarrow> (span cmd \<times> string) presult" where
  "parsecmd b =
     (let es = strlen b in
      pbind (parseline (4 * es + 4) b es 0) (\<lambda>(c, s).
        case peek b es s '''' of
          (s, _) \<Rightarrow>
            if s \<noteq> es then Some (Inl [''leftovers: '' @ drop s (take es b), ''syntax''])
            else okay (c, nulterminate c b)))"

section \<open>Lines as tokens\<close>

text \<open>The reading of a line without positions: words and symbols, \<^verbatim>\<open>>>\<close> being \<^verbatim>\<open>+\<close>.\<close>

datatype token = Word string | Sym char

definition word_char :: "char \<Rightarrow> bool" where "word_char c \<longleftrightarrow> c \<notin> set whitespace \<and> c \<notin> set symbols"

function tokens :: "string \<Rightarrow> token list" where
  "tokens [] = []"
| "tokens (c # s) =
     (if c \<in> set whitespace then tokens s
      else if c = CHR ''>'' \<and> s \<noteq> [] \<and> hd s = CHR ''>'' then Sym (CHR ''+'') # tokens (tl s)
      else if c \<in> set symbols then Sym c # tokens s
      else Word (c # takeWhile word_char s) # tokens (dropWhile word_char s))"
  by pat_completeness auto
termination
  by (relation "measure length") (auto simp: less_Suc_eq_le length_dropWhile_le)

primrec kind :: "token \<Rightarrow> char" where
  "kind (Word w) = CHR ''a''"
| "kind (Sym c) = c"

fun begins :: "string \<Rightarrow> token list \<Rightarrow> bool" where
  "begins cs (Sym c # ts) \<longleftrightarrow> (if c = CHR ''+'' then CHR ''>'' else c) \<in> set cs"
| "begins cs ts \<longleftrightarrow> False"

text \<open>The words between two positions.\<close>

definition txt_at :: "string \<Rightarrow> span \<Rightarrow> string" where
  "txt_at b w = take (snd w - fst w) (drop (fst w) b)"

definition good :: "string \<Rightarrow> span \<Rightarrow> bool" where
  "good b w \<longleftrightarrow> fst w < snd w \<and> snd w \<le> length b \<and> (\<forall>i. fst w \<le> i \<and> i < snd w \<longrightarrow> word_char (b ! i)) \<and>
     (snd w < length b \<longrightarrow> \<not> word_char (b ! snd w))"

lemma char_at_drop: "s \<le> length b \<Longrightarrow> char_at b s = (case drop s b of [] \<Rightarrow> NUL | c # _ \<Rightarrow> c)"
  by (auto simp: char_at_def split: list.splits) (simp add: Cons_nth_drop_Suc [symmetric])

lemma skip_drop:
  "s \<le> length b \<Longrightarrow> drop (skip b (length b) s) b = dropWhile (\<lambda>c. c \<in> set whitespace) (drop s b) \<and>
     s \<le> skip b (length b) s \<and> skip b (length b) s \<le> length b"
proof (induction "length b - s" arbitrary: s)
  case 0
  then show ?case by (simp add: skip.simps)
next
  case (Suc n)
  then have s: "s < length b" by simp
  then have d: "drop s b = b ! s # drop (s + 1) b" by (simp add: Cons_nth_drop_Suc)
  show ?case
  proof (cases "b ! s \<in> set whitespace")
    case True
    then have "skip b (length b) s = skip b (length b) (s + 1)" using s by (simp add: skip.simps [of b _ s] char_at_def)
    moreover have "n = length b - (s + 1)" "s + 1 \<le> length b" using Suc.hyps(2) s by auto
    note Suc.hyps(1) [OF this]
    ultimately show ?thesis using True d by (auto dest: Suc_leD)
  next
    case False
    then show ?thesis using s d by (simp add: skip.simps [of b _ s] char_at_def)
  qed
qed

lemma skip_word_drop:
  "s \<le> length b \<Longrightarrow> drop (skip_word b (length b) s) b = dropWhile word_char (drop s b) \<and>
     txt_at b (s, skip_word b (length b) s) = takeWhile word_char (drop s b) \<and>
     s \<le> skip_word b (length b) s \<and> skip_word b (length b) s \<le> length b"
proof (induction "length b - s" arbitrary: s)
  case 0
  then show ?case by (simp add: skip_word.simps txt_at_def)
next
  case (Suc n)
  then have s: "s < length b" by simp
  then have d: "drop s b = b ! s # drop (s + 1) b" by (simp add: Cons_nth_drop_Suc)
  show ?case
  proof (cases "word_char (b ! s)")
    case True
    then have k: "skip_word b (length b) s = skip_word b (length b) (s + 1)"
      using s by (simp add: skip_word.simps [of b _ s] char_at_def word_char_def)
    have h: "drop (skip_word b (length b) (s + 1)) b = dropWhile word_char (drop (s + 1) b)"
      "txt_at b (s + 1, skip_word b (length b) (s + 1)) = takeWhile word_char (drop (s + 1) b)"
      "s + 1 \<le> skip_word b (length b) (s + 1)" "skip_word b (length b) (s + 1) \<le> length b"
      using Suc.hyps(1) [of "s + 1"] Suc.hyps(2) s by auto
    have "txt_at b (s, skip_word b (length b) s) = b ! s # txt_at b (s + 1, skip_word b (length b) (s + 1))"
      using h(3) d by (simp add: txt_at_def k take_Cons' Suc_diff_Suc)
    then show ?thesis using h True d k by simp
  next
    case False
    then show ?thesis using s d by (auto simp: skip_word.simps [of b _ s] char_at_def word_char_def txt_at_def)
  qed
qed

lemma tokens_skip: "tokens (dropWhile (\<lambda>c. c \<in> set whitespace) s) = tokens s"
  by (induction s) auto

lemma tokens_sym: "Sym c \<in> set (tokens s) \<Longrightarrow> c = CHR ''+'' \<or> c \<in> set symbols"
  by (induction s rule: tokens.induct) (auto split: if_splits)

lemma peek_tokens:
  assumes "s \<le> length b" and "NUL \<notin> set b" and "set cs \<subseteq> set symbols"
  shows "\<exists>s'. peek b (length b) s cs = (s', begins cs (tokens (drop s b))) \<and> s' \<le> length b \<and> tokens (drop s' b) = tokens (drop s b)"
proof -
  let ?s = "skip b (length b) s" let ?r = "drop ?s b"
  have d: "?r = dropWhile (\<lambda>c. c \<in> set whitespace) (drop s b)" "?s \<le> length b" using skip_drop [OF assms(1)] by blast+
  have t: "tokens ?r = tokens (drop s b)" by (simp only: d(1) tokens_skip)
  have "char_at b ?s \<noteq> NUL \<and> char_at b ?s \<in> set cs \<longleftrightarrow> begins cs (tokens ?r)"
  proof (cases ?r)
    case Nil
    then show ?thesis using char_at_drop [OF d(2)] by simp
  next
    case (Cons c r)
    have ws: "c \<notin> set whitespace" using Cons d(1) by (metis dropWhile_eq_Cons_conv)
    have "c \<in> set b" using Cons by (metis in_set_dropD list.set_intros(1))
    then have "c \<noteq> NUL" using assms(2) by blast
    moreover have "CHR ''+'' \<notin> set symbols" "CHR ''+'' \<notin> set cs" using assms(3) by (auto simp: symbols_def)
    ultimately show ?thesis using char_at_drop [OF d(2)] Cons ws assms(3) by auto
  qed
  then show ?thesis using d(2) t by (simp add: peek_def Let_def)
qed

lemma gettoken_nil:
  assumes "s \<le> length b" and "tokens (drop s b) = []"
  shows "\<exists>q s'. gettoken b (length b) s = (NUL, q, q, s') \<and> s' \<le> length b \<and> tokens (drop s' b) = []"
proof -
  let ?s = "skip b (length b) s"
  have d: "drop ?s b = dropWhile (\<lambda>c. c \<in> set whitespace) (drop s b)" "?s \<le> length b" using skip_drop [OF assms(1)] by blast+
  have e: "drop ?s b = []"
  proof (cases "drop ?s b")
    case (Cons c r)
    then have "c \<notin> set whitespace" using d(1) by (metis dropWhile_eq_Cons_conv)
    moreover have "tokens (drop ?s b) = []" by (simp only: d(1) tokens_skip assms(2))
    ultimately show ?thesis using Cons by (simp split: if_splits)
  qed
  then have "char_at b ?s = NUL" using char_at_drop [OF d(2)] by simp
  moreover have "?s = length b" using e d(2) by simp
  ultimately show ?thesis by (simp add: gettoken_def Let_def skip.simps)
qed

lemma good_word:
  assumes "s \<le> length b" and "takeWhile word_char (drop s b) \<noteq> []"
  shows "good b (s, skip_word b (length b) s)"
proof -
  let ?e = "skip_word b (length b) s"
  note w = skip_word_drop [OF assms(1)]
  have len: "length (takeWhile word_char (drop s b)) = ?e - s"
    using w by (metis (no_types, lifting) txt_at_def fst_conv snd_conv length_take length_drop diff_le_mono min.absorb2)
  then have lt: "s < ?e" using assms(2) by (cases "?e - s") auto
  have "word_char (b ! i)" if i: "s \<le> i" "i < ?e" for i
  proof -
    have k: "i - s < length (takeWhile word_char (drop s b))" using i len by simp
    then have "takeWhile word_char (drop s b) ! (i - s) = b ! i" using i w by (simp add: takeWhile_nth)
    then show ?thesis using nth_mem [OF k] set_takeWhileD by metis
  qed
  moreover have "\<not> word_char (b ! ?e)" if e: "?e < length b"
  proof -
    have "dropWhile word_char (drop s b) = b ! ?e # drop (Suc ?e) b" using w e by (metis Cons_nth_drop_Suc)
    then show ?thesis by (metis dropWhile_eq_Cons_conv)
  qed
  ultimately show ?thesis using lt w by (simp add: good_def)
qed

lemma gettoken_cons:
  assumes "s \<le> length b" and "NUL \<notin> set b" and "tokens (drop s b) = t # r"
  shows "\<exists>q eq s'. gettoken b (length b) s = (kind t, q, eq, s') \<and> s' \<le> length b \<and> tokens (drop s' b) = r \<and>
     (\<forall>w. t = Word w \<longrightarrow> good b (q, eq) \<and> txt_at b (q, eq) = w)"
proof -
  let ?q = "skip b (length b) s"
  have d: "drop ?q b = dropWhile (\<lambda>c. c \<in> set whitespace) (drop s b)" "?q \<le> length b" using skip_drop [OF assms(1)] by blast+
  have t: "tokens (drop ?q b) = t # r" by (simp only: d(1) tokens_skip assms(3))
  then obtain c u where cu: "drop ?q b = c # u" by (cases "drop ?q b") auto
  have ws: "c \<notin> set whitespace" using cu d(1) by (metis dropWhile_eq_Cons_conv)
  have "c \<in> set b" using cu by (metis in_set_dropD list.set_intros(1))
  then have nul: "c \<noteq> NUL" using assms(2) by blast
  have q: "?q < length b" using cu d(2) by (cases "?q = length b") auto
  have c: "char_at b ?q = c" using char_at_drop [OF d(2)] cu by simp
  have u: "drop (?q + 1) b = u" using cu by (simp add: drop_Suc tl_drop [symmetric])
  have after: "tokens (drop (skip b (length b) e) b) = tokens (drop e b) \<and> skip b (length b) e \<le> length b" if "e \<le> length b" for e
    using skip_drop [OF that] by (simp add: tokens_skip)
  have n: "char_at b (?q + 1) = (case u of [] \<Rightarrow> NUL | x # _ \<Rightarrow> x)" using char_at_drop [of "?q + 1" b] q u by simp
  show ?thesis
  proof (cases "c \<in> set symbols")
    case False
    let ?e = "skip_word b (length b) ?q"
    note w = skip_word_drop [OF d(2)]
    have wc: "word_char c" using False ws by (simp add: word_char_def)
    have tr: "t = Word (c # takeWhile word_char u)" "r = tokens (dropWhile word_char u)" using t cu ws False wc by (auto simp: symbols_def)
    have e: "drop ?e b = dropWhile word_char u" "txt_at b (?q, ?e) = c # takeWhile word_char u" using w cu wc by simp_all
    have g: "gettoken b (length b) s = (CHR ''a'', ?q, ?e, skip b (length b) ?e)"
      using c nul False by (auto simp: gettoken_def Let_def symbols_def)
    have "good b (?q, ?e)" by (rule good_word [OF d(2)]) (use cu wc in simp)
    then show ?thesis using g e tr after [of ?e] w by auto
  next
    case True
    show ?thesis
    proof (cases "c = CHR ''>'' \<and> u \<noteq> [] \<and> hd u = CHR ''>''")
      case double: True
      then have tr: "t = Sym (CHR ''+'')" "r = tokens (tl u)" using t cu ws by auto
      have "gettoken b (length b) s = (CHR ''+'', ?q, ?q + 2, skip b (length b) (?q + 2))"
        using c n double by (cases u) (auto simp: gettoken_def Let_def)
      moreover have "drop (?q + 2) b = tl u" using cu by (simp add: drop_Suc tl_drop [symmetric] numeral_2_eq_2)
      moreover have "?q + 2 \<le> length b" using double u by (cases "?q + 1 = length b") (use q in auto)
      ultimately show ?thesis using tr after [of "?q + 2"] by auto
    next
      case single: False
      then have tr: "t = Sym c" "r = tokens u" using t cu ws True by auto
      have "gettoken b (length b) s = (c, ?q, ?q + 1, skip b (length b) (?q + 1))"
        using c n single nul True by (cases u) (auto simp: gettoken_def Let_def symbols_def)
      then show ?thesis using tr u after [of "?q + 1"] q by auto
    qed
  qed
qed

end
