(* ===== verification/Shgrammar.thy ===== *)
theory Shgrammar
  imports Sh
begin

text \<open>
  The language of the xv6 shell: its lines as a grammar over tokens, what command each line means, and that the
  parser accepts exactly these lines and returns that command.
\<close>

section \<open>The grammar\<close>

text \<open>A redirection is the token \<^verbatim>\<open><\<close>, \<^verbatim>\<open>>\<close> or \<^verbatim>\<open>+\<close> with a file name; it may stand anywhere among the arguments.\<close>

datatype item = Arg string | Red "char \<times> string"

datatype sline =
    Last spipe nat
  | Seq spipe nat sline
and spipe =
    Only sexec
  | Piped sexec spipe
and sexec =
    Simple "item list"
  | Block sline "(char \<times> string) list"

definition red_toks :: "char \<times> string \<Rightarrow> token list" where "red_toks r = [Sym (fst r), Word (snd r)]"

primrec item_toks :: "item \<Rightarrow> token list" where
  "item_toks (Arg w) = [Word w]"
| "item_toks (Red r) = red_toks r"

primrec line_toks :: "sline \<Rightarrow> token list" and pipe_toks :: "spipe \<Rightarrow> token list" and exec_toks :: "sexec \<Rightarrow> token list" where
  "line_toks (Last p k) = pipe_toks p @ replicate k (Sym (CHR ''&''))"
| "line_toks (Seq p k l) = pipe_toks p @ replicate k (Sym (CHR ''&'')) @ Sym (CHR '';'') # line_toks l"
| "pipe_toks (Only e) = exec_toks e"
| "pipe_toks (Piped e p) = exec_toks e @ Sym (CHR ''|'') # pipe_toks p"
| "exec_toks (Simple xs) = concat (map item_toks xs)"
| "exec_toks (Block l rs) = Sym (CHR ''('') # line_toks l @ Sym (CHR '')'') # concat (map red_toks rs)"

text \<open>What a line means: \<^verbatim>\<open>&\<close> is repeated, the redirections after a command enclose it, the last one outermost.\<close>

definition add_red :: "'w cmd \<Rightarrow> char \<times> 'w \<Rightarrow> 'w cmd" where "add_red c r = redirect (fst r) c (snd r)"

primrec add_item :: "item \<Rightarrow> string cmd \<Rightarrow> string cmd" where
  "add_item (Arg w) c = add_arg w c"
| "add_item (Red r) c = add_red c r"

primrec line_cmd :: "sline \<Rightarrow> string cmd" and pipe_cmd :: "spipe \<Rightarrow> string cmd" and exec_cmd :: "sexec \<Rightarrow> string cmd" where
  "line_cmd (Last p k) = (BACK ^^ k) (pipe_cmd p)"
| "line_cmd (Seq p k l) = LIST ((BACK ^^ k) (pipe_cmd p)) (line_cmd l)"
| "pipe_cmd (Only e) = exec_cmd e"
| "pipe_cmd (Piped e p) = PIPE (exec_cmd e) (pipe_cmd p)"
| "exec_cmd (Simple xs) = foldl (\<lambda>c x. add_item x c) (EXEC []) xs"
| "exec_cmd (Block l rs) = foldl add_red (line_cmd l) rs"

text \<open>The side conditions: redirections are redirections, and a command has fewer than \<open>MAXARGS\<close> arguments.\<close>

definition red_ok :: "char \<times> string \<Rightarrow> bool" where "red_ok r \<longleftrightarrow> fst r \<in> set ''<>+''"

primrec item_ok :: "item \<Rightarrow> bool" where
  "item_ok (Arg w) \<longleftrightarrow> True"
| "item_ok (Red r) \<longleftrightarrow> red_ok r"

primrec is_arg :: "item \<Rightarrow> bool" where
  "is_arg (Arg w) \<longleftrightarrow> True"
| "is_arg (Red r) \<longleftrightarrow> False"

definition nargs :: "item list \<Rightarrow> nat" where "nargs xs = length (filter is_arg xs)"

primrec line_ok :: "sline \<Rightarrow> bool" and pipe_ok :: "spipe \<Rightarrow> bool" and exec_ok :: "sexec \<Rightarrow> bool" where
  "line_ok (Last p k) \<longleftrightarrow> pipe_ok p"
| "line_ok (Seq p k l) \<longleftrightarrow> pipe_ok p \<and> line_ok l"
| "pipe_ok (Only e) \<longleftrightarrow> exec_ok e"
| "pipe_ok (Piped e p) \<longleftrightarrow> exec_ok e \<and> pipe_ok p"
| "exec_ok (Simple xs) \<longleftrightarrow> list_all item_ok xs \<and> nargs xs < MAXARGS"
| "exec_ok (Block l rs) \<longleftrightarrow> line_ok l \<and> list_all red_ok rs"

section \<open>Reading back the words\<close>

abbreviation words :: "string \<Rightarrow> span cmd \<Rightarrow> string cmd" where "words b \<equiv> map_cmd (txt_at b)"

definition good_cmd :: "string \<Rightarrow> span cmd \<Rightarrow> bool" where "good_cmd b c \<longleftrightarrow> (\<forall>w \<in> set_cmd c. good b w)"

lemma words_add_arg: "map_cmd f (add_arg w c) = add_arg (f w) (map_cmd f c)"
  by (induction c) auto

lemma words_redirect: "map_cmd f (redirect t c w) = redirect t (map_cmd f c) (f w)"
  by (simp add: redirect_def)

lemma set_add_arg: "set_cmd (add_arg w c) \<subseteq> insert w (set_cmd c)"
  by (induction c) auto

lemma good_cmd_simps [simp]:
  "good_cmd b (EXEC [])" "good_cmd b (PIPE c d) \<longleftrightarrow> good_cmd b c \<and> good_cmd b d"
  "good_cmd b (LIST c d) \<longleftrightarrow> good_cmd b c \<and> good_cmd b d" "good_cmd b (BACK c) \<longleftrightarrow> good_cmd b c"
  by (auto simp: good_cmd_def)

lemma good_add_arg: "good b w \<Longrightarrow> good_cmd b c \<Longrightarrow> good_cmd b (add_arg w c)"
  using set_add_arg [of w c] by (auto simp: good_cmd_def)

lemma good_redirect: "good b w \<Longrightarrow> good_cmd b c \<Longrightarrow> good_cmd b (redirect t c w)"
  by (auto simp: good_cmd_def redirect_def)

lemma word_token: "t \<in> set (tokens x) \<Longrightarrow> kind t = CHR ''a'' \<longleftrightarrow> (\<exists>w. t = Word w)"
  using tokens_sym [of _ x] by (cases t) (auto simp: symbols_def)

lemma token_not_NUL: "t \<in> set (tokens x) \<Longrightarrow> kind t \<noteq> NUL"
  using tokens_sym [of _ x] by (cases t) (auto simp: symbols_def)

lemma begins_cases: "begins cs ts \<longleftrightarrow> (\<exists>c r. ts = Sym c # r \<and> (if c = CHR ''+'' then CHR ''>'' else c) \<in> set cs)"
  by (cases "(cs, ts)" rule: begins.cases) auto

text \<open>One token of a known sort.\<close>

lemma gettoken_here:
  assumes "NUL \<notin> set b" and "s \<le> length b"
  shows "\<exists>t q eq s'. gettoken b (length b) s = (t, q, eq, s') \<and> s' \<le> length b \<and>
     (case tokens (drop s b) of
        [] \<Rightarrow> t = NUL \<and> tokens (drop s' b) = []
      | Word w # r \<Rightarrow> t = CHR ''a'' \<and> tokens (drop s' b) = r \<and> good b (q, eq) \<and> txt_at b (q, eq) = w
      | Sym c # r \<Rightarrow> t = c \<and> c \<noteq> CHR ''a'' \<and> c \<noteq> NUL \<and> tokens (drop s' b) = r)"
proof (cases "tokens (drop s b)")
  case Nil
  then show ?thesis using gettoken_nil [OF assms(2)] by auto
next
  case (Cons t r)
  have i: "t \<in> set (tokens (drop s b))" using Cons by simp
  show ?thesis using gettoken_cons [OF assms(2,1) Cons] word_token [OF i] token_not_NUL [OF i] Cons by (cases t) auto
qed

lemma symbols_subset [simp]:
  "set ''<>'' \<subseteq> set symbols" "set ''|)&;'' \<subseteq> set symbols" "set ''&'' \<subseteq> set symbols" "set '';'' \<subseteq> set symbols"
  "set ''|'' \<subseteq> set symbols" "set ''('' \<subseteq> set symbols" "set '')'' \<subseteq> set symbols" "set [] \<subseteq> set symbols"
  by (simp_all add: symbols_def)

section \<open>The parser on tokens\<close>

text \<open>The same recursive descent without positions, which the C code refines.\<close>

type_synonym tresult = "(string cmd \<times> token list) presult"

fun tredirs :: "nat \<Rightarrow> string cmd \<Rightarrow> token list \<Rightarrow> tresult" where
  "tredirs 0 c ts = None"
| "tredirs (Suc n) c ts =
     (if \<not> begins ''<>'' ts then okay (c, ts)
      else
        (case tl ts of
           Word w # r \<Rightarrow> tredirs n (redirect (kind (hd ts)) c w) r
         | _ \<Rightarrow> panic ''missing file for redirection''))"

fun targs :: "nat \<Rightarrow> nat \<Rightarrow> string cmd \<Rightarrow> token list \<Rightarrow> tresult" where
  "targs 0 k c ts = None"
| "targs (Suc n) k c ts =
     (if begins ''|)&;'' ts then okay (c, ts)
      else
        (case ts of
           [] \<Rightarrow> okay (c, [])
         | Sym _ # _ \<Rightarrow> panic ''syntax''
         | Word w # r \<Rightarrow>
             if k + 1 \<ge> MAXARGS then panic ''too many args''
             else pbind (tredirs n (add_arg w c) r) (\<lambda>(c, ts). targs n (k + 1) c ts)))"

fun tbacks :: "nat \<Rightarrow> string cmd \<Rightarrow> token list \<Rightarrow> tresult" where
  "tbacks 0 c ts = None"
| "tbacks (Suc n) c ts = (if begins ''&'' ts then tbacks n (BACK c) (tl ts) else okay (c, ts))"

function (sequential) tline :: "nat \<Rightarrow> token list \<Rightarrow> tresult" and tpipe :: "nat \<Rightarrow> token list \<Rightarrow> tresult"
  and tblock :: "nat \<Rightarrow> token list \<Rightarrow> tresult" and texec :: "nat \<Rightarrow> token list \<Rightarrow> tresult" where
  "tline 0 ts = None"
| "tline (Suc n) ts =
     pbind (tpipe n ts) (\<lambda>(c, ts).
     pbind (tbacks n c ts) (\<lambda>(c, ts).
       if begins '';'' ts then pbind (tline n (tl ts)) (\<lambda>(d, ts). okay (LIST c d, ts)) else okay (c, ts)))"
| "tpipe 0 ts = None"
| "tpipe (Suc n) ts =
     pbind (texec n ts) (\<lambda>(c, ts).
       if begins ''|'' ts then pbind (tpipe n (tl ts)) (\<lambda>(d, ts). okay (PIPE c d, ts)) else okay (c, ts))"
| "tblock 0 ts = None"
| "tblock (Suc n) ts =
     (if \<not> begins ''('' ts then panic ''parseblock''
      else pbind (tline n (tl ts)) (\<lambda>(c, ts).
        if \<not> begins '')'' ts then panic ''syntax - missing )'' else tredirs n c (tl ts)))"
| "texec 0 ts = None"
| "texec (Suc n) ts =
     (if begins ''('' ts then tblock n ts
      else pbind (tredirs n (EXEC []) ts) (\<lambda>(c, ts). targs n 0 c ts))"
  by pat_completeness auto
termination
  by (relation "measure (\<lambda>x. case x of Inl (Inl (n, _)) \<Rightarrow> n | Inl (Inr (n, _)) \<Rightarrow> n | Inr (Inl (n, _)) \<Rightarrow> n | Inr (Inr (n, _)) \<Rightarrow> n)") auto

section \<open>The C parser refines it\<close>

definition matches :: "string \<Rightarrow> (span cmd \<times> nat) presult \<Rightarrow> tresult \<Rightarrow> bool" where
  "matches b m tm \<longleftrightarrow>
     (case m of
        None \<Rightarrow> tm = None
      | Some (Inl e) \<Rightarrow> tm = Some (Inl e)
      | Some (Inr (c, s)) \<Rightarrow> s \<le> length b \<and> good_cmd b c \<and> tm = Some (Inr (words b c, tokens (drop s b))))"

lemma matches_simps [simp]:
  "matches b None tm \<longleftrightarrow> tm = None" "matches b (Some (Inl e)) tm \<longleftrightarrow> tm = Some (Inl e)"
  "matches b (Some (Inr (c, s))) tm \<longleftrightarrow> s \<le> length b \<and> good_cmd b c \<and> tm = Some (Inr (words b c, tokens (drop s b)))"
  by (simp_all add: matches_def)

lemma matches_bind:
  assumes "matches b m tm"
    and "\<And>c s. s \<le> length b \<Longrightarrow> good_cmd b c \<Longrightarrow> matches b (f (c, s)) (g (words b c, tokens (drop s b)))"
  shows "matches b (pbind m f) (pbind tm g)"
proof (cases "\<exists>c s. m = okay (c, s)")
  case True
  then obtain c s where m: "m = okay (c, s)" by blast
  then have "s \<le> length b" "good_cmd b c" "tm = okay (words b c, tokens (drop s b))" using assms(1) by simp_all
  then show ?thesis using assms(2) m by simp
next
  case False
  then consider "m = None" | e where "m = Some (Inl e)" by (metis not_None_eq old.sum.exhaust surj_pair)
  then show ?thesis using assms(1) by cases simp_all
qed

text \<open>What \<^verbatim>\<open>peek\<close> and \<^verbatim>\<open>gettoken\<close> do, as facts to rewrite with.\<close>

lemma peek_eat:
  assumes "NUL \<notin> set b" and "s \<le> length b" and "set cs \<subseteq> set symbols"
  obtains s1 where "peek b (length b) s cs = (s1, begins cs (tokens (drop s b)))" "s1 \<le> length b"
    "tokens (drop s1 b) = tokens (drop s b)"
    "\<And>t r. tokens (drop s b) = t # r \<Longrightarrow>
       \<exists>q eq s2. gettoken b (length b) s1 = (kind t, q, eq, s2) \<and> s2 \<le> length b \<and> tokens (drop s2 b) = r \<and>
         (\<forall>w. t = Word w \<longrightarrow> good b (q, eq) \<and> txt_at b (q, eq) = w)"
proof -
  obtain s1 where "peek b (length b) s cs = (s1, begins cs (tokens (drop s b)))" "s1 \<le> length b" "tokens (drop s1 b) = tokens (drop s b)"
    using peek_tokens [OF assms(2,1,3)] by blast
  then show ?thesis using that gettoken_cons [OF _ assms(1), of s1] by simp
qed

lemma parseredirs_matches:
  assumes "NUL \<notin> set b" and "s \<le> length b" and "good_cmd b c"
  shows "matches b (parseredirs n b (length b) c s) (tredirs n (words b c) (tokens (drop s b)))"
  using assms(2,3)
proof (induction n arbitrary: c s)
  case 0
  then show ?case by simp
next
  case (Suc n)
  obtain s1 where s1: "peek b (length b) s ''<>'' = (s1, begins ''<>'' (tokens (drop s b)))" "s1 \<le> length b"
    "tokens (drop s1 b) = tokens (drop s b)"
    and g: "\<And>t r. tokens (drop s b) = t # r \<Longrightarrow>
       \<exists>q eq s2. gettoken b (length b) s1 = (kind t, q, eq, s2) \<and> s2 \<le> length b \<and> tokens (drop s2 b) = r \<and>
         (\<forall>w. t = Word w \<longrightarrow> good b (q, eq) \<and> txt_at b (q, eq) = w)"
    using peek_eat [OF assms(1) Suc.prems(1) symbols_subset(1)] by metis
  show ?case
  proof (cases "begins ''<>'' (tokens (drop s b))")
    case False
    then show ?thesis using s1 Suc.prems by simp
  next
    case True
    then obtain o1 r where o1: "tokens (drop s b) = Sym o1 # r" by (auto simp: begins_cases)
    obtain q eq s2 where s2: "gettoken b (length b) s1 = (o1, q, eq, s2)" "s2 \<le> length b" "tokens (drop s2 b) = r"
      using g [OF o1] by auto
    obtain t q eq s3 where g: "gettoken b (length b) s2 = (t, q, eq, s3)" "s3 \<le> length b"
     "case r of
        [] \<Rightarrow> t = NUL \<and> tokens (drop s3 b) = []
      | Word w # r \<Rightarrow> t = CHR ''a'' \<and> tokens (drop s3 b) = r \<and> good b (q, eq) \<and> txt_at b (q, eq) = w
      | Sym c # r \<Rightarrow> t = c \<and> c \<noteq> CHR ''a'' \<and> c \<noteq> NUL \<and> tokens (drop s3 b) = r"
      using gettoken_here [OF assms(1) s2(2)] unfolding s2(3) by blast
    show ?thesis
    proof (cases "\<exists>w u. r = Word w # u")
      case True
      then obtain w u where w: "r = Word w # u" by blast
      have g': "t = CHR ''a''" "tokens (drop s3 b) = u" "good b (q, eq)" "txt_at b (q, eq) = w" using g(3) w by auto
      have "matches b (parseredirs n b (length b) (redirect o1 c (q, eq)) s3) (tredirs n (words b (redirect o1 c (q, eq))) (tokens (drop s3 b)))"
        by (rule Suc.IH [OF g(2) good_redirect [OF g'(3) Suc.prems(2)]])
      then show ?thesis using s1(1) s2(1) g(1) g' o1 w \<open>begins _ _\<close> by (simp add: words_redirect)
    next
      case False
      then have "t \<noteq> CHR ''a''" using g(3) by (auto split: list.splits token.splits)
      then show ?thesis using s1(1) s2(1) g(1) o1 False \<open>begins _ _\<close> by (auto split: list.splits token.splits)
    qed
  qed
qed

lemma matches_sym:
  assumes "NUL \<notin> set b" and "s \<le> length b" and "set cs \<subseteq> set symbols"
    and "\<And>s2. begins cs (tokens (drop s b)) \<Longrightarrow> s2 \<le> length b \<Longrightarrow> tokens (drop s2 b) = tl (tokens (drop s b)) \<Longrightarrow>
           matches b (F s2) tm"
    and "\<And>s1. \<not> begins cs (tokens (drop s b)) \<Longrightarrow> s1 \<le> length b \<Longrightarrow> tokens (drop s1 b) = tokens (drop s b) \<Longrightarrow> matches b (H s1) tm'"
  shows "matches b (case peek b (length b) s cs of (s, found) \<Rightarrow>
       if found then (case gettoken b (length b) s of (_, _, _, s) \<Rightarrow> F s) else H s)
     (if begins cs (tokens (drop s b)) then tm else tm')"
proof -
  obtain s1 where s1: "peek b (length b) s cs = (s1, begins cs (tokens (drop s b)))" "s1 \<le> length b"
    "tokens (drop s1 b) = tokens (drop s b)"
    and g: "\<And>t r. tokens (drop s b) = t # r \<Longrightarrow>
       \<exists>q eq s2. gettoken b (length b) s1 = (kind t, q, eq, s2) \<and> s2 \<le> length b \<and> tokens (drop s2 b) = r \<and>
         (\<forall>w. t = Word w \<longrightarrow> good b (q, eq) \<and> txt_at b (q, eq) = w)"
    using peek_eat [OF assms(1-3)] by metis
  show ?thesis
  proof (cases "begins cs (tokens (drop s b))")
    case True
    then obtain c r where "tokens (drop s b) = Sym c # r" by (auto simp: begins_cases)
    then show ?thesis using g [of "Sym c" r] assms(4) s1(1) True by auto
  next
    case False
    then show ?thesis using assms(5) s1 by simp
  qed
qed

lemma parsebacks_matches:
  assumes "NUL \<notin> set b" and "s \<le> length b" and "good_cmd b c"
  shows "matches b (parsebacks n b (length b) c s) (tbacks n (words b c) (tokens (drop s b)))"
  using assms(2,3)
proof (induction n arbitrary: c s)
  case 0
  then show ?case by simp
next
  case (Suc n)
  show ?case unfolding parsebacks.simps tbacks.simps
  proof (rule matches_sym [OF assms(1) Suc.prems(1) symbols_subset(3)])
    fix s2 assume "s2 \<le> length b" "tokens (drop s2 b) = tl (tokens (drop s b))"
    then show "matches b (parsebacks n b (length b) (BACK c) s2) (tbacks n (BACK (words b c)) (tl (tokens (drop s b))))"
      using Suc.IH [of s2 "BACK c"] Suc.prems(2) by simp
  qed (use Suc.prems in simp)
qed

lemma parseargs_matches:
  assumes "NUL \<notin> set b" and "s \<le> length b" and "good_cmd b c"
  shows "matches b (parseargs n b (length b) k c s) (targs n k (words b c) (tokens (drop s b)))"
  using assms(2,3)
proof (induction n arbitrary: c s k)
  case 0
  then show ?case by simp
next
  case (Suc n)
  obtain s1 where s1: "peek b (length b) s ''|)&;'' = (s1, begins ''|)&;'' (tokens (drop s b)))" "s1 \<le> length b"
    "tokens (drop s1 b) = tokens (drop s b)"
    using peek_eat [OF assms(1) Suc.prems(1) symbols_subset(2)] by metis
  obtain t q eq s2 where g: "gettoken b (length b) s1 = (t, q, eq, s2)" "s2 \<le> length b"
    "case tokens (drop s b) of
        [] \<Rightarrow> t = NUL \<and> tokens (drop s2 b) = []
      | Word w # r \<Rightarrow> t = CHR ''a'' \<and> tokens (drop s2 b) = r \<and> good b (q, eq) \<and> txt_at b (q, eq) = w
      | Sym c # r \<Rightarrow> t = c \<and> c \<noteq> CHR ''a'' \<and> c \<noteq> NUL \<and> tokens (drop s2 b) = r"
    using gettoken_here [OF assms(1) s1(2)] unfolding s1(3) by blast
  show ?case
  proof (cases "\<exists>w u. tokens (drop s b) = Word w # u")
    case True
    then obtain w u where w: "tokens (drop s b) = Word w # u" by blast
    have g': "t = CHR ''a''" "tokens (drop s2 b) = u" "good b (q, eq)" "txt_at b (q, eq) = w" using g(3) w by auto
    note a = good_add_arg [OF g'(3) Suc.prems(2)]
    have "matches b (pbind (parseredirs n b (length b) (add_arg (q, eq) c) s2) (\<lambda>(c, s). parseargs n b (length b) (k + 1) c s))
        (pbind (tredirs n (words b (add_arg (q, eq) c)) (tokens (drop s2 b))) (\<lambda>(c, ts). targs n (k + 1) c ts))"
      by (rule matches_bind [OF parseredirs_matches [OF assms(1) g(2) a]]) (simp add: Suc.IH)
    then show ?thesis using s1(1) g(1) g' w by (simp add: words_add_arg Let_def)
  next
    case False
    then show ?thesis using s1 g Suc.prems by (auto split: list.splits token.splits)
  qed
qed

lemma matches_pair:
  assumes "matches b m tm" and "good_cmd b c"
  shows "matches b (pbind m (\<lambda>(d, s). okay (LIST c d, s))) (pbind tm (\<lambda>(d, ts). okay (LIST (words b c) d, ts)))"
    "matches b (pbind m (\<lambda>(d, s). okay (PIPE c d, s))) (pbind tm (\<lambda>(d, ts). okay (PIPE (words b c) d, ts)))"
  by (rule matches_bind [OF assms(1)]; use assms(2) in simp)+

text \<open>One level of each function, given the level below.\<close>

lemma parseline_step:
  assumes "NUL \<notin> set b" and "s \<le> length b"
    and "\<And>s. s \<le> length b \<Longrightarrow> matches b (parseline n b (length b) s) (tline n (tokens (drop s b)))"
    and "\<And>s. s \<le> length b \<Longrightarrow> matches b (parsepipe n b (length b) s) (tpipe n (tokens (drop s b)))"
  shows "matches b (parseline (Suc n) b (length b) s) (tline (Suc n) (tokens (drop s b)))"
  unfolding parseline.simps tline.simps
  apply (rule matches_bind [OF assms(4) [OF assms(2)]])
  apply (simp only: prod.case)
  apply (rule matches_bind [OF parsebacks_matches [OF assms(1)]], assumption, assumption)
  apply (simp only: prod.case)
  apply (rule matches_sym [OF assms(1) _ symbols_subset(4)], assumption)
   apply (rule matches_pair(1))
    apply (metis assms(3))
   apply assumption
  apply simp
  done

lemma parsepipe_step:
  assumes "NUL \<notin> set b" and "s \<le> length b"
    and "\<And>s. s \<le> length b \<Longrightarrow> matches b (parsepipe n b (length b) s) (tpipe n (tokens (drop s b)))"
    and "\<And>s. s \<le> length b \<Longrightarrow> matches b (parseexec n b (length b) s) (texec n (tokens (drop s b)))"
  shows "matches b (parsepipe (Suc n) b (length b) s) (tpipe (Suc n) (tokens (drop s b)))"
  unfolding parsepipe.simps tpipe.simps
  apply (rule matches_bind [OF assms(4) [OF assms(2)]])
  apply (simp only: prod.case)
  apply (rule matches_sym [OF assms(1) _ symbols_subset(5)], assumption)
   apply (rule matches_pair(2))
    apply (metis assms(3))
   apply assumption
  apply simp
  done

lemma if_swap: "(if \<not> P then x else y) = (if P then y else x)"
  by simp

lemma parseblock_step:
  assumes "NUL \<notin> set b" and "s \<le> length b"
    and "\<And>s. s \<le> length b \<Longrightarrow> matches b (parseline n b (length b) s) (tline n (tokens (drop s b)))"
  shows "matches b (parseblock (Suc n) b (length b) s) (tblock (Suc n) (tokens (drop s b)))"
  unfolding parseblock.simps tblock.simps if_swap
  apply (rule matches_sym [OF assms(1,2) symbols_subset(6)])
   apply (rule matches_bind [where tm = "tline n (tl (tokens (drop s b)))"])
    apply (metis assms(3))
   apply (simp only: prod.case)
   apply (rule matches_sym [OF assms(1) _ symbols_subset(7)], assumption)
    apply (metis parseredirs_matches [OF assms(1)])
   apply simp
  apply simp
  done

lemma parseexec_step:
  assumes "NUL \<notin> set b" and "s \<le> length b"
    and "\<And>s. s \<le> length b \<Longrightarrow> matches b (parseblock n b (length b) s) (tblock n (tokens (drop s b)))"
  shows "matches b (parseexec (Suc n) b (length b) s) (texec (Suc n) (tokens (drop s b)))"
proof -
  obtain s1 where s1: "peek b (length b) s ''('' = (s1, begins ''('' (tokens (drop s b)))" "s1 \<le> length b"
    "tokens (drop s1 b) = tokens (drop s b)"
    using peek_eat [OF assms(1,2) symbols_subset(6)] by metis
  have "matches b (pbind (parseredirs n b (length b) (EXEC []) s1) (\<lambda>(c, s). parseargs n b (length b) 0 c s))
      (pbind (tredirs n (words b (EXEC [])) (tokens (drop s1 b))) (\<lambda>(c, ts). targs n 0 c ts))"
    by (rule matches_bind [OF parseredirs_matches [OF assms(1) s1(2)]]) (simp_all add: parseargs_matches [OF assms(1)])
  then show ?thesis using assms(3) [OF s1(2)] s1 by simp
qed

lemma parse_matches:
  assumes "NUL \<notin> set b"
  shows "(\<forall>s \<le> length b. matches b (parseline n b (length b) s) (tline n (tokens (drop s b)))) \<and>
    (\<forall>s \<le> length b. matches b (parsepipe n b (length b) s) (tpipe n (tokens (drop s b)))) \<and>
    (\<forall>s \<le> length b. matches b (parseblock n b (length b) s) (tblock n (tokens (drop s b)))) \<and>
    (\<forall>s \<le> length b. matches b (parseexec n b (length b) s) (texec n (tokens (drop s b))))"
proof (induction n)
  case 0
  then show ?case by simp
next
  case (Suc n)
  then show ?case
    by (intro conjI allI impI parseline_step parsepipe_step parseblock_step parseexec_step assms) simp_all
qed

section \<open>What the token parser accepts\<close>

lemma red_simps [simp]: "red_toks (t, w) = [Sym t, Word w]" "add_red c (t, x) = redirect t c x"
  by (simp_all add: red_toks_def add_red_def)

lemma begins_sym [simp]:
  "begins cs (Sym c # ts) \<longleftrightarrow> (if c = CHR ''+'' then CHR ''>'' else c) \<in> set cs"
  by simp

lemma begins_sole: "x \<notin> set ''+>'' \<Longrightarrow> begins [x] ts \<longleftrightarrow> (\<exists>r. ts = Sym x # r)"
  by (cases ts; cases "hd ts") auto

lemma one_sym:
  "begins ''&'' ts \<longleftrightarrow> (\<exists>r. ts = Sym (CHR ''&'') # r)" "begins '';'' ts \<longleftrightarrow> (\<exists>r. ts = Sym (CHR '';'') # r)"
  "begins ''|'' ts \<longleftrightarrow> (\<exists>r. ts = Sym (CHR ''|'') # r)" "begins ''('' ts \<longleftrightarrow> (\<exists>r. ts = Sym (CHR ''('') # r)"
  "begins '')'' ts \<longleftrightarrow> (\<exists>r. ts = Sym (CHR '')'') # r)"
  by (rule begins_sole; simp)+

lemma begins_red: "begins ''<>'' (Sym t # r) \<longleftrightarrow> red_ok (t, w)"
  by (auto simp: red_ok_def)

lemma item_toks_Red [simp]: "item_toks \<circ> Red = red_toks" "(\<lambda>x. item_toks (Red x)) = red_toks"
  by auto

lemma red_items:
  "list_all red_ok rs \<Longrightarrow> list_all item_ok (map Red rs)" "nargs (map Red rs) = 0"
  "foldl (\<lambda>c x. add_item x c) d (map Red rs) = foldl add_red d rs"
  by (induction rs arbitrary: d) (auto simp: nargs_def)

lemma tredirs_sound:
  "tredirs n c ts = okay (c', ts') \<Longrightarrow>
     \<exists>rs. list_all red_ok rs \<and> ts = concat (map red_toks rs) @ ts' \<and> c' = foldl add_red c rs"
proof (induction n arbitrary: c ts)
  case (Suc n)
  show ?case
  proof (cases "begins ''<>'' ts")
    case False
    then show ?thesis using Suc.prems by (intro exI [of _ "[]"]) simp
  next
    case True
    then obtain t w r where t: "ts = Sym t # Word w # r" "tredirs n (redirect t c w) r = okay (c', ts')"
      using Suc.prems by (auto simp: begins_cases split: list.splits token.splits)
    then have o1: "red_ok (t, w)" using True begins_red by blast
    obtain rs where "list_all red_ok rs" "r = concat (map red_toks rs) @ ts'" "c' = foldl add_red (redirect t c w) rs"
      using Suc.IH [OF t(2)] by blast
    then show ?thesis using t(1) o1 by (intro exI [of _ "(t, w) # rs"]) simp
  qed
qed simp

lemma targs_sound:
  "targs n k c ts = okay (c', ts') \<Longrightarrow> k < MAXARGS \<Longrightarrow>
     \<exists>xs. list_all item_ok xs \<and> ts = concat (map item_toks xs) @ ts' \<and> c' = foldl (\<lambda>c x. add_item x c) c xs \<and> k + nargs xs < MAXARGS"
proof (induction n arbitrary: k c ts)
  case (Suc n)
  show ?case
  proof (cases "\<exists>w r. ts = Word w # r")
    case True
    then obtain w r where w: "ts = Word w # r" by blast
    then obtain d us where d: "tredirs n (add_arg w c) r = okay (d, us)" "targs n (k + 1) d us = okay (c', ts')" "k + 1 < MAXARGS"
      using Suc.prems by (auto simp: pbind_done split: if_splits)
    obtain rs where rs: "list_all red_ok rs" "r = concat (map red_toks rs) @ us" "d = foldl add_red (add_arg w c) rs"
      using tredirs_sound [OF d(1)] by blast
    obtain xs where xs: "list_all item_ok xs" "us = concat (map item_toks xs) @ ts'" "c' = foldl (\<lambda>c x. add_item x c) d xs"
      "k + 1 + nargs xs < MAXARGS"
      using Suc.IH [OF d(2,3)] by blast
    show ?thesis using w rs(2,3) xs red_items [where rs = rs] rs(1)
      by (intro exI [of _ "Arg w # map Red rs @ xs"]) (simp add: nargs_def)
  next
    case False
    then show ?thesis using Suc.prems by (intro exI [of _ "[]"]) (auto simp: nargs_def split: if_splits list.splits token.splits)
  qed
qed simp

lemma tbacks_sound:
  "tbacks n c ts = okay (c', ts') \<Longrightarrow> \<exists>k. ts = replicate k (Sym (CHR ''&'')) @ ts' \<and> c' = (BACK ^^ k) c"
proof (induction n arbitrary: c ts)
  case (Suc n)
  show ?case
  proof (cases "begins ''&'' ts")
    case True
    then obtain r where r: "ts = Sym (CHR ''&'') # r" by (auto simp: one_sym)
    obtain k where "r = replicate k (Sym (CHR ''&'')) @ ts'" "c' = (BACK ^^ k) (BACK c)"
      using Suc.IH [of "BACK c" r] Suc.prems r by auto
    then show ?thesis using r by (intro exI [of _ "Suc k"]) (simp add: funpow_swap1)
  next
    case False
    then show ?thesis using Suc.prems by (intro exI [of _ 0]) simp
  qed
qed simp

lemma tparse_sound:
  "(\<forall>ts c r. tline n ts = okay (c, r) \<longrightarrow> (\<exists>x. line_ok x \<and> ts = line_toks x @ r \<and> c = line_cmd x)) \<and>
   (\<forall>ts c r. tpipe n ts = okay (c, r) \<longrightarrow> (\<exists>x. pipe_ok x \<and> ts = pipe_toks x @ r \<and> c = pipe_cmd x)) \<and>
   (\<forall>ts c r. tblock n ts = okay (c, r) \<longrightarrow> (\<exists>x. exec_ok x \<and> ts = exec_toks x @ r \<and> c = exec_cmd x)) \<and>
   (\<forall>ts c r. texec n ts = okay (c, r) \<longrightarrow> (\<exists>x. exec_ok x \<and> ts = exec_toks x @ r \<and> c = exec_cmd x))"
proof (induction n)
  case (Suc n)
  have L: "\<exists>x. line_ok x \<and> ts = line_toks x @ r \<and> c = line_cmd x" if t: "tline (Suc n) ts = okay (c, r)" for ts c r
  proof -
    obtain c1 u c2 v where 1: "tpipe n ts = okay (c1, u)" "tbacks n c1 u = okay (c2, v)"
      "(if begins '';'' v then pbind (tline n (tl v)) (\<lambda>(d, ts). okay (LIST c2 d, ts)) else okay (c2, v)) = okay (c, r)"
      using t by (auto simp: pbind_done)
    obtain p where p: "pipe_ok p" "ts = pipe_toks p @ u" "c1 = pipe_cmd p" using Suc.IH 1(1) by blast
    obtain k where k: "u = replicate k (Sym (CHR ''&'')) @ v" "c2 = (BACK ^^ k) c1" using tbacks_sound [OF 1(2)] by blast
    show ?thesis
    proof (cases "begins '';'' v")
      case True
      then obtain w where w: "v = Sym (CHR '';'') # w" by (auto simp: one_sym)
      then obtain d where "tline n w = okay (d, r)" "c = LIST c2 d" using 1(3) by (auto simp: pbind_done)
      then obtain x where "line_ok x" "w = line_toks x @ r" "d = line_cmd x" using Suc.IH by blast
      then show ?thesis using p k w \<open>c = LIST c2 d\<close> by (intro exI [of _ "Seq p k x"]) simp
    next
      case False
      then show ?thesis using p k 1(3) by (intro exI [of _ "Last p k"]) simp
    qed
  qed
  have P: "\<exists>x. pipe_ok x \<and> ts = pipe_toks x @ r \<and> c = pipe_cmd x" if t: "tpipe (Suc n) ts = okay (c, r)" for ts c r
  proof -
    obtain c1 u where 1: "texec n ts = okay (c1, u)"
      "(if begins ''|'' u then pbind (tpipe n (tl u)) (\<lambda>(d, ts). okay (PIPE c1 d, ts)) else okay (c1, u)) = okay (c, r)"
      using t by (auto simp: pbind_done)
    obtain e where e: "exec_ok e" "ts = exec_toks e @ u" "c1 = exec_cmd e" using Suc.IH 1(1) by blast
    show ?thesis
    proof (cases "begins ''|'' u")
      case True
      then obtain w where w: "u = Sym (CHR ''|'') # w" by (auto simp: one_sym)
      then obtain d where d: "tpipe n w = okay (d, r)" "c = PIPE c1 d" using 1(2) by (auto simp: pbind_done)
      then obtain x where "pipe_ok x" "w = pipe_toks x @ r" "d = pipe_cmd x" using Suc.IH by blast
      then show ?thesis using e w d(2) by (intro exI [of _ "Piped e x"]) simp
    next
      case False
      then show ?thesis using e 1(2) by (intro exI [of _ "Only e"]) simp
    qed
  qed
  have B: "\<exists>x. exec_ok x \<and> ts = exec_toks x @ r \<and> c = exec_cmd x" if t: "tblock (Suc n) ts = okay (c, r)" for ts c r
  proof -
    obtain u c1 v where 1: "ts = Sym (CHR ''('') # u" "tline n u = okay (c1, Sym (CHR '')'') # v)" "tredirs n c1 v = okay (c, r)"
      using t by (auto simp: pbind_done one_sym split: if_splits)
    obtain x where x: "line_ok x" "u = line_toks x @ Sym (CHR '')'') # v" "c1 = line_cmd x" using Suc.IH 1(2) by blast
    obtain rs where "list_all red_ok rs" "v = concat (map red_toks rs) @ r" "c = foldl add_red c1 rs"
      using tredirs_sound [OF 1(3)] by blast
    then show ?thesis using 1(1) x by (intro exI [of _ "Block x rs"]) simp
  qed
  have E: "\<exists>x. exec_ok x \<and> ts = exec_toks x @ r \<and> c = exec_cmd x" if t: "texec (Suc n) ts = okay (c, r)" for ts c r
  proof (cases "begins ''('' ts")
    case True
    then show ?thesis using t Suc.IH by simp
  next
    case False
    then obtain c1 u where 1: "tredirs n (EXEC []) ts = okay (c1, u)" "targs n 0 c1 u = okay (c, r)"
      using t by (auto simp: pbind_done)
    obtain rs where rs: "list_all red_ok rs" "ts = concat (map red_toks rs) @ u" "c1 = foldl add_red (EXEC []) rs"
      using tredirs_sound [OF 1(1)] by blast
    obtain xs where "list_all item_ok xs" "u = concat (map item_toks xs) @ r" "c = foldl (\<lambda>c x. add_item x c) c1 xs" "nargs xs < MAXARGS"
      using targs_sound [OF 1(2)] by (auto simp: MAXARGS_def)
    then show ?thesis using rs red_items [where rs = rs]
      by (intro exI [of _ "Simple (map Red rs @ xs)"]) (simp add: nargs_def)
  qed
  show ?case using L P B E by blast
qed simp

section \<open>The recursion ends\<close>

lemma tredirs_total: "length ts < n \<Longrightarrow> tredirs n c ts \<noteq> None"
  by (induction n arbitrary: c ts) (auto simp: begins_cases simp del: not_None_eq split: list.splits token.splits)

lemma targs_total: "length ts < n \<Longrightarrow> targs n k c ts \<noteq> None"
proof (induction n arbitrary: k c ts)
  case (Suc n)
  have "pbind (tredirs n d r) (\<lambda>(c, ts). targs n (k + 1) c ts) \<noteq> None" if "length r < n" for d r
  proof -
    have "targs n (k + 1) c' u \<noteq> None" if "tredirs n d r = okay (c', u)" for c' u
      using tredirs_sound [OF that] \<open>length r < n\<close> by (intro Suc.IH) auto
    then show ?thesis using tredirs_total [OF that] by (auto simp: pbind_None)
  qed
  then show ?case using Suc.prems by (auto split: list.splits token.splits)
qed simp

lemma tbacks_total: "length ts < n \<Longrightarrow> tbacks n c ts \<noteq> None"
  by (induction n arbitrary: c ts) (auto simp: one_sym)

lemma tparse_shrinks:
  "tpipe n ts = okay (c, r) \<Longrightarrow> length r \<le> length ts" "texec n ts = okay (c, r) \<Longrightarrow> length r \<le> length ts"
  "tline n ts = okay (c, r) \<Longrightarrow> length r \<le> length ts" "tbacks n d ts = okay (c, r) \<Longrightarrow> length r \<le> length ts"
  "tredirs n d ts = okay (c, r) \<Longrightarrow> length r \<le> length ts"
  using tparse_sound [of n] tbacks_sound [of n d ts c r] tredirs_sound [of n d ts c r] by fastforce+

lemma tparse_total:
  "(\<forall>ts. 4 * length ts + 4 \<le> n \<longrightarrow> tline n ts \<noteq> None) \<and> (\<forall>ts. 4 * length ts + 3 \<le> n \<longrightarrow> tpipe n ts \<noteq> None) \<and>
   (\<forall>ts. 4 * length ts + 1 \<le> n \<longrightarrow> tblock n ts \<noteq> None) \<and> (\<forall>ts. 4 * length ts + 2 \<le> n \<longrightarrow> texec n ts \<noteq> None)"
proof (induction n)
  case (Suc n)
  have L: "tline (Suc n) ts \<noteq> None" if "4 * length ts + 4 \<le> Suc n" for ts
  proof -
    have p: "tpipe n ts \<noteq> None" using Suc.IH that by simp
    have b: "tbacks n c u \<noteq> None" if "tpipe n ts = okay (c, u)" for c u
      using tparse_shrinks(1) [OF that] \<open>4 * length ts + 4 \<le> Suc n\<close> by (intro tbacks_total) simp
    have "tline n (tl v) \<noteq> None" if "tpipe n ts = okay (c, u)" "tbacks n c u = okay (d, v)" "begins '';'' v" for c u d v
    proof -
      have "length v \<le> length ts" using tparse_shrinks(1) [OF that(1)] tparse_shrinks(4) [OF that(2)] by simp
      moreover have "v \<noteq> []" using that(3) by auto
      ultimately have "4 * length (tl v) + 4 \<le> n" using \<open>4 * length ts + 4 \<le> Suc n\<close> by (cases v) auto
      then show ?thesis using Suc.IH by blast
    qed
    then show ?thesis using p b by (auto simp: pbind_None simp del: not_None_eq)
  qed
  have P: "tpipe (Suc n) ts \<noteq> None" if "4 * length ts + 3 \<le> Suc n" for ts
  proof -
    have "tpipe n (tl u) \<noteq> None" if "texec n ts = okay (c, u)" "begins ''|'' u" for c u
    proof -
      have "length u \<le> length ts" "u \<noteq> []" using tparse_shrinks(2) [OF that(1)] that(2) by auto
      then have "4 * length (tl u) + 3 \<le> n" using \<open>4 * length ts + 3 \<le> Suc n\<close> by (cases u) auto
      then show ?thesis using Suc.IH by blast
    qed
    moreover have "texec n ts \<noteq> None" using Suc.IH that by simp
    ultimately show ?thesis by (auto simp: pbind_None simp del: not_None_eq)
  qed
  have B: "tblock (Suc n) ts \<noteq> None" if "4 * length ts + 1 \<le> Suc n" for ts
  proof (cases "begins ''('' ts")
    case True
    then obtain u where u: "ts = Sym (CHR ''('') # u" by (auto simp: one_sym)
    then have "tline n u \<noteq> None" using Suc.IH that by simp
    moreover have "tredirs n c (tl v) \<noteq> None" if "tline n u = okay (c, v)" for c v
      using tparse_shrinks(3) [OF that] u \<open>4 * length ts + 1 \<le> Suc n\<close> by (intro tredirs_total) simp
    ultimately show ?thesis using u by (auto simp: pbind_None simp del: not_None_eq)
  qed simp
  have E: "texec (Suc n) ts \<noteq> None" if "4 * length ts + 2 \<le> Suc n" for ts
  proof -
    have "targs n 0 c u \<noteq> None" if "tredirs n (EXEC []) ts = okay (c, u)" for c u
      using tparse_shrinks(5) [OF that] \<open>4 * length ts + 2 \<le> Suc n\<close> by (intro targs_total) simp
    moreover have "tredirs n (EXEC []) ts \<noteq> None" using that by (intro tredirs_total) simp
    moreover have "tblock n ts \<noteq> None" using Suc.IH that by simp
    ultimately show ?thesis by (auto simp: pbind_None simp del: not_None_eq)
  qed
  show ?case using L P B E by blast
qed simp

section \<open>Every line of the grammar is accepted\<close>

lemma tredirs_complete:
  "list_all red_ok rs \<Longrightarrow> \<not> begins ''<>'' ts \<Longrightarrow> length rs < n \<Longrightarrow>
     tredirs n c (concat (map red_toks rs) @ ts) = okay (foldl add_red c rs, ts)"
proof (induction rs arbitrary: c n)
  case Nil
  then show ?case by (cases n) auto
next
  case (Cons x rs)
  obtain t w m where "x = (t, w)" "n = Suc m" using Cons.prems(3) by (cases x, cases n) auto
  then show ?case using Cons by (auto simp: red_ok_def)
qed

lemma tbacks_complete:
  "\<not> begins ''&'' r \<Longrightarrow> k < n \<Longrightarrow> tbacks n c (replicate k (Sym (CHR ''&'')) @ r) = okay ((BACK ^^ k) c, r)"
proof (induction k arbitrary: c n)
  case 0
  then show ?case by (cases n) auto
next
  case (Suc k)
  then obtain m where "n = Suc m" by (cases n) auto
  then show ?case using Suc by (simp add: funpow_swap1)
qed

text \<open>Redirections before the next argument.\<close>

lemma items_split:
  "\<exists>rs ys. xs = map Red rs @ ys \<and> (ys = [] \<or> (\<exists>w zs. ys = Arg w # zs))"
proof (induction xs)
  case (Cons x xs)
  then obtain rs ys where "xs = map Red rs @ ys" "ys = [] \<or> (\<exists>w zs. ys = Arg w # zs)" by blast
  then show ?case by (cases x) (force intro: exI [of _ "[]"], metis append_Cons list.simps(9))
qed simp

lemma items_complete:
  assumes "list_all item_ok xs" and "k + nargs xs < MAXARGS" and "r = [] \<or> begins ''|)&;'' r"
    and "length (concat (map item_toks xs) @ r) < n" and "length (concat (map item_toks xs) @ r) < m"
  shows "pbind (tredirs n c (concat (map item_toks xs) @ r)) (\<lambda>(c, ts). targs m k c ts) = okay (foldl (\<lambda>c x. add_item x c) c xs, r)"
  using assms
proof (induction "length xs" arbitrary: xs c k n m rule: less_induct)
  case less
  obtain rs ys where xs: "xs = map Red rs @ ys" "ys = [] \<or> (\<exists>w zs. ys = Arg w # zs)" using items_split by blast
  have rs: "list_all red_ok rs" using less.prems(1) xs(1) by (induction rs arbitrary: xs) auto
  have "\<not> begins ''<>'' r" using less.prems(3) by (auto simp: begins_cases)
  then have nb: "\<not> begins ''<>'' (concat (map item_toks ys) @ r)" using xs(2) by auto
  have len: "length rs \<le> length (concat (map red_toks rs))" by (induction rs) auto
  then have red: "tredirs n c (concat (map item_toks xs) @ r) = okay (foldl add_red c rs, concat (map item_toks ys) @ r)"
    using tredirs_complete [OF rs nb, of n c] less.prems(4) xs(1) by simp
  obtain m' where m: "m = Suc m'" using less.prems(5) by (cases m) auto
  show ?case
  proof (cases "ys = []")
    case True
    then show ?thesis using red less.prems(3) m xs(1) red_items(3) [of c rs] by auto
  next
    case False
    then obtain w zs where ys: "ys = Arg w # zs" using xs(2) by blast
    have k: "k + 1 + nargs zs < MAXARGS" using less.prems(2) xs(1) ys red_items(2) [of rs] by (simp add: nargs_def)
    have "pbind (tredirs m' (add_arg w d) (concat (map item_toks zs) @ r)) (\<lambda>(c, ts). targs m' (k + 1) c ts) =
        okay (foldl (\<lambda>c x. add_item x c) (add_arg w d) zs, r)" for d
      using less.prems m xs(1) ys k by (intro less.hyps) auto
    then show ?thesis using red m xs(1) ys k red_items(3) [of c rs] by simp
  qed
qed

lemma exec_simple_complete:
  assumes "exec_ok (Simple xs)" and "r = [] \<or> begins ''|)&;'' r" and "4 * length (exec_toks (Simple xs) @ r) + 2 \<le> n"
  shows "texec n (exec_toks (Simple xs) @ r) = okay (exec_cmd (Simple xs), r)"
proof -
  obtain m where m: "n = Suc m" using assms(3) by (cases n) auto
  have "\<not> begins ''('' (concat (map item_toks xs) @ r)"
  proof (cases xs)
    case Nil
    then show ?thesis using assms(2) by (auto simp: begins_cases)
  next
    case (Cons x ys)
    then show ?thesis using assms(1) by (cases x) (auto simp: red_toks_def red_ok_def)
  qed
  moreover have "pbind (tredirs m (EXEC []) (concat (map item_toks xs) @ r)) (\<lambda>(c, ts). targs m 0 c ts) =
      okay (foldl (\<lambda>c x. add_item x c) (EXEC []) xs, r)"
    using assms m by (intro items_complete) simp_all
  ultimately show ?thesis using m by simp
qed

lemma ends_simps:
  "begins '')'' r \<Longrightarrow> begins '')&;'' r \<and> begins ''|)&;'' r" "begins '')&;'' r \<Longrightarrow> begins ''|)&;'' r \<and> \<not> begins ''|'' r"
  "begins ''|)&;'' r \<Longrightarrow> \<not> begins ''<>'' r" "begins '')'' r \<Longrightarrow> \<not> begins '';'' r \<and> \<not> begins ''&'' r"
  by (cases r; cases "hd r"; force split: if_splits)+

lemma tparse_complete:
  "line_ok l \<Longrightarrow> (\<And>r n. r = [] \<or> begins '')'' r \<Longrightarrow> 4 * length (line_toks l @ r) + 4 \<le> n \<Longrightarrow>
     tline n (line_toks l @ r) = okay (line_cmd l, r))"
  "pipe_ok p \<Longrightarrow> (\<And>r n. r = [] \<or> begins '')&;'' r \<Longrightarrow> 4 * length (pipe_toks p @ r) + 3 \<le> n \<Longrightarrow>
     tpipe n (pipe_toks p @ r) = okay (pipe_cmd p, r))"
  "exec_ok e \<Longrightarrow> (\<And>r n. r = [] \<or> begins ''|)&;'' r \<Longrightarrow> 4 * length (exec_toks e @ r) + 2 \<le> n \<Longrightarrow>
     texec n (exec_toks e @ r) = okay (exec_cmd e, r))"
proof (induction l and p and e)
  case (Last p k)
  obtain m where m: "n = Suc m" using Last.prems(3) by (cases n) auto
  let ?r = "replicate k (Sym (CHR ''&'')) @ r"
  have "?r = [] \<or> begins '')&;'' ?r" using Last.prems(2) ends_simps(1) by (cases k) auto
  then have "tpipe m (pipe_toks p @ ?r) = okay (pipe_cmd p, ?r)" using Last m by simp
  moreover have "\<not> begins ''&'' r" "\<not> begins '';'' r" using Last.prems(2) ends_simps(4) by auto
  moreover have "tbacks m (pipe_cmd p) ?r = okay ((BACK ^^ k) (pipe_cmd p), r)"
    using Last.prems(3) m calculation(2) by (intro tbacks_complete) simp_all
  ultimately show ?case using m by simp
next
  case (Seq p k l)
  obtain m where m: "n = Suc m" using Seq.prems(3) by (cases n) auto
  let ?v = "Sym (CHR '';'') # line_toks l @ r"
  let ?r = "replicate k (Sym (CHR ''&'')) @ ?v"
  have "begins '')&;'' ?r" by (cases k) auto
  then have "tpipe m (pipe_toks p @ ?r) = okay (pipe_cmd p, ?r)" using Seq m by simp
  moreover have "tbacks m (pipe_cmd p) ?r = okay ((BACK ^^ k) (pipe_cmd p), ?v)"
    using Seq.prems(3) m by (intro tbacks_complete) simp_all
  moreover have "tline m (line_toks l @ r) = okay (line_cmd l, r)" using Seq m by simp
  ultimately show ?case using m by simp
next
  case (Only e)
  obtain m where m: "n = Suc m" using Only.prems(3) by (cases n) auto
  have "texec m (exec_toks e @ r) = okay (exec_cmd e, r)" using Only m ends_simps(2) [of r] by auto
  moreover have "\<not> begins ''|'' r" using Only.prems(2) ends_simps(2) by auto
  ultimately show ?case using m by simp
next
  case (Piped e p)
  obtain m where m: "n = Suc m" using Piped.prems(3) by (cases n) auto
  let ?v = "Sym (CHR ''|'') # pipe_toks p @ r"
  have "texec m (exec_toks e @ ?v) = okay (exec_cmd e, ?v)" using Piped m by simp
  moreover have "tpipe m (pipe_toks p @ r) = okay (pipe_cmd p, r)" using Piped m by simp
  ultimately show ?case using m by simp
next
  case (Simple xs)
  then show ?case by (intro exec_simple_complete) simp_all
next
  case (Block l rs)
  let ?v = "concat (map red_toks rs) @ r"
  obtain m where m: "n = Suc (Suc m)" using Block.prems(3) by (cases n; cases "n - 1") auto
  have len: "length rs \<le> length (concat (map red_toks rs))" by (induction rs) auto
  have "tline m (line_toks l @ Sym (CHR '')'') # ?v) = okay (line_cmd l, Sym (CHR '')'') # ?v)" using Block m by simp
  moreover have "tredirs m (line_cmd l) ?v = okay (foldl add_red (line_cmd l) rs, r)"
    using Block.prems m len ends_simps(3) [of r] by (intro tredirs_complete) auto
  ultimately show ?case using m by simp
qed

section \<open>The words after nulterminate\<close>

text \<open>The string that a pointer to position \<open>p\<close> denotes.\<close>

definition c_string :: "string \<Rightarrow> nat \<Rightarrow> string" where
  "c_string b p = takeWhile (\<lambda>c. c \<noteq> NUL) (drop p b)"

abbreviation strings :: "string \<Rightarrow> span cmd \<Rightarrow> string cmd" where "strings b \<equiv> map_cmd (\<lambda>w. c_string b (fst w))"

lemma cut_nth:
  "length (foldl (\<lambda>b w. b[snd w := NUL]) b ws) = length b"
  "i < length b \<Longrightarrow> foldl (\<lambda>b w. b[snd w := NUL]) b ws ! i = (if i \<in> snd ` set ws then NUL else b ! i)" for ws :: "span list"
  by (induction ws arbitrary: b) auto

lemma length_nulterminate [simp]: "length (nulterminate c b) = length b"
  by (induction c arbitrary: b) (simp_all add: cut_nth)

lemma nulterminate_nth:
  "length (nulterminate c b) = length b \<and>
   (\<forall>i < length b. nulterminate c b ! i = (if i \<in> snd ` set_cmd c then NUL else b ! i))"
proof (induction c arbitrary: b)
  case (REDIR c f m d)
  have "(nulterminate c b)[snd f := NUL] ! i = (if i = snd f \<or> i \<in> snd ` set_cmd c then NUL else b ! i)" if "i < length b" for i
    using REDIR [of b] that by (cases "snd f = i") auto
  then show ?case by auto
qed (auto simp: cut_nth)

lemma nulterminate_string:
  assumes "NUL \<notin> set b" and "good_cmd b c" and "w \<in> set_cmd c"
  shows "c_string (nulterminate c b) (fst w) = txt_at b w"
proof -
  let ?b = "nulterminate c b"
  note n = nulterminate_nth [of c b]
  have w: "fst w < snd w" "snd w \<le> length b" "\<And>i. fst w \<le> i \<Longrightarrow> i < snd w \<Longrightarrow> word_char (b ! i)"
    using assms(2,3) by (auto simp: good_cmd_def good_def)
  have keep: "?b ! i = b ! i \<and> ?b ! i \<noteq> NUL" if i: "fst w \<le> i" "i < snd w" for i
  proof -
    have l: "i < length b" using i w(2) by simp
    have "snd v \<noteq> i" if v: "v \<in> set_cmd c" for v
    proof
      assume "snd v = i"
      moreover have "good b v" using assms(2) v by (simp add: good_cmd_def)
      ultimately show False using w(3) [OF i] l by (auto simp: good_def)
    qed
    moreover have "b ! i \<noteq> NUL" using assms(1) nth_mem [OF l] by metis
    ultimately show ?thesis using n l by auto
  qed
  let ?t = "take (snd w - fst w) (drop (fst w) ?b)"
  have same: "?t = txt_at b w" unfolding txt_at_def
    using n w(1,2) keep by (intro nth_equalityI) auto
  have d: "drop (fst w) ?b = ?t @ drop (snd w) ?b" using w(1) by (metis append_take_drop_id drop_drop add.commute le_add_diff_inverse2 less_imp_le_nat)
  have "\<forall>x \<in> set ?t. x \<noteq> NUL"
  proof
    fix x assume "x \<in> set ?t"
    then obtain i where "i < snd w - fst w" "x = ?b ! (fst w + i)" using n w(1,2) by (auto simp: in_set_conv_nth)
    moreover from this have "fst w + i < snd w" by linarith
    ultimately show "x \<noteq> NUL" using keep [of "fst w + i"] by auto
  qed
  then have a: "takeWhile (\<lambda>c. c \<noteq> NUL) (?t @ u) = ?t @ takeWhile (\<lambda>c. c \<noteq> NUL) u" for u by (intro takeWhile_append2) blast
  have e: "takeWhile (\<lambda>c. c \<noteq> NUL) (drop (snd w) ?b) = []"
  proof (cases "snd w = length b")
    case True
    then show ?thesis using n by simp
  next
    case False
    then have l: "snd w < length b" using w(2) by simp
    then have "?b ! snd w = NUL" using n assms(3) by auto
    then show ?thesis using l n by (simp add: Cons_nth_drop_Suc [symmetric])
  qed
  show ?thesis unfolding c_string_def same [symmetric] by (subst d) (simp only: a e append_Nil2)
qed

lemma nulterminate_strings: "NUL \<notin> set b \<Longrightarrow> good_cmd b c \<Longrightarrow> strings (nulterminate c b) c = words b c"
  by (intro cmd.map_cong0) (simp add: nulterminate_string)

section \<open>The parser\<close>

lemma strlen_line: "NUL \<notin> set b \<Longrightarrow> strlen b = length b"
proof -
  assume "NUL \<notin> set b"
  then have "takeWhile (\<lambda>c. c \<noteq> NUL) b = b" unfolding takeWhile_eq_all_conv by blast
  then show ?thesis by (simp only: strlen_def)
qed

lemma parsecmd_tokens:
  assumes "NUL \<notin> set b"
  shows "parsecmd b = okay (c, b') \<longleftrightarrow>
     (\<exists>s. parseline (4 * length b + 4) b (length b) 0 = okay (c, s) \<and> tokens (drop s b) = [] \<and> b' = nulterminate c b)"
proof -
  have m: "s \<le> length b" if "parseline (4 * length b + 4) b (length b) 0 = okay (c, s)" for c s
    using parse_matches [OF assms, of "4 * length b + 4"] that by (metis matches_simps(3) zero_le)
  have e: "fst (peek b (length b) s []) = length b \<longleftrightarrow> tokens (drop s b) = []" if s: "s \<le> length b" for s
  proof -
    let ?q = "skip b (length b) s"
    have d: "drop ?q b = dropWhile (\<lambda>c. c \<in> set whitespace) (drop s b)" "?q \<le> length b" using skip_drop [OF s] by blast+
    have "?q = length b \<longleftrightarrow> drop ?q b = []" using d(2) by auto
    also have "\<dots> \<longleftrightarrow> tokens (drop ?q b) = []"
    proof (cases "drop ?q b")
      case (Cons x r)
      then have "x \<notin> set whitespace" using d(1) by (metis dropWhile_eq_Cons_conv)
      then show ?thesis using Cons by simp
    qed simp
    finally show ?thesis by (simp add: peek_def Let_def d(1) tokens_skip)
  qed
  show ?thesis
  proof
    assume "parsecmd b = okay (c, b')"
    then obtain d s where d: "parseline (4 * length b + 4) b (length b) 0 = okay (d, s)"
      "(if fst (peek b (length b) s []) \<noteq> length b then Some (Inl [''leftovers: '' @ drop (fst (peek b (length b) s [])) b, ''syntax''])
        else okay (d, nulterminate d b)) = okay (c, b')"
      unfolding parsecmd_def strlen_line [OF assms] Let_def by (auto simp: pbind_done case_prod_unfold cong: if_cong)
    then show "\<exists>s. parseline (4 * length b + 4) b (length b) 0 = okay (c, s) \<and> tokens (drop s b) = [] \<and> b' = nulterminate c b"
      using e [OF m [OF d(1)]] by (intro exI [of _ s]) (auto split: if_splits)
  next
    assume "\<exists>s. parseline (4 * length b + 4) b (length b) 0 = okay (c, s) \<and> tokens (drop s b) = [] \<and> b' = nulterminate c b"
    then obtain s where d: "parseline (4 * length b + 4) b (length b) 0 = okay (c, s)" "tokens (drop s b) = []" "b' = nulterminate c b"
      by blast
    then show "parsecmd b = okay (c, b')"
      using e [OF m [OF d(1)]] unfolding parsecmd_def strlen_line [OF assms] Let_def by (simp add: case_prod_unfold)
  qed
qed

text \<open>What the parser may complain of; the message of \<^verbatim>\<open>parseblock\<close> is not among them.\<close>

definition parse_errors :: "string list" where
  "parse_errors = [''missing file for redirection'', ''syntax'', ''too many args'', ''syntax - missing )'']"

text \<open>Its last complaint comes with what follows a line of the grammar.\<close>

definition complains :: "string \<Rightarrow> string list \<Rightarrow> bool" where
  "complains b ms \<longleftrightarrow> (\<exists>e \<in> set parse_errors. ms = [e]) \<or>
     (\<exists>u r x. b = u @ r \<and> tokens r \<noteq> [] \<and> line_ok x \<and> tokens b = line_toks x @ tokens r \<and>
        ms = [''leftovers: '' @ r, ''syntax''])"

lemma pbind_panic: "pbind m f = Some (Inl e) \<longleftrightarrow> m = Some (Inl e) \<or> (\<exists>a. m = okay a \<and> f a = Some (Inl e))"
  by (auto simp: pbind_def split: option.splits sum.splits)

lemma tredirs_panic: "tredirs n c ts = panic e \<Longrightarrow> e \<in> set parse_errors"
  by (induction n arbitrary: c ts) (auto simp: parse_errors_def split: if_splits list.splits token.splits)

lemma targs_panic: "targs n k c ts = panic e \<Longrightarrow> e \<in> set parse_errors"
proof (induction n arbitrary: k c ts)
  case (Suc n)
  have "e \<in> set parse_errors" if "pbind (tredirs n d r) (\<lambda>(c, ts). targs n (k + 1) c ts) = panic e" for d r
    using that Suc.IH tredirs_panic by (auto simp: pbind_panic)
  then show ?case using Suc.prems by (auto simp: parse_errors_def split: if_splits list.splits token.splits)
qed simp

lemma tbacks_panic: "tbacks n c ts \<noteq> panic e"
  by (induction n arbitrary: c ts) auto

lemma tparse_panic:
  "(\<forall>ts. tline n ts = panic e \<longrightarrow> e \<in> set parse_errors) \<and> (\<forall>ts. tpipe n ts = panic e \<longrightarrow> e \<in> set parse_errors) \<and>
   (\<forall>ts. begins ''('' ts \<longrightarrow> tblock n ts = panic e \<longrightarrow> e \<in> set parse_errors) \<and> (\<forall>ts. texec n ts = panic e \<longrightarrow> e \<in> set parse_errors)"
proof (induction n)
  case (Suc n)
  have "tblock (Suc n) ts = panic e \<Longrightarrow> begins ''('' ts \<Longrightarrow> e \<in> set parse_errors" for ts
    using Suc.IH tredirs_panic [of n _ _ e] by (auto simp: pbind_panic split: if_splits) (simp add: parse_errors_def)
  moreover have "tline (Suc n) ts = panic e \<Longrightarrow> e \<in> set parse_errors" for ts
    using Suc.IH tbacks_panic [of n _ _ e] by (auto simp: pbind_panic split: if_splits)
  moreover have "tpipe (Suc n) ts = panic e \<Longrightarrow> e \<in> set parse_errors" for ts
    using Suc.IH by (auto simp: pbind_panic split: if_splits)
  moreover have "texec (Suc n) ts = panic e \<Longrightarrow> e \<in> set parse_errors" for ts
    using Suc.IH tredirs_panic [of n _ _ e] targs_panic [of n _ _ _ e] by (auto simp: pbind_panic split: if_splits)
  ultimately show ?case by blast
qed simp

text \<open>A panic of the recursion prints one line.\<close>

lemma tredirs_single: "tredirs n c ts = Some (Inl ms) \<Longrightarrow> \<exists>e. ms = [e]"
  by (induction n arbitrary: c ts) (auto split: if_splits list.splits token.splits)

lemma targs_single: "targs n k c ts = Some (Inl ms) \<Longrightarrow> \<exists>e. ms = [e]"
proof (induction n arbitrary: k c ts)
  case (Suc n)
  have "\<exists>e. ms = [e]" if "pbind (tredirs n d r) (\<lambda>(c, ts). targs n (k + 1) c ts) = Some (Inl ms)" for d r
    using that Suc.IH tredirs_single by (auto simp: pbind_panic)
  then show ?case using Suc.prems by (auto split: if_splits list.splits token.splits)
qed simp

lemma tbacks_single: "tbacks n c ts \<noteq> Some (Inl ms)"
  by (induction n arbitrary: c ts) auto

lemma tparse_single:
  "(\<forall>ts. tline n ts = Some (Inl ms) \<longrightarrow> (\<exists>e. ms = [e])) \<and> (\<forall>ts. tpipe n ts = Some (Inl ms) \<longrightarrow> (\<exists>e. ms = [e])) \<and>
   (\<forall>ts. tblock n ts = Some (Inl ms) \<longrightarrow> (\<exists>e. ms = [e])) \<and> (\<forall>ts. texec n ts = Some (Inl ms) \<longrightarrow> (\<exists>e. ms = [e]))"
proof (induction n)
  case (Suc n)
  have "tblock (Suc n) ts = Some (Inl ms) \<Longrightarrow> \<exists>e. ms = [e]" for ts
    using Suc.IH tredirs_single [of n _ _ ms] by (auto simp: pbind_panic split: if_splits)
  moreover have "tline (Suc n) ts = Some (Inl ms) \<Longrightarrow> \<exists>e. ms = [e]" for ts
    using Suc.IH tbacks_single [of n _ _ ms] by (auto simp: pbind_panic split: if_splits)
  moreover have "tpipe (Suc n) ts = Some (Inl ms) \<Longrightarrow> \<exists>e. ms = [e]" for ts
    using Suc.IH by (auto simp: pbind_panic split: if_splits)
  moreover have "texec (Suc n) ts = Some (Inl ms) \<Longrightarrow> \<exists>e. ms = [e]" for ts
    using Suc.IH tredirs_single [of n _ _ ms] targs_single [of n _ _ _ ms] by (auto simp: pbind_panic split: if_splits)
  ultimately show ?case by blast
qed simp

lemma tline_sound: "tline n ts = okay (c, r) \<Longrightarrow> \<exists>x. line_ok x \<and> ts = line_toks x @ r \<and> c = line_cmd x"
  using tparse_sound [of n] by blast

lemma length_tokens: "length (tokens b) \<le> length b"
proof (induction b rule: tokens.induct)
  case (2 c s)
  have "length (dropWhile word_char s) \<le> length s" by (rule length_dropWhile_le)
  then show ?case using 2 by (auto intro: le_trans)
qed simp

lemma parsecmd_accepts:
  assumes "NUL \<notin> set b"
  shows "parsecmd b = okay (c, b') \<longrightarrow> good_cmd b c \<and> strings b' c = words b c \<and> b' = nulterminate c b \<and>
       (\<exists>x. line_ok x \<and> line_toks x = tokens b \<and> line_cmd x = words b c)"
    "line_ok x \<and> line_toks x = tokens b \<longrightarrow> (\<exists>c. parsecmd b = okay (c, nulterminate c b) \<and> words b c = line_cmd x)"
    "parsecmd b \<noteq> None"
proof -
  let ?n = "4 * length b + 4"
  have pm: "matches b (parseline ?n b (length b) 0) (tline ?n (tokens b))"
    using parse_matches [OF assms, of ?n] by (metis drop0 zero_le)
  have tl: "length (tokens b) \<le> length b" by (rule length_tokens)
  show "parsecmd b = okay (c, b') \<longrightarrow> good_cmd b c \<and> strings b' c = words b c \<and> b' = nulterminate c b \<and>
       (\<exists>x. line_ok x \<and> line_toks x = tokens b \<and> line_cmd x = words b c)"
  proof
    assume "parsecmd b = okay (c, b')"
    then obtain s where s: "parseline ?n b (length b) 0 = okay (c, s)" "tokens (drop s b) = []" "b' = nulterminate c b"
      using parsecmd_tokens [OF assms] by blast
    then have g: "good_cmd b c" "tline ?n (tokens b) = okay (words b c, [])" using pm by simp_all
    then obtain x where "line_ok x \<and> line_toks x = tokens b \<and> line_cmd x = words b c"
      using tline_sound [OF g(2)] by auto
    then show "good_cmd b c \<and> strings b' c = words b c \<and> b' = nulterminate c b \<and>
       (\<exists>x. line_ok x \<and> line_toks x = tokens b \<and> line_cmd x = words b c)"
      using nulterminate_strings [OF assms g(1)] s(3) g(1) by blast
  qed
  show "line_ok x \<and> line_toks x = tokens b \<longrightarrow> (\<exists>c. parsecmd b = okay (c, nulterminate c b) \<and> words b c = line_cmd x)"
  proof
    assume x: "line_ok x \<and> line_toks x = tokens b"
    then have "tline ?n (line_toks x @ []) = okay (line_cmd x, [])"
      using tl by (intro tparse_complete(1)) simp_all
    then obtain c s where "parseline ?n b (length b) 0 = okay (c, s)" "words b c = line_cmd x" "tokens (drop s b) = []"
      using pm x by (auto simp: matches_def split: option.splits sum.splits)
    then show "\<exists>c. parsecmd b = okay (c, nulterminate c b) \<and> words b c = line_cmd x" using parsecmd_tokens [OF assms] by blast
  qed
  have "tline ?n (tokens b) \<noteq> None" using tparse_total [of ?n] tl by simp
  then have "parseline ?n b (length b) 0 \<noteq> None" using pm by (cases "parseline ?n b (length b) 0 = None") auto
  then show "parsecmd b \<noteq> None"
    unfolding parsecmd_def strlen_line [OF assms] Let_def by (simp add: pbind_None case_prod_unfold del: not_None_eq)
qed

lemma parsecmd_panics:
  assumes "NUL \<notin> set b" and "parsecmd b = Some (Inl ms)"
  shows "complains b ms"
proof -
  let ?n = "4 * length b + 4"
  have pm: "matches b (parseline ?n b (length b) 0) (tline ?n (tokens b))"
    using parse_matches [OF assms(1), of ?n] by (metis drop0 zero_le)
  consider "parseline ?n b (length b) 0 = Some (Inl ms)"
    | c s where "parseline ?n b (length b) 0 = okay (c, s)" "fst (peek b (length b) s []) \<noteq> length b"
        "ms = [''leftovers: '' @ drop (fst (peek b (length b) s [])) b, ''syntax'']"
    using assms(2) unfolding parsecmd_def strlen_line [OF assms(1)] Let_def
    by (auto simp: pbind_panic case_prod_unfold split: if_splits)
  then show ?thesis
  proof cases
    case 1
    then have t: "tline ?n (tokens b) = Some (Inl ms)" using pm by simp
    then obtain e where "ms = [e]" using tparse_single [of ?n ms] by blast
    then show ?thesis using t tparse_panic [of ?n e] by (auto simp: complains_def)
  next
    case (2 c s)
    let ?q = "skip b (length b) s"
    have s: "s \<le> length b" "tline ?n (tokens b) = okay (words b c, tokens (drop s b))" using pm 2(1) by simp_all
    then obtain x where x: "line_ok x" "tokens b = line_toks x @ tokens (drop s b)" using tline_sound by metis
    have d: "drop ?q b = dropWhile (\<lambda>c. c \<in> set whitespace) (drop s b)" "?q \<le> length b" using skip_drop [OF s(1)] by blast+
    have q: "fst (peek b (length b) s []) = ?q" by (simp add: peek_def Let_def)
    have t: "tokens (drop ?q b) = tokens (drop s b)" by (simp only: d(1) tokens_skip)
    have "drop ?q b \<noteq> []" using 2(2) q d(2) by simp
    then obtain y r where y: "drop ?q b = y # r" by (cases "drop ?q b") auto
    then have "y \<notin> set whitespace" using d(1) by (metis dropWhile_eq_Cons_conv)
    then have "tokens (drop ?q b) \<noteq> []" using y by simp
    moreover have "b = take ?q b @ drop ?q b" by simp
    ultimately show ?thesis using x t 2(3) q unfolding complains_def by metis
  qed
qed

text \<open>The types of the nodes that the rest of the shell relies on.\<close>

primrec cmd_ok :: "'w cmd \<Rightarrow> bool" where
  "cmd_ok (EXEC ws) \<longleftrightarrow> length ws < MAXARGS"
| "cmd_ok (REDIR c f m d) \<longleftrightarrow>
     cmd_ok c \<and> (m, d) \<in> {(O_RDONLY, 0), (O_WRONLY + O_CREATE + O_TRUNC, 1), (O_WRONLY + O_CREATE, 1)}"
| "cmd_ok (PIPE l r) \<longleftrightarrow> cmd_ok l \<and> cmd_ok r"
| "cmd_ok (LIST l r) \<longleftrightarrow> cmd_ok l \<and> cmd_ok r"
| "cmd_ok (BACK c) \<longleftrightarrow> cmd_ok c"

lemma cmd_ok_map: "cmd_ok (map_cmd f c) \<longleftrightarrow> cmd_ok c"
  by (induction c) auto

lemma cmd_ok_red: "cmd_ok c \<Longrightarrow> red_ok r \<Longrightarrow> cmd_ok (add_red c r)"
  by (auto simp: add_red_def redirect_def red_ok_def)

lemma cmd_ok_reds: "cmd_ok c \<Longrightarrow> list_all red_ok rs \<Longrightarrow> cmd_ok (foldl add_red c rs)"
  by (induction rs arbitrary: c) (auto simp: cmd_ok_red)

text \<open>The arguments of the command at the end of a chain of redirections.\<close>

primrec base_args :: "'w cmd \<Rightarrow> nat" where
  "base_args (EXEC ws) = length ws"
| "base_args (REDIR c f m d) = base_args c"
| "base_args (PIPE l r) = 0"
| "base_args (LIST l r) = 0"
| "base_args (BACK c) = 0"

lemma cmd_ok_arg: "cmd_ok c \<Longrightarrow> base_args c + 1 < MAXARGS \<Longrightarrow> cmd_ok (add_arg w c) \<and> base_args (add_arg w c) \<le> base_args c + 1"
  by (induction c) auto

lemma base_args_red: "base_args (add_red c r) = base_args c"
  by (simp add: add_red_def redirect_def)

lemma cmd_ok_items:
  "cmd_ok c \<Longrightarrow> base_args c + nargs xs < MAXARGS \<Longrightarrow> list_all item_ok xs \<Longrightarrow> cmd_ok (foldl (\<lambda>c x. add_item x c) c xs)"
proof (induction xs arbitrary: c)
  case (Cons x xs)
  show ?case
  proof (cases x)
    case (Arg w)
    then have "cmd_ok (add_arg w c) \<and> base_args (add_arg w c) \<le> base_args c + 1" using Cons.prems by (intro cmd_ok_arg) (simp_all add: nargs_def)
    then show ?thesis using Cons Arg by (simp add: nargs_def)
  next
    case (Red r)
    then show ?thesis using Cons by (simp add: nargs_def cmd_ok_red base_args_red)
  qed
qed simp

lemma line_cmd_ok:
  "line_ok l \<Longrightarrow> cmd_ok (line_cmd l)" "pipe_ok p \<Longrightarrow> cmd_ok (pipe_cmd p)" "exec_ok e \<Longrightarrow> cmd_ok (exec_cmd e)"
proof -
  have b: "cmd_ok ((BACK ^^ k) c) \<longleftrightarrow> cmd_ok c" for k and c :: "string cmd" by (induction k) auto
  show "line_ok l \<Longrightarrow> cmd_ok (line_cmd l)" "pipe_ok p \<Longrightarrow> cmd_ok (pipe_cmd p)" "exec_ok e \<Longrightarrow> cmd_ok (exec_cmd e)"
    by (induction l and p and e) (auto simp: b cmd_ok_reds MAXARGS_def intro!: cmd_ok_items)
qed

section \<open>Properties\<close>

text \<open>C17: The parser of the xv6 shell never hangs: on every line it builds a command, or stops with one of four messages (the
  panic of \<^verbatim>\<open>parseblock\<close> itself cannot happen), or, when something other than blanks follows a line of the grammar,
  prints these leftovers and stops with the message \<^verbatim>\<open>syntax\<close>.\<close>

theorem parsecmd_total:
  assumes "NUL \<notin> set b"
  shows "(\<exists>c b'. parsecmd b = okay (c, b')) \<or> (\<exists>ms. complains b ms \<and> parsecmd b = Some (Inl ms))"
proof -
  obtain r where "parsecmd b = Some r" using parsecmd_accepts(3) [OF assms] by blast
  then show ?thesis using parsecmd_panics [OF assms] by (cases r) auto
qed

text \<open>C15: The parser accepts exactly the lines of the grammar: lists of pipelines, each possibly in the background, of commands or
  of parenthesised lists, with redirections anywhere, at most nine arguments each. The command that it returns, with its
  words read as C strings in the line after the NULs have been written, is the one that the grammar gives the line.\<close>

theorem parsecmd_language:
  assumes "NUL \<notin> set b"
  shows "(\<exists>c b'. parsecmd b = okay (c, b') \<and> strings b' c = t) \<longleftrightarrow> (\<exists>x. line_ok x \<and> line_toks x = tokens b \<and> line_cmd x = t)"
proof
  assume "\<exists>c b'. parsecmd b = okay (c, b') \<and> strings b' c = t"
  then show "\<exists>x. line_ok x \<and> line_toks x = tokens b \<and> line_cmd x = t" using parsecmd_accepts(1) [OF assms] by metis
next
  assume "\<exists>x. line_ok x \<and> line_toks x = tokens b \<and> line_cmd x = t"
  then obtain x where x: "line_ok x" "line_toks x = tokens b" "line_cmd x = t" by blast
  then obtain c where "parsecmd b = okay (c, nulterminate c b)" "words b c = t" using parsecmd_accepts(2) [OF assms] by blast
  then show "\<exists>c b'. parsecmd b = okay (c, b') \<and> strings b' c = t" using parsecmd_accepts(1) [OF assms] by metis
qed

text \<open>C18: Whatever the parser returns is well typed: every simple command has room for its terminating null argument, every
  redirection is to descriptor 0 or 1 in one of the three modes, and every word is a non-empty stretch of the line
  without blanks or symbols, ended by a NUL that cuts no other word.\<close>

theorem parsecmd_typed:
  assumes "NUL \<notin> set b" and "parsecmd b = okay (c, b')"
  shows "cmd_ok c \<and> length b' = length b \<and>
     (\<forall>w \<in> set_cmd c. fst w < snd w \<and> snd w \<le> length b \<and> char_at b' (snd w) = NUL \<and>
        c_string b' (fst w) = take (snd w - fst w) (drop (fst w) b) \<and> list_all word_char (c_string b' (fst w)))"
proof -
  note a = parsecmd_accepts(1) [OF assms(1), rule_format, OF assms(2)]
  have g: "good_cmd b c" and b': "b' = nulterminate c b" using a by blast+
  have "cmd_ok c" using a line_cmd_ok(1) cmd_ok_map by metis
  moreover have "fst w < snd w \<and> snd w \<le> length b \<and> char_at b' (snd w) = NUL \<and>
        c_string b' (fst w) = take (snd w - fst w) (drop (fst w) b) \<and> list_all word_char (c_string b' (fst w))"
    if w: "w \<in> set_cmd c" for w
  proof -
    have v: "fst w < snd w" "snd w \<le> length b" "\<And>i. fst w \<le> i \<Longrightarrow> i < snd w \<Longrightarrow> word_char (b ! i)"
      using g w by (auto simp: good_cmd_def good_def)
    have s: "c_string b' (fst w) = take (snd w - fst w) (drop (fst w) b)"
      using nulterminate_string [OF assms(1) g w] by (simp add: b' txt_at_def)
    have "char_at b' (snd w) = NUL" using nulterminate_nth [of c b] w b' by (auto simp: char_at_def)
    moreover have "list_all word_char (take (snd w - fst w) (drop (fst w) b))" using v by (auto simp: list_all_length)
    ultimately show ?thesis using v(1,2) s by simp
  qed
  moreover have "length b' = length b" by (simp add: b')
  ultimately show ?thesis by blast
qed

theorem parsecmd_total_witness:
  "\<exists>ms. complains ''ls) -l'' ms \<and> parsecmd ''ls) -l'' = Some (Inl ms) \<and> ms = [''leftovers: ) -l'', ''syntax'']"
proof -
  have "NUL \<notin> set ''ls) -l''" by simp
  moreover have "parsecmd ''ls) -l'' = Some (Inl [''leftovers: ) -l'', ''syntax''])" by code_simp
  ultimately show ?thesis using parsecmd_total [of "''ls) -l''"] by auto
qed

theorem parsecmd_language_witness:
  "\<exists>c b'. parsecmd ''ls<in -l | (wc;a&)>>out'' = okay (c, b') \<and>
     strings b' c = PIPE (REDIR (EXEC [''ls'', ''-l'']) ''in'' O_RDONLY 0)
       (REDIR (LIST (EXEC [''wc'']) (BACK (EXEC [''a'']))) ''out'' (O_WRONLY + O_CREATE) 1)"
proof -
  let ?x = "Last (Piped (Simple [Arg ''ls'', Red (CHR ''<'', ''in''), Arg ''-l''])
     (Only (Block (Seq (Only (Simple [Arg ''wc''])) 0 (Last (Only (Simple [Arg ''a''])) 1)) [(CHR ''+'', ''out'')]))) 0"
  have "tokens ''ls<in -l | (wc;a&)>>out'' = line_toks ?x" by code_simp
  moreover have "line_ok ?x" by (simp add: red_ok_def nargs_def MAXARGS_def)
  moreover have "line_cmd ?x = PIPE (REDIR (EXEC [''ls'', ''-l'']) ''in'' O_RDONLY 0)
       (REDIR (LIST (EXEC [''wc'']) (BACK (EXEC [''a'']))) ''out'' (O_WRONLY + O_CREATE) 1)"
    by (simp add: redirect_def)
  moreover have "NUL \<notin> set ''ls<in -l | (wc;a&)>>out''" by simp
  ultimately show ?thesis using parsecmd_language [of "''ls<in -l | (wc;a&)>>out''"] by metis
qed

theorem parsecmd_typed_witness:
  "\<exists>c b'. parsecmd ''a bc<f'' = okay (c, b') \<and> cmd_ok c \<and> set_cmd c = {(0, 1), (2, 4), (5, 6)} \<and> c_string b' 2 = ''bc''"
proof -
  let ?b = "[CHR ''a'', NUL, CHR ''b'', CHR ''c'', NUL, CHR ''f'']"
  have p: "parsecmd ''a bc<f'' = okay (REDIR (EXEC [(0, 1), (2, 4)]) (5, 6) O_RDONLY 0, ?b)" by code_simp
  have "NUL \<notin> set ''a bc<f''" by simp
  note parsecmd_typed [OF this p]
  then show ?thesis using p by (intro exI [of _ "REDIR (EXEC [(0, 1), (2, 4)]) (5, 6) O_RDONLY 0"] exI [of _ ?b]) auto
qed

end
