(* ===== verification/Shrun.thy ===== *)
theory Shrun
  imports Shgrammar
begin

text \<open>
  What the xv6 shell does with a command, \<^verbatim>\<open>runcmd\<close> and \<^verbatim>\<open>main\<close> of \<^verbatim>\<open>src/lab2/user/sh.c\<close>.  A process is the list of what it
  does; a child is an element of its parent's list.  Which calls succeed is the record \<open>senv\<close>: the calls of \<^verbatim>\<open>fork\<close> and
  \<^verbatim>\<open>pipe\<close> are numbered, and the number of a \<^verbatim>\<open>pipe\<close> call names its pipe.
\<close>

section \<open>Processes and descriptors\<close>

datatype obj = Console | File string int | Pipe_r nat | Pipe_w nat

type_synonym fdtab = "nat \<Rightarrow> obj option"

datatype step =
    Spawn "step list"
  | Waits
  | Runs "string list" fdtab
  | Says string "obj option"
  | Chdir string
  | Exits int

record senv =
  forks :: "nat \<Rightarrow> bool"
  pipes_up :: "nat \<Rightarrow> bool"
  opens :: "string \<Rightarrow> int \<Rightarrow> bool"
  execs :: "string \<Rightarrow> bool"
  dirs :: "string \<Rightarrow> bool"

definition NOFILE :: nat where "NOFILE = 16"
definition O_RDWR :: int where "O_RDWR = 0x002"

text \<open>The kernel hands out the lowest free descriptor.\<close>

definition lowest :: "fdtab \<Rightarrow> nat option" where
  "lowest f = find (\<lambda>n. f n = None) [0..<NOFILE]"

definition sys_open :: "senv \<Rightarrow> string \<Rightarrow> int \<Rightarrow> obj \<Rightarrow> fdtab \<Rightarrow> (nat \<times> fdtab) option" where
  "sys_open E name mode x f =
     (if \<not> opens E name mode then None else map_option (\<lambda>n. (n, f(n := Some x))) (lowest f))"

definition sys_dup :: "nat \<Rightarrow> fdtab \<Rightarrow> fdtab" where
  "sys_dup fd f =
     (case f fd of None \<Rightarrow> f | Some x \<Rightarrow> (case lowest f of None \<Rightarrow> f | Some n \<Rightarrow> f(n := Some x)))"

definition sys_close :: "nat \<Rightarrow> fdtab \<Rightarrow> fdtab" where "sys_close fd f = f(fd := None)"

definition sys_pipe :: "senv \<Rightarrow> nat \<Rightarrow> fdtab \<Rightarrow> (nat \<times> nat \<times> fdtab) option" where
  "sys_pipe E n f =
     (if \<not> pipes_up E n then None
      else
        (case lowest f of
           None \<Rightarrow> None
         | Some r \<Rightarrow>
             (let g = f(r := Some (Pipe_r n)) in
              case lowest g of None \<Rightarrow> None | Some w \<Rightarrow> Some (r, w, g(w := Some (Pipe_w n))))))"

section \<open>runcmd\<close>

text \<open>\<^verbatim>\<open>panic\<close> and the messages go to descriptor 2; the lines before its own were printed on the way to it.\<close>

definition panics :: "string list \<Rightarrow> fdtab \<Rightarrow> step list" where
  "panics ms f = map (\<lambda>m. Says (m @ [CHR 0x0A]) (f 2)) ms @ [Exits 1]"

text \<open>The second argument is the process's table, the third the number of the next call; the answer has the number after the
  calls made.\<close>

primrec runcmd :: "senv \<Rightarrow> string cmd \<Rightarrow> fdtab \<Rightarrow> nat \<Rightarrow> step list \<times> nat" where
  "runcmd E (EXEC ws) f n =
     (if ws = [] then ([Exits 1], n)
      else if execs E (hd ws) then ([Runs ws f], n)
      else ([Says (''exec '' @ hd ws @ '' failed'' @ [CHR 0x0A]) (f 2), Exits 0], n))"
| "runcmd E (REDIR c name mode fd) f n =
     (let f = sys_close fd f in
      case sys_open E name mode (File name mode) f of
        None \<Rightarrow> ([Says (''open '' @ name @ '' failed'' @ [CHR 0x0A]) (f 2), Exits 1], n)
      | Some (_, f) \<Rightarrow> runcmd E c f n)"
| "runcmd E (LIST l r) f n =
     (if \<not> forks E n then (panics [''fork''] f, n + 1)
      else
        (case runcmd E l f (n + 1) of
           (left, n) \<Rightarrow> (case runcmd E r f n of (right, n) \<Rightarrow> ([Spawn left, Waits] @ right, n))))"
| "runcmd E (PIPE l r) f n =
     (case sys_pipe E n f of
        None \<Rightarrow> (panics [''pipe''] f, n + 1)
      | Some (p0, p1, g) \<Rightarrow>
          let n = n + 1 in
          if \<not> forks E n then (panics [''fork''] g, n + 1)
          else
            (case runcmd E l (sys_close p1 (sys_close p0 (sys_dup p1 (sys_close 1 g)))) (n + 1) of
               (left, n) \<Rightarrow>
                 if \<not> forks E n then ([Spawn left] @ panics [''fork''] g, n + 1)
                 else
                   (case runcmd E r (sys_close p1 (sys_close p0 (sys_dup p0 (sys_close 0 g)))) (n + 1) of
                      (right, n) \<Rightarrow> ([Spawn left, Spawn right, Waits, Waits, Exits 0], n))))"
| "runcmd E (BACK c) f n =
     (if \<not> forks E n then (panics [''fork''] f, n + 1)
      else (case runcmd E c f (n + 1) of (child, n) \<Rightarrow> ([Spawn child, Exits 0], n)))"

section \<open>main\<close>

text \<open>\<^verbatim>\<open>gets(buf, nbuf)\<close> on what can still be read: up to \<open>nbuf - 1\<close> characters, to the end of the line.\<close>

fun read_line :: "nat \<Rightarrow> string \<Rightarrow> string \<times> string" where
  "read_line 0 xs = ([], xs)"
| "read_line (Suc k) [] = ([], [])"
| "read_line (Suc k) (c # xs) =
     (if c = CHR 0x0A \<or> c = CHR 0x0D then ([c], xs) else (case read_line k xs of (l, r) \<Rightarrow> (c # l, r)))"

definition getcmd :: "string \<Rightarrow> string \<times> string" where "getcmd xs = read_line 99 xs"

text \<open>The descriptors below 3 that are closed bound the loop.\<close>

primrec open_console :: "nat \<Rightarrow> senv \<Rightarrow> fdtab \<Rightarrow> fdtab" where
  "open_console 0 E f = f"
| "open_console (Suc k) E f =
     (case sys_open E ''console'' O_RDWR Console f of
        None \<Rightarrow> f
      | Some (fd, g) \<Rightarrow> if fd \<ge> 3 then sys_close fd g else open_console k E g)"

text \<open>What one line makes the shell do; a string in the buffer ends at the first NUL.  \<open>Inl\<close>: the shell itself has ended.\<close>

definition sh_line :: "senv \<Rightarrow> string \<Rightarrow> fdtab \<Rightarrow> nat \<Rightarrow> step list + step list \<times> nat" where
  "sh_line E buf f n =
     (let line = c_string buf 0 in
      if take 3 line = ''cd '' then
        (let dir = drop 3 (butlast line) in
         Inr (if dirs E dir then [Chdir dir] else [Says (''cannot cd '' @ dir @ [CHR 0x0A]) (f 2)], n))
      else if \<not> forks E n then Inl (panics [''fork''] f)
      else
        (case parsecmd line of
           None \<Rightarrow> Inl []
         | Some (Inl ms) \<Rightarrow> Inr ([Spawn (panics ms f), Waits], n + 1)
         | Some (Inr (c, b)) \<Rightarrow>
             (case runcmd E (strings b c) f (n + 1) of (child, n) \<Rightarrow> Inr ([Spawn child, Waits], n))))"

lemma read_line_append: "read_line k xs = (l, r) \<Longrightarrow> xs = l @ r"
  by (induction k xs arbitrary: l r rule: read_line.induct) (auto split: if_splits prod.splits)

function sh_loop :: "senv \<Rightarrow> string \<Rightarrow> fdtab \<Rightarrow> nat \<Rightarrow> step list" where
  "sh_loop E xs f n =
     Says ''$ '' (f 2) #
     (case getcmd xs of
        (buf, rest) \<Rightarrow>
          if c_string buf 0 = [] then [Exits 0]
          else
            (case sh_line E buf f n of
               Inl steps \<Rightarrow> steps
             | Inr (steps, n) \<Rightarrow> steps @ sh_loop E rest f n))"
  by pat_completeness auto
termination
proof (relation "measure (\<lambda>(E, xs, f, n). length xs)", goal_cases)
  case (2 E xs f n buf rest)
  then have "xs = buf @ rest" "buf \<noteq> []" using read_line_append [of 99 xs] by (auto simp: getcmd_def c_string_def)
  then show ?case by (cases buf) auto
qed simp

declare sh_loop.simps [simp del]

definition sh_main :: "senv \<Rightarrow> string \<Rightarrow> fdtab \<Rightarrow> step list" where
  "sh_main E xs f = sh_loop E xs (open_console 4 E f) 0"

section \<open>What a command means\<close>

text \<open>The programs that a command runs, each with its descriptors, when nothing fails: no descriptor of a pipe is left over.\<close>

primrec calls_of :: "string cmd \<Rightarrow> nat" where
  "calls_of (EXEC ws) = 0"
| "calls_of (REDIR c name mode fd) = calls_of c"
| "calls_of (LIST l r) = 1 + calls_of l + calls_of r"
| "calls_of (PIPE l r) = 3 + calls_of l + calls_of r"
| "calls_of (BACK c) = 1 + calls_of c"

primrec plumb :: "string cmd \<Rightarrow> fdtab \<Rightarrow> nat \<Rightarrow> step list" where
  "plumb (EXEC ws) f n = (if ws = [] then [Exits 1] else [Runs ws f])"
| "plumb (REDIR c name mode fd) f n = plumb c (f(fd := Some (File name mode))) n"
| "plumb (LIST l r) f n = [Spawn (plumb l f (n + 1)), Waits] @ plumb r f (n + 1 + calls_of l)"
| "plumb (PIPE l r) f n =
     [Spawn (plumb l (f(1 := Some (Pipe_w n))) (n + 2)),
      Spawn (plumb r (f(0 := Some (Pipe_r n))) (n + 3 + calls_of l)), Waits, Waits, Exits 0]"
| "plumb (BACK c) f n = [Spawn (plumb c f (n + 1)), Exits 0]"

text \<open>Nothing fails, and there is room for a pipe.\<close>

definition all_well :: "senv \<Rightarrow> bool" where
  "all_well E \<longleftrightarrow> (\<forall>n. forks E n) \<and> (\<forall>n. pipes_up E n) \<and> (\<forall>name mode. opens E name mode) \<and> (\<forall>w. execs E w)"

definition roomy :: "fdtab \<Rightarrow> bool" where
  "roomy f \<longleftrightarrow> f 0 \<noteq> None \<and> f 1 \<noteq> None \<and> (\<exists>a b. a \<noteq> b \<and> a < NOFILE \<and> b < NOFILE \<and> f a = None \<and> f b = None)"

lemma roomy_upd: "roomy f \<Longrightarrow> d \<in> {0, 1} \<Longrightarrow> roomy (f(d := Some x))"
proof -
  assume a: "roomy f" "d \<in> {0, 1}"
  then obtain a b where "a \<noteq> b" "a < NOFILE" "b < NOFILE" "f a = None" "f b = None" "f 0 \<noteq> None" "f 1 \<noteq> None"
    unfolding roomy_def by blast
  then show ?thesis using a(2) unfolding roomy_def by (intro conjI exI [of _ a] exI [of _ b]) auto
qed

lemma lowest_Some: "lowest f = Some r \<longleftrightarrow> r < NOFILE \<and> f r = None \<and> (\<forall>i < r. f i \<noteq> None)"
  unfolding lowest_def find_Some_iff by (auto simp: nth_upt)

lemma lowest_ex: "a < NOFILE \<Longrightarrow> f a = None \<Longrightarrow> \<exists>r. lowest f = Some r"
  unfolding lowest_def by (cases "find (\<lambda>n. f n = None) [0..<NOFILE]") (auto simp: find_None_iff)

lemma std_lowest: "f 0 \<noteq> None \<Longrightarrow> lowest (f(1 := None)) = Some 1" "lowest (f(0 := None)) = Some 0"
  by (simp_all add: lowest_Some NOFILE_def)

lemma roomy_pipe:
  assumes "roomy f" and "pipes_up E n"
  shows "\<exists>r w. sys_pipe E n f = Some (r, w, f(r := Some (Pipe_r n), w := Some (Pipe_w n))) \<and> r \<noteq> w \<and> 2 \<le> r \<and> 2 \<le> w \<and> f r = None \<and> f w = None"
proof -
  obtain a b where ab: "a \<noteq> b" "a < NOFILE" "b < NOFILE" "f a = None" "f b = None" and f: "f 0 \<noteq> None" "f 1 \<noteq> None"
    using assms(1) unfolding roomy_def by blast
  obtain r where r: "lowest f = Some r" using lowest_ex [of a f] ab(2,4) by blast
  let ?g = "f(r := Some (Pipe_r n))"
  have "?g a = None \<or> ?g b = None" using ab by auto
  then obtain w where w: "lowest ?g = Some w" using lowest_ex [of a ?g] lowest_ex [of b ?g] ab(2,3) by blast
  have big: "2 \<le> x" if "f x = None" for x
  proof -
    have "x \<noteq> 0" "x \<noteq> 1" using f that by metis+
    then show ?thesis by simp
  qed
  have "f r = None" "f w = None" "r \<noteq> w" using r w by (auto simp: lowest_Some split: if_splits)
  moreover from this have "2 \<le> r" "2 \<le> w" using big by blast+
  ultimately show ?thesis using r w assms(2) by (simp add: sys_pipe_def Let_def)
qed

lemma runcmd_plumb:
  assumes "all_well E"
  shows "cmd_ok c \<Longrightarrow> roomy f \<Longrightarrow> runcmd E c f n = (plumb c f n, n + calls_of c)"
proof (induction c arbitrary: f n)
  case (EXEC ws)
  then show ?case using assms by (simp add: all_well_def)
next
  case (REDIR c name mode fd)
  have d: "fd \<in> {0, 1}" "cmd_ok c" using REDIR.prems(1) by auto
  then have "lowest (sys_close fd f) = Some fd" using REDIR.prems(2) std_lowest [of f] by (auto simp: sys_close_def roomy_def)
  then have "sys_open E name mode (File name mode) (sys_close fd f) = Some (fd, f(fd := Some (File name mode)))"
    using assms by (simp add: sys_open_def all_well_def sys_close_def)
  moreover have "runcmd E c (f(fd := Some (File name mode))) n = (plumb c (f(fd := Some (File name mode))) n, n + calls_of c)"
    by (rule REDIR.IH [OF d(2) roomy_upd [OF REDIR.prems(2) d(1)]])
  ultimately show ?case by (simp add: Let_def del: fun_upd_apply)
next
  case (PIPE l r)
  obtain p q where p: "sys_pipe E n f = Some (p, q, f(p := Some (Pipe_r n), q := Some (Pipe_w n)))" "p \<noteq> q" "2 \<le> p" "2 \<le> q"
    "f p = None" "f q = None"
    using roomy_pipe [OF PIPE.prems(2), of E n] assms by (auto simp: all_well_def)
  let ?g = "f(p := Some (Pipe_r n), q := Some (Pipe_w n))"
  have g: "?g 0 \<noteq> None" using PIPE.prems(2) p(3,4) by (simp add: roomy_def)
  have "sys_dup q (sys_close 1 ?g) = ?g(1 := Some (Pipe_w n))" using std_lowest(1) [of ?g] g p(2-4) by (simp add: sys_dup_def sys_close_def)
  then have left: "sys_close q (sys_close p (sys_dup q (sys_close 1 ?g))) = f(1 := Some (Pipe_w n))"
    using p by (auto simp: sys_close_def fun_eq_iff)
  have "sys_dup p (sys_close 0 ?g) = ?g(0 := Some (Pipe_r n))" using std_lowest(2) [of ?g] p(2-4) by (simp add: sys_dup_def sys_close_def)
  then have right: "sys_close q (sys_close p (sys_dup p (sys_close 0 ?g))) = f(0 := Some (Pipe_r n))"
    using p by (auto simp: sys_close_def fun_eq_iff)
  have "roomy (f(1 := Some (Pipe_w n)))" "roomy (f(0 := Some (Pipe_r n)))" using roomy_upd [OF PIPE.prems(2)] by simp_all
  then show ?case
    using PIPE.IH PIPE.prems(1) p(1) left right assms by (simp add: Let_def all_well_def numeral_3_eq_3 del: fun_upd_apply)
next
  case (LIST l r)
  then show ?case using assms by (simp add: all_well_def)
next
  case (BACK c)
  then show ?case using assms by (simp add: all_well_def)
qed

text \<open>C16: From the line to the processes: when no call fails, a line of the grammar makes the shell start, and wait for, one
  process that does what the line's command means: each program of it runs with exactly the shell's descriptors, but
  for its redirections and the ends of its pipes, and the order of starting and waiting is that of the command. A line
  outside the grammar starts a process that only complains and exits, and the shell goes on. A line that begins with \<^verbatim>\<open>cd\<close> and a
  blank is no command: whether or not it is of the grammar, the shell itself changes the directory to the rest of the line
  without its last character, or says that it cannot.\<close>

theorem sh_runs_line:
  assumes "all_well E" and "roomy f" and "NUL \<notin> set b"
  shows "(take 3 b \<noteq> ''cd '' \<longrightarrow>
       (\<forall>x. line_ok x \<and> line_toks x = tokens b \<longrightarrow>
         sh_line E b f n = Inr ([Spawn (plumb (line_cmd x) f (n + 1)), Waits], n + 1 + calls_of (line_cmd x))) \<and>
       ((\<nexists>x. line_ok x \<and> line_toks x = tokens b) \<longrightarrow>
         (\<exists>ms. complains b ms \<and> sh_line E b f n = Inr ([Spawn (panics ms f), Waits], n + 1)))) \<and>
     (take 3 b = ''cd '' \<longrightarrow>
       (let dir = drop 3 (butlast b) in
        sh_line E b f n = Inr (if dirs E dir then [Chdir dir] else [Says (''cannot cd '' @ dir @ [CHR 0x0A]) (f 2)], n)))"
proof (intro conjI impI allI)
  have c: "c_string b 0 = b" using assms(3) unfolding c_string_def drop0 takeWhile_eq_all_conv by blast
  assume cd: "take 3 b \<noteq> ''cd ''"
  fix x assume x: "line_ok x \<and> line_toks x = tokens b"
  then obtain c where p: "parsecmd b = okay (c, nulterminate c b)" "words b c = line_cmd x"
    using parsecmd_accepts(2) [OF assms(3)] by blast
  then have s: "strings (nulterminate c b) c = line_cmd x" using parsecmd_accepts(1) [OF assms(3)] by metis
  have "runcmd E (line_cmd x) f (n + 1) = (plumb (line_cmd x) f (n + 1), n + 1 + calls_of (line_cmd x))"
    using x by (intro runcmd_plumb [OF assms(1) _ assms(2)] line_cmd_ok(1)) simp
  then show "sh_line E b f n = Inr ([Spawn (plumb (line_cmd x) f (n + 1)), Waits], n + 1 + calls_of (line_cmd x))"
    using assms(1) cd by (simp add: sh_line_def c p(1) s all_well_def)
next
  have c: "c_string b 0 = b" using assms(3) unfolding c_string_def drop0 takeWhile_eq_all_conv by blast
  assume cd: "take 3 b \<noteq> ''cd ''" and n: "\<nexists>x. line_ok x \<and> line_toks x = tokens b"
  then have "parsecmd b \<noteq> okay (d, b')" for d b' using parsecmd_accepts(1) [OF assms(3)] by blast
  then obtain ms where "parsecmd b = Some (Inl ms)" using parsecmd_accepts(3) [OF assms(3)]
    by (metis not_None_eq old.sum.exhaust surj_pair)
  then show "\<exists>ms. complains b ms \<and> sh_line E b f n = Inr ([Spawn (panics ms f), Waits], n + 1)"
    using parsecmd_panics [OF assms(3)] assms(1) cd by (auto simp: sh_line_def c all_well_def)
next
  have c: "c_string b 0 = b" using assms(3) unfolding c_string_def drop0 takeWhile_eq_all_conv by blast
  assume cd: "take 3 b = ''cd ''"
  show "let dir = drop 3 (butlast b) in
        sh_line E b f n = Inr (if dirs E dir then [Chdir dir] else [Says (''cannot cd '' @ dir @ [CHR 0x0A]) (f 2)], n)"
    using cd by (simp add: sh_line_def c Let_def)
qed

theorem sh_runs_line_witness:
  "\<exists>E f. sh_line E (''cd up'' @ [CHR 0x0A]) f 0 = Inr ([Chdir ''up''], 0) \<and>
     sh_line E (''ls|wc'' @ [CHR 0x0A]) f 0 =
     Inr ([Spawn [Spawn [Runs [''ls''] (f(1 := Some (Pipe_w 1)))], Spawn [Runs [''wc''] (f(0 := Some (Pipe_r 1)))],
            Waits, Waits, Exits 0], Waits], 4)"
proof -
  let ?E = "\<lparr>forks = \<lambda>_. True, pipes_up = \<lambda>_. True, opens = \<lambda>_ _. True, execs = \<lambda>_. True, dirs = \<lambda>_. True\<rparr>"
  let ?f = "\<lambda>n. if n < 3 then Some Console else None" let ?b = "''ls|wc'' @ [CHR 0x0A]"
  let ?x = "Last (Piped (Simple [Arg ''ls'']) (Only (Simple [Arg ''wc'']))) 0"
  have "all_well ?E" by (simp add: all_well_def)
  moreover have "roomy ?f" unfolding roomy_def by (intro conjI exI [of _ 3] exI [of _ 4]) (simp_all add: NOFILE_def)
  moreover have "NUL \<notin> set ?b" "take 3 ?b \<noteq> ''cd ''" by simp_all
  moreover have "line_ok ?x \<and> line_toks ?x = tokens ?b" by code_simp
  ultimately have "sh_line ?E ?b ?f 0 = Inr ([Spawn (plumb (line_cmd ?x) ?f (0 + 1)), Waits], 0 + 1 + calls_of (line_cmd ?x))"
    using sh_runs_line [of ?E ?f ?b 0] by blast
  moreover have "sh_line ?E (''cd up'' @ [CHR 0x0A]) ?f 0 = Inr ([Chdir ''up''], 0)"
    using sh_runs_line [OF \<open>all_well ?E\<close> \<open>roomy ?f\<close>, of "''cd up'' @ [CHR 0x0A]" 0] by (simp add: Let_def)
  ultimately show ?thesis by (intro exI [of _ ?E] exI [of _ ?f]) simp
qed

end
