(* ===== verification/Sysproc.thy ===== *)
theory Sysproc
  imports Console Process
begin

text \<open>
  The arguments of system calls, the first part of \<^verbatim>\<open>src/lab2/kernel/syscall.c\<close>, and the system calls of
  \<^verbatim>\<open>sysproc.c\<close>.  A handler returns the word that goes to \<^verbatim>\<open>a0\<close>.  Buffers on the kernel stack start as zeros; what the
  code reads of them it has written before.
\<close>

section \<open>State\<close>

record sysst = consst +
  ticks :: u32

definition TF_a7 :: u64 where "TF_a7 = 168"

text \<open>\<^verbatim>\<open>struct proc *p = myproc()\<close>, which every handler dereferences.\<close>

definition as_proc :: "(nat \<Rightarrow> 'a procst_scheme \<Rightarrow> ('b, 'a procst_scheme) kr) \<Rightarrow> 'a procst_scheme \<Rightarrow> ('b, 'a procst_scheme) kr" where
  "as_proc f s = kbind (myproc s) (\<lambda>me s. case me of None \<Rightarrow> Fault ''myproc() is null'' | Some p \<Rightarrow> f p s)"

text \<open>An \<^verbatim>\<open>int\<close> returned as \<^verbatim>\<open>uint64\<close>.\<close>

definition ret_int :: "(u32, 's) kr \<Rightarrow> (u64, 's) kr" where
  "ret_int m = kbind m (\<lambda>r s. Ok (scast r) s)"

section \<open>syscall.c: fetching\<close>

text \<open>The answer is the result and \<^verbatim>\<open>*ip\<close>.\<close>

definition fetchaddr :: "u64 \<Rightarrow> 'a memst_scheme \<Rightarrow> (u32 \<times> u64, 'a memst_scheme) kr" where
  "fetchaddr addr s =
     as_proc (\<lambda>p s.
       if addr \<ge> sz (procs s p) \<or> addr + 8 > sz (procs s p) then Ok (- 1, 0) s
       else
         kbind (copyin (pagetable (procs s p)) (\<lambda>_. 0) addr 8 s) (\<lambda>(r, b) s.
           if r \<noteq> 0 then Ok (- 1, 0) s else Ok (0, ld64 b 0) s)) s"

text \<open>The answer is the result and the buffer, whose contents were \<open>buf\<close>.\<close>

definition fetchstr :: "u64 \<Rightarrow> bytes \<Rightarrow> u64 \<Rightarrow> 'a memst_scheme \<Rightarrow> (u32 \<times> bytes, 'a memst_scheme) kr" where
  "fetchstr addr buf limit s =
     as_proc (\<lambda>p s.
       kbind (copyinstr (pagetable (procs s p)) buf addr limit s) (\<lambda>(r, buf) s.
         if sint r < 0 then Ok (- 1, buf) s
         else (case Cstring.strlen 0 buf of None \<Rightarrow> Fault ''strlen: no end'' | Some n \<Rightarrow> Ok (of_nat n, buf) s))) s"

definition argraw :: "nat \<Rightarrow> 'a memst_scheme \<Rightarrow> (u64, 'a memst_scheme) kr" where
  "argraw n s =
     as_proc (\<lambda>p s.
       if n < 6 then Ok (rd64 (trapframe (procs s p) + TF_a0 + of_nat (8 * n)) s) s else Panic ''argraw'') s"

definition argint :: "nat \<Rightarrow> 'a memst_scheme \<Rightarrow> (u32, 'a memst_scheme) kr" where
  "argint n s = kbind (argraw n s) (\<lambda>v s. Ok (ucast v) s)"

definition argaddr :: "nat \<Rightarrow> 'a memst_scheme \<Rightarrow> (u64, 'a memst_scheme) kr" where
  "argaddr n s = argraw n s"

definition MAXPATH :: u64 where "MAXPATH = 128"

definition argstr :: "nat \<Rightarrow> u64 \<Rightarrow> 'a memst_scheme \<Rightarrow> (u32 \<times> bytes, 'a memst_scheme) kr" where
  "argstr n limit s = kbind (argaddr n s) (\<lambda>addr s. fetchstr addr (\<lambda>_. 0) limit s)"

text \<open>A path argument: the characters before the NUL, or \<open>None\<close> if \<^verbatim>\<open>argstr\<close> fails.\<close>

definition argpath :: "nat \<Rightarrow> 'a memst_scheme \<Rightarrow> (u8 list option, 'a memst_scheme) kr" where
  "argpath n s =
     kbind (argstr n MAXPATH s) (\<lambda>(r, buf) s. Ok (if sint r < 0 then None else Some (map buf [0..<unat r])) s)"

section \<open>sysproc.c\<close>

definition sys_exit :: "'a filest_scheme \<Rightarrow> (u64, 'a filest_scheme) kr" where
  "sys_exit s = kbind (argint 0 s) (\<lambda>n s. kthen (exit_proc n s) (\<lambda>s. Ok 0 s))"

definition sys_getpid :: "'a procst_scheme \<Rightarrow> (u64, 'a procst_scheme) kr" where
  "sys_getpid s = as_proc (\<lambda>p s. Ok (scast (pid (procs s p))) s) s"

definition sys_fork :: "'a filest_scheme \<Rightarrow> (u64, 'a filest_scheme) kr" where
  "sys_fork s = ret_int (fork s)"

definition sys_wait :: "'a memst_scheme \<Rightarrow> (u64, 'a memst_scheme) kr" where
  "sys_wait s = kbind (argaddr 0 s) (\<lambda>a s. ret_int (wait_proc a s))"

definition sys_sbrk :: "'a memst_scheme \<Rightarrow> (u64, 'a memst_scheme) kr" where
  "sys_sbrk s =
     kbind (argint 0 s) (\<lambda>n s.
     kbind (as_proc (\<lambda>p s. Ok (sz (procs s p)) s) s) (\<lambda>addr s.
     kbind (growproc n s) (\<lambda>r s. if sint r < 0 then Ok (- 1) s else Ok addr s)))"

text \<open>\<^verbatim>\<open>ticks - ticks0 < n\<close> compares unsigned numbers.\<close>

definition sys_sleep_loop :: "u32 \<Rightarrow> u32 \<Rightarrow> 'a sysst_scheme \<Rightarrow> (u64, 'a sysst_scheme) kr" where
  "sys_sleep_loop ticks0 n s =
     (if ticks s - ticks0 < n then
        as_proc (\<lambda>p s.
          kbind (killed p s) (\<lambda>k s.
            if k \<noteq> 0 then kthen (release L_ticks s) (\<lambda>s. Ok (- 1) s)
            else kthen (sleep Ch_ticks L_ticks s) (\<lambda>s. Fault ''sleep returned without a switch''))) s
      else kthen (release L_ticks s) (\<lambda>s. Ok 0 s))"

definition sys_sleep :: "'a sysst_scheme \<Rightarrow> (u64, 'a sysst_scheme) kr" where
  "sys_sleep s = kbind (argint 0 s) (\<lambda>n s. kthen (acquire L_ticks s) (\<lambda>s. sys_sleep_loop (ticks s) n s))"

definition sys_sleep_resume :: "nat \<Rightarrow> bool \<Rightarrow> u32 \<Rightarrow> u32 \<Rightarrow> 'a sysst_scheme \<Rightarrow> (u64, 'a sysst_scheme) kr" where
  "sys_sleep_resume p saved ticks0 n s = kthen (sleep_return p L_ticks saved s) (\<lambda>s. sys_sleep_loop ticks0 n s)"

definition sys_kill :: "'a memst_scheme \<Rightarrow> (u64, 'a memst_scheme) kr" where
  "sys_kill s = kbind (argint 0 s) (\<lambda>n s. ret_int (kill n s))"

definition sys_uptime :: "'a sysst_scheme \<Rightarrow> (u64, 'a sysst_scheme) kr" where
  "sys_uptime s =
     kthen (acquire L_ticks s) (\<lambda>s. let xticks = ticks s in kthen (release L_ticks s) (\<lambda>s. Ok (ucast xticks) s))"

definition sys_sem_open :: "'a memst_scheme \<Rightarrow> (u64, 'a memst_scheme) kr" where
  "sys_sem_open s = kbind (argint 0 s) (\<lambda>sem s. kbind (argint 1 s) (\<lambda>value s. ret_int (sem_open sem value s)))"

definition sys_sem_close :: "'a memst_scheme \<Rightarrow> (u64, 'a memst_scheme) kr" where
  "sys_sem_close s = kbind (argint 0 s) (\<lambda>sem s. ret_int (sem_close sem s))"

definition sys_sem_up :: "'a memst_scheme \<Rightarrow> (u64, 'a memst_scheme) kr" where
  "sys_sem_up s = kbind (argint 0 s) (\<lambda>sem s. ret_int (sem_up sem s))"

definition sys_sem_down :: "'a memst_scheme \<Rightarrow> (u64, 'a memst_scheme) kr" where
  "sys_sem_down s = kbind (argint 0 s) (\<lambda>sem s. ret_int (sem_down sem s))"

text \<open>\<^verbatim>\<open>clockintr\<close> of \<^verbatim>\<open>trap.c\<close>, which makes time pass.\<close>

definition clockintr :: "'a sysst_scheme \<Rightarrow> (unit, 'a sysst_scheme) kr" where
  "clockintr s =
     kthen (acquire L_ticks s) (\<lambda>s.
     kthen (wakeup Ch_ticks (s\<lparr>ticks := ticks s + 1\<rparr>)) (\<lambda>s. release L_ticks s))"

end
