(* ===== verification/Exec.thy ===== *)
theory Exec
  imports Sysproc
begin

text \<open>
  Loading a program, \<^verbatim>\<open>src/lab2/kernel/exec.c\<close>.  The ELF header and the program headers are read into a buffer
  from whose offsets the fields are taken.  The argument strings are in kernel memory: an argument is the address of the
  page that holds it, and the list ends where \<^verbatim>\<open>argv\<close> has its null pointer.
\<close>

section \<open>elf.h and param.h\<close>

definition ELF_MAGIC :: u32 where "ELF_MAGIC = 0x464C457F"
definition ELF_PROG_LOAD :: u32 where "ELF_PROG_LOAD = 1"
definition MAXARG :: nat where "MAXARG = 32"

record elfhdr =
  e_magic :: u32
  e_entry :: u64
  e_phoff :: u64
  e_phnum :: u16

definition elfhdr_of :: "bytes \<Rightarrow> elfhdr" where
  "elfhdr_of b = \<lparr>e_magic = ld32 b 0, e_entry = ld64 b 24, e_phoff = ld64 b 32, e_phnum = ld16 b 56\<rparr>"

definition ELF_SIZE :: u32 where "ELF_SIZE = 64"

record proghdr =
  ph_type :: u32
  ph_flags :: u32
  ph_off :: u64
  ph_vaddr :: u64
  ph_filesz :: u64
  ph_memsz :: u64

definition proghdr_of :: "bytes \<Rightarrow> proghdr" where
  "proghdr_of b = \<lparr>ph_type = ld32 b 0, ph_flags = ld32 b 4, ph_off = ld64 b 8, ph_vaddr = ld64 b 16,
     ph_filesz = ld64 b 32, ph_memsz = ld64 b 40\<rparr>"

definition PH_SIZE :: u32 where "PH_SIZE = 56"

section \<open>Segments\<close>

definition flags2perm :: "u32 \<Rightarrow> u64" where
  "flags2perm flags =
     (let perm = (if flags AND 1 \<noteq> 0 then PTE_X else 0)
      in if flags AND 2 \<noteq> 0 then perm OR PTE_W else perm)"

lemma loadseg_measure:
  fixes i :: u32
  assumes "\<not> i + ucast PGSIZE < i"
  shows "8589934592 - unat (i + ucast PGSIZE) < 8589934592 - unat i"
proof -
  have i: "unat i < 2 ^ 32" using unsigned_less [of i, where ?'a = nat] by simp
  moreover have "unat i \<le> unat (i + 4096)" using assms by (simp add: PGSIZE_def word_less_nat_alt)
  moreover have "unat (i + 4096) = unat i + 4096 \<or> unat (i + 4096) + 2 ^ 32 = unat i + 4096"
    using i by (auto simp: unat_word_ariths mod_if)
  ultimately show ?thesis by (auto simp: PGSIZE_def)
qed

text \<open>
  The loop of \<^verbatim>\<open>loadseg\<close>, \<open>len\<close> being its \<^verbatim>\<open>sz\<close>.  Where adding \<^verbatim>\<open>PGSIZE\<close> wraps the 32-bit counter around the C loop
  starts over and never ends; that takes a segment of nearly 4 GB.
\<close>

function loadseg_loop :: "u64 \<Rightarrow> u64 \<Rightarrow> nat \<Rightarrow> u32 \<Rightarrow> u32 \<Rightarrow> u32 \<Rightarrow> 'a fsst_scheme \<Rightarrow> (u32, 'a fsst_scheme) kr" where
  "loadseg_loop pt va ip offset len i s =
     (if i < len then
        kbind (walkaddr pt (va + ucast i) s) (\<lambda>pa s.
          if pa = 0 then Panic ''loadseg: address should exist''
          else
            (let n = (if len - i < ucast PGSIZE then len - i else ucast PGSIZE) in
             kbind (readi ip (KernPA pa) (offset + i) n (\<lambda>_. 0) s) (\<lambda>(r, _) s.
               if r \<noteq> n then Ok (- 1) s
               else if i + ucast PGSIZE < i then Fault ''loadseg: the counter wraps around''
               else loadseg_loop pt va ip offset len (i + ucast PGSIZE) s)))
      else Ok 0 s)"
  by pat_completeness auto
termination
  by (relation "measure (\<lambda>(pt, va, ip, offset, len, i, s). 2 ^ 33 - unat i)") (auto dest: loadseg_measure)

declare loadseg_loop.simps [simp del]

definition loadseg :: "u64 \<Rightarrow> u64 \<Rightarrow> nat \<Rightarrow> u32 \<Rightarrow> u32 \<Rightarrow> 'a fsst_scheme \<Rightarrow> (u32, 'a fsst_scheme) kr" where
  "loadseg pt va ip offset len s = loadseg_loop pt va ip offset len 0 s"

text \<open>
  The loop over the program headers: \<open>k\<close> of them are left, the next one at \<open>off\<close>.  The answer is whether all went
  well, and \<^verbatim>\<open>sz\<close>.
\<close>

primrec load_segments :: "nat \<Rightarrow> u64 \<Rightarrow> nat \<Rightarrow> u32 \<Rightarrow> u64 \<Rightarrow> 'a fsst_scheme \<Rightarrow> (bool \<times> u64, 'a fsst_scheme) kr" where
  "load_segments 0 pt ip off n s = Ok (True, n) s"
| "load_segments (Suc k) pt ip off n s =
     kbind (readi ip (KBuf 0) off PH_SIZE (\<lambda>_. 0) s) (\<lambda>(r, b) s.
       let ph = proghdr_of b in
       if r \<noteq> PH_SIZE then Ok (False, n) s
       else if ph_type ph \<noteq> ELF_PROG_LOAD then load_segments k pt ip (off + PH_SIZE) n s
       else if ph_memsz ph < ph_filesz ph then Ok (False, n) s
       else if ph_vaddr ph + ph_memsz ph < ph_vaddr ph then Ok (False, n) s
       else if ph_vaddr ph mod PGSIZE \<noteq> 0 then Ok (False, n) s
       else
         kbind (uvmalloc pt n (ph_vaddr ph + ph_memsz ph) (flags2perm (ph_flags ph)) s) (\<lambda>sz1 s.
           if sz1 = 0 then Ok (False, n) s
           else
             kbind (loadseg pt (ph_vaddr ph) ip (ucast (ph_off ph)) (ucast (ph_filesz ph)) s) (\<lambda>r s.
               if sint r < 0 then Ok (False, sz1) s
               else load_segments k pt ip (off + PH_SIZE) sz1 s)))"

section \<open>The stack\<close>

text \<open>
  The arguments, then the array of pointers to them.  The answer is \<^verbatim>\<open>argc\<close>, the stack pointer and the array
  \<^verbatim>\<open>ustack\<close>, or \<open>None\<close> for \<^verbatim>\<open>goto bad\<close>.
\<close>

primrec push_args ::
  "u64 list \<Rightarrow> nat \<Rightarrow> u64 \<Rightarrow> u64 \<Rightarrow> u64 \<Rightarrow> bytes \<Rightarrow> 'a memst_scheme \<Rightarrow> ((nat \<times> u64 \<times> bytes) option, 'a memst_scheme) kr" where
  "push_args [] argc pt sp stackbase ustack s = Ok (Some (argc, sp, ustack)) s"
| "push_args (a # argv) argc pt sp stackbase ustack s =
     (if argc \<ge> MAXARG then Ok None s
      else
        (case Cstring.strlen 0 (load_bytes a s) of
           None \<Rightarrow> Fault ''exec: no end of an argument''
         | Some n \<Rightarrow>
             (let sp = sp - of_nat (n + 1); sp = sp - sp mod 16 in
              if sp < stackbase then Ok None s
              else
                kbind (copyout pt sp (load_bytes a s) (of_nat (n + 1)) s) (\<lambda>r s.
                  if sint r < 0 then Ok None s
                  else push_args argv (argc + 1) pt sp stackbase (st64 ustack (8 * argc) sp) s))))"

definition push_argv :: "u64 list \<Rightarrow> u64 \<Rightarrow> u64 \<Rightarrow> u64 \<Rightarrow> 'a memst_scheme \<Rightarrow> ((nat \<times> u64) option, 'a memst_scheme) kr" where
  "push_argv argv pt sp stackbase s =
     kbind (push_args argv 0 pt sp stackbase (\<lambda>_. 0) s) (\<lambda>r s.
       case r of
         None \<Rightarrow> Ok None s
       | Some (argc, sp, ustack) \<Rightarrow>
           if argc \<ge> MAXARG then Fault ''exec: ustack is full''
           else
             (let ustack = st64 ustack (8 * argc) 0;
                  sp = sp - of_nat ((argc + 1) * 8); sp = sp - sp mod 16 in
              if sp < stackbase then Ok None s
              else
                kbind (copyout pt sp ustack (of_nat ((argc + 1) * 8)) s) (\<lambda>r s.
                  if sint r < 0 then Ok None s else Ok (Some (argc, sp)) s)))"

text \<open>
  From the rounding of \<^verbatim>\<open>sz\<close> to the array of pointers.  The answer is \<^verbatim>\<open>sz\<close>, and \<^verbatim>\<open>argc\<close> and the stack pointer unless the
  code goes to \<^verbatim>\<open>bad\<close>.
\<close>

definition exec_stack :: "u64 list \<Rightarrow> u64 \<Rightarrow> u64 \<Rightarrow> 'a memst_scheme \<Rightarrow> (u64 \<times> (nat \<times> u64) option, 'a memst_scheme) kr" where
  "exec_stack argv pt n s =
     (let n = PGROUNDUP n in
      kbind (uvmalloc pt n (n + 2 * PGSIZE) PTE_W s) (\<lambda>sz1 s.
        if sz1 = 0 then Ok (n, None) s
        else
          kthen (uvmclear pt (sz1 - 2 * PGSIZE) s) (\<lambda>s.
          kbind (push_argv argv pt sz1 (sz1 - PGSIZE) s) (\<lambda>r s. Ok (sz1, r) s))))"

section \<open>exec\<close>

text \<open>The program's name: \<^verbatim>\<open>last\<close> is the part of the path after the last slash seen.\<close>

primrec base_name :: "u8 list \<Rightarrow> u8 list \<Rightarrow> u8 list" where
  "base_name nm [] = nm"
| "base_name nm (c # rest) = base_name (if c = slash then rest else nm) rest"

definition exec_bad :: "u64 \<Rightarrow> u64 \<Rightarrow> nat option \<Rightarrow> 'a fsst_scheme \<Rightarrow> (u32, 'a fsst_scheme) kr" where
  "exec_bad pt n ip s =
     kthen (if pt \<noteq> 0 then proc_freepagetable pt n s else Ok () s) (\<lambda>s.
     kthen (case ip of None \<Rightarrow> Ok () s | Some ip \<Rightarrow> kthen (iunlockput ip s) (\<lambda>s. end_op s)) (\<lambda>s.
       Ok (- 1) s))"

definition exec_commit ::
  "nat \<Rightarrow> u8 list \<Rightarrow> u64 \<Rightarrow> u64 \<Rightarrow> u64 \<Rightarrow> u64 \<Rightarrow> u64 \<Rightarrow> 'a memst_scheme \<Rightarrow> (unit, 'a memst_scheme) kr" where
  "exec_commit p path pt n epc sp oldsz s =
     (let s = wr64 (trapframe (procs s p) + TF_a1) sp s;
          s = upd_proc p (\<lambda>q. q\<lparr>pname := name_buf (map (\<lambda>c. char_of (unat c)) (base_name path path))\<rparr>) s;
          oldpagetable = pagetable (procs s p);
          s = upd_proc p (\<lambda>q. q\<lparr>pagetable := pt, sz := n\<rparr>) s;
          s = wr64 (trapframe (procs s p) + TF_epc) epc s;
          s = wr64 (trapframe (procs s p) + TF_sp) sp s
      in proc_freepagetable oldpagetable oldsz s)"

definition exec :: "u8 list \<Rightarrow> u64 list \<Rightarrow> 'a fsst_scheme \<Rightarrow> (u32, 'a fsst_scheme) kr" where
  "exec path argv s =
     as_proc (\<lambda>p s.
       kthen (begin_op s) (\<lambda>s.
       kbind (namei path s) (\<lambda>r s.
         case r of
           None \<Rightarrow> kthen (end_op s) (\<lambda>s. Ok (- 1) s)
         | Some ip \<Rightarrow>
             kthen (ilock ip s) (\<lambda>s.
             kbind (readi ip (KBuf 0) 0 ELF_SIZE (\<lambda>_. 0) s) (\<lambda>(r, b) s.
               let elf = elfhdr_of b in
               if r \<noteq> ELF_SIZE then exec_bad 0 0 (Some ip) s
               else if e_magic elf \<noteq> ELF_MAGIC then exec_bad 0 0 (Some ip) s
               else
                 kbind (proc_pagetable p s) (\<lambda>pt s.
                   if pt = 0 then exec_bad 0 0 (Some ip) s
                   else
                     kbind (load_segments (unat (e_phnum elf)) pt ip (ucast (e_phoff elf)) 0 s) (\<lambda>(ok, n) s.
                       if \<not> ok then exec_bad pt n (Some ip) s
                       else
                         kthen (iunlockput ip s) (\<lambda>s.
                         kthen (end_op s) (\<lambda>s.
                           let oldsz = sz (procs s p) in
                           kbind (exec_stack argv pt n s) (\<lambda>(n, r) s.
                             case r of
                               None \<Rightarrow> exec_bad pt n None s
                             | Some (argc, sp) \<Rightarrow>
                                 kthen (exec_commit p path pt n (e_entry elf) sp oldsz s) (\<lambda>s.
                                   Ok (of_nat argc) s))))))))))) s"

end
