(* ===== verification/Sysfile.thy ===== *)
theory Sysfile
  imports Exec
begin

text \<open>
  The system calls on files, \<^verbatim>\<open>src/lab2/kernel/sysfile.c\<close>: the argument checks, descriptors, and the calls that
  \<^verbatim>\<open>Fs\<close> and \<^verbatim>\<open>File\<close> provide.  The device table holds what \<^verbatim>\<open>consoleinit\<close> puts there.  A descriptor is an index in
  \<^verbatim>\<open>ofile\<close>; an \<open>int\<close> of the code that may be negative is a 32-bit word read with \<^verbatim>\<open>sint\<close>.
\<close>

section \<open>Constants and the device table\<close>

definition O_WRONLY :: u32 where "O_WRONLY = 1"
definition O_RDWR :: u32 where "O_RDWR = 2"
definition O_CREATE :: u32 where "O_CREATE = 0x200"
definition O_TRUNC :: u32 where "O_TRUNC = 0x400"

definition CONSOLE :: nat where "CONSOLE = 1"

definition devread :: "nat \<Rightarrow> 'a consst_scheme devfun option" where
  "devread k = (if k = CONSOLE then Some consoleread else None)"

definition devwrite :: "nat \<Rightarrow> 'a consst_scheme devfun option" where
  "devwrite k = (if k = CONSOLE then Some consolewrite else None)"

section \<open>Descriptors\<close>

text \<open>The descriptor and the file, or \<open>None\<close> for -1.\<close>

definition argfd :: "nat \<Rightarrow> 'a memst_scheme \<Rightarrow> ((nat \<times> nat) option, 'a memst_scheme) kr" where
  "argfd n s =
     kbind (argint n s) (\<lambda>fd s.
       if sint fd < 0 \<or> sint fd \<ge> int NOFILE then Ok None s
       else as_proc (\<lambda>p s.
         case ofile (procs s p) (unat fd) of None \<Rightarrow> Ok None s | Some f \<Rightarrow> Ok (Some (unat fd, f)) s) s)"

definition fdalloc :: "nat \<Rightarrow> 'a procst_scheme \<Rightarrow> (nat option, 'a procst_scheme) kr" where
  "fdalloc f s =
     as_proc (\<lambda>p s.
       case find (\<lambda>fd. ofile (procs s p) fd = None) [0..<NOFILE] of
         None \<Rightarrow> Ok None s
       | Some fd \<Rightarrow> Ok (Some fd) (upd_proc p (\<lambda>q. q\<lparr>ofile := (ofile q)(fd := Some f)\<rparr>) s)) s"

text \<open>\<^verbatim>\<open>myproc()->ofile[fd] = 0\<close>\<close>

definition clear_fd :: "nat \<Rightarrow> 'a procst_scheme \<Rightarrow> (unit, 'a procst_scheme) kr" where
  "clear_fd fd s = as_proc (\<lambda>p s. Ok () (upd_proc p (\<lambda>q. q\<lparr>ofile := (ofile q)(fd := None)\<rparr>) s)) s"

definition sys_dup :: "'a filest_scheme \<Rightarrow> (u64, 'a filest_scheme) kr" where
  "sys_dup s =
     kbind (argfd 0 s) (\<lambda>r s.
       case r of
         None \<Rightarrow> Ok (- 1) s
       | Some (_, f) \<Rightarrow>
           kbind (fdalloc f s) (\<lambda>r s.
             case r of
               None \<Rightarrow> Ok (- 1) s
             | Some fd \<Rightarrow> kbind (filedup f s) (\<lambda>_ s. Ok (of_nat fd) s)))"

definition sys_read :: "'a consst_scheme \<Rightarrow> (u64, 'a consst_scheme) kr" where
  "sys_read s =
     kbind (argaddr 1 s) (\<lambda>p s. kbind (argint 2 s) (\<lambda>n s. kbind (argfd 0 s) (\<lambda>r s.
       case r of None \<Rightarrow> Ok (- 1) s | Some (_, f) \<Rightarrow> ret_int (fileread devread f p n s))))"

definition sys_write :: "'a consst_scheme \<Rightarrow> (u64, 'a consst_scheme) kr" where
  "sys_write s =
     kbind (argaddr 1 s) (\<lambda>p s. kbind (argint 2 s) (\<lambda>n s. kbind (argfd 0 s) (\<lambda>r s.
       case r of None \<Rightarrow> Ok (- 1) s | Some (_, f) \<Rightarrow> ret_int (filewrite devwrite f p n s))))"

definition sys_close :: "'a filest_scheme \<Rightarrow> (u64, 'a filest_scheme) kr" where
  "sys_close s =
     kbind (argfd 0 s) (\<lambda>r s.
       case r of
         None \<Rightarrow> Ok (- 1) s
       | Some (fd, f) \<Rightarrow> kthen (clear_fd fd s) (\<lambda>s. kthen (fileclose f s) (\<lambda>s. Ok 0 s)))"

definition sys_fstat :: "'a filest_scheme \<Rightarrow> (u64, 'a filest_scheme) kr" where
  "sys_fstat s =
     kbind (argaddr 1 s) (\<lambda>st s. kbind (argfd 0 s) (\<lambda>r s.
       case r of None \<Rightarrow> Ok (- 1) s | Some (_, f) \<Rightarrow> ret_int (filestat f st (\<lambda>_. 0) s)))"

section \<open>Links\<close>

text \<open>\<^verbatim>\<open>end_op(); return -1;\<close>\<close>

definition op_fails :: "'a logst_scheme \<Rightarrow> (u64, 'a logst_scheme) kr" where
  "op_fails s = kthen (end_op s) (\<lambda>s. Ok (- 1) s)"

definition set_nlink :: "nat \<Rightarrow> u16 \<Rightarrow> 'a fsst_scheme \<Rightarrow> (unit, 'a fsst_scheme) kr" where
  "set_nlink ip d s = iupdate ip (upd_inode ip (\<lambda>x. x\<lparr>i_nlink := i_nlink x + d\<rparr>) s)"

definition sys_link :: "'a fsst_scheme \<Rightarrow> (u64, 'a fsst_scheme) kr" where
  "sys_link s =
     kbind (argpath 0 s) (\<lambda>old s.
       case old of
         None \<Rightarrow> Ok (- 1) s
       | Some old \<Rightarrow>
     kbind (argpath 1 s) (\<lambda>new s.
       case new of
         None \<Rightarrow> Ok (- 1) s
       | Some new \<Rightarrow>
     kthen (begin_op s) (\<lambda>s.
     kbind (namei old s) (\<lambda>r s.
       case r of
         None \<Rightarrow> op_fails s
       | Some ip \<Rightarrow>
     kthen (ilock ip s) (\<lambda>s.
       if i_type (inodes s ip) = T_DIR then kthen (iunlockput ip s) (\<lambda>s. op_fails s)
       else
         (let bad = (\<lambda>s. kthen (ilock ip s) (\<lambda>s. kthen (set_nlink ip (- 1) s) (\<lambda>s.
                         kthen (iunlockput ip s) (\<lambda>s. op_fails s)))) in
          kthen (set_nlink ip 1 s) (\<lambda>s.
          kthen (iunlock ip s) (\<lambda>s.
          kbind (nameiparent new (\<lambda>_. 0) s) (\<lambda>(r, name) s.
            case r of
              None \<Rightarrow> bad s
            | Some dp \<Rightarrow>
                kthen (ilock dp s) (\<lambda>s.
                kbind (if i_dev (inodes s dp) \<noteq> i_dev (inodes s ip) then Ok (- 1) s
                       else dirlink dp name (i_inum (inodes s ip)) s) (\<lambda>r s.
                  if sint r < 0 then kthen (iunlockput dp s) (\<lambda>s. bad s)
                  else
                    kthen (iunlockput dp s) (\<lambda>s.
                    kthen (iput ip s) (\<lambda>s.
                    kthen (end_op s) (\<lambda>s. Ok 0 s))))))))))))))"

function isdirempty_loop :: "nat \<Rightarrow> u32 \<Rightarrow> bytes \<Rightarrow> 'a fsst_scheme \<Rightarrow> (bool, 'a fsst_scheme) kr" where
  "isdirempty_loop dp off de s =
     (if off < i_size (inodes s dp) then
        kbind (readi dp (KBuf 0) off 16 de s) (\<lambda>(r, de) s.
          if r \<noteq> 16 then Panic ''isdirempty: readi''
          else if ld16 de 0 \<noteq> 0 then Ok False s
          else isdirempty_loop dp (off + 16) de s)
      else Ok True s)"
  by pat_completeness auto
termination
  by (relation "measure (\<lambda>(dp, off, de, s). 2 ^ 33 - unat off)") (auto dest: readi_16_measure)

declare isdirempty_loop.simps [simp del]

definition isdirempty :: "nat \<Rightarrow> 'a fsst_scheme \<Rightarrow> (bool, 'a fsst_scheme) kr" where
  "isdirempty dp s = isdirempty_loop dp (2 * 16) (\<lambda>_. 0) s"

text \<open>A name as the code's string literals have it.\<close>

definition dot_name :: bytes where "dot_name = (\<lambda>_. 0)(0 := 46)"
definition dotdot_name :: bytes where "dotdot_name = (\<lambda>_. 0)(0 := 46, 1 := 46)"

definition name_is :: "bytes \<Rightarrow> bytes \<Rightarrow> bool" where
  "name_is name lit \<longleftrightarrow> namecmp 0 NAME (with_name name lit) = 0"

definition sys_unlink :: "'a fsst_scheme \<Rightarrow> (u64, 'a fsst_scheme) kr" where
  "sys_unlink s =
     kbind (argpath 0 s) (\<lambda>path s.
       case path of
         None \<Rightarrow> Ok (- 1) s
       | Some path \<Rightarrow>
     kthen (begin_op s) (\<lambda>s.
     kbind (nameiparent path (\<lambda>_. 0) s) (\<lambda>(r, name) s.
       case r of
         None \<Rightarrow> op_fails s
       | Some dp \<Rightarrow>
     (let bad = (\<lambda>s. kthen (iunlockput dp s) (\<lambda>s. op_fails s)) in
      kthen (ilock dp s) (\<lambda>s.
        if name_is name dot_name \<or> name_is name dotdot_name then bad s
        else
          kbind (dirlookup dp name s) (\<lambda>r s.
            case r of
              None \<Rightarrow> bad s
            | Some (ip, off) \<Rightarrow>
                kthen (ilock ip s) (\<lambda>s.
                  if sint (i_nlink (inodes s ip)) < 1 then Panic ''unlink: nlink < 1''
                  else
                    kbind (if i_type (inodes s ip) = T_DIR then isdirempty ip s else Ok True s) (\<lambda>e s.
                      if \<not> e then kthen (iunlockput ip s) (\<lambda>s. bad s)
                      else
                        kbind (writei dp (KBuf 0) off 16 (\<lambda>_. 0) s) (\<lambda>r s.
                          if r \<noteq> 16 then Panic ''unlink: writei''
                          else
                            kthen (if i_type (inodes s ip) = T_DIR then set_nlink dp (- 1) s else Ok () s) (\<lambda>s.
                            kthen (iunlockput dp s) (\<lambda>s.
                            kthen (set_nlink ip (- 1) s) (\<lambda>s.
                            kthen (iunlockput ip s) (\<lambda>s.
                            kthen (end_op s) (\<lambda>s. Ok 0 s))))))))))))))"

section \<open>Making files\<close>

text \<open>The new or existing file, locked, or \<open>None\<close>.\<close>

definition create :: "u8 list \<Rightarrow> u16 \<Rightarrow> u16 \<Rightarrow> u16 \<Rightarrow> 'a fsst_scheme \<Rightarrow> (nat option, 'a fsst_scheme) kr" where
  "create path type major minor s =
     kbind (nameiparent path (\<lambda>_. 0) s) (\<lambda>(r, name) s.
       case r of
         None \<Rightarrow> Ok None s
       | Some dp \<Rightarrow>
     kthen (ilock dp s) (\<lambda>s.
     kbind (dirlookup dp name s) (\<lambda>r s.
       case r of
         Some (ip, _) \<Rightarrow>
           kthen (iunlockput dp s) (\<lambda>s.
           kthen (ilock ip s) (\<lambda>s.
             if type = T_FILE \<and> (i_type (inodes s ip) = T_FILE \<or> i_type (inodes s ip) = T_DEVICE) then Ok (Some ip) s
             else kthen (iunlockput ip s) (\<lambda>s. Ok None s)))
       | None \<Rightarrow>
     kbind (ialloc (i_dev (inodes s dp)) type s) (\<lambda>r s.
       case r of
         None \<Rightarrow> kthen (iunlockput dp s) (\<lambda>s. Ok None s)
       | Some ip \<Rightarrow>
     (let fail = (\<lambda>s. kthen (iupdate ip (upd_inode ip (\<lambda>x. x\<lparr>i_nlink := 0\<rparr>) s)) (\<lambda>s.
                      kthen (iunlockput ip s) (\<lambda>s. kthen (iunlockput dp s) (\<lambda>s. Ok None s)))) in
      kthen (ilock ip s) (\<lambda>s.
      kthen (iupdate ip (upd_inode ip (\<lambda>x. x\<lparr>i_major := major, i_minor := minor, i_nlink := 1\<rparr>) s)) (\<lambda>s.
      kbind (if type = T_DIR then
               kbind (dirlink ip dot_name (i_inum (inodes s ip)) s) (\<lambda>r s.
                 if sint r < 0 then Ok r s else dirlink ip dotdot_name (i_inum (inodes s dp)) s)
             else Ok 0 s) (\<lambda>r s.
        if sint r < 0 then fail s
        else
          kbind (dirlink dp name (i_inum (inodes s ip)) s) (\<lambda>r s.
            if sint r < 0 then fail s
            else
              kthen (if type = T_DIR then set_nlink dp 1 s else Ok () s) (\<lambda>s.
              kthen (iunlockput dp s) (\<lambda>s. Ok (Some ip) s)))))))))))"

text \<open>The inode to open, locked, or \<open>None\<close> with nothing held.\<close>

definition open_inode :: "u8 list \<Rightarrow> u32 \<Rightarrow> 'a fsst_scheme \<Rightarrow> (nat option, 'a fsst_scheme) kr" where
  "open_inode path omode s =
     (if omode AND O_CREATE \<noteq> 0 then create path T_FILE 0 0 s
      else
        kbind (namei path s) (\<lambda>r s.
          case r of
            None \<Rightarrow> Ok None s
          | Some ip \<Rightarrow>
              kthen (ilock ip s) (\<lambda>s.
                if i_type (inodes s ip) = T_DIR \<and> omode \<noteq> 0 then kthen (iunlockput ip s) (\<lambda>s. Ok None s)
                else Ok (Some ip) s)))"

text \<open>\<^verbatim>\<open>filealloc\<close> and \<^verbatim>\<open>fdalloc\<close>, giving the file back when there is no descriptor.\<close>

definition open_fd :: "'a filest_scheme \<Rightarrow> ((nat \<times> nat) option, 'a filest_scheme) kr" where
  "open_fd s =
     kbind (filealloc s) (\<lambda>r s.
       case r of
         None \<Rightarrow> Ok None s
       | Some f \<Rightarrow>
           kbind (fdalloc f s) (\<lambda>r s.
             case r of
               None \<Rightarrow> kthen (fileclose f s) (\<lambda>s. Ok None s)
             | Some fd \<Rightarrow> Ok (Some (fd, f)) s))"

definition open_file :: "nat \<Rightarrow> u32 \<Rightarrow> inode \<Rightarrow> file_t \<Rightarrow> file_t" where
  "open_file ip omode x f =
     (if i_type x = T_DEVICE then f\<lparr>f_type := FD_DEVICE, f_major := i_major x\<rparr> else f\<lparr>f_type := FD_INODE, f_off := 0\<rparr>)
       \<lparr>f_ip := Some ip, f_readable := (omode AND O_WRONLY = 0),
        f_writable := (omode AND O_WRONLY \<noteq> 0 \<or> omode AND O_RDWR \<noteq> 0)\<rparr>"

definition sys_open :: "'a filest_scheme \<Rightarrow> (u64, 'a filest_scheme) kr" where
  "sys_open s =
     kbind (argint 1 s) (\<lambda>omode s. kbind (argpath 0 s) (\<lambda>path s.
       case path of
         None \<Rightarrow> Ok (- 1) s
       | Some path \<Rightarrow>
     kthen (begin_op s) (\<lambda>s.
     kbind (open_inode path omode s) (\<lambda>r s.
       case r of
         None \<Rightarrow> op_fails s
       | Some ip \<Rightarrow>
     if i_type (inodes s ip) = T_DEVICE \<and> (sint (i_major (inodes s ip)) < 0 \<or> sint (i_major (inodes s ip)) \<ge> NDEV) then
       kthen (iunlockput ip s) (\<lambda>s. op_fails s)
     else
       kbind (open_fd s) (\<lambda>r s.
         case r of
           None \<Rightarrow> kthen (iunlockput ip s) (\<lambda>s. op_fails s)
         | Some (fd, f) \<Rightarrow>
             let s = upd_file f (open_file ip omode (inodes s ip)) s in
             kthen (if omode AND O_TRUNC \<noteq> 0 \<and> i_type (inodes s ip) = T_FILE then itrunc ip s else Ok () s) (\<lambda>s.
             kthen (iunlock ip s) (\<lambda>s.
             kthen (end_op s) (\<lambda>s. Ok (of_nat fd) s))))))))"

definition sys_mkdir :: "'a fsst_scheme \<Rightarrow> (u64, 'a fsst_scheme) kr" where
  "sys_mkdir s =
     kthen (begin_op s) (\<lambda>s.
     kbind (argpath 0 s) (\<lambda>path s.
     kbind (case path of None \<Rightarrow> Ok None s | Some path \<Rightarrow> create path T_DIR 0 0 s) (\<lambda>r s.
       case r of
         None \<Rightarrow> op_fails s
       | Some ip \<Rightarrow> kthen (iunlockput ip s) (\<lambda>s. kthen (end_op s) (\<lambda>s. Ok 0 s)))))"

definition sys_mknod :: "'a fsst_scheme \<Rightarrow> (u64, 'a fsst_scheme) kr" where
  "sys_mknod s =
     kthen (begin_op s) (\<lambda>s.
     kbind (argint 1 s) (\<lambda>major s. kbind (argint 2 s) (\<lambda>minor s. kbind (argpath 0 s) (\<lambda>path s.
     kbind (case path of None \<Rightarrow> Ok None s | Some path \<Rightarrow> create path T_DEVICE (ucast major) (ucast minor) s) (\<lambda>r s.
       case r of
         None \<Rightarrow> op_fails s
       | Some ip \<Rightarrow> kthen (iunlockput ip s) (\<lambda>s. kthen (end_op s) (\<lambda>s. Ok 0 s)))))))"

definition sys_chdir :: "'a fsst_scheme \<Rightarrow> (u64, 'a fsst_scheme) kr" where
  "sys_chdir s =
     as_proc (\<lambda>p s.
     kthen (begin_op s) (\<lambda>s.
     kbind (argpath 0 s) (\<lambda>path s.
     kbind (case path of None \<Rightarrow> Ok None s | Some path \<Rightarrow> namei path s) (\<lambda>r s.
       case r of
         None \<Rightarrow> op_fails s
       | Some ip \<Rightarrow>
     kthen (ilock ip s) (\<lambda>s.
       if i_type (inodes s ip) \<noteq> T_DIR then kthen (iunlockput ip s) (\<lambda>s. op_fails s)
       else
         kthen (iunlock ip s) (\<lambda>s.
           case cwd (procs s p) of
             None \<Rightarrow> Fault ''sys_chdir: no current directory''
           | Some d \<Rightarrow>
               kthen (iput d s) (\<lambda>s.
               kthen (end_op s) (\<lambda>s. Ok 0 (upd_proc p (\<lambda>q. q\<lparr>cwd := Some ip\<rparr>) s))))))))) s"

section \<open>exec\<close>

text \<open>
  The loop of \<^verbatim>\<open>sys_exec\<close>: \<open>k\<close> slots of \<^verbatim>\<open>argv\<close> are left and \<open>argv\<close> is what it holds.  The answer is whether the
  user's null pointer was reached, and the pages that hold the strings.
\<close>

primrec fetch_args :: "nat \<Rightarrow> u64 \<Rightarrow> u64 list \<Rightarrow> 'a memst_scheme \<Rightarrow> (bool \<times> u64 list, 'a memst_scheme) kr" where
  "fetch_args 0 uargv argv s = Ok (False, argv) s"
| "fetch_args (Suc k) uargv argv s =
     kbind (fetchaddr (uargv + 8 * of_nat (length argv)) s) (\<lambda>(r, uarg) s.
       if sint r < 0 then Ok (False, argv) s
       else if uarg = 0 then Ok (True, argv) s
       else
         kbind (kalloc s) (\<lambda>pa s.
           if pa = 0 then Ok (False, argv) s
           else
             kbind (fetchstr uarg (load_bytes pa s) PGSIZE s) (\<lambda>(r, buf) s.
               let s = store_bytes pa buf (unat PGSIZE) s in
               if sint r < 0 then Ok (False, argv @ [pa]) s
               else fetch_args k uargv (argv @ [pa]) s)))"

definition free_args :: "u64 list \<Rightarrow> 'a memst_scheme \<Rightarrow> (unit, 'a memst_scheme) kr" where
  "free_args argv s = kfor kfree argv s"

definition sys_exec :: "'a fsst_scheme \<Rightarrow> (u64, 'a fsst_scheme) kr" where
  "sys_exec s =
     kbind (argaddr 1 s) (\<lambda>uargv s. kbind (argpath 0 s) (\<lambda>path s.
       case path of
         None \<Rightarrow> Ok (- 1) s
       | Some path \<Rightarrow>
           kbind (fetch_args MAXARG uargv [] s) (\<lambda>(ok, argv) s.
             if \<not> ok then kthen (free_args argv s) (\<lambda>s. Ok (- 1) s)
             else
               kbind (exec path argv s) (\<lambda>r s.
               kthen (free_args argv s) (\<lambda>s. Ok (scast r) s)))))"

section \<open>pipe\<close>

definition sys_pipe :: "'a filest_scheme \<Rightarrow> (u64, 'a filest_scheme) kr" where
  "sys_pipe s =
     as_proc (\<lambda>p s.
     kbind (argaddr 0 s) (\<lambda>fdarray s.
     kbind (pipealloc s) (\<lambda>(r, f0, f1) s.
       case (f0, f1) of
         (Some f0, Some f1) \<Rightarrow>
           if sint r < 0 then Ok (- 1) s
           else
             (let close = (\<lambda>fds s.
                    let s = fold (\<lambda>fd s. upd_proc p (\<lambda>q. q\<lparr>ofile := (ofile q)(fd := None)\<rparr>) s) fds s in
                    kthen (fileclose f0 s) (\<lambda>s. kthen (fileclose f1 s) (\<lambda>s. Ok (- 1) s))) in
              kbind (fdalloc f0 s) (\<lambda>r s.
                case r of
                  None \<Rightarrow> close [] s
                | Some fd0 \<Rightarrow>
                    kbind (fdalloc f1 s) (\<lambda>r s.
                      case r of
                        None \<Rightarrow> close [fd0] s
                      | Some fd1 \<Rightarrow>
                          kbind (copyout (pagetable (procs s p)) fdarray (st32 (\<lambda>_. 0) 0 (of_nat fd0)) 4 s) (\<lambda>r s.
                            if sint r < 0 then close [fd0, fd1] s
                            else
                              kbind (copyout (pagetable (procs s p)) (fdarray + 4) (st32 (\<lambda>_. 0) 0 (of_nat fd1)) 4 s) (\<lambda>r s.
                                if sint r < 0 then close [fd0, fd1] s else Ok 0 s)))))
       | _ \<Rightarrow> Ok (- 1) s))) s"

end
