(* ===== verification/Syscall.thy ===== *)
theory Syscall
  imports Sysfile
begin

text \<open>
  The dispatch of system calls, the second part of \<^verbatim>\<open>src/lab2/kernel/syscall.c\<close>: the table of handlers, indexed by
  the numbers of \<^verbatim>\<open>syscall.h\<close>, and \<^verbatim>\<open>syscall\<close>.
\<close>

type_synonym 's handler = "'s \<Rightarrow> (u64, 's) kr"

definition syscalls :: "'a sysst_scheme handler option list" where
  "syscalls =
     [None, Some sys_fork, Some sys_exit, Some sys_wait, Some sys_pipe, Some sys_read, Some sys_kill, Some sys_exec,
      Some sys_fstat, Some sys_chdir, Some sys_dup, Some sys_getpid, Some sys_sbrk, Some sys_sleep, Some sys_uptime,
      Some sys_open, Some sys_write, Some sys_mknod, Some sys_unlink, Some sys_link, Some sys_mkdir, Some sys_close,
      Some sys_sem_open, Some sys_sem_close, Some sys_sem_up, Some sys_sem_down]"

text \<open>The handler of a number, \<open>None\<close> for a number that has none.\<close>

definition handler_of :: "u32 \<Rightarrow> 'a sysst_scheme handler option" where
  "handler_of num =
     (if sint num > 0 \<and> sint num < int (length (syscalls :: 'a sysst_scheme handler option list))
      then syscalls ! unat num else None)"

text \<open>\<^verbatim>\<open>p->trapframe->a0 = ...\<close>\<close>

definition set_a0 :: "nat \<Rightarrow> u64 \<Rightarrow> 'a memst_scheme \<Rightarrow> 'a memst_scheme" where
  "set_a0 p v s = wr64 (trapframe (procs s p) + TF_a0) v s"

definition syscall :: "'a sysst_scheme \<Rightarrow> (unit, 'a sysst_scheme) kr" where
  "syscall s =
     as_proc (\<lambda>p s.
       let num = ucast (rd64 (trapframe (procs s p) + TF_a7) s) in
       case handler_of num of
         Some h \<Rightarrow> kbind (h s) (\<lambda>v s. Ok () (set_a0 p v s))
       | None \<Rightarrow>
           kthen (printf (Some (''%d %s: unknown sys call %d'' @ [newline]))
             [V_int (pid (procs s p)), V_str (Some (pname (procs s p))), V_int num] s) (\<lambda>s.
             Ok () (set_a0 p (- 1) s))) s"

end
