(* ===== verification/Trap.thy ===== *)
theory Trap
  imports Syscall
begin

text \<open>
  Traps, \<^verbatim>\<open>src/lab2/kernel/trap.c\<close>, and the interrupt controller, \<^verbatim>\<open>plic.c\<close>.  The control registers of the hart are fields of
  the state; the interrupt bit of \<^verbatim>\<open>sstatus\<close> is \<open>sie\<close>, the others are in \<open>c_sstatus\<close>.  The controller is the list of its
  answers to a claim and a record of what is written to it.  The addresses of the assembly entry points, and
  \<^verbatim>\<open>virtio_disk_intr\<close>, are parameters.  Where the kernel gives up the CPU the trap goes on in a function of its own.
\<close>

section \<open>State\<close>

record trapst = sysst +
  c_sstatus :: u64
  c_sepc :: u64
  c_scause :: u64
  c_stval :: u64
  c_stvec :: u64
  c_satp :: u64
  c_sip :: u64
  plic_claims :: "u32 list"
  plic_writes :: "(u64 \<times> u32) list"

text \<open>The entry points of the assembly files.\<close>

record entries =
  a_kernelvec :: u64
  a_trampoline :: u64
  a_uservec :: u64
  a_userret :: u64
  a_usertrap :: u64

definition SSTATUS_SPP :: u64 where "SSTATUS_SPP = push_bit 8 1"
definition SSTATUS_SPIE :: u64 where "SSTATUS_SPIE = push_bit 5 1"
definition MAKE_SATP :: "u64 \<Rightarrow> u64" where "MAKE_SATP pt = push_bit 60 8 OR drop_bit 12 pt"
definition UART0_IRQ :: u32 where "UART0_IRQ = 10"
definition VIRTIO0_IRQ :: u32 where "VIRTIO0_IRQ = 1"

section \<open>plic.c\<close>

definition PLIC_SENABLE :: "nat \<Rightarrow> u64" where "PLIC_SENABLE h = PLIC + 0x2080 + of_nat h * 0x100"
definition PLIC_SPRIORITY :: "nat \<Rightarrow> u64" where "PLIC_SPRIORITY h = PLIC + 0x201000 + of_nat h * 0x2000"
definition PLIC_SCLAIM :: "nat \<Rightarrow> u64" where "PLIC_SCLAIM h = PLIC + 0x201004 + of_nat h * 0x2000"

definition plic_write :: "u64 \<Rightarrow> u32 \<Rightarrow> 'a trapst_scheme \<Rightarrow> 'a trapst_scheme" where
  "plic_write a v s = s\<lparr>plic_writes := plic_writes s @ [(a, v)]\<rparr>"

definition plicinit :: "'a trapst_scheme \<Rightarrow> 'a trapst_scheme" where
  "plicinit s = plic_write (PLIC + ucast VIRTIO0_IRQ * 4) 1 (plic_write (PLIC + ucast UART0_IRQ * 4) 1 s)"

definition plicinithart :: "'a trapst_scheme \<Rightarrow> 'a trapst_scheme" where
  "plicinithart s =
     plic_write (PLIC_SPRIORITY (cpuid s)) 0
       (plic_write (PLIC_SENABLE (cpuid s)) (push_bit (unat UART0_IRQ) 1 OR push_bit (unat VIRTIO0_IRQ) 1) s)"

text \<open>The controller answers 0 when no interrupt is pending.\<close>

definition plic_claim :: "'a trapst_scheme \<Rightarrow> u32 \<times> 'a trapst_scheme" where
  "plic_claim s =
     (case plic_claims s of [] \<Rightarrow> (0, s) | irq # rest \<Rightarrow> (irq, s\<lparr>plic_claims := rest\<rparr>))"

definition plic_complete :: "u32 \<Rightarrow> 'a trapst_scheme \<Rightarrow> 'a trapst_scheme" where
  "plic_complete irq s = plic_write (PLIC_SCLAIM (cpuid s)) irq s"

section \<open>Interrupts\<close>

definition trapinit :: "'a trapst_scheme \<Rightarrow> 'a trapst_scheme" where
  "trapinit s = initlock L_ticks ''time'' s"

definition trapinithart :: "entries \<Rightarrow> 'a trapst_scheme \<Rightarrow> 'a trapst_scheme" where
  "trapinithart E s = s\<lparr>c_stvec := a_kernelvec E\<rparr>"

definition devintr ::
  "('a trapst_scheme \<Rightarrow> (unit, 'a trapst_scheme) kr) \<Rightarrow> 'a trapst_scheme \<Rightarrow> (u32, 'a trapst_scheme) kr" where
  "devintr virtio_disk_intr s =
     (let scause = c_scause s in
      if scause AND 0x8000000000000000 \<noteq> 0 \<and> scause AND 0xff = 9 then
        (case plic_claim s of
           (irq, s) \<Rightarrow>
             kthen (if irq = UART0_IRQ then uartintr s
                    else if irq = VIRTIO0_IRQ then virtio_disk_intr s
                    else if irq \<noteq> 0 then printf (Some (''unexpected interrupt irq=%d'' @ [newline])) [V_int irq] s
                    else Ok () s) (\<lambda>s.
               Ok 1 (if irq \<noteq> 0 then plic_complete irq s else s)))
      else if scause = 0x8000000000000001 then
        kthen (if cpuid s = 0 then clockintr s else Ok () s) (\<lambda>s.
          Ok 2 (s\<lparr>c_sip := c_sip s AND NOT 2\<rparr>))
      else Ok 0 s)"

section \<open>Traps from user space\<close>

definition TF_kernel_satp :: u64 where "TF_kernel_satp = 0"
definition TF_kernel_sp :: u64 where "TF_kernel_sp = 8"
definition TF_kernel_trap :: u64 where "TF_kernel_trap = 16"
definition TF_kernel_hartid :: u64 where "TF_kernel_hartid = 32"

text \<open>\<^verbatim>\<open>p->trapframe->reg = v\<close>\<close>

definition set_tf :: "nat \<Rightarrow> u64 \<Rightarrow> u64 \<Rightarrow> 'a memst_scheme \<Rightarrow> 'a memst_scheme" where
  "set_tf p reg v s = wr64 (trapframe (procs s p) + reg) v s"

definition get_tf :: "nat \<Rightarrow> u64 \<Rightarrow> 'a memst_scheme \<Rightarrow> u64" where
  "get_tf p reg s = rd64 (trapframe (procs s p) + reg) s"

text \<open>
  \<^verbatim>\<open>usertrapret\<close> ends with a jump to the assembly of \<^verbatim>\<open>userret\<close>; the answer is the address it jumps to and the page
  table that it passes.
\<close>

definition usertrapret :: "entries \<Rightarrow> 'a trapst_scheme \<Rightarrow> (u64 \<times> u64, 'a trapst_scheme) kr" where
  "usertrapret E s =
     as_proc (\<lambda>p s.
       let s = intr_off s;
           s = s\<lparr>c_stvec := TRAMPOLINE + (a_uservec E - a_trampoline E)\<rparr>;
           s = set_tf p TF_kernel_satp (c_satp s) s;
           s = set_tf p TF_kernel_sp (kstack (procs s p) + PGSIZE) s;
           s = set_tf p TF_kernel_trap (a_usertrap E) s;
           s = set_tf p TF_kernel_hartid (of_nat (hart s)) s;
           x = (c_sstatus s AND NOT SSTATUS_SPP) OR SSTATUS_SPIE;
           s = s\<lparr>c_sstatus := x\<rparr>;
           s = s\<lparr>c_sepc := get_tf p TF_epc s\<rparr>;
           satp = MAKE_SATP (pagetable (procs s p))
       in Ok (TRAMPOLINE + (a_userret E - a_trampoline E), satp) s) s"

text \<open>\<^verbatim>\<open>if(killed(p)) exit(-1);\<close>\<close>

definition exit_if_killed :: "nat \<Rightarrow> 'a filest_scheme \<Rightarrow> (unit, 'a filest_scheme) kr" where
  "exit_if_killed p s = kbind (killed p s) (\<lambda>k s. if k \<noteq> 0 then exit_proc (- 1) s else Ok () s)"

text \<open>The end of \<^verbatim>\<open>usertrap\<close>; it is also how the trap goes on after its system call has slept.\<close>

definition usertrap_end :: "entries \<Rightarrow> nat \<Rightarrow> u32 \<Rightarrow> 'a trapst_scheme \<Rightarrow> (u64 \<times> u64, 'a trapst_scheme) kr" where
  "usertrap_end E p which_dev s =
     kthen (exit_if_killed p s) (\<lambda>s.
     kthen (if which_dev = 2 then yield_cpu s else Ok () s) (\<lambda>s.
     usertrapret E s))"

definition usertrap_yielded :: "entries \<Rightarrow> nat \<Rightarrow> bool \<Rightarrow> 'a trapst_scheme \<Rightarrow> (u64 \<times> u64, 'a trapst_scheme) kr" where
  "usertrap_yielded E p saved s = kthen (yield_return p saved s) (\<lambda>s. usertrapret E s)"

definition usertrap ::
  "entries \<Rightarrow> ('a trapst_scheme \<Rightarrow> (unit, 'a trapst_scheme) kr) \<Rightarrow> 'a trapst_scheme \<Rightarrow> (u64 \<times> u64, 'a trapst_scheme) kr" where
  "usertrap E vdi s =
     (if c_sstatus s AND SSTATUS_SPP \<noteq> 0 then Panic ''usertrap: not from user mode''
      else
        as_proc (\<lambda>p s.
          let s = set_tf p TF_epc (c_sepc s) s in
          kbind (if c_scause s = 8 then
                   kthen (exit_if_killed p s) (\<lambda>s.
                   kthen (syscall (intr_on (set_tf p TF_epc (get_tf p TF_epc s + 4) s))) (\<lambda>s. Ok 0 s))
                 else
                   kbind (devintr vdi s) (\<lambda>which_dev s.
                     if which_dev \<noteq> 0 then Ok which_dev s
                     else
                       kthen (printf (Some (''usertrap(): unexpected scause %p pid=%d'' @ [newline]))
                         [V_uint64 (c_scause s), V_int (pid (procs s p))] s) (\<lambda>s.
                       kthen (printf (Some (''            sepc=%p stval=%p'' @ [newline]))
                         [V_uint64 (c_sepc s), V_uint64 (c_stval s)] s) (\<lambda>s.
                       kthen (setkilled p s) (\<lambda>s. Ok 0 s)))))
            (\<lambda>which_dev s. usertrap_end E p which_dev s)) (s\<lparr>c_stvec := a_kernelvec E\<rparr>))"

section \<open>Traps from the kernel\<close>

text \<open>Restoring \<^verbatim>\<open>sepc\<close> and \<^verbatim>\<open>sstatus\<close>, whose interrupt bit was clear.\<close>

definition kerneltrap_end :: "u64 \<Rightarrow> u64 \<Rightarrow> 'a trapst_scheme \<Rightarrow> (unit, 'a trapst_scheme) kr" where
  "kerneltrap_end sepc sstatus s = Ok () (intr_off (s\<lparr>c_sepc := sepc, c_sstatus := sstatus\<rparr>))"

definition kerneltrap ::
  "('a trapst_scheme \<Rightarrow> (unit, 'a trapst_scheme) kr) \<Rightarrow> 'a trapst_scheme \<Rightarrow> (unit, 'a trapst_scheme) kr" where
  "kerneltrap vdi s =
     (let sepc = c_sepc s; sstatus = c_sstatus s; scause = c_scause s in
      if sstatus AND SSTATUS_SPP = 0 then Panic ''kerneltrap: not from supervisor mode''
      else if intr_get s then Panic ''kerneltrap: interrupts enabled''
      else
        kbind (devintr vdi s) (\<lambda>which_dev s.
          if which_dev = 0 then
            kthen (printf (Some (''scause %p'' @ [newline])) [V_uint64 scause] s) (\<lambda>s.
            kthen (printf (Some (''sepc=%p stval=%p'' @ [newline])) [V_uint64 (c_sepc s), V_uint64 (c_stval s)] s) (\<lambda>s.
              Panic ''kerneltrap''))
          else
            kbind (if which_dev = 2 then myproc s else Ok None s) (\<lambda>me s.
            kbind (case me of None \<Rightarrow> Ok None s
                   | Some _ \<Rightarrow> myproc s) (\<lambda>me s.
            kthen (case me of
                     None \<Rightarrow> Ok () s
                   | Some p \<Rightarrow> if pstate (procs s p) = RUNNING then yield_cpu s else Ok () s) (\<lambda>s.
              kerneltrap_end sepc sstatus s)))))"

definition kerneltrap_yielded :: "nat \<Rightarrow> bool \<Rightarrow> u64 \<Rightarrow> u64 \<Rightarrow> 'a trapst_scheme \<Rightarrow> (unit, 'a trapst_scheme) kr" where
  "kerneltrap_yielded p saved sepc sstatus s =
     kthen (yield_return p saved s) (\<lambda>s. kerneltrap_end sepc sstatus s)"

end
