(* ===== verification/Execargs.thy ===== *)
theory Execargs
  imports Exec
begin

text \<open>
  What \<^verbatim>\<open>exec\<close> leaves on the new stack: every argument string ends below the one before it, at an address divisible
  by 16, and below them lies the array of pointers to them with its null pointer.
\<close>

section \<open>The layout\<close>

definition align16 :: "nat \<Rightarrow> nat" where "align16 a = a - a mod 16"

fun arg_addrs :: "nat \<Rightarrow> u8 list list \<Rightarrow> nat list" where
  "arg_addrs a [] = []"
| "arg_addrs a (str # strs) = (let a = align16 (a - (length str + 1)) in a # arg_addrs a strs)"

definition low_arg :: "nat \<Rightarrow> u8 list list \<Rightarrow> nat" where
  "low_arg a strs = last (a # arg_addrs a strs)"

definition argv_addr :: "nat \<Rightarrow> u8 list list \<Rightarrow> nat" where
  "argv_addr a strs = align16 (low_arg a strs - 8 * (length strs + 1))"

text \<open>The bytes of a string with its NUL in user memory.\<close>

definition ustring :: "(nat \<Rightarrow> u8 option) \<Rightarrow> nat \<Rightarrow> u8 list \<Rightarrow> bool" where
  "ustring M a str \<longleftrightarrow> (\<forall>i \<le> length str. M (a + i) = Some ((str @ [0]) ! i))"

text \<open>A pointer in user memory.\<close>

definition uptr :: "(nat \<Rightarrow> u8 option) \<Rightarrow> nat \<Rightarrow> u64 \<Rightarrow> bool" where
  "uptr M a v \<longleftrightarrow> (\<forall>i < 8. M (a + i) \<noteq> None) \<and> ld64 (\<lambda>i. the (M (a + i))) 0 = v"

text \<open>A vector of strings at an address: the pointers to them, and a null pointer.\<close>

primrec uargs :: "(nat \<Rightarrow> u8 option) \<Rightarrow> nat \<Rightarrow> u8 list list \<Rightarrow> bool" where
  "uargs M a [] \<longleftrightarrow> uptr M a 0"
| "uargs M a (str # strs) \<longleftrightarrow>
     (\<exists>q. uptr M a q \<and> q \<noteq> 0 \<and> ustring M (unat q) str \<and> 0 \<notin> set str \<and> length str < 4096 \<and> uargs M (a + 8) strs)"

lemma uargsI:
  assumes "\<And>i. i < length strs \<Longrightarrow> uptr M (a + 8 * i) (f i) \<and> f i \<noteq> 0 \<and> ustring M (unat (f i)) (strs ! i)"
    and "\<And>str. str \<in> set strs \<Longrightarrow> 0 \<notin> set str \<and> length str < 4096" and "uptr M (a + 8 * length strs) 0"
  shows "uargs M a strs"
  using assms
proof (induction strs arbitrary: a f)
  case (Cons str strs)
  have "uargs M (a + 8) strs"
  proof (rule Cons.IH [where f = "\<lambda>i. f (Suc i)"])
    show "uptr M (a + 8 + 8 * i) (f (Suc i)) \<and> f (Suc i) \<noteq> 0 \<and> ustring M (unat (f (Suc i))) (strs ! i)" if "i < length strs" for i
      using Cons.prems(1) [of "Suc i"] that by (simp add: add.assoc)
  qed (use Cons.prems(2,3) in \<open>auto simp: add.assoc\<close>)
  then show ?case using Cons.prems(1) [of 0] Cons.prems(2) [of str] by (auto intro!: exI [of _ "f 0"])
qed simp

lemma align16: "align16 a \<le> a" "16 dvd align16 a" "a < align16 a + 16"
  by (simp_all add: align16_def minus_mod_eq_mult_div)

lemma low_arg_simps [simp]:
  "low_arg a [] = a" "low_arg a (str # strs) = low_arg (align16 (a - (length str + 1))) strs"
  by (simp_all add: low_arg_def Let_def)

lemma low_arg_le: "low_arg a strs \<le> a"
proof (induction strs arbitrary: a)
  case (Cons str strs)
  show ?case using Cons [of "align16 (a - (length str + 1))"] align16(1) [of "a - (length str + 1)"] by simp
qed simp

lemma low_arg_addrs: "b \<in> set (arg_addrs a strs) \<Longrightarrow> low_arg a strs \<le> b"
proof (induction strs arbitrary: a)
  case (Cons str strs)
  then show ?case using low_arg_le by (auto simp: Let_def)
qed simp

lemma arg_addrs_le: "b \<in> set (arg_addrs a strs) \<Longrightarrow> b \<le> a"
proof (induction strs arbitrary: a)
  case (Cons str strs)
  let ?a = "align16 (a - (length str + 1))"
  have "?a \<le> a" using align16(1) [of "a - (length str + 1)"] by simp
  then show ?case using Cons.IH [of ?a] Cons.prems by (auto simp: Let_def)
qed simp

lemma length_arg_addrs [simp]: "length (arg_addrs a strs) = length strs"
  by (induction strs arbitrary: a) (simp_all add: Let_def)

section \<open>Words\<close>

lemma unat_push:
  fixes sp :: u64
  assumes "n \<le> unat sp"
  shows "unat (sp - of_nat n - (sp - of_nat n) mod 16) = align16 (unat sp - n)"
proof -
  have n: "unat (of_nat n :: u64) = n"
    using assms unsigned_less [of sp, where ?'a = nat] by (simp add: unat_of_nat)
  then have d: "unat (sp - of_nat n) = unat sp - n" using assms by (simp add: unat_sub word_le_nat_alt)
  moreover have m: "unat ((sp - of_nat n) mod 16) = unat (sp - of_nat n) mod 16" by (simp add: unat_mod_distrib)
  moreover have "(sp - of_nat n) mod 16 \<le> sp - of_nat n" by (simp add: word_le_nat_alt m)
  ultimately show ?thesis by (simp add: unat_sub align16_def)
qed

section \<open>Pushing the arguments\<close>

text \<open>The stack page, and an argument string in a kernel page that is none of the new image's.\<close>

definition stack_page :: "'a memst_scheme \<Rightarrow> mapping \<Rightarrow> nat \<Rightarrow> bool" where
  "stack_page s L base \<longleftrightarrow> 4096 \<le> base \<and> (\<forall>x. base \<le> x \<and> x < base + 4096 \<longrightarrow> umem s L x \<noteq> None)"

definition argument :: "'a memst_scheme \<Rightarrow> u64 set \<Rightarrow> u64 \<Rightarrow> u8 list \<Rightarrow> bool" where
  "argument s A a str \<longleftrightarrow> str_at (load_bytes a s) 0 str \<and> length str < 4096 \<and>
     (\<forall>i \<le> length str. \<forall>p \<in> A. \<not> in_page p (unat a + i))"

lemma argument_touched: "touched s t B \<Longrightarrow> B \<subseteq> A \<Longrightarrow> argument s A a str \<Longrightarrow> argument t A a str"
  unfolding argument_def by (auto simp: load_bytes_def elim!: str_at_frame intro!: touched_pmem [of s t B])

lemma argument_mono: "argument s A a str \<Longrightarrow> B \<subseteq> A \<Longrightarrow> argument s B a str"
  by (auto simp: argument_def)

lemma argument_string: "argument s A a str \<Longrightarrow> i \<le> length str \<Longrightarrow> load_bytes a s i = (str @ [0]) ! i"
  by (auto simp: argument_def str_at_def nth_append)

lemma uput_inside: "i < n \<Longrightarrow> uput M a n src (a + i) = Some (src i)"
  by (simp add: uput_def)

lemma uput_outside: "x < a \<or> a + n \<le> x \<Longrightarrow> uput M a n src x = M x"
  by (auto simp: uput_def)

text \<open>Copying out to where everything is mapped.\<close>

lemma copyout_mapped:
  assumes "space s pt T L ps D" and "\<And>i. i < unat len \<Longrightarrow> umem s L (unat va + i) \<noteq> None"
  obtains t where "copyout pt va src len s = Ok 0 t" "space t pt T L ps D" "touched s t (page_of L ` D)"
    "umem t L = uput (umem s L) (unat va) (unat len) src"
proof -
  obtain t k where t: "copyout pt va src len s = Ok (if k = unat len then 0 else - 1) t" "k \<le> unat len" "space t pt T L ps D"
    "touched s t (page_of L ` D)" "umem t L = uput (umem s L) (unat va) k src" "k < unat len \<longrightarrow> umem s L (unat va + k) = None"
    using copyout_ok [OF assms(1), of va src len] by (elim exE conjE) (rule that)
  then have "k = unat len" using assms(2) [of k] by fastforce
  then show ?thesis using t that by simp
qed

lemma stack_page_put: "stack_page s L base \<Longrightarrow> umem t L = uput (umem s L) a n src \<Longrightarrow> stack_page t L base"
  by (auto simp: stack_page_def uput_def)

lemma push_args_ok:
  assumes "space s pt T L ps D" and "stack_page s L base" and "base \<le> unat sp" "unat sp \<le> base + 4096"
    and "unat stackbase = base" and "list_all2 (argument s (page_of L ` D)) argv strs" and "argc + length argv \<le> MAXARG"
  shows "\<exists>r t. push_args argv argc pt sp stackbase ustack s = Ok r t \<and> space t pt T L ps D \<and> stack_page t L base \<and>
     touched s t (page_of L ` D) \<and> (r = None \<longleftrightarrow> low_arg (unat sp) strs < base) \<and>
     (\<forall>n q u. r = Some (n, q, u) \<longrightarrow> n = argc + length argv \<and> unat q = low_arg (unat sp) strs \<and>
        (\<forall>i < length argv. ustring (umem t L) (arg_addrs (unat sp) strs ! i) (strs ! i)) \<and>
        (\<forall>i < length argv. ld64 u (8 * (argc + i)) = of_nat (arg_addrs (unat sp) strs ! i)) \<and>
        (\<forall>j < argc. ld64 u (8 * j) = ld64 ustack (8 * j)) \<and>
        (\<forall>x. x < unat q \<or> unat sp \<le> x \<longrightarrow> umem t L x = umem s L x))"
  using assms
proof (induction argv arbitrary: strs argc sp ustack s)
  case Nil
  then show ?case by (auto simp: touched_refl)
next
  case (Cons a argv)
  note sp = Cons.prems(1) and st = Cons.prems(2) and lo = Cons.prems(3) and hi = Cons.prems(4) and sb = Cons.prems(5)
  obtain str strs' where strs: "strs = str # strs'" and a: "argument s (page_of L ` D) a str"
    and rest: "list_all2 (argument s (page_of L ` D)) argv strs'"
    using Cons.prems(6) by (auto simp: list_all2_Cons1)
  have len: "Cstring.strlen 0 (load_bytes a s) = Some (length str)" "length str < 4096"
    using a strlen_str_at [of "load_bytes a s" 0 str] by (simp_all add: argument_def)
  define q where "q = sp - of_nat (length str + 1) - (sp - of_nat (length str + 1)) mod 16"
  have q: "unat q = align16 (unat sp - (length str + 1))"
    unfolding q_def by (rule unat_push) (use lo st len(2) in \<open>simp add: stack_page_def\<close>)
  have small: "\<not> argc \<ge> MAXARG" using Cons.prems(7) by simp
  note run = push_args.simps(2) [of a argv argc pt sp stackbase ustack s] len(1) small
  show ?case
  proof (cases "q < stackbase")
    case True
    then have "unat q < base" using sb by (simp add: word_less_nat_alt)
    then have "low_arg (unat sp) strs < base" using low_arg_le [of "unat q" strs'] by (simp add: strs q)
    moreover have "push_args (a # argv) argc pt sp stackbase ustack s = Ok None s"
      using run True by (simp add: q_def Let_def)
    ultimately show ?thesis using sp st touched_refl by auto
  next
    case False
    then have qb: "base \<le> unat q" using sb by (simp add: word_less_nat_alt)
    have qt: "unat q + (length str + 1) \<le> unat sp"
    proof -
      have "length str + 1 \<le> unat sp" using lo st len(2) by (simp add: stack_page_def)
      then show ?thesis using align16(1) [of "unat sp - (length str + 1)"] q by linarith
    qed
    have n64: "unat (of_nat (length str + 1) :: u64) = length str + 1" using len(2) by (simp add: unat_of_nat del: of_nat_Suc of_nat_add)
    obtain t where t: "copyout pt q (load_bytes a s) (of_nat (length str + 1)) s = Ok 0 t" "space t pt T L ps D"
      "touched s t (page_of L ` D)" "umem t L = uput (umem s L) (unat q) (length str + 1) (load_bytes a s)"
    proof (rule copyout_mapped [OF sp, of "of_nat (length str + 1)" q "load_bytes a s"])
      show "umem s L (unat q + i) \<noteq> None" if "i < unat (of_nat (length str + 1) :: u64)" for i
        using st that qb qt hi unfolding n64 stack_page_def by (simp del: not_None_eq)
    qed (use n64 that in \<open>simp del: of_nat_Suc of_nat_add\<close>)
    have st': "stack_page t L base" by (rule stack_page_put [OF st t(4)])
    have rest': "list_all2 (argument t (page_of L ` D)) argv strs'"
      by (rule list_all2_mono [OF rest]) (rule argument_touched [OF t(3) order_refl])
    have ar: "argc + 1 + length argv \<le> MAXARG" using Cons.prems(7) by simp
    have qh: "unat q \<le> base + 4096" using qt hi by simp
    obtain r v where v: "push_args argv (argc + 1) pt q stackbase (st64 ustack (8 * argc) q) t = Ok r v" "space v pt T L ps D"
      "stack_page v L base" "touched t v (page_of L ` D)" "r = None \<longleftrightarrow> low_arg (unat q) strs' < base"
      "\<forall>n p u. r = Some (n, p, u) \<longrightarrow> n = argc + 1 + length argv \<and> unat p = low_arg (unat q) strs' \<and>
        (\<forall>i < length argv. ustring (umem v L) (arg_addrs (unat q) strs' ! i) (strs' ! i)) \<and>
        (\<forall>i < length argv. ld64 u (8 * (argc + 1 + i)) = of_nat (arg_addrs (unat q) strs' ! i)) \<and>
        (\<forall>j < argc + 1. ld64 u (8 * j) = ld64 (st64 ustack (8 * argc) q) (8 * j)) \<and>
        (\<forall>x. x < unat p \<or> unat q \<le> x \<longrightarrow> umem v L x = umem t L x)"
      using Cons.IH [OF t(2) st' qb qh sb rest' ar, of "st64 ustack (8 * argc) q"] by (elim exE conjE) (rule that)
    have "push_args (a # argv) argc pt sp stackbase ustack s = Ok r v"
      using run False t(1) v(1) by (simp add: q_def Let_def)
    moreover have "touched s v (page_of L ` D)" using touched_trans [OF t(3) v(4)] by simp
    moreover have "n = argc + length (a # argv) \<and> unat p = low_arg (unat sp) strs \<and>
        (\<forall>i < length (a # argv). ustring (umem v L) (arg_addrs (unat sp) strs ! i) (strs ! i)) \<and>
        (\<forall>i < length (a # argv). ld64 u (8 * (argc + i)) = of_nat (arg_addrs (unat sp) strs ! i)) \<and>
        (\<forall>j < argc. ld64 u (8 * j) = ld64 ustack (8 * j)) \<and>
        (\<forall>x. x < unat p \<or> unat sp \<le> x \<longrightarrow> umem v L x = umem s L x)" if r: "r = Some (n, p, u)" for n p u
    proof (intro conjI allI impI)
      note f = v(6) [THEN spec, THEN spec, THEN spec, THEN mp, OF r]
      have f1: "n = argc + 1 + length argv" "unat p = low_arg (unat q) strs'" using f by simp_all
      have f2: "ustring (umem v L) (arg_addrs (unat q) strs' ! i) (strs' ! i)"
        "ld64 u (8 * (argc + 1 + i)) = of_nat (arg_addrs (unat q) strs' ! i)" if "i < length argv" for i using f that by blast+
      have f3: "ld64 u (8 * j) = ld64 (st64 ustack (8 * argc) q) (8 * j)" if "j < argc + 1" for j using f that by blast
      have f4: "umem v L x = umem t L x" if "x < unat p \<or> unat q \<le> x" for x using f that by blast
      show "n = argc + length (a # argv)" "unat p = low_arg (unat sp) strs" using f1 by (simp_all add: strs q)
      show "ustring (umem v L) (arg_addrs (unat sp) strs ! i) (strs ! i)" if "i < length (a # argv)" for i
      proof (cases i)
        case 0
        have "umem v L (unat q + k) = Some ((str @ [0]) ! k)" if "k \<le> length str" for k
          using f4 [of "unat q + k"] that argument_string [OF a] by (simp add: t(4) uput_inside)
        then show ?thesis using q by (simp add: 0 strs Let_def ustring_def)
      next
        case (Suc k)
        then show ?thesis using f2(1) [of k] that by (simp add: strs Let_def q)
      qed
      show "ld64 u (8 * (argc + i)) = of_nat (arg_addrs (unat sp) strs ! i)" if "i < length (a # argv)" for i
      proof (cases i)
        case 0
        have "of_nat (align16 (unat sp - (length str + 1))) = q" unfolding q [symmetric] by simp
        then show ?thesis using f3 [of argc] 0 by (simp add: strs Let_def)
      next
        case (Suc k)
        then show ?thesis using f2(2) [of k] that by (simp add: strs Let_def q)
      qed
      show "ld64 u (8 * j) = ld64 ustack (8 * j)" if "j < argc" for j
        using f3 [of j] that by (simp add: ld64_st64_away)
      show "umem v L x = umem s L x" if "x < unat p \<or> unat sp \<le> x" for x
      proof -
        have "unat p \<le> unat q" using f1(2) low_arg_le by simp
        then show ?thesis using that f4 [of x] qt by (auto simp: t(4) uput_outside)
      qed
    qed
    moreover have "r = None \<longleftrightarrow> low_arg (unat sp) strs < base" using v(5) by (simp add: strs q)
    ultimately show ?thesis using v(2,3) by blast
  qed
qed

lemma ld64_shift: "(\<And>i. i < 8 \<Longrightarrow> d (j + i) = e (k + i)) \<Longrightarrow> ld64 d j = ld64 e k"
proof -
  assume a: "\<And>i. i < 8 \<Longrightarrow> d (j + i) = e (k + i)"
  have "d j = e k" using a [of 0] by simp
  moreover have "d (j + 1) = e (k + 1)" "d (j + 2) = e (k + 2)" "d (j + 3) = e (k + 3)" "d (j + 4) = e (k + 4)"
    "d (j + 5) = e (k + 5)" "d (j + 6) = e (k + 6)" "d (j + 7) = e (k + 7)" by (rule a; simp)+
  ultimately show ?thesis by (simp add: ld64_def ld32_def eval_nat_numeral)
qed

lemma uptr_put:
  assumes "M = uput N a n src" and "8 * i + 8 \<le> n"
  shows "uptr M (a + 8 * i) (ld64 src (8 * i))"
proof -
  have m: "M (a + 8 * i + k) = Some (src (8 * i + k))" if "k < 8" for k
    using uput_inside [of "8 * i + k" n N a src] that assms by (simp add: add.assoc)
  then have "ld64 (\<lambda>k. the (M (a + 8 * i + k))) 0 = ld64 src (8 * i)" by (intro ld64_shift) simp
  then show ?thesis using m by (simp add: uptr_def)
qed

lemma ustring_above: "ustring M a str \<Longrightarrow> (\<And>x. b \<le> x \<Longrightarrow> N x = M x) \<Longrightarrow> b \<le> a \<Longrightarrow> ustring N a str"
  by (simp add: ustring_def)

section \<open>The whole array\<close>

text \<open>C19: On success the new stack is what a C program expects: \<^verbatim>\<open>argc\<close> is the number of arguments, the stack pointer is
  divisible by 16, inside the stack page, and points to a vector of the argument strings that ends with a null pointer;
  nothing outside the stack page changed.  \<^verbatim>\<open>exec\<close> gives up exactly when the strings and the vector do not fit in the
  page.\<close>

theorem exec_args_layout:
  assumes "space s pt T L ps D" and "stack_page s L base" and "unat sp = base + 4096"
    and "list_all2 (argument s (page_of L ` D)) argv strs" and "length argv < MAXARG"
  shows "\<exists>r t. push_argv argv pt sp (sp - PGSIZE) s = Ok r t \<and> space t pt T L ps D \<and>
     (r = None \<longleftrightarrow> argv_addr (base + 4096) strs < base) \<and>
     (\<forall>argc q. r = Some (argc, q) \<longrightarrow> argc = length argv \<and> unat q = argv_addr (base + 4096) strs \<and> 16 dvd unat q \<and> base \<le> unat q \<and>
        uargs (umem t L) (unat q) strs \<and>
        (\<forall>x. x < base \<or> base + 4096 \<le> x \<longrightarrow> umem t L x = umem s L x))"
proof -
  have sb: "unat (sp - PGSIZE) = base" using assms(3) by (simp add: PGSIZE_def unat_sub word_le_nat_alt)
  have b: "4096 \<le> base" using assms(2) by (simp add: stack_page_def)
  have p: "base \<le> unat sp" "unat sp \<le> base + 4096" "0 + length argv \<le> MAXARG" using assms(3,5) by simp_all
  obtain r t where r: "push_args argv 0 pt sp (sp - PGSIZE) (\<lambda>_. 0) s = Ok r t" "space t pt T L ps D" "stack_page t L base"
    "r = None \<longleftrightarrow> low_arg (unat sp) strs < base"
    "\<forall>n q u. r = Some (n, q, u) \<longrightarrow> n = 0 + length argv \<and> unat q = low_arg (unat sp) strs \<and>
        (\<forall>i < length argv. ustring (umem t L) (arg_addrs (unat sp) strs ! i) (strs ! i)) \<and>
        (\<forall>i < length argv. ld64 u (8 * (0 + i)) = of_nat (arg_addrs (unat sp) strs ! i)) \<and>
        (\<forall>j < 0. ld64 u (8 * j) = ld64 (\<lambda>_. 0) (8 * j)) \<and>
        (\<forall>x. x < unat q \<or> unat sp \<le> x \<longrightarrow> umem t L x = umem s L x)"
    using push_args_ok [OF assms(1,2) p(1,2) sb assms(4) p(3), of "\<lambda>_. 0"] by (elim exE conjE) (rule that)
  have n: "length strs = length argv" using assms(4) by (simp add: list_all2_lengthD)
  show ?thesis
  proof (cases r)
    case None
    then have "low_arg (base + 4096) strs < base" using r(4) assms(3) by simp
    then have "argv_addr (base + 4096) strs < base"
      using align16(1) [of "low_arg (base + 4096) strs - 8 * (length strs + 1)"] by (simp add: argv_addr_def)
    then show ?thesis using r(1,2) None by (auto simp: push_argv_def)
  next
    case (Some x)
    then obtain q u where x: "r = Some (length argv, q, u)" "unat q = low_arg (unat sp) strs"
      "\<And>i. i < length argv \<Longrightarrow> ustring (umem t L) (arg_addrs (unat sp) strs ! i) (strs ! i)"
      "\<And>i. i < length argv \<Longrightarrow> ld64 u (8 * i) = of_nat (arg_addrs (unat sp) strs ! i)"
      "\<And>x. x < unat q \<or> unat sp \<le> x \<Longrightarrow> umem t L x = umem s L x"
      using r(5) by (cases x) simp
    have q: "base \<le> unat q" "unat q \<le> base + 4096"
      using r(4) x(1,2) assms(3) low_arg_le [of "unat sp" strs] by auto
    define n1 where "n1 = (length argv + 1) * 8"
    have n256: "n1 \<le> 256" using assms(5) by (simp add: n1_def MAXARG_def)
    then have n1: "n1 \<le> 256" "unat (of_nat n1 :: u64) = n1" by (simp_all add: unat_of_nat)
    define v where "v = q - of_nat n1 - (q - of_nat n1) mod 16"
    have v: "unat v = argv_addr (base + 4096) strs"
      unfolding v_def argv_addr_def using unat_push [of n1 q] n1(1) q b x(2) assms(3) n by (simp add: n1_def mult.commute)
    have va: "unat v + n1 \<le> unat q"
    proof -
      have "n1 \<le> unat q" using q b n1 by simp
      then show ?thesis using unat_push [of n1 q] align16(1) [of "unat q - n1"] by (simp add: v_def)
    qed
    have run: "push_argv argv pt sp (sp - PGSIZE) s =
        (if v < sp - PGSIZE then Ok None t
         else kbind (copyout pt v (st64 u (8 * length argv) 0) (of_nat n1) t) (\<lambda>r s.
                if sint r < 0 then Ok None s else Ok (Some (length argv, v)) s))"
      using r(1) x(1) assms(5) unfolding push_argv_def v_def n1_def Let_def by simp
    show ?thesis
    proof (cases "v < sp - PGSIZE")
      case True
      then have "argv_addr (base + 4096) strs < base" using v sb by (simp add: word_less_nat_alt)
      then show ?thesis using run True r(2) by auto
    next
      case False
      then have vb: "base \<le> unat v" using sb by (simp add: word_less_nat_alt)
      obtain w where w: "copyout pt v (st64 u (8 * length argv) 0) (of_nat n1) t = Ok 0 w" "space w pt T L ps D"
        "umem w L = uput (umem t L) (unat v) n1 (st64 u (8 * length argv) 0)"
      proof (rule copyout_mapped [OF r(2), of "of_nat n1" v "st64 u (8 * length argv) 0"])
        show "umem t L (unat v + i) \<noteq> None" if "i < unat (of_nat n1 :: u64)" for i
          using r(3) that vb va q unfolding n1(2) stack_page_def by (simp del: not_None_eq)
      qed (use n1 that in simp)
      have above: "umem w L x = umem t L x" if "unat q \<le> x" for x using that va by (simp add: w(3) uput_outside)
      have ptr: "uptr (umem w L) (unat v + 8 * i) (ld64 (st64 u (8 * length argv) 0) (8 * i))" if "i \<le> length argv" for i
        by (rule uptr_put [OF w(3)]) (use that in \<open>simp add: n1_def\<close>)
      have vec: "uargs (umem w L) (unat v) strs"
      proof (rule uargsI [where f = "\<lambda>i. of_nat (arg_addrs (unat sp) strs ! i)"])
        fix i assume i: "i < length strs"
        let ?a = "arg_addrs (unat sp) strs ! i"
        have aq: "unat q \<le> ?a" unfolding x(2) by (rule low_arg_addrs) (use i in simp)
        have "?a \<le> unat sp" using arg_addrs_le [of ?a "unat sp" strs] i by simp
        then have a: "unat (of_nat ?a :: u64) = ?a" using unsigned_less [of sp, where ?'a = nat] by (simp add: unat_of_nat)
        then have "(of_nat ?a :: u64) \<noteq> 0" using aq q(1) b by (metis not_numeral_le_zero le_trans unsigned_0)
        moreover have "uptr (umem w L) (unat v + 8 * i) (of_nat ?a)"
          using ptr [of i] x(4) [of i] i n by (simp add: ld64_st64_away)
        moreover have "ustring (umem w L) ?a (strs ! i)" by (rule ustring_above [OF x(3) above aq]) (use i n in simp)
        ultimately show "uptr (umem w L) (unat v + 8 * i) (of_nat ?a) \<and> (of_nat ?a :: u64) \<noteq> 0 \<and>
            ustring (umem w L) (unat (of_nat ?a :: u64)) (strs ! i)" unfolding a by blast
      next
        show "0 \<notin> set str \<and> length str < 4096" if "str \<in> set strs" for str
          using that assms(4) by (auto simp: list_all2_conv_all_nth in_set_conv_nth argument_def str_at_def)
        show "uptr (umem w L) (unat v + 8 * length strs) 0" using ptr [of "length argv"] n by simp
      qed
      have out: "umem w L y = umem s L y" if "y < base \<or> base + 4096 \<le> y" for y
        using that x(5) [of y] vb va q assms(3) by (auto simp: w(3) uput_outside)
      have "16 dvd unat v" unfolding v argv_addr_def by (rule align16(2))
      then have "\<forall>argc q. Some (length argv, v) = Some (argc, q) \<longrightarrow> argc = length argv \<and> unat q = argv_addr (base + 4096) strs \<and> 16 dvd unat q \<and> base \<le> unat q \<and>
        uargs (umem w L) (unat q) strs \<and> (\<forall>x. x < base \<or> base + 4096 \<le> x \<longrightarrow> umem w L x = umem s L x)"
        using vb v vec out by simp
      moreover have "push_argv argv pt sp (sp - PGSIZE) s = Ok (Some (length argv, v)) w" using run False w(1) by simp
      moreover have "\<not> argv_addr (base + 4096) strs < base" using vb v by simp
      ultimately show ?thesis using w(2) by blast
    qed
  qed
qed

section \<open>A page for an argument\<close>

lemma space_off_page:
  assumes sp: "space s pt T L (q # ps) D" and ap: "pages_apart t T ps" and tt: "touched s t {q}"
  shows "space t pt T L ps D" "umem t L = umem s L"
proof -
  have v: "tree (pmem s) pt T L" "pages_apart s T (q # ps)" using sp by (simp_all add: space_def vm_inv_def)
  have q: "page_ok s q" "q \<notin> ran T \<union> set ps" using alloc_some [OF v(2)] by blast+
  have off: "pmem t a = pmem s a" if "page_ok s p" "p \<noteq> q" "in_page p a" for p a
    by (rule touched_pmem [OF tt]) (use pages_disjoint [OF that(1) q(1) that(2,3)] in simp)
  have own: "page_ok s (page_of L w)" "page_of L w \<noteq> q" "page_of L w \<notin> ran T \<union> set ps" if "w \<in> D" for w
    using sp that by (auto simp: space_def)
  have "tree (pmem t) pt T L"
  proof (rule tree_same [OF v(1)])
    show "pmem t a = pmem s a" if "r \<in> ran T" "in_page r a" for r a
      using off [of r a] that q(2) v(2) by (auto simp: pages_apart_def)
  qed
  then show "space t pt T L ps D"
    using sp ap own touched_state(3) [OF tt] by (auto simp: space_def vm_inv_def)
  have "pmem t (unat (page_of L w) + k mod 4096) = pmem s (unat (page_of L w) + k mod 4096)" if "user L w" for w k
    using off [OF own(1,2), of w] that sp by (simp add: space_def in_page_def)
  then show "umem t L = umem s L" by (auto simp: umem_def fun_eq_iff)
qed

lemma argument_page:
  assumes sp: "space s pt T L (q # ps) D"
  obtains t where "kalloc s = Ok q t" "space t pt T L ps D" "umem t L = umem s L" "touched s t {q}" "q \<noteq> 0"
    "\<And>buf. space (store_bytes q buf 4096 t) pt T L ps D" "\<And>buf. umem (store_bytes q buf 4096 t) L = umem s L"
    "\<And>buf. touched s (store_bytes q buf 4096 t) {q}"
    "\<And>buf str. str_at buf 0 str \<Longrightarrow> length str < 4096 \<Longrightarrow> argument (store_bytes q buf 4096 t) (page_of L ` D \<union> set ps) q str"
proof -
  have v: "pages_apart s T (q # ps)" using sp by (simp add: space_def vm_inv_def)
  obtain t where t: "kalloc s = Ok q t" "page_ok s q" "pages_apart t T ps" "touched s t {q}" "q \<notin> ran T \<union> set ps"
    using alloc_some [OF v] by blast
  have m: "splice (pmem t) (unat q) 4096 buf a = pmem t a" if "\<And>p. p \<in> {q} \<Longrightarrow> \<not> in_page p a" for buf a
    using that [of q] by (auto simp: splice_def in_page_def)
  have ap: "pages_apart (store_bytes q buf 4096 t) T ps" "touched t (store_bytes q buf 4096 t) {q}" for buf
    unfolding store_bytes_def by (rule apart_use [OF t(3), where A = "{q}"]; use t m touched_state(3) [OF t(4)] in simp)+
  have tt: "touched s (store_bytes q buf 4096 t) {q}" for buf using touched_trans [OF t(4) ap(2)] by simp
  have "argument (store_bytes q buf 4096 t) (page_of L ` D \<union> set ps) q str" if b: "str_at buf 0 str" "length str < 4096" for buf str
  proof -
    have "str_at (load_bytes q (store_bytes q buf 4096 t)) 0 str"
      by (rule str_at_frame [OF b(1)]) (use b(2) in \<open>simp add: load_bytes_def store_bytes_def splice_def\<close>)
    moreover have "\<not> in_page p (unat q + i)" if "p \<in> page_of L ` D \<union> set ps" "i \<le> length str" for p i
    proof (rule pages_disjoint [OF t(2)])
      show "page_ok s p" "q \<noteq> p" using that(1) sp v by (auto simp: space_def pages_apart_def free_list_def)
      show "in_page q (unat q + i)" using that(2) b(2) by (simp add: in_page_def)
    qed
    ultimately show ?thesis using b(2) by (simp add: argument_def)
  qed
  then show ?thesis
    using that [OF t(1) space_off_page [OF sp t(3,4)] t(4)] t(2) space_off_page [OF sp ap(1) tt] tt by (simp add: page_ok_def)
qed

theorem exec_args_layout_witness:
  "\<exists>s t (pt :: u64) L a. push_argv [a] pt 8192 4096 (s :: memst) = Ok (Some (1, 8160)) t \<and>
     uargs (umem t L) 8160 [[104, 105]] \<and> umem t L 4095 = Some 0"
proof -
  obtain s :: memst and To Lo old new ps where p: "pair s old To Lo {0, 1} new [(2, 0) \<mapsto> new] Map.empty {} ps"
    "8 \<le> length ps" "umem s Lo = zeroed (\<lambda>_. None) 0 2"
    using vm_user by blast
  obtain q qs where q: "ps = q # qs" using p(2) by (cases ps) auto
  have s: "space s old To Lo (q # qs) {0, 1}" using p(1) by (simp add: pair_def q)
  let ?buf = "(\<lambda>_. 0)(0 := 104, 1 := 105) :: bytes"
  have b: "str_at ?buf 0 [104, 105]" by simp
  obtain t :: memst where t: "space (store_bytes q ?buf 4096 t) old To Lo qs {0, 1}" "umem (store_bytes q ?buf 4096 t) Lo = umem s Lo"
    "argument (store_bytes q ?buf 4096 t) (page_of Lo ` {0, 1}) q [104, 105]"
  proof (rule argument_page [OF s])
    fix t :: memst
    assume t: "\<And>buf. space (store_bytes q buf 4096 t) old To Lo qs {0, 1}" "\<And>buf. umem (store_bytes q buf 4096 t) Lo = umem s Lo"
      "\<And>buf str. str_at buf 0 str \<Longrightarrow> length str < 4096 \<Longrightarrow> argument (store_bytes q buf 4096 t) (page_of Lo ` {0, 1} \<union> set qs) q str"
    have "length [104 :: u8, 105] < 4096" by simp
    then have "argument (store_bytes q ?buf 4096 t) (page_of Lo ` {0, 1}) q [104, 105]"
      by (rule argument_mono [OF t(3) [OF b] Un_upper1])
    then show ?thesis by (rule that [OF t(1,2)])
  qed
  let ?s = "store_bytes q ?buf 4096 t"
  have "stack_page ?s Lo 4096" unfolding stack_page_def t(2) p(3) zeroed_def by auto
  moreover have "unat (8192 :: u64) = 4096 + 4096" by simp
  moreover have "list_all2 (argument ?s (page_of Lo ` {0, 1})) [q] [[104, 105]]" using t(3) by simp
  ultimately obtain r u where u: "push_argv [q] old 8192 (8192 - PGSIZE) ?s = Ok r u"
    "r = None \<longleftrightarrow> argv_addr (4096 + 4096) [[104, 105]] < 4096"
    "\<forall>argc v. r = Some (argc, v) \<longrightarrow> argc = length [q] \<and> unat v = argv_addr (4096 + 4096) [[104, 105]] \<and> 16 dvd unat v \<and>
        4096 \<le> unat v \<and> uargs (umem u Lo) (unat v) [[104, 105]] \<and>
        (\<forall>x. x < 4096 \<or> 4096 + 4096 \<le> x \<longrightarrow> umem u Lo x = umem ?s Lo x)"
    using exec_args_layout [OF t(1), of 4096 8192 "[q]" "[[104, 105]]"] by (simp add: MAXARG_def) blast
  have ad: "argv_addr (4096 + 4096) [[104, 105]] = 8160" by (simp add: argv_addr_def align16_def)
  have z: "umem ?s Lo 4095 = Some 0" unfolding t(2) p(3) zeroed_def by simp
  have "r \<noteq> None" using u(2) unfolding ad by simp
  then obtain argc v where av: "r = Some (argc, v)" by (cases r) auto
  have v: "argc = length [q]" "unat v = 8160" "uargs (umem u Lo) (unat v) [[104, 105]]" "umem u Lo 4095 = umem ?s Lo 4095"
    using u(3) [THEN spec, THEN spec, THEN mp, OF av] unfolding ad by (elim conjE; simp del: uargs.simps)+
  have "v = of_nat (unat v)" by simp
  then have "v = 8160" unfolding v(2) by simp
  then have "push_argv [q] old 8192 4096 ?s = Ok (Some (1, 8160)) u" using u(1) av v(1) by (simp add: PGSIZE_def)
  then show ?thesis using v(2,3,4) unfolding z by metis
qed

end
