(* ===== verification/Fetch.thy ===== *)
theory Fetch
  imports Execargs Sysfile
begin

text \<open>
  What the functions that fetch system call arguments read from user memory, and the argument vector of \<^verbatim>\<open>exec\<close>
  in kernel pages.
\<close>

section \<open>One word and one string\<close>

text \<open>The process \<open>p\<close> that runs, and its memory.\<close>

definition running :: "'a memst_scheme \<Rightarrow> nat \<Rightarrow> tables \<Rightarrow> mapping \<Rightarrow> u64 list \<Rightarrow> nat set \<Rightarrow> bool" where
  "running s p T L ps D \<longleftrightarrow> me s = Some p \<and> space s (pagetable (procs s p)) T L ps D"

lemma running_irq: "running s p T L ps D \<Longrightarrow> irq_ok s"
  by (simp add: running_def space_def vm_inv_def pages_apart_def)

lemma as_proc_running: "running s p T L ps D \<Longrightarrow> as_proc f s = f p s"
  using running_irq [of s p T L ps D] by (simp add: as_proc_def myproc_ok) (simp add: running_def)

lemma running_touched:
  assumes "running s p T L ps D" and "touched s t A" and "space t (pagetable (procs s p)) T L qs D"
  shows "running t p T L qs D" "procs t = procs s"
  using assms touched_state(5,7) [OF assms(2)] by (simp_all add: running_def)

lemma unat_u64_lt: "unat w < 18446744073709551616" for w :: u64
  using unsigned_less [of w, where ?'a = nat] by simp

lemma fetchaddr_range:
  fixes addr n :: u64
  assumes "unat n \<le> 2 ^ 38"
  shows "addr \<ge> n \<or> addr + 8 > n \<longleftrightarrow> \<not> unat addr + 8 \<le> unat n"
proof -
  have "unat (addr + 8) = unat addr + 8 \<or> unat (addr + 8) + 18446744073709551616 = unat addr + 8"
    using unat_u64_lt [of addr] by (auto simp: unat_word_ariths mod_if)
  then show ?thesis using unat_u64_lt [of addr] assms by (auto simp: word_le_nat_alt word_less_nat_alt)
qed

lemma ld64_splice: "ld64 (splice d 0 8 f) 0 = ld64 f 0"
  by (rule ld64_shift) (simp add: splice_def)

lemma fetchaddr_ok:
  assumes "running s p T L ps D" and "unat (sz (procs s p)) \<le> 2 ^ 38"
  shows "fetchaddr addr s =
     Ok (if unat addr + 8 \<le> unat (sz (procs s p)) \<and> (\<forall>i < 8. umem s L (unat addr + i) \<noteq> None)
         then (0, ld64 (\<lambda>i. the (umem s L (unat addr + i))) 0) else (- 1, 0)) s"
proof -
  have sp: "space s (pagetable (procs s p)) T L ps D" using assms(1) by (simp add: running_def)
  have u: "unat (8 :: u64) = 8" by simp
  obtain k where k: "copyin (pagetable (procs s p)) (\<lambda>_. 0) addr 8 s =
      Ok (if k = 8 then 0 else - 1, splice (\<lambda>_. 0) 0 k (\<lambda>i. the (umem s L (unat addr + i)))) s" "k \<le> 8"
    "\<forall>i < k. umem s L (unat addr + i) \<noteq> None" "k < 8 \<longrightarrow> umem s L (unat addr + k) = None"
    using copyin_ok [OF sp, of "\<lambda>_. 0" addr 8] unfolding u by (elim exE conjE) (rule that)
  have e: "k = 8 \<longleftrightarrow> (\<forall>i < 8. umem s L (unat addr + i) \<noteq> None)" using k(2-4) by (metis le_neq_implies_less)
  show ?thesis
    unfolding fetchaddr_def as_proc_running [OF assms(1)] fetchaddr_range [OF assms(2)] k(1) e [symmetric]
    by (simp add: ld64_splice)
qed

lemma fetchstr_ok:
  assumes run: "running s p T L ps D" and str: "ustring (umem s L) (unat addr) str" "0 \<notin> set str" "length str < unat limit"
    and small: "length str < 2 ^ 31"
  obtains buf' where "fetchstr addr buf limit s = Ok (of_nat (length str), buf') s" "str_at buf' 0 str"
proof -
  have sp: "space s (pagetable (procs s p)) T L ps D" using run by (simp add: running_def)
  obtain k where k: "text_length (umem s L) (unat addr) (unat limit) k"
    "let found = (k < unat limit \<and> umem s L (unat addr + k) = Some 0) in
        copyinstr_loop (pagetable (procs s p)) buf 0 addr limit s =
          Ok (if found then 0 else - 1, splice buf 0 (if found then Suc k else k) (\<lambda>i. the (umem s L (unat addr + i)))) s"
    using copyinstr_loop_ok [OF sp, of addr limit buf 0] by (elim exE conjE) (rule that)
  have c: "umem s L (unat addr + i) = Some ((str @ [0]) ! i)" if "i \<le> length str" for i using str(1) that by (simp add: ustring_def)
  have z: "(str @ [0]) ! i = 0 \<longleftrightarrow> i = length str" if "i \<le> length str" for i
    using that str(2) by (auto simp: nth_append) (metis nth_mem)
  have kl: "k = length str"
  proof (rule linorder_cases [of k "length str"])
    assume a: "k < length str"
    then have "k < unat limit" using str(3) by simp
    then show ?thesis using a k(1) c [of k] z [of k] by (auto simp: text_length_def)
  next
    assume a: "length str < k"
    then show ?thesis using k(1) c [of "length str"] z [of "length str"] by (auto simp: text_length_def)
  qed
  have f: "k < unat limit \<and> umem s L (unat addr + k) = Some 0" using c [of k] z [of k] str(3) by (simp add: kl)
  define buf' where "buf' = splice buf 0 (Suc k) (\<lambda>i. the (umem s L (unat addr + i)))"
  have b: "str_at buf' 0 str"
    using c z kl str(2) by (auto simp: str_at_def buf'_def splice_def nth_append dest: nth_mem)
  then have "Cstring.strlen 0 buf' = Some (length str)" by (rule strlen_str_at)
  moreover have "copyinstr (pagetable (procs s p)) buf addr limit s = Ok (0, buf') s"
    using k(2) f by (simp add: copyinstr_def buf'_def Let_def)
  ultimately have "fetchstr addr buf limit s = Ok (of_nat (length str), buf') s"
    by (simp add: fetchstr_def as_proc_running [OF run])
  then show ?thesis using b by (rule that)
qed

section \<open>The vector\<close>

lemma uptr_read: "uptr M a v \<Longrightarrow> (\<forall>i < 8. M (a + i) \<noteq> None) \<and> ld64 (\<lambda>i. the (M (a + i))) 0 = v"
  by (simp add: uptr_def)

lemma fetch_word:
  assumes "running s p T L ps D" and "unat (sz (procs s p)) \<le> 2 ^ 38" and "unat addr + 8 \<le> unat (sz (procs s p))"
    and "uptr (umem s L) (unat addr) v"
  shows "fetchaddr addr s = Ok (0, v) s"
  using fetchaddr_ok [OF assms(1,2), of addr] assms(3) uptr_read [OF assms(4)] by simp

lemma next_slot: "unat a + 8 * n < 18446744073709551616 \<Longrightarrow> unat (a + 8 * of_nat n) = unat a + 8 * n" for a :: u64
  by (simp add: unat_word_ariths unat_of_nat mod_mult_right_eq mod_add_right_eq)

lemma fetch_step:
  assumes run: "running s p T L (q # ps) D" and small: "unat (sz (procs s p)) \<le> 2 ^ 38"
    and fit: "unat uargv + 8 * (length argv + 1) \<le> unat (sz (procs s p))"
    and vec: "uargs (umem s L) (unat uargv + 8 * length argv) (str # strs)"
    and old: "list_all2 (argument s (page_of L ` D \<union> set (q # ps))) argv fetched"
  obtains t where "\<And>k. fetch_args (Suc k) uargv argv s = fetch_args k uargv (argv @ [q]) t" "running t p T L ps D"
    "umem t L = umem s L" "procs t = procs s" "uargs (umem t L) (unat uargv + 8 * length (argv @ [q])) strs"
    "list_all2 (argument t (page_of L ` D \<union> set ps)) (argv @ [q]) (fetched @ [str])"
proof -
  have u: "unat (uargv + 8 * of_nat (length argv)) = unat uargv + 8 * length argv"
    by (rule next_slot) (use small fit in simp)
  obtain a where a: "uptr (umem s L) (unat uargv + 8 * length argv) a" "a \<noteq> 0" "ustring (umem s L) (unat a) str"
    "0 \<notin> set str" "length str < 4096" "uargs (umem s L) (unat uargv + 8 * length argv + 8) strs"
    using vec by auto
  have word: "fetchaddr (uargv + 8 * of_nat (length argv)) s = Ok (0, a) s"
    by (rule fetch_word [OF run small]) (use u fit a(1) in simp_all)
  have sp: "space s (pagetable (procs s p)) T L (q # ps) D" using run by (simp add: running_def)
  obtain t where t: "kalloc s = Ok q t" "space t (pagetable (procs s p)) T L ps D" "umem t L = umem s L" "touched s t {q}" "q \<noteq> 0"
    "\<And>buf. space (store_bytes q buf 4096 t) (pagetable (procs s p)) T L ps D"
    "\<And>buf. umem (store_bytes q buf 4096 t) L = umem s L" "\<And>buf. touched s (store_bytes q buf 4096 t) {q}"
    "\<And>buf str. str_at buf 0 str \<Longrightarrow> length str < 4096 \<Longrightarrow> argument (store_bytes q buf 4096 t) (page_of L ` D \<union> set ps) q str"
    using argument_page [OF sp] by blast
  note rt = running_touched [OF run t(4,2)]
  have lim: "length str < unat PGSIZE" "length str < 2 ^ 31" "ustring (umem t L) (unat a) str" using a(3,5) t(3) by (simp_all add: PGSIZE_def)
  obtain buf where buf: "fetchstr a (load_bytes q t) PGSIZE t = Ok (of_nat (length str), buf) t" "str_at buf 0 str"
    using fetchstr_ok [OF rt(1) lim(3) a(4) lim(1,2), of "load_bytes q t"] by blast
  let ?v = "store_bytes q buf 4096 t"
  note rv = running_touched [OF run t(8) [of buf] t(6) [of buf]]
  have "sint (of_nat (length str) :: u32) = int (length str)"
    using a(5) by (simp add: signed_of_nat signed_take_bit_int_eq_self)
  then have pos: "\<not> sint (of_nat (length str) :: u32) < 0" by simp
  have step: "fetch_args (Suc k) uargv argv s = fetch_args k uargv (argv @ [q]) ?v" for k
    using word a(2) t(1,5) buf(1) pos by (simp add: Let_def PGSIZE_def)
  have "list_all2 (argument ?v (page_of L ` D \<union> set ps)) (argv @ [q]) (fetched @ [str])"
  proof (rule list_all2_appendI)
    show "list_all2 (argument ?v (page_of L ` D \<union> set ps)) argv fetched"
      by (rule list_all2_mono [OF old]) (rule argument_mono [OF argument_touched [OF t(8) [of buf]]], auto)
    show "list_all2 (argument ?v (page_of L ` D \<union> set ps)) [q] [str]" using t(9) [OF buf(2) a(5)] by simp
  qed
  moreover have "uargs (umem ?v L) (unat uargv + 8 * length (argv @ [q])) strs" using a(6) unfolding t(7) by (simp add: ac_simps)
  ultimately show ?thesis using that [OF step rv(1) t(7) rv(2)] by blast
qed

lemma fetch_args_ok:
  assumes "running s p T L (qs @ ps) D" and "unat (sz (procs s p)) \<le> 2 ^ 38" and "length qs = length strs"
    and "unat uargv + 8 * (length argv + length strs + 1) \<le> unat (sz (procs s p))"
    and "uargs (umem s L) (unat uargv + 8 * length argv) strs"
    and "list_all2 (argument s (page_of L ` D \<union> set (qs @ ps))) argv fetched"
  shows "\<exists>t. fetch_args k uargv argv s = Ok (length strs < k, argv @ take k qs) t \<and> running t p T L (drop k qs @ ps) D \<and>
     umem t L = umem s L \<and> procs t = procs s \<and>
     list_all2 (argument t (page_of L ` D \<union> set (drop k qs @ ps))) (argv @ take k qs) (fetched @ take k strs)"
  using assms
proof (induction strs arbitrary: s qs k argv fetched)
  case Nil
  note run = Nil.prems(1)
  have u: "unat (uargv + 8 * of_nat (length argv)) = unat uargv + 8 * length argv"
    by (rule next_slot) (use Nil.prems(2,4) in simp)
  have "fetchaddr (uargv + 8 * of_nat (length argv)) s = Ok (0, 0) s"
    by (rule fetch_word [OF run Nil.prems(2)]) (use u Nil.prems(4,5) in simp_all)
  then show ?case using Nil.prems by (cases k) simp_all
next
  case (Cons str strs)
  show ?case
  proof (cases k)
    case 0
    then show ?thesis using Cons.prems by simp
  next
    case (Suc j)
    obtain q qs' where qs: "qs = q # qs'" "length qs' = length strs" using Cons.prems(3) by (cases qs) auto
    obtain t where t: "\<And>k. fetch_args (Suc k) uargv argv s = fetch_args k uargv (argv @ [q]) t" "running t p T L (qs' @ ps) D"
      "umem t L = umem s L" "procs t = procs s" "uargs (umem t L) (unat uargv + 8 * length (argv @ [q])) strs"
      "list_all2 (argument t (page_of L ` D \<union> set (qs' @ ps))) (argv @ [q]) (fetched @ [str])"
      by (rule fetch_step [of s p T L q "qs' @ ps" D uargv argv str strs fetched]) (use Cons.prems in \<open>simp_all add: qs\<close>)
    have fit: "unat uargv + 8 * (length (argv @ [q]) + length strs + 1) \<le> unat (sz (procs t p))"
      "unat (sz (procs t p)) \<le> 2 ^ 38" using Cons.prems(2,4) t(4) by simp_all
    show ?thesis using Cons.IH [OF t(2) fit(2) qs(2) fit(1) t(5,6), of j] by (simp add: Suc t(1,3,4) qs(1) del: fetch_args.simps)
  qed
qed

text \<open>C20: The argument vector of \<^verbatim>\<open>exec\<close> is read completely or refused: a vector in the process's memory with fewer than
  \<^verbatim>\<open>MAXARG\<close> strings of less than a page is copied into one fresh page per string, in order and with nothing of the
  process's memory changed, so that \<^verbatim>\<open>ustack\<close> always has room for the null pointer; a longer vector is refused.\<close>

theorem exec_args_fetched:
  assumes "running s p T L (qs @ ps) D" and "unat (sz (procs s p)) \<le> 2 ^ 38" and "length qs = length strs"
    and "unat uargv + 8 * (length strs + 1) \<le> unat (sz (procs s p))" and "uargs (umem s L) (unat uargv) strs"
  shows "\<exists>argv t. fetch_args MAXARG uargv [] s = Ok (length strs < MAXARG, argv) t \<and> length argv \<le> MAXARG \<and>
     umem t L = umem s L \<and> procs t = procs s \<and>
     (length strs < MAXARG \<longrightarrow> argv = qs \<and> running t p T L ps D \<and>
        list_all2 (argument t (page_of L ` D \<union> set ps)) argv strs)"
proof -
  have v: "unat uargv + 8 * (length ([] :: u64 list) + length strs + 1) \<le> unat (sz (procs s p))"
    "uargs (umem s L) (unat uargv + 8 * length ([] :: u64 list)) strs" using assms(4,5) by simp_all
  show ?thesis using fetch_args_ok [OF assms(1-3) v, of "[]" MAXARG] assms(3) by (auto simp: not_less)
qed

text \<open>Process 1 with two pages of memory that hold, from 4096, a vector of one string.\<close>

definition vector_bytes :: bytes where
  "vector_bytes = (st64 (\<lambda>_. 0) 0 4200)(104 := 104, 105 := 105)"

definition vector_state :: "memst \<Rightarrow> u64 \<Rightarrow> filest" where
  "vector_state m pt = upd_proc 1 (\<lambda>q. q\<lparr>sz := 8192\<rparr>) (pipe_state m pt)"

lemma vector_uargs:
  assumes M: "M = uput N 4096 200 vector_bytes"
  shows "uargs M 4096 [[104, 105]]"
proof -
  have z: "st64 (\<lambda>_. 0) 0 4200 i = 0" if "8 \<le> i" for i using that by (simp add: st64_def st32_def)
  have b: "ld64 vector_bytes (8 * 0) = 4200" "ld64 vector_bytes (8 * 1) = 0"
  proof -
    have "ld64 vector_bytes (8 * 0) = ld64 (st64 (\<lambda>_. 0) 0 4200) 0" by (rule ld64_shift) (simp add: vector_bytes_def)
    then show "ld64 vector_bytes (8 * 0) = 4200" by simp
    have "ld64 vector_bytes (8 * 1) = ld64 (\<lambda>_. 0) 0" by (rule ld64_shift) (simp add: vector_bytes_def z)
    then show "ld64 vector_bytes (8 * 1) = 0" by (simp add: ld64_def ld32_def)
  qed
  have p: "uptr M (4096 + 8 * 0) (ld64 vector_bytes (8 * 0))" "uptr M (4096 + 8 * 1) (ld64 vector_bytes (8 * 1))"
    by (rule uptr_put [OF M]; simp)+
  have "ustring M 4200 [104, 105]"
  proof -
    have "M (4200 + i) = Some (vector_bytes (104 + i))" if "i < 3" for i
      using uput_inside [of "104 + i" 200 N 4096 vector_bytes] that by (simp add: M)
    from this [of 0] this [of 1] this [of 2] have v: "M 4200 = Some 104" "M 4201 = Some 105" "M 4202 = Some 0"
      using z [of 106] by (simp_all add: vector_bytes_def)
    have "M (4200 + i) = Some (([104, 105] @ [0]) ! i)" if i: "i \<le> 2" for i
    proof -
      consider "i = 0" | "i = 1" | "i = 2" using i by linarith
      then show ?thesis by cases (use v in simp_all)
    qed
    then show ?thesis by (simp add: ustring_def)
  qed
  then show ?thesis using p unfolding b by (auto intro!: exI [of _ 4200])
qed

lemma vector_running:
  assumes "space m pt T L ps D"
  shows "running (vector_state m pt) 1 T L ps D" "umem (vector_state m pt) L = umem m L"
    "sz (procs (vector_state m pt) 1) = 8192"
proof -
  note c = pipe_state_fields [where m = m and pt = pt]
  have f: "pmem (vector_state m pt) = pmem m" "freelist (vector_state m pt) = freelist m" "kend (vector_state m pt) = kend m"
    "irq_ok (vector_state m pt)" "free L_kmem (vector_state m pt)" "me (vector_state m pt) = Some 1"
    "pagetable (procs (vector_state m pt) 1) = pt" "sz (procs (vector_state m pt) 1) = 8192"
    using c by (simp_all add: vector_state_def frame_simps)
  show "running (vector_state m pt) 1 T L ps D" "umem (vector_state m pt) L = umem m L" "sz (procs (vector_state m pt) 1) = 8192"
    using space_cong [OF assms f(1-3)] f(4-8) by (simp_all add: running_def)
qed

theorem exec_args_fetched_witness:
  "\<exists>(s :: filest) q t. fetch_args MAXARG 4096 [] s = Ok (True, [q]) t \<and> str_at (load_bytes q t) 0 [104, 105]"
proof -
  obtain s :: memst and To Lo old new ps where p: "pair s old To Lo {0, 1} new [(2, 0) \<mapsto> new] Map.empty {} ps"
    "8 \<le> length ps" "umem s Lo = zeroed (\<lambda>_. None) 0 2"
    using vm_user by blast
  have s: "space s old To Lo ps {0, 1}" using p(1) by (simp add: pair_def)
  have u: "unat (4096 :: u64) = 4096" "unat (200 :: u64) = 200" by simp_all
  have mapped: "umem s Lo (unat (4096 :: u64) + i) \<noteq> None" if "i < unat (200 :: u64)" for i
    using that unfolding u p(3) zeroed_def by auto
  obtain m :: memst where m: "space m old To Lo ps {0, 1}" "umem m Lo = uput (umem s Lo) 4096 200 vector_bytes"
  proof (rule copyout_mapped [OF s, of 200 4096 vector_bytes])
    note ob = that
    show "umem s Lo (unat (4096 :: u64) + i) \<noteq> None" if "i < unat (200 :: u64)" for i using mapped that .
    show ?thesis if "space t old To Lo ps {0, 1}" "umem t Lo = uput (umem s Lo) (unat (4096 :: u64)) (unat (200 :: u64)) vector_bytes" for t :: memst
      by (rule ob [OF that [unfolded u]])
  qed
  note run = vector_running [OF m(1)]
  obtain q qs where q: "ps = [q] @ qs" using p(2) by (cases ps) auto
  have "uargs (umem (vector_state m old) Lo) (unat (4096 :: u64)) [[104, 105]]"
    unfolding run(2) u by (rule vector_uargs [OF m(2)])
  moreover have "unat (sz (procs (vector_state m old) 1)) \<le> 2 ^ 38"
    "unat (4096 :: u64) + 8 * (length [[104, 105 :: u8]] + 1) \<le> unat (sz (procs (vector_state m old) 1))" unfolding run(3) by simp_all
  moreover have "length [q] = length [[104, 105 :: u8]]" by simp
  ultimately obtain argv t where t: "fetch_args MAXARG 4096 [] (vector_state m old) = Ok (length [[104, 105 :: u8]] < MAXARG, argv) t"
    "length [[104, 105 :: u8]] < MAXARG \<longrightarrow> argv = [q] \<and> running t 1 To Lo qs {0, 1} \<and>
       list_all2 (argument t (page_of Lo ` {0, 1} \<union> set qs)) argv [[104, 105]]"
    using exec_args_fetched [OF run(1) [unfolded q]] by blast
  have "length [[104, 105 :: u8]] < MAXARG" by (simp add: MAXARG_def)
  then have "argv = [q]" "argument t (page_of Lo ` {0, 1} \<union> set qs) q [104, 105]" using t(2) by auto
  then show ?thesis using t(1) \<open>length [[104, 105 :: u8]] < MAXARG\<close> unfolding argument_def by auto
qed

end
