(* ===== verification/Trapcalls.thy ===== *)
theory Trapcalls
  imports Trap Fetch
begin

text \<open>
  System calls seen from user space: from the trap to the return to user mode.
\<close>

section \<open>The state at a trap\<close>

text \<open>
  Process \<open>p\<close> traps from user mode: no lock is held.  The hardware has switched interrupts off, so \<^verbatim>\<open>intena\<close> may be
  stale; the first \<^verbatim>\<open>push_off\<close> overwrites it.
\<close>

definition from_user :: "'a procst_scheme \<Rightarrow> nat \<Rightarrow> bool" where
  "from_user s p \<longleftrightarrow> noff (mycpu s) = 0 \<and> (\<forall>l. free l s) \<and> me s = Some p \<and> p < NPROC \<and>
     pstate (procs s p) = RUNNING \<and> pkilled (procs s p) = 0"

lemma myproc_fresh: "noff (mycpu s) = 0 \<Longrightarrow> myproc s = Ok (me s) (fresh_irq s)"
proof -
  assume n: "noff (mycpu s) = 0"
  have c: "(cpus s (hart s))\<lparr>intena := b, noff := 0\<rparr> = (cpus s (hart s))\<lparr>intena := b\<rparr>" for b
    using n by (cases "cpus s (hart s)") (simp add: irq_defs)
  have e: "sie s = b \<Longrightarrow> s\<lparr>cpus := x, sie := b\<rparr> = s\<lparr>cpus := x\<rparr>" "sie s = b \<Longrightarrow> s\<lparr>sie := b, cpus := x\<rparr> = s\<lparr>cpus := x\<rparr>" for x b
    by (rule lockst.equality; simp)+
  have n': "noff (cpus s (hart s)) = 0" using n by (simp add: irq_defs)
  show ?thesis
    by (cases "sie s") (simp_all add: myproc_def fresh_irq_def me_def Let_def irq_defs n' c e)
qed

lemma fresh_irq_proc [frame_simps]: "me (fresh_irq s) = me s" "procs (fresh_irq s) = procs s"
  by (simp_all add: me_def fresh_irq_def irq_defs)

lemma fresh_irq_mem [frame_simps]: "pmem (fresh_irq s) = pmem s"
  by (simp add: fresh_irq_def irq_defs)

lemma as_proc_fresh: "from_user s p \<Longrightarrow> as_proc f s = f p (fresh_irq s)"
  by (simp add: as_proc_def from_user_def myproc_fresh)

lemma from_user_fresh: "from_user s p \<Longrightarrow> from_user (fresh_irq s) p" "from_user s p \<Longrightarrow> quiet (fresh_irq s)"
  by (simp_all add: from_user_def quiet_def frame_simps fresh_irq_ok)

lemma from_user_quiet: "from_user s p \<and> irq_ok s \<longleftrightarrow> quiet s \<and> me s = Some p \<and> pkilled (procs s p) = 0"
  by (auto simp: from_user_def quiet_def)

lemma from_user_intr_on [simp]: "from_user (intr_on s) p \<longleftrightarrow> from_user s p"
  by (simp add: from_user_def free_def me_def irq_defs)

lemma from_user_stvec [simp]: "from_user (s\<lparr>c_stvec := x\<rparr>) p \<longleftrightarrow> from_user s p"
  by (simp add: from_user_def free_def me_def irq_defs)

lemma from_user_set_tf [simp]: "from_user (set_tf p r v s) q \<longleftrightarrow> from_user s q"
  by (simp add: from_user_def set_tf_def wr64_def free_def me_def irq_defs)

lemma quiet_set_tf [simp]: "quiet (set_tf p r v s) \<longleftrightarrow> quiet s"
  by (simp add: quiet_def set_tf_def wr64_def irq_ok_def free_def me_def irq_defs)

lemma set_a0_set_tf: "set_a0 p v s = set_tf p TF_a0 v s"
  by (simp add: set_a0_def set_tf_def)

lemma set_tf_fields [simp]:
  "procs (set_tf p r v s) = procs s" "me (set_tf p r v s) = me s" "irq_ok (set_tf p r v s) \<longleftrightarrow> irq_ok s"
  "free l (set_tf p r v s) \<longleftrightarrow> free l s" "hart (set_tf p r v s) = hart s" "sie (set_tf p r v s) = sie s"
  by (simp_all add: set_tf_def wr64_def irq_ok_def free_def me_def irq_defs)

lemma set_tf_files [simp]: "ftable (set_tf p r v s) = ftable s"
  by (simp add: set_tf_def wr64_def)

lemma set_tf_regs [simp]:
  "c_sstatus (set_tf p r v s) = c_sstatus s" "c_sepc (set_tf p r v s) = c_sepc s" "c_scause (set_tf p r v s) = c_scause s"
  "c_satp (set_tf p r v s) = c_satp s" "c_stvec (set_tf p r v s) = c_stvec s"
  by (simp_all add: set_tf_def wr64_def)

section \<open>A call that returns\<close>

text \<open>The state in which a handler runs.\<close>

definition trap_saved :: "entries \<Rightarrow> nat \<Rightarrow> 'a trapst_scheme \<Rightarrow> 'a trapst_scheme" where
  "trap_saved E p s = set_tf p TF_epc (c_sepc s) (fresh_irq (s\<lparr>c_stvec := a_kernelvec E\<rparr>))"

definition call_state :: "entries \<Rightarrow> nat \<Rightarrow> 'a trapst_scheme \<Rightarrow> 'a trapst_scheme" where
  "call_state E p s =
     (let u = trap_saved E p s in fresh_irq (intr_on (set_tf p TF_epc (get_tf p TF_epc u + 4) u)))"

lemma exit_if_alive: "quiet s \<Longrightarrow> p < NPROC \<Longrightarrow> pkilled (procs s p) = 0 \<Longrightarrow> exit_if_killed p s = Ok () s"
  by (simp add: exit_if_killed_def quiet_def killed_ok)

lemma fresh_irq_stvec: "fresh_irq (s\<lparr>c_stvec := x\<rparr>) = (fresh_irq s)\<lparr>c_stvec := x\<rparr>"
  by (simp add: fresh_irq_def irq_defs)

lemma fresh_irq_regs [simp]:
  "c_sstatus (fresh_irq s) = c_sstatus s" "c_sepc (fresh_irq s) = c_sepc s" "c_scause (fresh_irq s) = c_scause s"
  by (simp_all add: fresh_irq_def irq_defs)

lemma usertrap_call:
  assumes s: "from_user s p" and csr: "c_sstatus s AND SSTATUS_SPP = 0" "c_scause s = 8"
    and h: "handler_of (ucast (get_tf p TF_a7 (call_state E p s))) = Some h" "h (call_state E p s) = Ok v t"
    and t: "quiet t" "me t = Some p" "pkilled (procs t p) = 0"
  shows "usertrap E vdi s = usertrapret E (set_tf p TF_a0 v t)"
proof -
  let ?u = "trap_saved E p s"
  have s1: "from_user (s\<lparr>c_stvec := a_kernelvec E\<rparr>) p" using s by simp
  have u: "from_user ?u p" "quiet ?u" "c_scause ?u = 8"
    using from_user_fresh [OF s1] csr(2) by (simp_all add: trap_saved_def)
  have p: "p < NPROC" using s by (simp add: from_user_def)
  have alive: "exit_if_killed p ?u = Ok () ?u" by (rule exit_if_alive [OF u(2) p]) (use u(1) in \<open>simp add: from_user_def\<close>)
  have u2: "from_user (intr_on (set_tf p TF_epc (get_tf p TF_epc ?u + 4) ?u)) p" using u(1) by simp
  have call: "syscall (intr_on (set_tf p TF_epc (get_tf p TF_epc ?u + 4) ?u)) = Ok () (set_tf p TF_a0 v t)"
    using h unfolding syscall_def as_proc_fresh [OF u2]
    by (simp add: call_state_def Let_def set_a0_set_tf get_tf_def)
  have stop: "exit_if_killed p (set_tf p TF_a0 v t) = Ok () (set_tf p TF_a0 v t)"
    by (rule exit_if_alive [OF _ p]) (use t in simp_all)
  have "usertrap E vdi s =
     kbind (if c_scause ?u = 8 then
                   kthen (exit_if_killed p ?u) (\<lambda>s.
                   kthen (syscall (intr_on (set_tf p TF_epc (get_tf p TF_epc s + 4) s))) (\<lambda>s. Ok 0 s))
                 else
                   kbind (devintr vdi ?u) (\<lambda>which_dev s.
                     if which_dev \<noteq> 0 then Ok which_dev s
                     else
                       kthen (printf (Some (''usertrap(): unexpected scause %p pid=%d'' @ [newline]))
                         [V_uint64 (c_scause s), V_int (pid (procs s p))] s) (\<lambda>s.
                       kthen (printf (Some (''            sepc=%p stval=%p'' @ [newline]))
                         [V_uint64 (c_sepc s), V_uint64 (c_stval s)] s) (\<lambda>s.
                       kthen (setkilled p s) (\<lambda>s. Ok 0 s)))))
       (\<lambda>which_dev s. usertrap_end E p which_dev s)"
    unfolding usertrap_def as_proc_fresh [OF s1] using csr(1) by (simp only: Let_def if_False refl trap_saved_def fresh_irq_regs) (simp add: trap_saved_def fresh_irq_stvec)
  also have "\<dots> = usertrapret E (set_tf p TF_a0 v t)"
    using u(3) alive call stop by (simp add: usertrap_end_def)
  finally show ?thesis .
qed

section \<open>Registers in the trap frame\<close>

definition frame_fits :: "nat \<Rightarrow> 'a memst_scheme \<Rightarrow> bool" where
  "frame_fits p s \<longleftrightarrow> unat (trapframe (procs s p)) + TF_SIZE < 18446744073709551616"

text \<open>Two registers of the frame that do not overlap.\<close>

definition apart :: "u64 \<Rightarrow> u64 \<Rightarrow> bool" where
  "apart r q \<longleftrightarrow> unat r + 8 \<le> unat q \<or> unat q + 8 \<le> unat r"

lemma unat_reg: "frame_fits p s \<Longrightarrow> unat r \<le> 280 \<Longrightarrow> unat (trapframe (procs s p) + r) = unat (trapframe (procs s p)) + unat r"
  by (simp add: frame_fits_def TF_SIZE_def unat_word_ariths)

lemma get_set_same [simp]: "get_tf p r (set_tf p r v s) = v"
  by (simp add: get_tf_def set_tf_def rd64_def wr64_def)

lemma get_set_apart:
  assumes "frame_fits p s" and "unat r \<le> 280" and "unat q \<le> 280" and "apart r q"
  shows "get_tf p r (set_tf p q v s) = get_tf p r s"
  using unat_reg [OF assms(1,2)] unat_reg [OF assms(1,3)] assms(4)
  by (simp add: get_tf_def set_tf_def rd64_def wr64_def apart_def ld64_st64_away)

lemma set_tf_outside:
  assumes "frame_fits p s" and "unat q \<le> 280"
    and "a < unat (trapframe (procs s p)) \<or> unat (trapframe (procs s p)) + TF_SIZE \<le> a"
  shows "pmem (set_tf p q v s) a = pmem s a"
  using unat_reg [OF assms(1,2)] assms(2,3) by (auto simp: set_tf_def wr64_def TF_SIZE_def intro!: st64_outside)

lemma frame_fits_set_tf [simp]: "frame_fits p (set_tf q r v s) \<longleftrightarrow> frame_fits p s"
  by (simp add: frame_fits_def)

lemmas tf_regs = TF_epc_def TF_a0_def TF_a7_def TF_kernel_satp_def TF_kernel_sp_def TF_kernel_trap_def TF_kernel_hartid_def

text \<open>Registers of the user: all but the four words that the kernel keeps in the frame.\<close>

definition user_reg :: "u64 \<Rightarrow> bool" where
  "user_reg r \<longleftrightarrow> unat r \<le> 280 \<and> (r = TF_epc \<or> 40 \<le> unat r)"

lemma user_reg_apart:
  "user_reg r \<Longrightarrow> unat r \<le> 280 \<and> apart r TF_kernel_satp \<and> apart r TF_kernel_sp \<and> apart r TF_kernel_trap \<and> apart r TF_kernel_hartid"
  by (auto simp: user_reg_def apart_def tf_regs)

lemma kernel_words_apart:
  "apart TF_kernel_satp TF_kernel_sp" "apart TF_kernel_satp TF_kernel_trap" "apart TF_kernel_satp TF_kernel_hartid"
  "apart TF_kernel_sp TF_kernel_trap" "apart TF_kernel_sp TF_kernel_hartid" "apart TF_kernel_trap TF_kernel_hartid"
  by (simp_all add: apart_def tf_regs)

text \<open>
  What the process finds when it runs again: the control registers set for user mode, the words of the frame that the
  next trap will need, the user's registers; nothing else has changed.
\<close>

definition back_to_user :: "entries \<Rightarrow> nat \<Rightarrow> 'a trapst_scheme \<Rightarrow> 'a trapst_scheme \<Rightarrow> bool" where
  "back_to_user E p s t \<longleftrightarrow>
     t = s\<lparr>pmem := pmem t, sie := False, c_stvec := TRAMPOLINE + (a_uservec E - a_trampoline E),
       c_sstatus := (c_sstatus s AND NOT SSTATUS_SPP) OR SSTATUS_SPIE, c_sepc := get_tf p TF_epc s\<rparr> \<and>
     get_tf p TF_kernel_satp t = c_satp s \<and> get_tf p TF_kernel_sp t = kstack (procs s p) + PGSIZE \<and>
     get_tf p TF_kernel_trap t = a_usertrap E \<and> get_tf p TF_kernel_hartid t = of_nat (hart s) \<and>
     (\<forall>r. user_reg r \<longrightarrow> get_tf p r t = get_tf p r s) \<and>
     (\<forall>a. a < unat (trapframe (procs s p)) \<or> unat (trapframe (procs s p)) + TF_SIZE \<le> a \<longrightarrow> pmem t a = pmem s a)"

lemma usertrapret_ok:
  assumes "quiet s" and "me s = Some p" and fits: "frame_fits p s"
  shows "\<exists>t. usertrapret E s = Ok (TRAMPOLINE + (a_userret E - a_trampoline E), MAKE_SATP (pagetable (procs s p))) t \<and>
     back_to_user E p s t"
proof -
  let ?s1 = "(intr_off s)\<lparr>c_stvec := TRAMPOLINE + (a_uservec E - a_trampoline E)\<rparr>"
  let ?s2 = "set_tf p TF_kernel_satp (c_satp s) ?s1"
  let ?s3 = "set_tf p TF_kernel_sp (kstack (procs s p) + PGSIZE) ?s2"
  let ?s4 = "set_tf p TF_kernel_trap (a_usertrap E) ?s3"
  let ?s5 = "set_tf p TF_kernel_hartid (of_nat (hart s)) ?s4"
  let ?x = "(c_sstatus s AND NOT SSTATUS_SPP) OR SSTATUS_SPIE"
  let ?t = "?s5\<lparr>c_sstatus := ?x, c_sepc := get_tf p TF_epc (?s5\<lparr>c_sstatus := ?x\<rparr>)\<rparr>"
  have i: "irq_ok s" using assms(1) by (simp add: quiet_def)
  have o: "procs (intr_off s) = procs s" "pmem (intr_off s) = pmem s" "hart (intr_off s) = hart s" "ftable (intr_off s) = ftable s"
    "c_satp (intr_off s) = c_satp s" "c_sstatus (intr_off s) = c_sstatus s" "sie (intr_off s) = False"
    by (simp_all add: irq_defs)
  have run: "usertrapret E s = Ok (TRAMPOLINE + (a_userret E - a_trampoline E), MAKE_SATP (pagetable (procs s p))) ?t"
    using i assms(2) by (simp add: usertrapret_def as_proc_def myproc_ok Let_def o)
  have f: "frame_fits p ?s1" using fits by (simp add: frame_fits_def o)
  have g1: "get_tf p r ?s1 = get_tf p r s" for r by (simp add: get_tf_def rd64_def o)
  have gt: "get_tf p r (?s5\<lparr>c_sstatus := ?x\<rparr>) = get_tf p r ?s5" "get_tf p r ?t = get_tf p r ?s5" for r
    by (simp_all add: get_tf_def rd64_def)
  have small: "unat TF_kernel_satp \<le> 280" "unat TF_kernel_sp \<le> 280" "unat TF_kernel_trap \<le> 280" "unat TF_kernel_hartid \<le> 280"
    by (simp_all add: tf_regs)
  have g: "get_tf p r ?s5 = get_tf p r s" if "user_reg r" for r
    using user_reg_apart [OF that] f by (simp add: get_set_apart small g1)
  have m: "pmem ?t a = pmem s a" if "a < unat (trapframe (procs s p)) \<or> unat (trapframe (procs s p)) + TF_SIZE \<le> a" for a
    using that f by (simp add: set_tf_outside tf_regs o)
  have e: "user_reg TF_epc" by (simp add: user_reg_def tf_regs)
  have k: "get_tf p TF_kernel_satp ?s5 = c_satp s" "get_tf p TF_kernel_sp ?s5 = kstack (procs s p) + PGSIZE"
    "get_tf p TF_kernel_trap ?s5 = a_usertrap E" "get_tf p TF_kernel_hartid ?s5 = of_nat (hart s)"
    using f by (simp_all add: get_set_apart small kernel_words_apart)
  have ep: "get_tf p TF_epc (?s5\<lparr>c_sstatus := ?x\<rparr>) = get_tf p TF_epc s" using gt(1) g [OF e] by simp
  have eq: "?t = s\<lparr>pmem := pmem ?t, sie := False, c_stvec := TRAMPOLINE + (a_uservec E - a_trampoline E),
       c_sstatus := ?x, c_sepc := get_tf p TF_epc s\<rparr>"
    unfolding ep by (rule trapst.equality) (simp_all add: o set_tf_def wr64_def irq_defs)
  have k': "get_tf p TF_kernel_satp ?t = c_satp s" "get_tf p TF_kernel_sp ?t = kstack (procs s p) + PGSIZE"
    "get_tf p TF_kernel_trap ?t = a_usertrap E" "get_tf p TF_kernel_hartid ?t = of_nat (hart s)"
    by (rule trans [OF gt(2) k(1)] trans [OF gt(2) k(2)] trans [OF gt(2) k(3)] trans [OF gt(2) k(4)])+
  have g': "\<forall>r. user_reg r \<longrightarrow> get_tf p r ?t = get_tf p r s" by (intro allI impI trans [OF gt(2)] g)
  have m': "\<forall>a. a < unat (trapframe (procs s p)) \<or> unat (trapframe (procs s p)) + TF_SIZE \<le> a \<longrightarrow> pmem ?t a = pmem s a"
    using m by blast
  have "back_to_user E p s ?t"
    unfolding back_to_user_def by (intro conjI eq k' g' m')
  then show ?thesis using run by blast
qed

lemma spp_clear: "((x AND NOT SSTATUS_SPP) OR SSTATUS_SPIE) AND SSTATUS_SPP = 0"
proof (rule bit_word_eqI)
  have d: "SSTATUS_SPIE AND SSTATUS_SPP = 0" by (simp add: SSTATUS_SPIE_def SSTATUS_SPP_def)
  have "\<not> (bit SSTATUS_SPIE n \<and> bit SSTATUS_SPP n)" for n
    using arg_cong [OF d, of "\<lambda>w. bit w n"] by (simp add: bit_and_iff)
  then show "bit (((x AND NOT SSTATUS_SPP) OR SSTATUS_SPIE) AND SSTATUS_SPP) n \<longleftrightarrow> bit (0 :: u64) n" for n
    by (auto simp: bit_simps)
qed

section \<open>dup\<close>

lemma fresh_irq_files [simp]: "ftable (fresh_irq s) = ftable s"
  by (simp add: fresh_irq_def irq_defs)

lemma call_state_facts:
  assumes "from_user s p" and "frame_fits p s"
  shows "quiet (call_state E p s)" "me (call_state E p s) = Some p" "procs (call_state E p s) = procs s"
    "ftable (call_state E p s) = ftable s"
    "call_state E p s = s\<lparr>pmem := pmem (call_state E p s), c_stvec := a_kernelvec E, sie := True,
       cpus := (cpus s)(hart s := (mycpu s)\<lparr>intena := True\<rparr>)\<rparr>"
    "get_tf p TF_epc (call_state E p s) = c_sepc s + 4"
    "unat r \<le> 280 \<Longrightarrow> apart r TF_epc \<Longrightarrow> get_tf p r (call_state E p s) = get_tf p r s"
    "a < unat (trapframe (procs s p)) \<or> unat (trapframe (procs s p)) + TF_SIZE \<le> a \<Longrightarrow>
       pmem (call_state E p s) a = pmem s a"
proof -
  let ?s1 = "fresh_irq (s\<lparr>c_stvec := a_kernelvec E\<rparr>)"
  let ?u = "trap_saved E p s" let ?v = "set_tf p TF_epc (get_tf p TF_epc ?u + 4) ?u"
  have epc: "unat TF_epc \<le> 280" by (simp add: tf_regs)
  have o: "procs (intr_on w) = procs w" "pmem (intr_on w) = pmem w" "ftable (intr_on w) = ftable w" for w :: "'a trapst_scheme"
    by (simp_all add: irq_defs)
  have f1: "frame_fits p ?s1" "procs ?s1 = procs s" "pmem ?s1 = pmem s" using assms(2) by (simp_all add: frame_fits_def frame_simps)
  have fu: "frame_fits p ?u" "procs ?u = procs s" using f1 by (simp_all add: trap_saved_def)
  have g0: "get_tf p r (call_state E p s) = get_tf p r ?v" for r
    by (simp add: call_state_def Let_def get_tf_def rd64_def frame_simps o)
  have g1: "get_tf p r ?s1 = get_tf p r s" for r by (simp add: get_tf_def rd64_def frame_simps)
  have v: "from_user (intr_on ?v) p" using assms(1) from_user_fresh(1) [of "s\<lparr>c_stvec := a_kernelvec E\<rparr>" p] by (simp add: trap_saved_def)
  show "quiet (call_state E p s)" using from_user_fresh(2) [OF v] by (simp add: call_state_def Let_def)
  show "me (call_state E p s) = Some p"
    using from_user_fresh(1) [OF v] by (simp add: call_state_def Let_def from_user_def)
  show "procs (call_state E p s) = procs s" "ftable (call_state E p s) = ftable s"
    by (simp_all add: call_state_def Let_def trap_saved_def frame_simps o)
  have i: "(c\<lparr>intena := a\<rparr>)\<lparr>intena := b\<rparr> = c\<lparr>intena := b\<rparr>" for a b and c :: cpu by simp
  show "call_state E p s = s\<lparr>pmem := pmem (call_state E p s), c_stvec := a_kernelvec E, sie := True,
       cpus := (cpus s)(hart s := (mycpu s)\<lparr>intena := True\<rparr>)\<rparr>"
    by (rule trapst.equality) (simp_all add: call_state_def trap_saved_def Let_def fresh_irq_def set_tf_def wr64_def irq_defs)
  show "get_tf p TF_epc (call_state E p s) = c_sepc s + 4" unfolding g0 by (simp add: trap_saved_def)
  show "get_tf p r (call_state E p s) = get_tf p r s" if "unat r \<le> 280" "apart r TF_epc"
    unfolding g0 using get_set_apart [OF fu(1) that(1) epc that(2)] get_set_apart [OF f1(1) that(1) epc that(2)]
    by (simp add: trap_saved_def g1)
  show "pmem (call_state E p s) a = pmem s a"
    if "a < unat (trapframe (procs s p)) \<or> unat (trapframe (procs s p)) + TF_SIZE \<le> a"
  proof -
    have "pmem (call_state E p s) a = pmem ?v a" by (simp add: call_state_def Let_def frame_simps o)
    also have "\<dots> = pmem ?u a" by (rule set_tf_outside [OF fu(1) epc]) (use that in \<open>simp add: fu\<close>)
    also have "\<dots> = pmem ?s1 a" unfolding trap_saved_def by (rule set_tf_outside [OF f1(1) epc]) (use that in \<open>simp add: f1\<close>)
    finally show ?thesis by (simp add: f1)
  qed
qed

text \<open>Which descriptor \<^verbatim>\<open>dup\<close> gives for the descriptor \<open>fd\<close>, and for which file; \<open>None\<close> is an error.\<close>

primrec dup_result :: "(nat \<Rightarrow> nat option) \<Rightarrow> int \<Rightarrow> (nat \<times> nat) option \<Rightarrow> bool" where
  "dup_result fds fd None \<longleftrightarrow> \<not> (0 \<le> fd \<and> fd < int NOFILE \<and> fds (nat fd) \<noteq> None \<and> (\<exists>d < NOFILE. fds d = None))"
| "dup_result fds fd (Some r) \<longleftrightarrow>
     (case r of (d, f) \<Rightarrow> 0 \<le> fd \<and> fd < int NOFILE \<and> fds (nat fd) = Some f \<and> d < NOFILE \<and> fds d = None \<and> (\<forall>i < d. fds i \<noteq> None))"

definition dup_state :: "nat \<Rightarrow> nat \<Rightarrow> nat \<Rightarrow> 'a filest_scheme \<Rightarrow> 'a filest_scheme" where
  "dup_state p d f s = upd_file f (\<lambda>x. x\<lparr>f_ref := f_ref x + 1\<rparr>) (upd_proc p (\<lambda>q. q\<lparr>ofile := (ofile q)(d := Some f)\<rparr>) s)"

lemma argfd_ok:
  assumes "quiet s" and "me s = Some p"
  shows "argfd 0 s = Ok (if 0 \<le> sint (ucast (get_tf p TF_a0 s) :: u32) \<and> sint (ucast (get_tf p TF_a0 s) :: u32) < int NOFILE
     then map_option (Pair (unat (ucast (get_tf p TF_a0 s) :: u32))) (ofile (procs s p) (unat (ucast (get_tf p TF_a0 s) :: u32))) else None) s"
proof -
  have i: "irq_ok s" using assms(1) by (simp add: quiet_def)
  have "argint 0 s = Ok (ucast (get_tf p TF_a0 s)) s"
    using i assms(2) by (simp add: argint_def argraw_def as_proc_def myproc_ok get_tf_def)
  then show ?thesis
    using i assms(2) by (auto simp: argfd_def as_proc_def myproc_ok split: option.split)
qed

lemma file_frame:
  "ftable (grab l s) = ftable s" "upd_file f g (grab l s) = grab l (upd_file f g s)" "ftable (upd_proc p h s) = ftable s"
  "irq_ok (upd_file f g s) \<longleftrightarrow> irq_ok s" "free l (upd_file f g s) \<longleftrightarrow> free l s" "quiet (upd_file f g s) \<longleftrightarrow> quiet s"
  "me (upd_file f g s) = me s" "procs (upd_file f g s) = procs s" "pmem (upd_file f g s) = pmem s"
  "pmem (upd_proc p h s) = pmem s"
  by (simp_all add: upd_file_def upd_proc_def grab_def quiet_def irq_ok_def free_def me_def Let_def irq_defs)

lemma sys_dup_ok:
  assumes q: "quiet s" and me: "me s = Some p" and refs: "\<And>d f. ofile (procs s p) d = Some f \<Longrightarrow> 1 \<le> f_ref (ftable s f)"
  shows "\<exists>r. dup_result (ofile (procs s p)) (sint (ucast (get_tf p TF_a0 s) :: u32)) r \<and>
     sys_dup s = (case r of None \<Rightarrow> Ok (- 1) s | Some (d, f) \<Rightarrow> Ok (of_nat d) (dup_state p d f s))"
proof -
  let ?w = "ucast (get_tf p TF_a0 s) :: u32"
  have i: "irq_ok s" "\<And>l. free l s" using q by (simp_all add: quiet_def)
  have n: "nat (sint ?w) = unat ?w" if "0 \<le> sint ?w"   proof -
    have "sint ?w < 2 ^ 32" using sint_lt [of ?w] by simp
    then have "take_bit 32 (sint ?w) = sint ?w" using that by (simp add: take_bit_int_eq_self)
    then have "uint ?w = sint ?w" using uint_sint [of ?w] by simp
    then show ?thesis by (simp only: unat_eq_nat_uint)
  qed
  show ?thesis
  proof (cases "0 \<le> sint ?w \<and> sint ?w < int NOFILE \<and> ofile (procs s p) (unat ?w) \<noteq> None")
    case False
    then have "dup_result (ofile (procs s p)) (sint ?w) None" using n by auto
    moreover have "sys_dup s = Ok (- 1) s" using False argfd_ok [OF q me] by (auto simp: sys_dup_def)
    ultimately show ?thesis by (intro exI [of _ None]) simp
  next
    case True
    then obtain f where f: "ofile (procs s p) (unat ?w) = Some f" by auto
    have a: "argfd 0 s = Ok (Some (unat ?w, f)) s" using True argfd_ok [OF q me] f by simp
    show ?thesis
    proof (cases "find (\<lambda>fd. ofile (procs s p) fd = None) [0..<NOFILE]")
      case None
      then have "dup_result (ofile (procs s p)) (sint ?w) None" by (auto simp: find_upt_None)
      moreover have "sys_dup s = Ok (- 1) s" using None a i me by (simp add: sys_dup_def fdalloc_def as_proc_def myproc_ok)
      ultimately show ?thesis by (intro exI [of _ None]) simp
    next
      case (Some d)
      let ?u = "upd_proc p (\<lambda>q. q\<lparr>ofile := (ofile q)(d := Some f)\<rparr>) s"
      have "fdalloc f s = Ok (Some d) ?u" using Some i me by (simp add: fdalloc_def as_proc_def myproc_ok)
      moreover have "filedup f ?u = Ok f (dup_state p d f s)"
        using i refs [OF f] by (simp add: filedup_def dup_state_def file_frame kernel_simps frame_simps)
      ultimately have "sys_dup s = Ok (of_nat d) (dup_state p d f s)" using a by (simp add: sys_dup_def)
      moreover have "dup_result (ofile (procs s p)) (sint ?w) (Some (d, f))" using Some True f n by (auto simp: find_upt_Some)
      ultimately show ?thesis by (intro exI [of _ "Some (d, f)"]) simp
    qed
  qed
qed

lemma dup_state_facts:
  "procs (dup_state p d f s) = (procs s)(p := (procs s p)\<lparr>ofile := (ofile (procs s p))(d := Some f)\<rparr>)"
  "ftable (dup_state p d f s) = (ftable s)(f := (ftable s f)\<lparr>f_ref := f_ref (ftable s f) + 1\<rparr>)"
  "quiet (dup_state p d f s) \<longleftrightarrow> quiet s" "me (dup_state p d f s) = me s" "pmem (dup_state p d f s) = pmem s"
proof -
  show "quiet (dup_state p d f s) \<longleftrightarrow> quiet s"
    by (simp add: dup_state_def file_frame) (auto simp: quiet_def frame_simps)
qed (simp_all add: dup_state_def file_frame frame_simps, simp add: upd_file_def upd_proc_def)

lemma dup_state_eq:
  "dup_state p d f s = s\<lparr>procs := (procs s)(p := (procs s p)\<lparr>ofile := (ofile (procs s p))(d := Some f)\<rparr>),
     ftable := (ftable s)(f := (ftable s f)\<lparr>f_ref := f_ref (ftable s f) + 1\<rparr>)\<rparr>"
  by (simp add: dup_state_def upd_file_def upd_proc_def)

text \<open>The state after the handler and after the return, field by field.\<close>

lemma dup_call_eq:
  fixes s :: "'a trapst_scheme"
  assumes "c = s\<lparr>pmem := m, c_stvec := x, sie := b, cpus := y\<rparr>"
  shows "c\<lparr>procs := P, ftable := F\<rparr> = s\<lparr>pmem := m, procs := P, ftable := F, c_stvec := x, sie := b, cpus := y\<rparr>"
    and "c = s\<lparr>pmem := m, procs := procs s, ftable := ftable s, c_stvec := x, sie := b, cpus := y\<rparr>"
  unfolding assms by (rule trapst.equality; simp)+

lemma returned_eq:
  fixes s :: "'a trapst_scheme"
  assumes "t = (set_tf p r v w)\<lparr>pmem := pmem t, sie := False, c_stvec := x,
       c_sstatus := (c_sstatus (set_tf p r v w) AND NOT SSTATUS_SPP) OR SSTATUS_SPIE, c_sepc := get_tf p TF_epc (set_tf p r v w)\<rparr>"
    and "w = s\<lparr>pmem := m, procs := P, ftable := F, c_stvec := y, sie := b, cpus := z\<rparr>"
    and "get_tf p TF_epc (set_tf p r v w) = e"
  shows "t = s\<lparr>pmem := pmem t, procs := P, ftable := F, sie := False, cpus := z, c_stvec := x,
     c_sstatus := (c_sstatus s AND NOT SSTATUS_SPP) OR SSTATUS_SPIE, c_sepc := e\<rparr>"
proof -
  define q where "q = pmem t"
  have "t = (set_tf p r v w)\<lparr>pmem := q, sie := False, c_stvec := x,
       c_sstatus := (c_sstatus w AND NOT SSTATUS_SPP) OR SSTATUS_SPIE, c_sepc := e\<rparr>"
    using assms(1) unfolding assms(3) q_def by simp
  also have "\<dots> = s\<lparr>pmem := q, procs := P, ftable := F, sie := False, cpus := z, c_stvec := x,
     c_sstatus := (c_sstatus s AND NOT SSTATUS_SPP) OR SSTATUS_SPIE, c_sepc := e\<rparr>"
    unfolding assms(2) set_tf_def wr64_def by (rule trapst.equality) simp_all
  finally show ?thesis unfolding q_def .
qed

text \<open>C21: A \<^verbatim>\<open>dup\<close> executed by a user program, from its \<^verbatim>\<open>ecall\<close> to the instruction after it: if its argument is an open
  descriptor and one is free, register \<^verbatim>\<open>a0\<close> holds the lowest free descriptor, which now stands for the same file, whose
  count of references is one more; otherwise \<^verbatim>\<open>a0\<close> holds -1 and no descriptor or file changes.  The program continues in
  user mode, on its own page table, four bytes further, with every other register and all memory outside the trap frame
  as it was; traps lead to \<^verbatim>\<open>uservec\<close>, interrupts are off until the return switches them on, and the frame holds what the
  next trap needs.  Every other part of the kernel's state, the locks included, is as it was, but for \<^verbatim>\<open>intena\<close>, which
  records that interrupts were on during the call.\<close>

theorem usertrap_dup:
  assumes s: "from_user s p" and fits: "frame_fits p s" and csr: "c_sstatus s AND SSTATUS_SPP = 0" "c_scause s = 8"
    and num: "get_tf p TF_a7 s = 10" and refs: "\<forall>d f. ofile (procs s p) d = Some f \<longrightarrow> 1 \<le> f_ref (ftable s f)"
  shows "\<exists>r t. usertrap E vdi s =
       Ok (TRAMPOLINE + (a_userret E - a_trampoline E), MAKE_SATP (pagetable (procs s p))) t \<and>
     dup_result (ofile (procs s p)) (sint (ucast (get_tf p TF_a0 s) :: u32)) r \<and>
     t = s\<lparr>pmem := pmem t,
       procs := (case r of None \<Rightarrow> procs s
         | Some (d, f) \<Rightarrow> (procs s)(p := (procs s p)\<lparr>ofile := (ofile (procs s p))(d := Some f)\<rparr>)),
       ftable := (case r of None \<Rightarrow> ftable s
         | Some (d, f) \<Rightarrow> (ftable s)(f := (ftable s f)\<lparr>f_ref := f_ref (ftable s f) + 1\<rparr>)),
       sie := False, cpus := (cpus s)(hart s := (mycpu s)\<lparr>intena := True\<rparr>),
       c_stvec := TRAMPOLINE + (a_uservec E - a_trampoline E),
       c_sstatus := (c_sstatus s AND NOT SSTATUS_SPP) OR SSTATUS_SPIE, c_sepc := c_sepc s + 4\<rparr> \<and>
     c_sstatus t AND SSTATUS_SPP = 0 \<and>
     get_tf p TF_a0 t = (case r of None \<Rightarrow> - 1 | Some (d, f) \<Rightarrow> of_nat d) \<and>
     get_tf p TF_kernel_satp t = c_satp s \<and> get_tf p TF_kernel_sp t = kstack (procs s p) + PGSIZE \<and>
     get_tf p TF_kernel_trap t = a_usertrap E \<and> get_tf p TF_kernel_hartid t = of_nat (hart s) \<and>
     (\<forall>q. 40 \<le> unat q \<and> unat q \<le> 280 \<and> apart q TF_a0 \<longrightarrow> get_tf p q t = get_tf p q s) \<and>
     (\<forall>a. a < unat (trapframe (procs s p)) \<or> unat (trapframe (procs s p)) + TF_SIZE \<le> a \<longrightarrow> pmem t a = pmem s a)"
proof -
  let ?c = "call_state E p s"
  note c = call_state_facts [OF s fits, where E = E]
  have regs: "unat TF_a0 \<le> 280" "apart TF_a0 TF_epc" "unat TF_a7 \<le> 280" "apart TF_a7 TF_epc" "unat TF_epc \<le> 280" "apart TF_epc TF_a0"
    by (simp_all add: tf_regs apart_def)
  have a0: "get_tf p TF_a0 ?c = get_tf p TF_a0 s" "get_tf p TF_a7 ?c = 10" using c(7) regs num by simp_all
  obtain r where r: "dup_result (ofile (procs ?c p)) (sint (ucast (get_tf p TF_a0 ?c) :: u32)) r"
    "sys_dup ?c = (case r of None \<Rightarrow> Ok (- 1) ?c | Some (d, f) \<Rightarrow> Ok (of_nat d) (dup_state p d f ?c))"
    using sys_dup_ok [OF c(1,2)] refs unfolding c(3,4) by blast
  define v :: u64 where "v = (case r of None \<Rightarrow> - 1 | Some (d, f) \<Rightarrow> of_nat d)"
  define w where "w = (case r of None \<Rightarrow> ?c | Some (d, f) \<Rightarrow> dup_state p d f ?c)"
  define P where "P = (case r of None \<Rightarrow> procs s
      | Some (d, f) \<Rightarrow> (procs s)(p := (procs s p)\<lparr>ofile := (ofile (procs s p))(d := Some f)\<rparr>))"
  define F where "F = (case r of None \<Rightarrow> ftable s
      | Some (d, f) \<Rightarrow> (ftable s)(f := (ftable s f)\<lparr>f_ref := f_ref (ftable s f) + 1\<rparr>))"
  have h: "sys_dup ?c = Ok v w" unfolding r(2) v_def w_def by (simp split: option.split)
  have w: "quiet w" "me w = Some p" "pmem w = pmem ?c" "trapframe (procs w p) = trapframe (procs s p)"
    "pagetable (procs w p) = pagetable (procs s p)" "pkilled (procs w p) = 0" "kstack (procs w p) = kstack (procs s p)"
    using c(1-4) s by (auto simp: w_def dup_state_facts from_user_def split: option.split)
  have w_eq: "w = s\<lparr>pmem := pmem ?c, procs := P, ftable := F, c_stvec := a_kernelvec E, sie := True,
       cpus := (cpus s)(hart s := (mycpu s)\<lparr>intena := True\<rparr>)\<rparr>"
  proof (cases r)
    case None
    show ?thesis unfolding w_def P_def F_def None option.case by (rule dup_call_eq(2) [OF c(5)])
  next
    case (Some df)
    obtain d f where df: "df = (d, f)" by (cases df)
    show ?thesis unfolding w_def P_def F_def Some df option.case prod.case dup_state_eq c(3,4)
      by (rule dup_call_eq(1) [OF c(5)])
  qed
  have fw: "frame_fits p w" using fits w(4) by (simp add: frame_fits_def)
  have gw: "get_tf p q w = get_tf p q ?c" for q using w(3,4) c(3) by (simp add: get_tf_def rd64_def)
  have hd: "handler_of (ucast (get_tf p TF_a7 ?c)) = Some (sys_dup :: 'a trapst_scheme handler)"
    unfolding a0 by (simp add: handler_of_def syscalls_def)
  let ?x = "set_tf p TF_a0 v w"
  have trap: "usertrap E vdi s = usertrapret E ?x" by (rule usertrap_call [OF s csr hd h w(1,2,6)])
  obtain t where t: "usertrapret E ?x = Ok (TRAMPOLINE + (a_userret E - a_trampoline E), MAKE_SATP (pagetable (procs ?x p))) t"
    "back_to_user E p ?x t"
    using usertrapret_ok [of ?x p E] w(1,2) fw by auto
  note u = t(2) [unfolded back_to_user_def]
  have reg: "get_tf p q t = get_tf p q ?x" if "user_reg q" for q using u that by blast
  have epc: "get_tf p TF_epc ?x = c_sepc s + 4" using get_set_apart [OF fw regs(5,1,6)] by (simp add: gw c(6))
  have t_eq: "t = s\<lparr>pmem := pmem t, procs := P, ftable := F, sie := False,
       cpus := (cpus s)(hart s := (mycpu s)\<lparr>intena := True\<rparr>), c_stvec := TRAMPOLINE + (a_uservec E - a_trampoline E),
       c_sstatus := (c_sstatus s AND NOT SSTATUS_SPP) OR SSTATUS_SPIE, c_sepc := c_sepc s + 4\<rparr>"
    by (rule returned_eq [OF conjunct1 [OF u] w_eq epc])
  have k: "get_tf p TF_kernel_satp t = c_satp s" "get_tf p TF_kernel_sp t = kstack (procs s p) + PGSIZE"
    "get_tf p TF_kernel_trap t = a_usertrap E" "get_tf p TF_kernel_hartid t = of_nat (hart s)"
    using u w(7) arg_cong [OF w_eq, of c_satp] arg_cong [OF w_eq, of hart] by simp_all
  have "get_tf p TF_a0 t = v" using reg [of TF_a0] by (simp add: user_reg_def tf_regs)
  moreover have "get_tf p q t = get_tf p q s" if "40 \<le> unat q" "unat q \<le> 280" "apart q TF_a0" for q
  proof -
    have "apart q TF_epc" using that(1) by (simp add: apart_def tf_regs)
    then show ?thesis
      using reg [of q] that get_set_apart [OF fw that(2) regs(1) that(3)] c(7) [OF that(2)] by (simp add: user_reg_def gw)
  qed
  moreover have "pmem t a = pmem s a" if "a < unat (trapframe (procs s p)) \<or> unat (trapframe (procs s p)) + TF_SIZE \<le> a" for a
  proof -
    have "a < unat (trapframe (procs ?x p)) \<or> unat (trapframe (procs ?x p)) + TF_SIZE \<le> a \<longrightarrow> pmem t a = pmem ?x a"
      using u by blast
    then have "pmem t a = pmem ?x a" using that w(4) by simp
    then show ?thesis using set_tf_outside [OF fw regs(1), of a v] that c(8) [OF that] by (simp add: w(3,4))
  qed
  moreover have "c_sstatus t AND SSTATUS_SPP = 0" using arg_cong [OF t_eq, of c_sstatus] spp_clear by simp
  moreover have "usertrap E vdi s = Ok (TRAMPOLINE + (a_userret E - a_trampoline E), MAKE_SATP (pagetable (procs s p))) t"
    using trap t(1) w(5) by simp
  ultimately show ?thesis using r(1) t_eq k unfolding c(3) a0 v_def P_def F_def by (intro exI [of _ r] exI [of _ t]) blast
qed

text \<open>Process 1 at an \<^verbatim>\<open>ecall\<close> for \<^verbatim>\<open>dup(0)\<close>, with descriptor 0 open on file 5.\<close>

definition ecall_state :: "memst \<Rightarrow> trapst" where
  "ecall_state m =
     (let s = consst.extend (lines_state m 0) (sysst.fields 0);
          s = sysst.extend s (trapst.fields 0 0x1000 8 0 0 0 0 [] []);
          s = upd_file 5 (\<lambda>x. x\<lparr>f_ref := 1\<rparr>) s;
          s = upd_proc 1 (\<lambda>q. q\<lparr>ofile := (\<lambda>_. None)(0 := Some 5), trapframe := 0x1000\<rparr>) s
      in set_tf 1 TF_a7 10 (set_tf 1 TF_a0 0 s))"

lemma ecall_state_facts:
  "from_user (ecall_state m) 1" "frame_fits 1 (ecall_state m)" "c_sstatus (ecall_state m) = 0" "c_scause (ecall_state m) = 8"
  "c_sepc (ecall_state m) = 0x1000" "get_tf 1 TF_a7 (ecall_state m) = 10" "get_tf 1 TF_a0 (ecall_state m) = 0"
  "ofile (procs (ecall_state m) 1) = (\<lambda>_. None)(0 := Some 5)" "f_ref (ftable (ecall_state m) 5) = 1"
proof -
  let ?b = "sysst.extend (consst.extend (lines_state m 0) (sysst.fields 0)) (trapst.fields 0 0x1000 8 0 0 0 0 [] [])"
  let ?s = "upd_proc 1 (\<lambda>q. q\<lparr>ofile := (\<lambda>_. None)(0 := Some 5), trapframe := 0x1000\<rparr>) (upd_file 5 (\<lambda>x. x\<lparr>f_ref := 1\<rparr>) ?b)"
  note defs = lines_state_def filest.defs consst.defs sysst.defs trapst.defs
  have b: "procs ?b = procs (pipe_state m 0)" "me ?b = me (pipe_state m 0)" "noff (mycpu ?b) = noff (mycpu (pipe_state m 0))"
    "free l ?b \<longleftrightarrow> free l (pipe_state m 0)" "c_sstatus ?b = 0" "c_scause ?b = 8" "c_sepc ?b = 0x1000" for l
    by (simp_all add: defs me_def free_def irq_defs)
  note p = pipe_state_fields [where m = m and pt = 0]
  have q: "noff (mycpu (pipe_state m 0)) = 0" using p(7) by (simp add: quiet_def)
  have s: "from_user ?s 1" "procs ?s 1 = (procs (pipe_state m 0) 1)\<lparr>ofile := (\<lambda>_. None)(0 := Some 5), trapframe := 0x1000\<rparr>"
    "ftable ?s 5 = (ftable ?b 5)\<lparr>f_ref := 1\<rparr>" "c_sstatus ?s = 0" "c_scause ?s = 8" "c_sepc ?s = 0x1000"
    using b p q by (auto simp: from_user_def file_frame frame_simps NPROC_def idle_proc_def upd_file_def)
      (auto simp: upd_proc_def upd_file_def me_def free_def irq_defs)
  have f: "frame_fits 1 ?s" using s(2) by (simp add: frame_fits_def TF_SIZE_def)
  have e: "ecall_state m = set_tf 1 TF_a7 10 (set_tf 1 TF_a0 0 ?s)" by (simp add: ecall_state_def Let_def)
  have a: "get_tf 1 TF_a0 (set_tf 1 TF_a7 10 (set_tf 1 TF_a0 0 ?s)) = get_tf 1 TF_a0 (set_tf 1 TF_a0 0 ?s)"
    by (rule get_set_apart) (use f in \<open>simp_all add: tf_regs apart_def\<close>)
  show "from_user (ecall_state m) 1" "frame_fits 1 (ecall_state m)" "c_sstatus (ecall_state m) = 0" "c_scause (ecall_state m) = 8"
    "c_sepc (ecall_state m) = 0x1000" "get_tf 1 TF_a7 (ecall_state m) = 10" "get_tf 1 TF_a0 (ecall_state m) = 0"
    "ofile (procs (ecall_state m) 1) = (\<lambda>_. None)(0 := Some 5)" "f_ref (ftable (ecall_state m) 5) = 1"
    unfolding e using s f a by simp_all
qed

theorem usertrap_dup_witness:
  "\<exists>(s :: trapst) x t. usertrap \<lparr>a_kernelvec = 0, a_trampoline = 0, a_uservec = 0, a_userret = 0, a_usertrap = 0\<rparr> (Ok ()) s = Ok x t \<and>
     get_tf 1 TF_a0 t = 1 \<and> ofile (procs t 1) 1 = Some 5 \<and> f_ref (ftable t 5) = 2 \<and> c_sepc t = 0x1004"
proof -
  fix m :: memst
  let ?s = "ecall_state m"
  note e = ecall_state_facts [of m]
  have csr: "c_sstatus ?s AND SSTATUS_SPP = 0" using e(3) by simp
  have refs: "\<forall>d f. ofile (procs ?s 1) d = Some f \<longrightarrow> 1 \<le> f_ref (ftable ?s f)"
    using e(8,9) by (auto split: if_splits)
  let ?P = "\<lambda>r. case r of None \<Rightarrow> procs ?s
       | Some (d, f) \<Rightarrow> (procs ?s)(1 := (procs ?s 1)\<lparr>ofile := (ofile (procs ?s 1))(d := Some f)\<rparr>)"
  let ?F = "\<lambda>r. case r of None \<Rightarrow> ftable ?s | Some (d, f) \<Rightarrow> (ftable ?s)(f := (ftable ?s f)\<lparr>f_ref := f_ref (ftable ?s f) + 1\<rparr>)"
  let ?E = "\<lparr>a_kernelvec = 0, a_trampoline = 0, a_uservec = 0, a_userret = 0, a_usertrap = 0\<rparr>"
  obtain r t where u: "usertrap ?E (Ok ()) ?s = Ok (TRAMPOLINE + (a_userret ?E - a_trampoline ?E), MAKE_SATP (pagetable (procs ?s 1))) t"
    "dup_result (ofile (procs ?s 1)) (sint (ucast (get_tf 1 TF_a0 ?s) :: u32)) r"
    "t = ?s\<lparr>pmem := pmem t, procs := ?P r, ftable := ?F r, sie := False, cpus := (cpus ?s)(hart ?s := (mycpu ?s)\<lparr>intena := True\<rparr>),
       c_stvec := TRAMPOLINE + (a_uservec ?E - a_trampoline ?E),
       c_sstatus := (c_sstatus ?s AND NOT SSTATUS_SPP) OR SSTATUS_SPIE, c_sepc := c_sepc ?s + 4\<rparr>"
    "get_tf 1 TF_a0 t = (case r of None \<Rightarrow> - 1 | Some (d, f) \<Rightarrow> of_nat d)"
    using usertrap_dup [OF e(1,2) csr e(4,6) refs, where E = ?E and vdi = "Ok ()"]
    by (elim exE conjE) (rule that)
  define x where "x = (TRAMPOLINE + (a_userret ?E - a_trampoline ?E), MAKE_SATP (pagetable (procs ?s 1)))"
  have t: "usertrap ?E (Ok ()) ?s = Ok x t"
    "dup_result (ofile (procs ?s 1)) (sint (ucast (get_tf 1 TF_a0 ?s) :: u32)) r"
    "get_tf 1 TF_a0 t = (case r of None \<Rightarrow> - 1 | Some (d, f) \<Rightarrow> of_nat d)"
    using u(1,2,4) by (simp_all add: x_def)
  have t': "procs t = ?P r" "ftable t = ?F r" "c_sepc t = c_sepc ?s + 4"
    using arg_cong [OF u(3), of procs] arg_cong [OF u(3), of ftable] arg_cong [OF u(3), of c_sepc] by simp_all
  have "r = Some (1, 5)"
  proof (cases r)
    case None
    then show ?thesis using t(2) e(7,8) by (auto simp: NOFILE_def dest!: spec [of _ 1])
  next
    case (Some y)
    obtain d f where y: "y = (d, f)" by (cases y)
    have d: "((\<lambda>_. None)(0 := Some 5)) d = (None :: nat option)" "\<And>i. i < d \<Longrightarrow> ((\<lambda>_. None)(0 := Some 5)) i \<noteq> (None :: nat option)" "f = 5"
      using t(2) e(7,8) by (auto simp: Some y)
    have "d \<noteq> 0" "\<not> 1 < d" using d(1) d(2) [of 1] by (auto split: if_splits)
    then show ?thesis using d(3) by (simp add: Some y)
  qed
  then show ?thesis using t t' e by (intro exI [of _ ?s] exI [of _ x] exI [of _ t]) simp
qed

end
