(* ===== verification/Spec2Isabelle.thy ===== *)
theory Spec2Isabelle
  imports Execute Process Recovery Console Textutils Shrun Trapcalls
begin

text \<open>
  A verification library for the operating-systems laboratories of this repository:
  \<^item> \<open>src/lab1\<close>, the command shell \<^verbatim>\<open>mybash\<close>;
  \<^item> \<open>src/lab2\<close>, the xv6 kernel for RISC-V extended with semaphores.  \<open>src/lab3\<close> holds a second copy
    of the same kernel, without the semaphores; what is said here of the lab2 files that both have
    applies to it too.

  \<^bold>\<open>Reading the model.\<close>  A C function becomes a HOL function from the state to an outcome.  The shell's
  functions return \<open>abort + 'a\<close>: a failed assertion, an exit that does not return, or undefined behaviour
  on the left.  The kernel's functions return \<open>('a, 's) kres\<close> (\<open>Prelude\<close>): \<open>Ok\<close> with the result and the
  state, \<open>Panic\<close> with the message, \<open>Fault\<close> for an access C leaves undefined, and \<open>Blocked\<close> when the
  processor spins on a lock or has switched to the scheduler; what the process executes when it is switched
  back to is a function of its own (the suffix \<open>_return\<close> or \<open>_resume\<close>).  The kernel state is one extensible
  record per layer: locks and interrupts, console text, processes, semaphores, sleep locks, physical memory,
  buffers, log, file system; a layer's operations are polymorphic in the fields the later ones add.
  Machine integers are words of their width, addresses in physical memory are 64-bit words, memory is a map
  from addresses to bytes, and structures with links are kept in an explicit store.

  \<^bold>\<open>Theories.\<close>
  \<^item> \<open>Prelude\<close>: outcomes, their binds, loops over a range, byte-level loads and stores.
  \<^item> \<open>Command\<close> (\<open>command.c\<close>, \<open>strextra.c\<close>): commands and pipelines over GLib queues, which are a parameter
    with an interface of laws; first in, first out; the text of a pipeline.
  \<^item> \<open>Parsing\<close> (\<open>parsing.c\<close>): the parser over the lexer of \<open>parser.h\<close>, an object file in the repository
    and so a parameter; every well-formed line is parsed to the pipeline it denotes, and errors destroy it.
  \<^item> \<open>Execute\<close> (\<open>builtin.c\<close>, \<open>execute.c\<close>, \<open>mybash.c\<close>): descriptor tables, pipes, redirections, fork and exec
    as recorded effects, the main loop; the wiring of the descriptors of each child.
  \<^item> \<open>Spinlock\<close> (\<open>spinlock.c\<close>): locks, interrupt nesting, holding.
  \<^item> \<open>Cstring\<close> (\<open>string.c\<close>, \<open>ulib.c\<close>) and \<open>Printf\<close> (both \<open>printf.c\<close>): memory and strings, formatted output.
  \<^item> \<open>Textutils\<close> (\<open>user/cat.c\<close>, \<open>wc.c\<close>, \<open>grep.c\<close>): the text filters over an interface to the system calls; what a
    pattern denotes, and the output of each program for its input.
  \<^item> \<open>Sh\<close> (\<open>user/sh.c\<close>): the parser of the xv6 shell on positions in the line; \<open>Shgrammar\<close>: a grammar over tokens, and
    that the parser accepts exactly its lines, always returns, and leaves every word terminated; \<open>Shrun\<close>: the
    processes a line starts, with their descriptors.
  \<^item> \<open>Proctab\<close> (\<open>proc.c\<close>): the process table, sleep, wakeup, yield, a turn of the scheduler, kill.
  \<^item> \<open>Semaphore\<close> (\<open>sem_syscall.c\<close>): the system calls of the laboratory and their interleavings, an
    \<open>inductive\<close> relation; the value of a semaphore counts and no wake-up is lost.
  \<^item> \<open>Sleeplock\<close> (\<open>sleeplock.c\<close>): the hand-over of a sleep lock.
  \<^item> \<open>Kalloc\<close> (\<open>kalloc.c\<close>): the page allocator, a linked list inside the free pages.
  \<^item> \<open>Vm\<close> (\<open>vm.c\<close>): page tables in memory, mapping, copying between address spaces.
  \<^item> \<open>Pagetable\<close>, \<open>Uspace\<close>, \<open>Uvm\<close>, \<open>Uvmcopy\<close>: a page table as a finite map from virtual pages to entries,
    the memory a process sees through it, and what mapping, copying, growing, shrinking and cloning an
    address space do to both.
  \<^item> \<open>Bio\<close> (\<open>bio.c\<close>), \<open>Log\<close> (\<open>log.c\<close>), \<open>Fs\<close> (\<open>fs.c\<close>): buffer cache, write-ahead log, inodes and paths.
  \<^item> \<open>Bcache\<close>: the invariant of the buffer cache and its list in order of use; the cache is invisible, a
    sequence of cached reads and writes behaves as on a plain store of blocks.
  \<^item> \<open>Commit\<close>, \<open>Recovery\<close>: the disk writes of a commit and of recovery, and the atomicity of a transaction
    at every point where the machine can stop.
  \<^item> \<open>File\<close> (\<open>file.c\<close>, \<open>pipe.c\<close>): open files and pipes, over a table of device functions.
  \<^item> \<open>Pipe\<close>: a pipe as a first-in first-out queue, what \<^verbatim>\<open>pipewrite\<close> and \<^verbatim>\<open>piperead\<close> move between it and user
    memory, and that a sleeping reader is woken and served.
  \<^item> \<open>Console\<close> (\<open>console.c\<close>, \<open>uart.c\<close>): the line discipline as an editor of the line being typed over a queue
    of committed lines, and what a read takes from that queue.
  \<^item> \<open>Process\<close> (\<open>proc.c\<close>): process memory, creation, fork, exit and wait.
  \<^item> \<open>Sysproc\<close> (\<open>syscall.c\<close>, \<open>sysproc.c\<close>): fetching arguments, and the system calls on processes; \<open>Exec\<close> (\<open>exec.c\<close>);
    \<open>Sysfile\<close> (\<open>sysfile.c\<close>): the system calls on files; \<open>Syscall\<close> (\<open>syscall.c\<close>): the table of handlers and the dispatch.
  \<^item> \<open>Execargs\<close>, \<open>Fetch\<close>: the argument vector of \<^verbatim>\<open>exec\<close>, from the memory of the caller to kernel pages, and from these to
    the stack of the new image.
  \<^item> \<open>Trap\<close> (\<open>trap.c\<close>, \<open>plic.c\<close>): traps from user and kernel mode and interrupts, over the control registers of the hart;
    \<open>Trapcalls\<close>: a system call as the user program sees it, from its \<^verbatim>\<open>ecall\<close> to the instruction after it.

  \<^bold>\<open>Termination.\<close>  Loops over a fixed range are recursion on the list of indices.  Loops over addresses are
  \<open>function\<close>s with a measure; loops that stop only when the data say so are \<open>partial_function (option)\<close>
  (the parser, scans for a NUL), and the theorems then say that the result is \<open>Some\<close>.

  \<^bold>\<open>Not modelled.\<close>  Assembly (its entry points are parameters of \<open>Trap\<close>), the start-up order in \<open>main.c\<close> and \<open>start.c\<close>, the
  virtio driver (its transfer is the effect of a call, its interrupt handler a parameter), the lexer and GLib (parameters),
  signals beyond a flag, the user-level allocator, small wrappers of system calls and test programs, the host tool
  \<open>mkfs\<close>.  The manifest lists every component.
\<close>

end
